(* ===== verification/Prelude.thy ===== *)
theory Prelude
  imports Main "HOL-Library.Word"
begin

text \<open>
  Shared vocabulary of the development: machine-integer types, text as lists of bytes
  (\<open>char\<close> is exactly a C \<open>char\<close> seen as an unsigned byte), C strings, memory
  overwriting, \<open>std::string\<close> searches, decimal printing, and a transition-system
  interface from which every state machine of the library takes its reachability lemmas.
\<close>

unbundle bit_operations_syntax

named_theorems ring_simps \<open>definitions of the mailbox protocol\<close>
named_theorems text_simps \<open>lemmas on text and buffers\<close>

type_synonym u8 = "8 word"
type_synonym u16 = "16 word"
type_synonym u32 = "32 word"
type_synonym u64 = "64 word"
type_synonym i32 = "32 word"
type_synonym i64 = "64 word"
type_synonym bytes = "u8 list"

lemma unat_of_nat_u8: "n < 256 \<Longrightarrow> unat (of_nat n :: u8) = n"
  by (simp add: unat_of_nat take_bit_eq_mod)

section \<open>C strings and buffers\<close>

abbreviation NUL :: char where
  "NUL \<equiv> CHR 0x00"

definition cstr :: "string \<Rightarrow> string" where
  "cstr m = takeWhile (\<lambda>c. c \<noteq> NUL) m"

definition write_at :: "nat \<Rightarrow> 'a list \<Rightarrow> 'a list \<Rightarrow> 'a list" where
  "write_at off ys m = take off m @ ys @ drop (off + length ys) m"

lemma length_write_at [simp, text_simps]:
  "off + length ys \<le> length m \<Longrightarrow> length (write_at off ys m) = length m"
  by (simp add: write_at_def)

lemma write_at_Nil [simp]: "write_at off [] m = m"
  by (simp add: write_at_def)

lemma write_at_read [text_simps]:
  "off + length ys \<le> length m \<Longrightarrow> take (length ys) (drop off (write_at off ys m)) = ys"
  by (simp add: write_at_def)

lemma takeWhile_append_stop:
  "\<forall>x \<in> set xs. P x \<Longrightarrow> \<not> P y \<Longrightarrow> takeWhile P (xs @ y # zs) = xs"
  by (induction xs) auto

lemma cstr_no_nul: "c \<in> set (cstr m) \<Longrightarrow> c \<noteq> NUL"
  unfolding cstr_def by (auto dest: set_takeWhileD)

lemma all_not_eq_nul: "NUL \<notin> set xs \<Longrightarrow> \<forall>c \<in> set xs. c \<noteq> NUL"
  by metis

lemma cstr_write_string [text_simps]:
  "NUL \<notin> set xs \<Longrightarrow> cstr (write_at 0 (xs @ [NUL]) m) = xs"
  unfolding cstr_def write_at_def
  by (simp add: takeWhile_append_stop [of xs "\<lambda>c. c \<noteq> NUL"] all_not_eq_nul)

lemma cstr_id: "NUL \<notin> set xs \<Longrightarrow> cstr xs = xs"
  unfolding cstr_def by (induction xs) auto

section \<open>Searches of std::string\<close>

text \<open>\<open>s.rfind(p, 0) == 0\<close> is the prefix test; \<open>s.find(p) != npos\<close> the substring test.\<close>

fun starts_with :: "'a list \<Rightarrow> 'a list \<Rightarrow> bool" where
  "starts_with [] s = True"
| "starts_with (p # ps) [] = False"
| "starts_with (p # ps) (c # cs) = (p = c \<and> starts_with ps cs)"

fun contains_sub :: "'a list \<Rightarrow> 'a list \<Rightarrow> bool" where
  "contains_sub p [] = (p = [])"
| "contains_sub p (c # cs) = (starts_with p (c # cs) \<or> contains_sub p cs)"

lemma starts_with_iff: "starts_with p s \<longleftrightarrow> (\<exists>r. s = p @ r)"
  by (induction p s rule: starts_with.induct) auto

lemma starts_with_append [simp]: "starts_with p (p @ r)"
  by (simp add: starts_with_iff)

lemma contains_sub_iff: "contains_sub p s \<longleftrightarrow> (\<exists>a b. s = a @ p @ b)"
proof (induction p s rule: contains_sub.induct)
  case (2 p c cs)
  show ?case
  proof
    assume "contains_sub p (c # cs)"
    then show "\<exists>a b. c # cs = a @ p @ b"
      using 2 by (metis append_Cons append_Nil contains_sub.simps(2) starts_with_iff)
  next
    assume "\<exists>a b. c # cs = a @ p @ b"
    then obtain a b where ab: "c # cs = a @ p @ b" by blast
    show "contains_sub p (c # cs)"
    proof (cases a)
      case Nil
      with ab have "starts_with p (c # cs)" by (simp add: starts_with_iff)
      then show ?thesis by (simp only: contains_sub.simps simp_thms)
    next
      case (Cons x xs)
      with ab 2 have "contains_sub p cs" by auto
      then show ?thesis by (simp only: contains_sub.simps simp_thms)
    qed
  qed
qed auto

section \<open>Decimal printing\<close>

definition digit_char :: "nat \<Rightarrow> char" where
  "digit_char d = char_of (48 + d)"

fun dec :: "nat \<Rightarrow> string" where
  "dec n = (if n < 10 then [digit_char n] else dec (n div 10) @ [digit_char (n mod 10)])"

declare dec.simps [simp del]

definition dec_int :: "int \<Rightarrow> string" where
  "dec_int i = (if i < 0 then CHR ''-'' # dec (nat (- i)) else dec (nat i))"

fun undec_acc :: "nat \<Rightarrow> string \<Rightarrow> nat" where
  "undec_acc a [] = a"
| "undec_acc a (c # cs) = undec_acc (10 * a + (of_char c - 48)) cs"

definition undec :: "string \<Rightarrow> nat" where
  "undec s = undec_acc 0 s"

lemma undec_acc_append: "undec_acc a (xs @ ys) = undec_acc (undec_acc a xs) ys"
  by (induction xs arbitrary: a) auto

lemma of_char_digit_char [simp]: "d < 10 \<Longrightarrow> (of_char (digit_char d) :: nat) = 48 + d"
  by (simp add: digit_char_def of_char_of take_bit_eq_mod)

lemma undec_dec [simp]: "undec (dec n) = n"
proof (induction n rule: dec.induct)
  case (1 n)
  show ?case
  proof (cases "n < 10")
    case True
    then show ?thesis by (subst dec.simps) (simp add: undec_def)
  next
    case False
    with 1 have "undec_acc 0 (dec (n div 10)) = n div 10" by (simp add: undec_def)
    with False show ?thesis
      by (subst dec.simps) (simp add: undec_def undec_acc_append)
  qed
qed

lemma dec_inj: "dec a = dec b \<Longrightarrow> a = b"
  by (metis undec_dec)

lemma length_dec_pos [simp]: "0 < length (dec n)"
  by (subst dec.simps) auto

lemma length_dec_le: "n < 10 ^ k \<Longrightarrow> 0 < k \<Longrightarrow> length (dec n) \<le> k"
proof (induction k arbitrary: n)
  case (Suc k)
  show ?case
  proof (cases "n < 10")
    case True
    then show ?thesis by (subst dec.simps) simp
  next
    case False
    with Suc.prems have lt: "n div 10 < 10 ^ k" by (simp add: div_less_iff_less_mult)
    from lt False have "0 < k" by (cases k) auto
    from Suc.IH[OF lt this] False show ?thesis
      by (subst dec.simps) simp
  qed
qed simp

lemma dec_not_nul [simp]: "NUL \<notin> set (dec n)"
proof (induction n rule: dec.induct)
  case (1 n)
  have d: "digit_char m \<noteq> NUL" if "m < 10" for m
  proof
    assume "digit_char m = NUL"
    then have "(of_char (digit_char m) :: nat) = 0" by simp
    with that show False by simp
  qed
  show ?case using 1 d by (subst dec.simps) (auto dest: sym)
qed

section \<open>Transition systems\<close>

text \<open>
  A machine is an initial-state predicate and a labelled step relation; an invariant that
  holds initially and is kept by every step holds in every reachable state, and a system
  that simulates another one inherits the invariants of the simulated one.
\<close>

locale machine =
  fixes init :: "'s \<Rightarrow> bool"
    and step :: "'s \<Rightarrow> 'e \<Rightarrow> 's \<Rightarrow> bool"
begin

inductive reach :: "'e list \<Rightarrow> 's \<Rightarrow> bool" where
  reach_init: "init s \<Longrightarrow> reach [] s"
| reach_step: "reach tr s \<Longrightarrow> step s e s' \<Longrightarrow> reach (tr @ [e]) s'"

lemma reach_ind:
  assumes "reach tr s"
    and "\<And>s. init s \<Longrightarrow> P [] s"
    and "\<And>tr s e s'. reach tr s \<Longrightarrow> P tr s \<Longrightarrow> step s e s' \<Longrightarrow> P (tr @ [e]) s'"
  shows "P tr s"
  using assms(1) by (induction rule: reach.induct) (auto intro: assms(2,3))

end

locale inv_machine = machine init step
  for init :: "'s \<Rightarrow> bool" and step :: "'s \<Rightarrow> 'e \<Rightarrow> 's \<Rightarrow> bool" +
  fixes Inv :: "'s \<Rightarrow> bool"
  assumes inv_init: "init s \<Longrightarrow> Inv s"
    and inv_step: "Inv s \<Longrightarrow> step s e s' \<Longrightarrow> Inv s'"
begin

lemma reach_inv: "reach tr s \<Longrightarrow> Inv s"
  by (induction rule: reach.induct) (auto intro: inv_init inv_step)

end

end
