(* ===== verification/Hostcalls.thy ===== *)
theory Hostcalls
  imports Prelude
begin

text \<open>
  The GPU/CPU mailbox ABI of \<open>runtime/hostcalls.h\<close>: the opcodes, the request/response
  slot, the queue of \<open>HC_NSLOTS\<close> slots, its initial contents, and the index of a ticket's
  slot. Padding fields carry nothing and are left out. The character arrays are lists of the
  array's length (\<open>slot_wf\<close>); integers keep the width of the C struct.
\<close>

definition HC_OP_NONE :: i32 where "HC_OP_NONE = 0"
definition HC_OP_FOPEN :: i32 where "HC_OP_FOPEN = 1"
definition HC_OP_FREAD :: i32 where "HC_OP_FREAD = 2"
definition HC_OP_FWRITE :: i32 where "HC_OP_FWRITE = 3"
definition HC_OP_FCLOSE :: i32 where "HC_OP_FCLOSE = 4"
definition HC_OP_WRITE_ID :: i32 where "HC_OP_WRITE_ID = 5"
definition HC_OP_FWRITE_PTR :: i32 where "HC_OP_FWRITE_PTR = 6"

lemmas hc_ops = HC_OP_NONE_def HC_OP_FOPEN_def HC_OP_FREAD_def HC_OP_FWRITE_def
  HC_OP_FCLOSE_def HC_OP_WRITE_ID_def HC_OP_FWRITE_PTR_def

definition HC_PATH_SIZE :: nat where "HC_PATH_SIZE = 128"
definition HC_MODE_SIZE :: nat where "HC_MODE_SIZE = 8"
definition HC_DATA_SIZE :: nat where "HC_DATA_SIZE = 512"
definition HC_NSLOTS :: nat where "HC_NSLOTS = 256"

lemmas hc_sizes = HC_PATH_SIZE_def HC_MODE_SIZE_def HC_DATA_SIZE_def HC_NSLOTS_def

record HostcallSlot =
  slot_turn :: u32
  slot_status :: i32
  slot_opcode :: i32
  slot_handle :: i64
  slot_bufptr :: i64
  slot_size :: i32
  slot_retval :: i32
  slot_arg :: i32
  slot_path :: string
  slot_mode :: string
  slot_data :: string

record HostcallQueue =
  enqueue_pos :: u32
  slots :: "HostcallSlot list"

definition slot_wf :: "HostcallSlot \<Rightarrow> bool" where
  "slot_wf s \<longleftrightarrow> length (slot_path s) = HC_PATH_SIZE \<and>
     length (slot_mode s) = HC_MODE_SIZE \<and> length (slot_data s) = HC_DATA_SIZE"

definition queue_wf :: "HostcallQueue \<Rightarrow> bool" where
  "queue_wf q \<longleftrightarrow> length (slots q) = HC_NSLOTS \<and> (\<forall>s \<in> set (slots q). slot_wf s)"

text \<open>\<open>memset(mbox, 0, ...)\<close>, then \<open>slots[i].turn = i\<close> for every slot.\<close>

definition zero_slot :: HostcallSlot where
  "zero_slot = \<lparr>slot_turn = 0, slot_status = 0, slot_opcode = 0, slot_handle = 0,
     slot_bufptr = 0, slot_size = 0, slot_retval = 0, slot_arg = 0,
     slot_path = replicate HC_PATH_SIZE NUL, slot_mode = replicate HC_MODE_SIZE NUL,
     slot_data = replicate HC_DATA_SIZE NUL\<rparr>"

definition queue_init :: HostcallQueue where
  "queue_init = \<lparr>enqueue_pos = 0,
     slots = map (\<lambda>i. zero_slot\<lparr>slot_turn := of_nat i\<rparr>) [0..<HC_NSLOTS]\<rparr>"

text \<open>\<open>pos & (HC_NSLOTS - 1)\<close>\<close>

definition slot_index :: "u32 \<Rightarrow> nat" where
  "slot_index pos = unat (pos AND (of_nat HC_NSLOTS - 1))"

lemma slot_index_mod: "slot_index pos = unat pos mod HC_NSLOTS"
proof -
  have "pos AND 255 = pos AND mask 8" by (simp add: mask_eq_exp_minus_1)
  also have "\<dots> = take_bit 8 pos" by (simp add: take_bit_eq_mask)
  also have "\<dots> = pos mod 256" by (simp add: take_bit_eq_mod)
  finally have "unat (pos AND 255) = unat pos mod 256"
    by (simp only: unat_mod) simp
  then show ?thesis by (simp add: slot_index_def HC_NSLOTS_def)
qed

lemma slot_index_less [simp]: "slot_index pos < HC_NSLOTS"
  by (simp add: slot_index_mod HC_NSLOTS_def)

text \<open>The slot of the \<open>n\<close>-th ticket does not depend on the 32-bit wrap of the counter.\<close>

lemma slot_index_of_nat [simp]: "slot_index (of_nat n) = n mod HC_NSLOTS"
proof -
  have "(256::nat) dvd 2 ^ 32" by simp
  then have "n mod 2 ^ 32 mod 256 = n mod 256" by (rule mod_mod_cancel)
  then show ?thesis
    by (simp add: slot_index_mod HC_NSLOTS_def unat_of_nat)
qed

lemma zero_slot_wf [simp]: "slot_wf zero_slot"
  by (simp add: slot_wf_def zero_slot_def)

lemma queue_init_wf [simp]: "queue_wf queue_init"
  by (auto simp: queue_wf_def queue_init_def slot_wf_def zero_slot_def)

lemma queue_init_slot: "i < HC_NSLOTS \<Longrightarrow> slots queue_init ! i = zero_slot\<lparr>slot_turn := of_nat i\<rparr>"
  by (simp add: queue_init_def)

end
