(* ===== verification/Device_Lib.thy ===== *)
theory Device_Lib
  imports Hostcalls
begin

text \<open>
  The device half of the runtime, \<open>runtime/device/hostcall_lib.cpp\<close>: the election of one
  lane per wavefront, the marshalling of each hostcall into its slot, the reading of the reply,
  and the nullary and implicit-argument wrappers. A pointer argument is the memory seen from it
  (\<open>nat \<Rightarrow> char\<close>), a null pointer is \<open>None\<close>. The handshake itself (acquire,
  publish, wait, release) is in \<open>Ring_Protocol\<close>.
\<close>

section \<open>Lane election\<close>

text \<open>
  The compiler builtins \<open>mbcnt_lo\<close>/\<open>mbcnt_hi\<close> add to \<open>base\<close> the number of set bits
  of the mask (its lanes 0..31, respectively 32..63) strictly below the executing lane.
\<close>

definition mbcnt_lo :: "nat \<Rightarrow> u32 \<Rightarrow> u32 \<Rightarrow> u32" where
  "mbcnt_lo lane m base = base + of_nat (length (filter (bit m) [0..<min lane 32]))"

definition mbcnt_hi :: "nat \<Rightarrow> u32 \<Rightarrow> u32 \<Rightarrow> u32" where
  "mbcnt_hi lane m base = base + of_nat (length (filter (bit m) [0..<lane - 32]))"

definition hc_first_active_lane :: "u64 \<Rightarrow> nat \<Rightarrow> bool" where
  "hc_first_active_lane ex lane =
     (let lo = mbcnt_lo lane (ucast ex) 0;
          pos = mbcnt_hi lane (ucast (drop_bit 32 ex)) lo
      in pos = 0)"

lemma lane_count_bound: "length (filter P [0..<n]) \<le> n"
  by (metis diff_zero length_filter_le length_upt)

lemma hc_first_active_lane_iff:
  assumes "lane < 64"
  shows "hc_first_active_lane ex lane \<longleftrightarrow> (\<forall>i < lane. \<not> bit ex i)"
proof -
  let ?a = "length (filter (bit (ucast ex :: u32)) [0..<min lane 32])"
  let ?b = "length (filter (bit (ucast (drop_bit 32 ex) :: u32)) [0..<lane - 32])"
  have a: "?a \<le> min lane 32" and b: "?b \<le> lane - 32" by (rule lane_count_bound)+
  have "?a + ?b \<le> 64" using a b assms by linarith
  then have small: "?a + ?b < 2 ^ 32" by (rule le_less_trans) simp
  have "hc_first_active_lane ex lane \<longleftrightarrow> (of_nat (?a + ?b) :: u32) = 0"
    by (simp add: hc_first_active_lane_def mbcnt_lo_def mbcnt_hi_def)
  also have "\<dots> \<longleftrightarrow> ?a + ?b = 0"
    using small by (simp only: word_of_nat_eq_0_iff) (auto dest: nat_dvd_not_less)
  also have "\<dots> \<longleftrightarrow> (\<forall>i < min lane 32. \<not> bit ex i) \<and> (\<forall>i < lane - 32. \<not> bit ex (32 + i))"
    using assms by (auto simp: filter_empty_conv bit_simps)
  also have "\<dots> \<longleftrightarrow> (\<forall>i < lane. \<not> bit ex i)"
  proof (intro iffI conjI allI impI)
    fix i assume *: "(\<forall>i < min lane 32. \<not> bit ex i) \<and> (\<forall>i < lane - 32. \<not> bit ex (32 + i))"
      and "i < lane"
    then show "\<not> bit ex i"
    proof (cases "i < 32")
      case True
      with * \<open>i < lane\<close> show ?thesis by simp
    next
      case False
      then obtain j where j: "i = 32 + j" by (metis le_Suc_ex not_less)
      with \<open>i < lane\<close> have "j < lane - 32" by simp
      with * j show ?thesis by simp
    qed
  qed auto
  finally show ?thesis .
qed

text \<open>\<open>readfirstlane\<close>: the value of the first active lane, in every lane.\<close>

definition readfirstlane :: "u64 \<Rightarrow> (nat \<Rightarrow> 'a) \<Rightarrow> 'a" where
  "readfirstlane ex v = (case filter (bit ex) [0..<64] of [] \<Rightarrow> v 0 | l # _ \<Rightarrow> v l)"

lemma filter_upt_hd:
  "l < n \<Longrightarrow> P l \<Longrightarrow> \<forall>i < l. \<not> P i \<Longrightarrow> \<exists>r. filter P [0..<n] = l # r"
proof -
  assume l: "l < n" "P l" "\<forall>i < l. \<not> P i"
  have "[0..<n] = [0..<l] @ [l..<n]"
    using upt_add_eq_append [of 0 l "n - l"] l(1) by simp
  also have "[l..<n] = l # [Suc l..<n]" using l(1) by (rule upt_conv_Cons)
  finally have "[0..<n] = [0..<l] @ l # [Suc l..<n]" .
  moreover have "filter P [0..<l] = []" using l(3) by (simp add: filter_empty_conv)
  ultimately show ?thesis using l(2) by simp
qed

lemma readfirstlane_elected:
  assumes "lane < 64" "bit ex lane" "hc_first_active_lane ex lane"
  shows "readfirstlane ex v = v lane"
  using filter_upt_hd [of lane 64 "bit ex"] assms
  by (auto simp: readfirstlane_def hc_first_active_lane_iff)

lemma elected_exists:
  assumes "ex \<noteq> 0"
  shows "\<exists>lane < 64. bit ex lane \<and> hc_first_active_lane ex lane"
proof -
  from assms obtain n where n: "bit ex n" by (auto simp: bit_eq_iff)
  define l where "l = (LEAST i. bit ex i)"
  have l: "bit ex l" "\<And>i. i < l \<Longrightarrow> \<not> bit ex i"
    using n by (auto simp: l_def dest: not_less_Least intro: LeastI)
  from l(1) have "l < 64" by (auto dest: bit_imp_le_length)
  with l show ?thesis by (auto simp: hc_first_active_lane_iff)
qed

text \<open>The value \<open>gpu_fopen\<close> returns in every lane, from the handle the elected lane read.\<close>

definition fopen_lane_h :: "u64 \<Rightarrow> i64 \<Rightarrow> nat \<Rightarrow> i64" where
  "fopen_lane_h ex h lane = (if hc_first_active_lane ex lane then h else - 1)"

definition fopen_broadcast :: "u64 \<Rightarrow> i64 \<Rightarrow> i64" where
  "fopen_broadcast ex h =
     (let lo = readfirstlane ex (\<lambda>l. ucast (fopen_lane_h ex h l) :: u32);
          hi = readfirstlane ex (\<lambda>l. ucast (drop_bit 32 (fopen_lane_h ex h l)) :: u32)
      in push_bit 32 (ucast hi) OR ucast lo)"

lemma fopen_broadcast_uniform: "ex \<noteq> 0 \<Longrightarrow> fopen_broadcast ex h = h"
proof -
  assume "ex \<noteq> 0"
  then obtain l where l: "l < 64" "bit ex l" "hc_first_active_lane ex l"
    using elected_exists by blast
  have e: "readfirstlane ex v = v l" for v :: "nat \<Rightarrow> u32"
    using l by (rule readfirstlane_elected)
  have "push_bit 32 (ucast (ucast (drop_bit 32 h) :: u32)) OR ucast (ucast h :: u32) = h"
    by (rule bit_eqI) (auto simp: bit_simps dest: bit_imp_le_length)
  with l(3) show ?thesis by (simp add: fopen_broadcast_def fopen_lane_h_def e)
qed

section \<open>Marshalling loops\<close>

text \<open>
  \<open>for (; i < lim && p && p[i]; i++) dst[i] = p[i];\<close> followed by \<open>dst[i] = 0\<close>, and
  \<open>for (i = 0; i < n; i++) dst[i] = src[i];\<close>
\<close>

function copy_str :: "nat \<Rightarrow> (nat \<Rightarrow> char) \<Rightarrow> nat \<Rightarrow> string \<Rightarrow> nat \<times> string" where
  "copy_str lim p i dst =
     (if i < lim \<and> p i \<noteq> NUL then copy_str lim p (Suc i) (dst[i := p i]) else (i, dst))"
  by pat_completeness auto
termination
  by (relation "measure (\<lambda>(lim, p, i, dst). lim - i)") auto

declare copy_str.simps [simp del]

definition marshal_str :: "nat \<Rightarrow> (nat \<Rightarrow> char) option \<Rightarrow> string \<Rightarrow> string" where
  "marshal_str bufsize p dst =
     (case p of None \<Rightarrow> dst[0 := NUL]
      | Some m \<Rightarrow> (let (i, d) = copy_str (bufsize - 1) m 0 dst in d[i := NUL]))"

fun copy_bytes :: "nat \<Rightarrow> (nat \<Rightarrow> char) \<Rightarrow> string \<Rightarrow> string" where
  "copy_bytes 0 m dst = dst"
| "copy_bytes (Suc n) m dst = (copy_bytes n m dst)[n := m n]"

definition mem_of :: "string \<Rightarrow> nat \<Rightarrow> char" where
  "mem_of s i = (if i < length s then s ! i else NUL)"

text \<open>The C string of at most \<open>lim\<close> bytes that starts at a pointer.\<close>

definition cstr_mem :: "nat \<Rightarrow> (nat \<Rightarrow> char) \<Rightarrow> string" where
  "cstr_mem lim p = takeWhile (\<lambda>c. c \<noteq> NUL) (map p [0..<lim])"

lemma copy_str_spec:
  "i \<le> lim \<Longrightarrow> lim \<le> length dst \<Longrightarrow>
   copy_str lim p i dst =
     (let w = takeWhile (\<lambda>c. c \<noteq> NUL) (map p [i..<lim]) in (i + length w, write_at i w dst))"
proof (induction lim p i dst rule: copy_str.induct)
  case (1 lim p i dst)
  note step = copy_str.simps [of lim p i dst]
  show ?case
  proof (cases "i < lim \<and> p i \<noteq> NUL")
    case True
    let ?w = "takeWhile (\<lambda>c. c \<noteq> NUL) (map p [Suc i..<lim])"
    have "length ?w \<le> lim - Suc i"
      using length_takeWhile_le [of _ "map p [Suc i..<lim]"] by (simp del: upt_Suc)
    with True 1 have "write_at (Suc i) ?w (dst[i := p i]) = write_at i (p i # ?w) dst"
      by (simp add: write_at_def upd_conv_take_nth_drop add.commute)
    moreover have "takeWhile (\<lambda>c. c \<noteq> NUL) (map p [i..<lim]) = p i # ?w"
      using True by (simp add: upt_conv_Cons del: upt_Suc)
    moreover have "copy_str lim p (Suc i) (dst[i := p i]) =
        (Suc i + length ?w, write_at (Suc i) ?w (dst[i := p i]))"
      using 1 True by (simp add: Let_def del: upt_Suc)
    ultimately show ?thesis
      using True by (subst step) (simp add: Let_def del: upt_Suc)
  next
    case False
    then have "takeWhile (\<lambda>c. c \<noteq> NUL) (map p [i..<lim]) = []"
      by (cases "i < lim") (auto simp: upt_conv_Cons simp del: upt_Suc)
    with False show ?thesis by (subst step) (simp only: if_False Let_def, simp)
  qed
qed

lemma cstr_mem_length: "length (cstr_mem lim p) \<le> lim"
  using length_takeWhile_le [of "\<lambda>c. c \<noteq> NUL" "map p [0..<lim]"] by (simp add: cstr_mem_def)

lemma cstr_mem_no_nul [simp]: "NUL \<notin> set (cstr_mem lim p)"
  unfolding cstr_mem_def by (auto dest: set_takeWhileD)

lemma write_at_snoc:
  "off + length ys < length m \<Longrightarrow> (write_at off ys m)[off + length ys := y] = write_at off (ys @ [y]) m"
  by (simp add: write_at_def list_update_append Cons_nth_drop_Suc [symmetric])

lemma marshal_str_spec:
  assumes "0 < bufsize" "bufsize \<le> length dst"
  shows "marshal_str bufsize p dst =
    write_at 0 ((case p of None \<Rightarrow> [] | Some m \<Rightarrow> cstr_mem (bufsize - 1) m) @ [NUL]) dst"
proof (cases p)
  case None
  with assms show ?thesis by (cases dst) (auto simp: marshal_str_def write_at_def)
next
  case (Some m)
  have le: "length (cstr_mem (bufsize - 1) m) \<le> bufsize - 1" by (rule cstr_mem_length)
  have "copy_str (bufsize - 1) m 0 dst =
      (length (cstr_mem (bufsize - 1) m), write_at 0 (cstr_mem (bufsize - 1) m) dst)"
    using assms by (simp add: copy_str_spec cstr_mem_def Let_def)
  then show ?thesis
    using Some assms le write_at_snoc [of 0 "cstr_mem (bufsize - 1) m" dst NUL]
    by (simp add: marshal_str_def)
qed

lemma length_marshal_str [simp]:
  "0 < bufsize \<Longrightarrow> bufsize \<le> length dst \<Longrightarrow> length (marshal_str bufsize p dst) = length dst"
proof (cases p)
  case None
  then show "0 < bufsize \<Longrightarrow> bufsize \<le> length dst \<Longrightarrow> ?thesis" by (simp add: marshal_str_def)
next
  case (Some m)
  assume b: "0 < bufsize" "bufsize \<le> length dst"
  have "length (cstr_mem (bufsize - 1) m) \<le> bufsize - 1" by (rule cstr_mem_length)
  with b have "0 + length (cstr_mem (bufsize - 1) m @ [NUL]) \<le> length dst" by simp
  from length_write_at [OF this] Some b show ?thesis by (simp add: marshal_str_spec)
qed

lemma copy_bytes_spec: "n \<le> length dst \<Longrightarrow> copy_bytes n m dst = write_at 0 (map m [0..<n]) dst"
proof (induction n)
  case (Suc n)
  then show ?case using write_at_snoc [of 0 "map m [0..<n]" dst "m n"] by simp
qed simp

lemma length_copy_bytes [simp]: "length (copy_bytes n m dst) = length dst"
  by (induction n) auto

section \<open>The hostcalls\<close>

datatype request =
  Gpu_fopen "(nat \<Rightarrow> char) option" "(nat \<Rightarrow> char) option"
| Gpu_fwrite_256 i64 "nat \<Rightarrow> char" i32
| Gpu_fwrite i64 i64 i32
| Gpu_fread i64 i32
| Hc_open
| Hc_write
| Hc_write_id i32
| Hc_close

datatype hc_result = RHandle i64 | RCount i32 | RRead i32 string | RVoid

text \<open>\<open>if (size > HC_DATA_SIZE) size = HC_DATA_SIZE;\<close> (signed comparison)\<close>

definition clamp_size :: "i32 \<Rightarrow> i32" where
  "clamp_size n = (if sint n > int HC_DATA_SIZE then of_nat HC_DATA_SIZE else n)"

definition trace_name :: string where
  "trace_name = ''dyninst_trace.txt''"

definition trace_msg :: string where
  "trace_msg = ''[gpu] function entered'' @ [CHR 0x0A]"

fun marshal :: "request \<Rightarrow> HostcallSlot \<Rightarrow> HostcallSlot" where
  "marshal (Gpu_fopen f m) s =
     s\<lparr>slot_path := marshal_str HC_PATH_SIZE f (slot_path s),
       slot_mode := marshal_str HC_MODE_SIZE m (slot_mode s)\<rparr>"
| "marshal (Gpu_fwrite_256 h d n) s =
     (let n' = clamp_size n in
      s\<lparr>slot_data := copy_bytes (nat (sint n')) d (slot_data s),
        slot_handle := h, slot_size := n'\<rparr>)"
| "marshal (Gpu_fwrite h p n) s = s\<lparr>slot_handle := h, slot_bufptr := p, slot_size := n\<rparr>"
| "marshal (Gpu_fread h n) s = s\<lparr>slot_handle := h, slot_size := clamp_size n\<rparr>"
| "marshal Hc_open s =
     s\<lparr>slot_path := copy_bytes (length trace_name + 1) (mem_of trace_name) (slot_path s),
       slot_mode := (slot_mode s)[0 := CHR ''w'', 1 := NUL]\<rparr>"
| "marshal Hc_write s =
     s\<lparr>slot_data := copy_bytes (length trace_msg) (mem_of trace_msg) (slot_data s),
       slot_size := of_nat (length trace_msg)\<rparr>"
| "marshal (Hc_write_id i) s = s\<lparr>slot_arg := i\<rparr>"
| "marshal Hc_close s = s"

fun request_op :: "request \<Rightarrow> i32" where
  "request_op (Gpu_fopen f m) = HC_OP_FOPEN"
| "request_op (Gpu_fwrite_256 h d n) = HC_OP_FWRITE"
| "request_op (Gpu_fwrite h p n) = HC_OP_FWRITE_PTR"
| "request_op (Gpu_fread h n) = HC_OP_FREAD"
| "request_op Hc_open = HC_OP_FOPEN"
| "request_op Hc_write = HC_OP_FWRITE"
| "request_op (Hc_write_id i) = HC_OP_WRITE_ID"
| "request_op Hc_close = HC_OP_FCLOSE"

definition submit :: "request \<Rightarrow> HostcallSlot \<Rightarrow> HostcallSlot" where
  "submit r s = (marshal r s)\<lparr>slot_opcode := request_op r\<rparr>"

fun reply :: "request \<Rightarrow> HostcallSlot \<Rightarrow> hc_result" where
  "reply (Gpu_fopen f m) s = RHandle (slot_handle s)"
| "reply (Gpu_fwrite_256 h d n) s = RCount (slot_retval s)"
| "reply (Gpu_fwrite h p n) s = RCount (slot_retval s)"
| "reply (Gpu_fread h n) s =
     RRead (slot_retval s)
       (take (min (nat (sint (slot_retval s))) (nat (sint (clamp_size n)))) (slot_data s))"
| "reply _ s = RVoid"

lemma sint_clamp_le: "sint (clamp_size n) \<le> int HC_DATA_SIZE"
  by (simp add: clamp_size_def HC_DATA_SIZE_def)

lemma clamp_size_nonneg: "0 \<le> sint n \<Longrightarrow> 0 \<le> sint (clamp_size n)"
  by (simp add: clamp_size_def HC_DATA_SIZE_def)

lemma marshal_turn_status [simp]:
  "slot_turn (marshal r s) = slot_turn s" "slot_status (marshal r s) = slot_status s"
  "slot_opcode (marshal r s) = slot_opcode s" "slot_retval (marshal r s) = slot_retval s"
  by (cases r; simp add: Let_def)+

lemma submit_turn_status [simp]:
  "slot_turn (submit r s) = slot_turn s" "slot_status (submit r s) = slot_status s"
  "slot_opcode (submit r s) = request_op r" "slot_retval (submit r s) = slot_retval s"
  by (simp_all add: submit_def)

lemma marshal_wf: "slot_wf s \<Longrightarrow> slot_wf (marshal r s)"
  by (cases r) (auto simp: slot_wf_def Let_def hc_sizes)

lemma submit_wf: "slot_wf s \<Longrightarrow> slot_wf (submit r s)"
  using marshal_wf [of s r] by (simp add: submit_def slot_wf_def)

section \<open>Wrappers over the forwarded ABI context\<close>

text \<open>
  \<open>hc_write_nl\<close> calls a helper with its own stack frame; the others read implicit
  arguments. Each logs the elected lane's value: the branch runs under that lane alone, so
  \<open>readfirstlane\<close> there is the value of the first active lane of the wave. \<open>int\<close>
  and \<open>unsigned\<close> arithmetic is on 32 bits.
\<close>

definition hc_nl_helper :: "i32 \<Rightarrow> i32" where
  "hc_nl_helper x =
     (let a = map (\<lambda>i. x + of_nat i * 7) [0..<8]
      in a ! unat (x AND 7) + a ! unat ((x + 3) AND 7))"

definition hc_write_nl :: "u64 \<Rightarrow> (nat \<Rightarrow> i32) \<Rightarrow> request" where
  "hc_write_nl ex ident = Hc_write_id (readfirstlane ex (\<lambda>l. hc_nl_helper (ident l)))"

definition hc_write_bid :: "u64 \<Rightarrow> (nat \<Rightarrow> i32) \<Rightarrow> request" where
  "hc_write_bid ex bx = Hc_write_id (readfirstlane ex bx)"

definition hc_write_bdim :: "u64 \<Rightarrow> (nat \<Rightarrow> i32) \<Rightarrow> request" where
  "hc_write_bdim ex bd = Hc_write_id (readfirstlane ex bd)"

definition hc_write_tid :: "u64 \<Rightarrow> (nat \<Rightarrow> i32) \<Rightarrow> request" where
  "hc_write_tid ex tx = Hc_write_id (readfirstlane ex tx)"

definition hc_write_ftid :: "u64 \<Rightarrow> u32 \<Rightarrow> u32 \<Rightarrow> (nat \<Rightarrow> u32) \<Rightarrow> request" where
  "hc_write_ftid ex blockIdx blockDim threadIdx =
     Hc_write_id (readfirstlane ex
       (\<lambda>l. let ftid = blockIdx * blockDim + threadIdx l; wid = ftid div 64 in wid))"

lemma hc_nl_helper_table:
  "map hc_nl_helper [0, 1, 2, 3, 4, 5, 6, 7] = [21, 37, 53, 69, 85, 45, 61, 77]"
  by (simp add: hc_nl_helper_def Let_def upt_rec)

end
