(* ===== verification/Host_Service.thy ===== *)
theory Host_Service
  imports Device_Lib "HOL-Library.AList"
begin

text \<open>
  The CPU side of the mailbox, \<open>runtime/host/hostcall_service.cpp\<close>: the service of one
  request-ready slot, one scan of the slots, and the teardown. C stdio is modelled by
  \<open>io\<close>: the disk, the open streams, the fresh stream pointers (\<open>io_handles\<close>, empty when
  allocation fails), which (path, mode) pairs the operating system lets through, and the
  host's view of device memory. Writes reach the disk at once: the code flushes after every
  write, so \<open>fflush\<close> changes nothing here. Undefined behaviour (a stream pointer that is not
  open, a read past the slot's data array) is \<open>None\<close>.
\<close>

record stream =
  st_path :: string
  st_pos :: nat
  st_append :: bool
  st_read :: bool
  st_write :: bool

record io =
  disk :: "string \<Rightarrow> string option"
  streams :: "u64 \<Rightarrow> stream option"
  io_handles :: "u64 list"
  openable :: "string \<Rightarrow> string \<Rightarrow> bool"
  devmem :: "u64 \<Rightarrow> char"

definition new_stream :: "string \<Rightarrow> string \<Rightarrow> stream" where
  "new_stream path mode =
     (let m = hd mode; plus = CHR ''+'' \<in> set (tl mode)
      in \<lparr>st_path = path, st_pos = 0, st_append = (m = CHR ''a''),
          st_read = (m = CHR ''r'' \<or> plus), st_write = (m \<noteq> CHR ''r'' \<or> plus)\<rparr>)"

definition io_fopen :: "string \<Rightarrow> string \<Rightarrow> io \<Rightarrow> u64 \<times> io" where
  "io_fopen path mode w =
     (if \<not> openable w path mode then (0, w) else
      case (mode, io_handles w) of
        (m # ms, f # fs) \<Rightarrow>
          (let st = new_stream path mode
           in if m = CHR ''w'' then
                (f, w\<lparr>disk := (disk w)(path := Some []), streams := (streams w)(f := Some st),
                      io_handles := fs\<rparr>)
              else if m = CHR ''a'' then
                (f, w\<lparr>disk := (disk w)(path := Some (case disk w path of None \<Rightarrow> [] | Some d \<Rightarrow> d)),
                      streams := (streams w)(f := Some st), io_handles := fs\<rparr>)
              else if m = CHR ''r'' \<and> disk w path \<noteq> None then
                (f, w\<lparr>streams := (streams w)(f := Some st), io_handles := fs\<rparr>)
              else (0, w))
      | _ \<Rightarrow> (0, w))"

definition io_fwrite :: "string \<Rightarrow> u64 \<Rightarrow> io \<Rightarrow> (nat \<times> io) option" where
  "io_fwrite d f w =
     (case streams w f of None \<Rightarrow> None
      | Some st \<Rightarrow>
          if \<not> st_write st then Some (0, w)
          else (let old = (case disk w (st_path st) of None \<Rightarrow> [] | Some x \<Rightarrow> x);
                    pos = (if st_append st then length old else st_pos st);
                    new = take pos (old @ replicate (pos - length old) NUL) @ d
                          @ drop (pos + length d) old
                in Some (length d,
                     w\<lparr>disk := (disk w)(st_path st := Some new),
                       streams := (streams w)(f := Some (st\<lparr>st_pos := pos + length d\<rparr>))\<rparr>)))"

definition io_fread :: "nat \<Rightarrow> u64 \<Rightarrow> io \<Rightarrow> (string \<times> io) option" where
  "io_fread n f w =
     (case streams w f of None \<Rightarrow> None
      | Some st \<Rightarrow>
          if \<not> st_read st then Some ([], w)
          else (let old = (case disk w (st_path st) of None \<Rightarrow> [] | Some x \<Rightarrow> x);
                    d = take n (drop (st_pos st) old)
                in Some (d, w\<lparr>streams := (streams w)(f := Some (st\<lparr>st_pos := st_pos st + length d\<rparr>))\<rparr>)))"

definition io_fclose :: "u64 \<Rightarrow> io \<Rightarrow> io" where
  "io_fclose f w = w\<lparr>streams := (streams w)(f := None)\<rparr>"

section \<open>The service state\<close>

text \<open>The locals of \<open>hostcall_service_loop\<close>, plus the operating system's state.\<close>

record service =
  sv_io :: io
  sv_files :: "(string \<times> u64) list"
  sv_primary :: u64
  sv_opens :: int
  sv_writes :: int
  sv_closes :: int

definition service_init :: "io \<Rightarrow> service" where
  "service_init w = \<lparr>sv_io = w, sv_files = [], sv_primary = 0,
     sv_opens = 0, sv_writes = 0, sv_closes = 0\<rparr>"

text \<open>
  \<open>FILE*& f = files[name]; if (!f) f = fopen(path, mode);\<close>: each distinct name is opened
  once, a name whose open failed is tried again.
\<close>

definition fopen_once ::
    "(string \<Rightarrow> string \<Rightarrow> 'w \<Rightarrow> u64 \<times> 'w) \<Rightarrow> (string \<times> u64) list \<Rightarrow> string \<Rightarrow> string \<Rightarrow> 'w
      \<Rightarrow> u64 \<times> (string \<times> u64) list \<times> 'w" where
  "fopen_once openf files name mode w =
     (let f0 = (case map_of files name of None \<Rightarrow> 0 | Some f \<Rightarrow> f)
      in if f0 = 0 then (let (f, w') = openf name mode w in (f, AList.update name f files, w'))
         else (f0, files, w))"

text \<open>\<open>fwrite(s->data, 1, s->size, f)\<close>: a size outside the data array is undefined.\<close>

definition slot_payload :: "HostcallSlot \<Rightarrow> string option" where
  "slot_payload s =
     (if 0 \<le> sint (slot_size s) \<and> sint (slot_size s) \<le> int HC_DATA_SIZE
      then Some (take (nat (sint (slot_size s))) (slot_data s)) else None)"

definition devmem_read :: "io \<Rightarrow> u64 \<Rightarrow> i32 \<Rightarrow> string option" where
  "devmem_read w p n =
     (if 0 \<le> sint n then Some (map (\<lambda>i. devmem w (p + of_nat i)) [0..<nat (sint n)]) else None)"

definition site_line :: "i32 \<Rightarrow> string" where
  "site_line a = ''[gpu] site '' @ dec_int (sint a) @ [CHR 0x0A]"

definition service_slot :: "HostcallSlot \<Rightarrow> service \<Rightarrow> (HostcallSlot \<times> service) option" where
  "service_slot s v =
     (let f = slot_handle s in
      if slot_opcode s = HC_OP_FOPEN then
        (let name = cstr (slot_path s);
             (h, files', w') = fopen_once io_fopen (sv_files v) name (cstr (slot_mode s)) (sv_io v);
             v' = v\<lparr>sv_io := w', sv_files := files',
                    sv_primary := (if sv_primary v = 0 then
                        (if (case map_of (sv_files v) name of None \<Rightarrow> 0 | Some g \<Rightarrow> g) = 0 then h
                         else sv_primary v) else sv_primary v),
                    sv_opens := sv_opens v + 1\<rparr>
         in Some (s\<lparr>slot_handle := h, slot_retval := (if h \<noteq> 0 then 0 else - 1)\<rparr>, v'))
      else if slot_opcode s = HC_OP_FWRITE then
        (if f = 0 then Some (s\<lparr>slot_retval := - 1\<rparr>, v\<lparr>sv_writes := sv_writes v + 1\<rparr>)
         else (case slot_payload s of None \<Rightarrow> None
           | Some d \<Rightarrow> (case io_fwrite d f (sv_io v) of None \<Rightarrow> None
             | Some (n, w') \<Rightarrow> Some (s\<lparr>slot_retval := of_nat n\<rparr>,
                 v\<lparr>sv_io := w', sv_writes := sv_writes v + 1\<rparr>))))
      else if slot_opcode s = HC_OP_FWRITE_PTR then
        (if f = 0 \<or> slot_bufptr s = 0 then
           (if f \<noteq> 0 \<and> streams (sv_io v) f = None then None
            else Some (s\<lparr>slot_retval := - 1\<rparr>, v\<lparr>sv_writes := sv_writes v + 1\<rparr>))
         else (case devmem_read (sv_io v) (slot_bufptr s) (slot_size s) of None \<Rightarrow> None
           | Some d \<Rightarrow> (case io_fwrite d f (sv_io v) of None \<Rightarrow> None
             | Some (n, w') \<Rightarrow> Some (s\<lparr>slot_retval := of_nat n\<rparr>,
                 v\<lparr>sv_io := w', sv_writes := sv_writes v + 1\<rparr>))))
      else if slot_opcode s = HC_OP_FREAD then
        (if f = 0 then Some (s\<lparr>slot_retval := - 1\<rparr>, v)
         else if sint (slot_size s) < 0 \<or> int HC_DATA_SIZE < sint (slot_size s) then None
         else (case io_fread (nat (sint (slot_size s))) f (sv_io v) of None \<Rightarrow> None
           | Some (d, w') \<Rightarrow> Some (s\<lparr>slot_data := write_at 0 d (slot_data s),
               slot_retval := of_nat (length d)\<rparr>, v\<lparr>sv_io := w'\<rparr>)))
      else if slot_opcode s = HC_OP_FCLOSE then
        (if f \<noteq> 0 \<and> streams (sv_io v) f = None then None
         else Some (s\<lparr>slot_retval := 0\<rparr>, v\<lparr>sv_closes := sv_closes v + 1\<rparr>))
      else if slot_opcode s = HC_OP_WRITE_ID then
        (let v' = v\<lparr>sv_writes := sv_writes v + 1\<rparr>
         in if sv_primary v = 0 then Some (s\<lparr>slot_retval := 0\<rparr>, v')
            else (case io_fwrite (site_line (slot_arg s)) (sv_primary v) (sv_io v) of None \<Rightarrow> None
              | Some (n, w') \<Rightarrow> Some (s\<lparr>slot_retval := 0\<rparr>, v'\<lparr>sv_io := w'\<rparr>)))
      else Some (s\<lparr>slot_retval := - 1\<rparr>, v))"

text \<open>
  One pass of \<open>hostcall_service_loop\<close> over the queue: a slot with status 1 is serviced and
  its status becomes 2, any other slot is skipped. \<open>scan_from n i\<close> is the loop from index
  \<open>i\<close> with \<open>n\<close> slots to go; the flag is \<open>any\<close>.
\<close>

definition visit_slot :: "nat \<Rightarrow> HostcallSlot list \<times> service \<Rightarrow> (bool \<times> HostcallSlot list \<times> service) option" where
  "visit_slot i qv =
     (let (sl, v) = qv; s = sl ! i
      in if slot_status s \<noteq> 1 then Some (False, sl, v)
         else (case service_slot s v of None \<Rightarrow> None
           | Some (s', v') \<Rightarrow> Some (True, sl[i := s'\<lparr>slot_status := 2\<rparr>], v')))"

fun scan_from :: "nat \<Rightarrow> nat \<Rightarrow> bool \<Rightarrow> HostcallSlot list \<times> service
    \<Rightarrow> (bool \<times> HostcallSlot list \<times> service) option" where
  "scan_from 0 i any qv = Some (any, qv)"
| "scan_from (Suc n) i any qv =
     (case visit_slot i qv of None \<Rightarrow> None
      | Some (b, qv') \<Rightarrow> scan_from n (Suc i) (any \<or> b) qv')"

definition service_scan :: "HostcallSlot list \<times> service \<Rightarrow> (bool \<times> HostcallSlot list \<times> service) option" where
  "service_scan qv = scan_from HC_NSLOTS 0 False qv"

text \<open>
  After the loop: \<open>if (kv.second) fclose(kv.second)\<close> for every entry, and the counts that
  the last line prints.
\<close>

fun close_all :: "(string \<times> u64) list \<Rightarrow> io \<Rightarrow> io" where
  "close_all [] w = w"
| "close_all ((n, f) # rest) w = close_all rest (if f \<noteq> 0 then io_fclose f w else w)"

definition service_teardown :: "service \<Rightarrow> io \<times> int \<times> int \<times> int \<times> nat" where
  "service_teardown v =
     (close_all (sv_files v) (sv_io v), sv_opens v, sv_writes v, sv_closes v, length (sv_files v))"

section \<open>The contract of fopen and the once-only table\<close>

text \<open>
  What the file table relies on: a successful open gives a fresh, non-null stream, a failed one
  gives a null pointer and opens nothing. The table then maps distinct names to distinct
  streams, gives the same stream to every open of a name, and never loses an entry.
\<close>

definition lookup0 :: "(string \<times> u64) list \<Rightarrow> string \<Rightarrow> u64" where
  "lookup0 files n = (case map_of files n of None \<Rightarrow> 0 | Some f \<Rightarrow> f)"

locale stdio_open =
  fixes openf :: "string \<Rightarrow> string \<Rightarrow> 'w \<Rightarrow> u64 \<times> 'w"
    and live :: "'w \<Rightarrow> u64 set"
    and ok :: "'w \<Rightarrow> bool"
  assumes open_ok: "ok w \<Longrightarrow> openf p m w = (h, w') \<Longrightarrow> ok w'"
    and open_fail: "ok w \<Longrightarrow> openf p m w = (0, w') \<Longrightarrow> live w' = live w"
    and open_fresh: "ok w \<Longrightarrow> openf p m w = (h, w') \<Longrightarrow> h \<noteq> 0 \<Longrightarrow>
          h \<notin> live w \<and> live w' = insert h (live w)"
begin

definition table_ok :: "(string \<times> u64) list \<Rightarrow> 'w \<Rightarrow> bool" where
  "table_ok files w \<longleftrightarrow> ok w \<and> distinct (map fst files) \<and>
     (\<forall>n. lookup0 files n \<noteq> 0 \<longrightarrow> lookup0 files n \<in> live w) \<and>
     (\<forall>n m. lookup0 files n \<noteq> 0 \<longrightarrow> lookup0 files n = lookup0 files m \<longrightarrow> n = m)"

lemma once_known:
  "lookup0 files n \<noteq> 0 \<Longrightarrow> fopen_once openf files n m w = (lookup0 files n, files, w)"
  by (simp add: fopen_once_def lookup0_def)

lemma once_lookup:
  "fopen_once openf files n m w = (h, files', w') \<Longrightarrow>
   lookup0 files' k = (if k = n then h else lookup0 files k)"
  by (auto simp: fopen_once_def lookup0_def Let_def update_conv split: if_splits prod.splits option.splits)

lemma once_live:
  assumes "ok w" "fopen_once openf files n m w = (h, files', w')" "lookup0 files n = 0"
  shows "(h = 0 \<and> live w' = live w) \<or> (h \<noteq> 0 \<and> h \<notin> live w \<and> live w' = insert h (live w))"
  using assms open_fail [of w n m w'] open_fresh [of w n m h w']
  by (cases "h = 0") (auto simp: fopen_once_def lookup0_def Let_def split: if_splits prod.splits option.splits)

lemma once_ok:
  "ok w \<Longrightarrow> fopen_once openf files n m w = (h, files', w') \<Longrightarrow> ok w'"
  using open_ok by (auto simp: fopen_once_def Let_def split: if_splits prod.splits option.splits)

lemma once_distinct:
  "distinct (map fst files) \<Longrightarrow> fopen_once openf files n m w = (h, files', w') \<Longrightarrow>
   distinct (map fst files')"
  by (auto simp: fopen_once_def Let_def distinct_update split: if_splits prod.splits option.splits)

lemma once_table_ok:
  assumes t: "table_ok files w" and o: "fopen_once openf files n m w = (h, files', w')"
  shows "table_ok files' w'"
proof (cases "lookup0 files n = 0")
  case False
  with o have "files' = files" "w' = w" by (simp_all add: once_known)
  with t show ?thesis by simp
next
  case True
  from t have okw: "ok w" and d: "distinct (map fst files)" by (auto simp: table_ok_def)
  note l = once_live [OF okw o True] and lk = once_lookup [OF o]
  have "\<And>k. lookup0 files k \<noteq> 0 \<Longrightarrow> lookup0 files k \<in> live w"
    and "\<And>k j. lookup0 files k \<noteq> 0 \<Longrightarrow> lookup0 files k = lookup0 files j \<Longrightarrow> k = j"
    using t by (auto simp: table_ok_def)
  then show ?thesis
    using l once_ok [OF okw o] once_distinct [OF d o] unfolding table_ok_def lk
    by (auto split: if_splits)
qed

end

definition io_live :: "io \<Rightarrow> u64 set" where
  "io_live w = dom (streams w)"

definition io_ok :: "io \<Rightarrow> bool" where
  "io_ok w \<longleftrightarrow> distinct (io_handles w) \<and> 0 \<notin> set (io_handles w) \<and> 0 \<notin> io_live w \<and>
     set (io_handles w) \<inter> io_live w = {}"

definition opened :: "string \<Rightarrow> string \<Rightarrow> u64 \<Rightarrow> io \<Rightarrow> io \<Rightarrow> bool" where
  "opened p m h w w' \<longleftrightarrow> m \<noteq> [] \<and> io_handles w = h # io_handles w' \<and>
     streams w' = (streams w)(h := Some (new_stream p m)) \<and> devmem w' = devmem w \<and>
     (\<forall>q. q \<noteq> p \<longrightarrow> disk w' q = disk w q) \<and>
     (hd m = CHR ''w'' \<longrightarrow> disk w' p = Some []) \<and>
     (hd m = CHR ''a'' \<longrightarrow> disk w' p = Some (case disk w p of None \<Rightarrow> [] | Some d \<Rightarrow> d))"

lemma io_fopen_cases:
  assumes "io_fopen p m w = (h, w')"
  shows "h = 0 \<and> w' = w \<or> opened p m h w w'"
proof (cases "openable w p m \<and> m \<noteq> [] \<and> io_handles w \<noteq> []")
  case False
  with assms show ?thesis by (cases "openable w p m"; cases m; cases "io_handles w") (auto simp: io_fopen_def)
next
  case True
  then obtain c ms f fs where "openable w p m" "m = c # ms" "io_handles w = f # fs"
    by (auto simp: neq_Nil_conv)
  with assms show ?thesis
    by (cases "c = CHR ''w''"; cases "c = CHR ''a''"; cases "c = CHR ''r'' \<and> disk w p \<noteq> None")
      (auto simp: io_fopen_def Let_def opened_def split: option.splits)
qed

lemma opened_ok:
  assumes "opened p m h w w'" "io_ok w"
  shows "io_ok w' \<and> h \<noteq> 0 \<and> h \<notin> io_live w \<and> io_live w' = insert h (io_live w)"
proof -
  from assms(1) have h: "io_handles w = h # io_handles w'"
      "streams w' = (streams w)(h := Some (new_stream p m))" by (auto simp: opened_def)
  then have l: "io_live w' = insert h (io_live w)" by (simp add: io_live_def)
  show ?thesis using assms(2) unfolding io_ok_def l h(1) by auto
qed

interpretation stdio: stdio_open io_fopen io_live io_ok
proof (unfold_locales, goal_cases)
  case (1 w p m h w')
  then show ?case using io_fopen_cases [OF 1(2)] opened_ok by metis
next
  case (2 w p m w')
  then show ?case using io_fopen_cases [OF 2(2)] opened_ok by metis
next
  case (3 w p m h w')
  then show ?case using io_fopen_cases [OF 3(2)] opened_ok by metis
qed

section \<open>Servicing one request\<close>

text \<open>
  \<open>service_ok\<close>: the file table and the stream table agree, and the primary file, when there
  is one, is open. \<open>request_ok\<close>: what a slot must satisfy for its service to be defined.
\<close>

definition service_ok :: "service \<Rightarrow> bool" where
  "service_ok v \<longleftrightarrow> stdio.table_ok (sv_files v) (sv_io v) \<and>
     (\<forall>h st. streams (sv_io v) h = Some st \<longrightarrow> lookup0 (sv_files v) (st_path st) = h) \<and>
     (sv_primary v \<noteq> 0 \<longrightarrow> sv_primary v \<in> io_live (sv_io v))"

definition handle_ok :: "service \<Rightarrow> i64 \<Rightarrow> bool" where
  "handle_ok v h \<longleftrightarrow> h = 0 \<or> h \<in> io_live (sv_io v)"

definition request_ok :: "service \<Rightarrow> HostcallSlot \<Rightarrow> bool" where
  "request_ok v s \<longleftrightarrow>
     (slot_opcode s \<in> {HC_OP_FWRITE, HC_OP_FREAD} \<longrightarrow> handle_ok v (slot_handle s) \<and>
        0 \<le> sint (slot_size s) \<and> sint (slot_size s) \<le> int HC_DATA_SIZE) \<and>
     (slot_opcode s = HC_OP_FWRITE_PTR \<longrightarrow> handle_ok v (slot_handle s) \<and> 0 \<le> sint (slot_size s)) \<and>
     (slot_opcode s = HC_OP_FCLOSE \<longrightarrow> handle_ok v (slot_handle s))"

text \<open>The bytes that the service of \<open>s\<close> sends to the stream \<open>h\<close>.\<close>

definition slot_output :: "service \<Rightarrow> HostcallSlot \<Rightarrow> i64 \<Rightarrow> string" where
  "slot_output v s h =
     (if slot_opcode s = HC_OP_FWRITE \<and> slot_handle s = h then
        take (nat (sint (slot_size s))) (slot_data s)
      else if slot_opcode s = HC_OP_FWRITE_PTR \<and> slot_handle s = h \<and> slot_bufptr s \<noteq> 0 then
        map (\<lambda>i. devmem (sv_io v) (slot_bufptr s + of_nat i)) [0..<nat (sint (slot_size s))]
      else if slot_opcode s = HC_OP_WRITE_ID \<and> sv_primary v = h then site_line (slot_arg s)
      else [])"

lemma io_fwrite_ok:
  assumes "io_fwrite d f w = Some (n, w')"
  shows "io_live w' = io_live w" "io_ok w' = io_ok w" "devmem w' = devmem w"
    "map_option st_path (streams w' h) = map_option st_path (streams w h)"
proof -
  have l: "io_live w' = io_live w" and k: "io_handles w' = io_handles w"
    using assms by (auto simp: io_fwrite_def io_live_def Let_def split: option.splits if_splits)
  show "io_live w' = io_live w" by (rule l)
  show "io_ok w' = io_ok w" by (simp add: io_ok_def l k)
  show "devmem w' = devmem w" "map_option st_path (streams w' h) = map_option st_path (streams w h)"
    using assms by (auto simp: io_fwrite_def Let_def split: option.splits if_splits)
qed

lemma io_fread_ok:
  assumes "io_fread n f w = Some (d, w')"
  shows "io_live w' = io_live w" "io_ok w' = io_ok w" "devmem w' = devmem w" "length d \<le> n"
    "map_option st_path (streams w' h) = map_option st_path (streams w h)" "disk w' = disk w"
proof -
  have l: "io_live w' = io_live w" and k: "io_handles w' = io_handles w"
    using assms by (auto simp: io_fread_def io_live_def Let_def split: option.splits if_splits)
  show "io_live w' = io_live w" by (rule l)
  show "io_ok w' = io_ok w" by (simp add: io_ok_def l k)
  show "devmem w' = devmem w" "length d \<le> n" "disk w' = disk w"
    "map_option st_path (streams w' h) = map_option st_path (streams w h)"
    using assms by (auto simp: io_fread_def Let_def split: option.splits if_splits)
qed

lemma io_fwrite_some: "f \<in> io_live w \<Longrightarrow> \<exists>n w'. io_fwrite d f w = Some (n, w')"
  by (auto simp: io_live_def io_fwrite_def Let_def)

lemma io_fread_some: "f \<in> io_live w \<Longrightarrow> \<exists>d w'. io_fread n f w = Some (d, w')"
  by (auto simp: io_live_def io_fread_def Let_def)

definition fopen_effect :: "HostcallSlot \<Rightarrow> service \<Rightarrow> HostcallSlot \<Rightarrow> service \<Rightarrow> bool" where
  "fopen_effect s v s' v' \<longleftrightarrow> slot_opcode s = HC_OP_FOPEN \<and>
     fopen_once io_fopen (sv_files v) (cstr (slot_path s)) (cstr (slot_mode s)) (sv_io v) =
       (slot_handle s', sv_files v', sv_io v') \<and>
     slot_retval s' = (if slot_handle s' \<noteq> 0 then 0 else - 1) \<and>
     sv_primary v' = (if sv_primary v = 0 \<and> lookup0 (sv_files v) (cstr (slot_path s)) = 0
                      then slot_handle s' else sv_primary v)"

definition write_effect :: "HostcallSlot \<Rightarrow> service \<Rightarrow> HostcallSlot \<Rightarrow> service \<Rightarrow> bool" where
  "write_effect s v s' v' \<longleftrightarrow> (\<exists>f n. f \<noteq> 0 \<and> slot_opcode s \<noteq> HC_OP_FOPEN \<and>
     io_fwrite (slot_output v s f) f (sv_io v) = Some (n, sv_io v') \<and>
     (\<forall>h. h \<noteq> f \<longrightarrow> h \<noteq> 0 \<longrightarrow> slot_output v s h = []) \<and>
     sv_files v' = sv_files v \<and> sv_primary v' = sv_primary v)"

definition quiet_effect :: "HostcallSlot \<Rightarrow> service \<Rightarrow> HostcallSlot \<Rightarrow> service \<Rightarrow> bool" where
  "quiet_effect s v s' v' \<longleftrightarrow> slot_opcode s \<noteq> HC_OP_FOPEN \<and>
     (sv_io v' = sv_io v \<or> (\<exists>n f d. io_fread n f (sv_io v) = Some (d, sv_io v'))) \<and>
     (\<forall>h. h \<noteq> 0 \<longrightarrow> slot_output v s h = []) \<and>
     sv_files v' = sv_files v \<and> sv_primary v' = sv_primary v"

lemmas effect_defs = fopen_effect_def write_effect_def quiet_effect_def slot_output_def

lemma fopen_once_prod: "\<exists>h files w'. fopen_once openf fs n m w = (h, files, w')"
  by (cases "fopen_once openf fs n m w") auto

lemma service_slot_effect:
  assumes "service_slot s v = Some (s', v')"
  shows "fopen_effect s v s' v' \<or> write_effect s v s' v' \<or> quiet_effect s v s' v'"
proof -
  consider "slot_opcode s = HC_OP_FOPEN" | "slot_opcode s = HC_OP_FWRITE"
    | "slot_opcode s = HC_OP_FWRITE_PTR" | "slot_opcode s = HC_OP_FREAD"
    | "slot_opcode s = HC_OP_FCLOSE" | "slot_opcode s = HC_OP_WRITE_ID"
    | "slot_opcode s \<notin> {1, 2, 3, 4, 5, 6}" by (auto simp: hc_ops)
  then show ?thesis
  proof cases
    case 1
    then have "fopen_effect s v s' v'"
      using assms fopen_once_prod [of io_fopen "sv_files v" "cstr (slot_path s)" "cstr (slot_mode s)" "sv_io v"]
      by (auto simp: service_slot_def fopen_effect_def lookup0_def Let_def)
    then show ?thesis by simp
  next
    case 2
    show ?thesis
    proof (cases "slot_handle s = 0")
      case True
      with assms 2 have "quiet_effect s v s' v'"
        by (auto simp: service_slot_def effect_defs hc_ops)
      then show ?thesis by simp
    next
      case False
      with assms 2 have "write_effect s v s' v'"
        unfolding write_effect_def
        by (intro exI [of _ "slot_handle s"])
          (auto simp: service_slot_def slot_payload_def slot_output_def hc_ops split: option.splits if_splits)
      then show ?thesis by simp
    qed
  next
    case 3
    show ?thesis
    proof (cases "slot_handle s = 0 \<or> slot_bufptr s = 0")
      case True
      with assms 3 have "quiet_effect s v s' v'"
        by (auto simp: service_slot_def effect_defs hc_ops Let_def split: if_splits)
      then show ?thesis by simp
    next
      case False
      with assms 3 have "write_effect s v s' v'"
        unfolding write_effect_def
        by (intro exI [of _ "slot_handle s"])
          (auto simp: service_slot_def devmem_read_def slot_output_def hc_ops split: option.splits if_splits)
      then show ?thesis by simp
    qed
  next
    case 6
    show ?thesis
    proof (cases "sv_primary v = 0")
      case True
      with assms 6 have "quiet_effect s v s' v'"
        by (auto simp: service_slot_def effect_defs hc_ops)
      then show ?thesis by simp
    next
      case False
      with assms 6 have "write_effect s v s' v'"
        unfolding write_effect_def
        by (intro exI [of _ "sv_primary v"])
          (auto simp: service_slot_def slot_output_def hc_ops Let_def split: option.splits)
      then show ?thesis by simp
    qed
  next
    case 4
    with assms have "quiet_effect s v s' v'"
      by (auto simp: service_slot_def effect_defs hc_ops Let_def split: option.splits if_splits prod.splits)
    then show ?thesis by simp
  qed (use assms in \<open>auto simp: service_slot_def effect_defs hc_ops Let_def split: if_splits\<close>)
qed

text \<open>The fields that the service never touches, and the lengths of the arrays.\<close>

lemma service_slot_frame:
  assumes "service_slot s v = Some (s', v')"
  shows "slot_turn s' = slot_turn s" "slot_status s' = slot_status s"
    "slot_opcode s' = slot_opcode s" "slot_path s' = slot_path s" "slot_mode s' = slot_mode s"
    "slot_arg s' = slot_arg s" "slot_size s' = slot_size s" "slot_bufptr s' = slot_bufptr s"
  using assms
  by (auto simp: service_slot_def Let_def split: if_splits option.splits prod.splits)

lemma service_slot_wf:
  assumes "service_slot s v = Some (s', v')" "slot_wf s"
  shows "slot_wf s'"
proof (cases "slot_opcode s = HC_OP_FREAD \<and> slot_handle s \<noteq> 0")
  case False
  with assms show ?thesis
    by (auto simp: service_slot_def slot_wf_def hc_ops Let_def
        split: if_splits option.splits prod.splits)
next
  case True
  with assms(1) obtain d w' where d: "io_fread (nat (sint (slot_size s))) (slot_handle s) (sv_io v) = Some (d, w')"
    "sint (slot_size s) \<le> int HC_DATA_SIZE" "slot_data s' = write_at 0 d (slot_data s)"
    by (auto simp: service_slot_def hc_ops Let_def split: if_splits option.splits prod.splits)
  then have "0 + length d \<le> length (slot_data s)"
    using io_fread_ok(4) [OF d(1)] assms(2) by (simp add: slot_wf_def)
  then have "length (slot_data s') = length (slot_data s)" unfolding d(3) by (rule length_write_at)
  with assms(2) service_slot_frame [OF assms(1)] show ?thesis by (simp add: slot_wf_def)
qed

lemma paths_kept:
  "(\<And>h. map_option st_path (streams w' h) = map_option st_path (streams w h)) \<Longrightarrow>
   streams w' h = Some st' \<Longrightarrow> \<exists>st. streams w h = Some st \<and> st_path st = st_path st'"
  by (metis map_option_eq_Some)

lemma service_ok_io:
  assumes "service_ok v" "sv_files v' = sv_files v" "sv_primary v' = sv_primary v"
    "io_live (sv_io v') = io_live (sv_io v)" "io_ok (sv_io v') = io_ok (sv_io v)"
    "\<And>h. map_option st_path (streams (sv_io v') h) = map_option st_path (streams (sv_io v) h)"
  shows "service_ok v'"
proof -
  have "lookup0 (sv_files v) (st_path st) = h" if "streams (sv_io v') h = Some st" for h st
  proof -
    from paths_kept [OF assms(6) that] obtain st0
      where s0: "streams (sv_io v) h = Some st0" "st_path st0 = st_path st" by blast
    from s0(1) assms(1) have "lookup0 (sv_files v) (st_path st0) = h"
      unfolding service_ok_def by blast
    with s0(2) show ?thesis by simp
  qed
  with assms(1-5) show ?thesis unfolding service_ok_def stdio.table_ok_def by auto
qed

lemma fopen_effect_io:
  assumes "fopen_effect s v s' v'"
  shows "lookup0 (sv_files v) (cstr (slot_path s)) \<noteq> 0 \<and> sv_io v' = sv_io v \<and>
           slot_handle s' = lookup0 (sv_files v) (cstr (slot_path s)) \<and> sv_files v' = sv_files v
       \<or> lookup0 (sv_files v) (cstr (slot_path s)) = 0 \<and>
           io_fopen (cstr (slot_path s)) (cstr (slot_mode s)) (sv_io v) = (slot_handle s', sv_io v')"
proof (cases "lookup0 (sv_files v) (cstr (slot_path s)) = 0")
  case True
  with assms show ?thesis
    by (auto simp: fopen_effect_def fopen_once_def lookup0_def split: option.splits prod.splits)
next
  case False
  from assms have "fopen_once io_fopen (sv_files v) (cstr (slot_path s)) (cstr (slot_mode s)) (sv_io v) =
       (slot_handle s', sv_files v', sv_io v')" by (simp add: fopen_effect_def)
  with stdio.once_known [OF False] False show ?thesis by auto
qed

lemma fopen_effect_ok:
  assumes e: "fopen_effect s v s' v'" and ok: "service_ok v"
  shows "service_ok v'"
proof -
  let ?n = "cstr (slot_path s)"
  have o: "fopen_once io_fopen (sv_files v) ?n (cstr (slot_mode s)) (sv_io v) =
      (slot_handle s', sv_files v', sv_io v')" and t: "stdio.table_ok (sv_files v) (sv_io v)"
    using e ok by (auto simp: fopen_effect_def service_ok_def)
  have t': "stdio.table_ok (sv_files v') (sv_io v')" by (rule stdio.once_table_ok [OF t o])
  note lk = stdio.once_lookup [OF o]
  from fopen_effect_io [OF e] show ?thesis
  proof
    assume k: "lookup0 (sv_files v) ?n \<noteq> 0 \<and> sv_io v' = sv_io v \<and>
      slot_handle s' = lookup0 (sv_files v) ?n \<and> sv_files v' = sv_files v"
    with e have "sv_primary v' = sv_primary v" by (simp add: fopen_effect_def)
    with k t' ok show ?thesis by (auto simp: service_ok_def)
  next
    assume k: "lookup0 (sv_files v) ?n = 0 \<and>
      io_fopen ?n (cstr (slot_mode s)) (sv_io v) = (slot_handle s', sv_io v')"
    then consider "slot_handle s' = 0" "sv_io v' = sv_io v"
      | "opened ?n (cstr (slot_mode s)) (slot_handle s') (sv_io v) (sv_io v')"
      using io_fopen_cases by metis
    then show ?thesis
    proof cases
      case 1
      have z: "lookup0 (sv_files v') = lookup0 (sv_files v)" using lk k 1 by (auto simp: fun_eq_iff)
      have "sv_primary v' = 0 \<or> sv_primary v' = sv_primary v" using e 1 by (auto simp: fopen_effect_def)
      with ok t' 1 z show ?thesis by (auto simp: service_ok_def)
    next
      case 2
      from t have iok: "io_ok (sv_io v)" by (simp add: stdio.table_ok_def)
      have live: "io_live (sv_io v') = insert (slot_handle s') (io_live (sv_io v))"
        and str: "streams (sv_io v') = (streams (sv_io v))(slot_handle s' := Some (new_stream ?n (cstr (slot_mode s))))"
        using opened_ok [OF 2 iok] 2 by (auto simp: opened_def)
      have "lookup0 (sv_files v') (st_path st) = h" if "streams (sv_io v') h = Some st" for h st
      proof (cases "h = slot_handle s'")
        case True
        then show ?thesis using that str by (auto simp: lk new_stream_def Let_def)
      next
        case False
        then have "streams (sv_io v) h = Some st" using that str by simp
        then have "lookup0 (sv_files v) (st_path st) = h" "h \<noteq> 0"
          using ok iok by (auto simp: service_ok_def io_ok_def io_live_def)
        then show ?thesis using k by (auto simp: lk)
      qed
      moreover have "sv_primary v' = sv_primary v \<or> sv_primary v' = slot_handle s'"
        using e by (auto simp: fopen_effect_def)
      ultimately show ?thesis using t' ok live by (auto simp: service_ok_def)
    qed
  qed
qed

lemma service_slot_ok:
  assumes "service_slot s v = Some (s', v')" "service_ok v"
  shows "service_ok v'"
  using service_slot_effect [OF assms(1)]
proof (elim disjE)
  assume "fopen_effect s v s' v'"
  then show ?thesis using assms(2) by (rule fopen_effect_ok)
next
  assume "write_effect s v s' v'"
  then show ?thesis using io_fwrite_ok service_ok_io [OF assms(2)] unfolding write_effect_def by metis
next
  assume q: "quiet_effect s v s' v'"
  show ?thesis
  proof (cases "sv_io v' = sv_io v")
    case True
    then show ?thesis using q service_ok_io [OF assms(2), of v'] by (simp add: quiet_effect_def)
  next
    case False
    then show ?thesis using q io_fread_ok service_ok_io [OF assms(2)] unfolding quiet_effect_def by metis
  qed
qed

lemma service_slot_total:
  assumes "service_ok v" "request_ok v s"
  shows "\<exists>s' v'. service_slot s v = Some (s', v')"
proof -
  have w: "\<exists>n w'. io_fwrite d f (sv_io v) = Some (n, w')" if "f \<noteq> 0" "f = slot_handle s \<and> handle_ok v f \<or> f = sv_primary v" for d f
    using that assms(1) by (intro io_fwrite_some) (auto simp: handle_ok_def service_ok_def)
  have r: "\<exists>d w'. io_fread n f (sv_io v) = Some (d, w')" if "f \<noteq> 0" "handle_ok v f" for n f
    using that by (intro io_fread_some) (auto simp: handle_ok_def)
  have l: "streams (sv_io v) f \<noteq> None" if "f \<noteq> 0" "handle_ok v f" for f
    using that by (auto simp: handle_ok_def io_live_def)
  obtain h files w' where o: "fopen_once io_fopen (sv_files v) (cstr (slot_path s)) (cstr (slot_mode s)) (sv_io v) = (h, files, w')"
    using fopen_once_prod by metis
  consider "slot_opcode s = HC_OP_FOPEN" | "slot_opcode s = HC_OP_FWRITE"
    | "slot_opcode s = HC_OP_FWRITE_PTR" | "slot_opcode s = HC_OP_FREAD"
    | "slot_opcode s = HC_OP_FCLOSE" | "slot_opcode s = HC_OP_WRITE_ID"
    | "slot_opcode s \<notin> {1, 2, 3, 4, 5, 6}" by (auto simp: hc_ops)
  then show ?thesis
  proof cases
    case 1
    then show ?thesis by (simp add: service_slot_def o Let_def)
  next
    case 2
    with assms(2) w [of "slot_handle s" "take (nat (sint (slot_size s))) (slot_data s)"] show ?thesis
      by (auto simp: service_slot_def hc_ops Let_def request_ok_def slot_payload_def)
  next
    case 3
    with assms(2) l [of "slot_handle s"] show ?thesis
      using w [of "slot_handle s" "map (\<lambda>i. devmem (sv_io v) (slot_bufptr s + of_nat i)) [0..<nat (sint (slot_size s))]"]
      by (auto simp: service_slot_def hc_ops Let_def request_ok_def devmem_read_def)
  next
    case 4
    with assms(2) r [of "slot_handle s" "nat (sint (slot_size s))"] show ?thesis
      by (auto simp: service_slot_def hc_ops Let_def request_ok_def)
  next
    case 5
    with assms(2) l [of "slot_handle s"] show ?thesis
      by (auto simp: service_slot_def hc_ops Let_def request_ok_def)
  next
    case 6
    with w [of "sv_primary v" "site_line (slot_arg s)"] show ?thesis
      by (auto simp: service_slot_def hc_ops Let_def)
  next
    case 7
    then show ?thesis by (simp add: service_slot_def hc_ops Let_def)
  qed
qed

section \<open>The contents of a trace file\<close>

text \<open>
  \<open>log_of v p h old\<close>: the stream \<open>h\<close> writes at the end of the file \<open>p\<close>, whose contents
  are \<open>old\<close>, and a file is primary already.
\<close>

definition log_of :: "service \<Rightarrow> string \<Rightarrow> i64 \<Rightarrow> string \<Rightarrow> bool" where
  "log_of v p h old \<longleftrightarrow> h \<noteq> 0 \<and> sv_primary v \<noteq> 0 \<and> disk (sv_io v) p = Some old \<and>
     (case streams (sv_io v) h of None \<Rightarrow> False
      | Some st \<Rightarrow> st_path st = p \<and> st_write st \<and> (st_append st \<or> st_pos st = length old))"

lemma other_stream_path:
  assumes "service_ok v" "streams (sv_io v) f = Some st" "streams (sv_io v) h = Some st'" "f \<noteq> h"
  shows "st_path st \<noteq> st_path st'"
proof
  assume "st_path st = st_path st'"
  moreover have "lookup0 (sv_files v) (st_path st) = f" "lookup0 (sv_files v) (st_path st') = h"
    using assms(1-3) unfolding service_ok_def by blast+
  ultimately show False using assms(4) by simp
qed

lemma io_fwrite_log:
  assumes ok: "service_ok v" and l: "log_of v p h old"
    and w: "io_fwrite d f (sv_io v) = Some (n, w')"
  shows "if f = h then disk w' p = Some (old @ d) \<and> (\<exists>st. streams w' h = Some st \<and> st_path st = p \<and>
            st_write st \<and> (st_append st \<or> st_pos st = length (old @ d)))
         else disk w' p = Some old \<and> streams w' h = streams (sv_io v) h"
proof (cases "f = h")
  case True
  with l w show ?thesis
    by (auto simp: log_of_def io_fwrite_def Let_def split: option.splits if_splits)
next
  case False
  from w obtain st where st: "streams (sv_io v) f = Some st"
    by (auto simp: io_fwrite_def split: option.splits)
  from l obtain st' where st': "streams (sv_io v) h = Some st'" "st_path st' = p" "disk (sv_io v) p = Some old"
    by (auto simp: log_of_def split: option.splits)
  from other_stream_path [OF ok st st'(1) False] st'(2) have "st_path st \<noteq> p" by simp
  with w st st' False show ?thesis
    by (auto simp: io_fwrite_def Let_def split: if_splits)
qed

lemma io_fread_log:
  assumes "log_of v p h old" "io_fread k f (sv_io v) = Some (d, w')"
  shows "disk w' p = Some old \<and> (\<exists>st. streams w' h = Some st \<and> st_path st = p \<and> st_write st \<and>
     (st_append st \<or> st_pos st = length old))"
  using assms by (auto simp: log_of_def io_fread_def Let_def split: option.splits if_splits)

lemma service_slot_log:
  assumes s: "service_slot s v = Some (s', v')" and ok: "service_ok v" and l: "log_of v p h old"
  shows "log_of v' p h (old @ slot_output v s h)"
  using service_slot_effect [OF s]
proof (elim disjE)
  assume e: "fopen_effect s v s' v'"
  then have out: "slot_output v s h = []" by (simp add: fopen_effect_def slot_output_def hc_ops)
  have pr: "sv_primary v' = sv_primary v" using e l by (auto simp: fopen_effect_def log_of_def)
  obtain st where st: "streams (sv_io v) h = Some st" "st_path st = p"
    using l by (auto simp: log_of_def split: option.splits)
  have lk: "lookup0 (sv_files v) p = h" "h \<noteq> 0"
    using ok st l by (auto simp: service_ok_def log_of_def)
  let ?n = "cstr (slot_path s)"
  consider "sv_io v' = sv_io v"
    | "lookup0 (sv_files v) ?n = 0" "io_fopen ?n (cstr (slot_mode s)) (sv_io v) = (slot_handle s', sv_io v')"
    using fopen_effect_io [OF e] by blast
  then show ?thesis
  proof cases
    case 1
    with l pr out show ?thesis by (simp add: log_of_def)
  next
    case 2
    then have np: "?n \<noteq> p" using lk by auto
    from io_fopen_cases [OF 2(2)] show ?thesis
    proof
      assume o: "opened ?n (cstr (slot_mode s)) (slot_handle s') (sv_io v) (sv_io v')"
      have "io_ok (sv_io v)" using ok by (simp add: service_ok_def stdio.table_ok_def)
      from opened_ok [OF o this] st have "slot_handle s' \<noteq> h" by (auto simp: io_live_def)
      with l o np pr out show ?thesis by (simp add: log_of_def opened_def)
    qed (use l pr out in \<open>simp add: log_of_def\<close>)
  qed
next
  assume e: "write_effect s v s' v'"
  then obtain f n where f: "f \<noteq> 0" "io_fwrite (slot_output v s f) f (sv_io v) = Some (n, sv_io v')"
      "\<forall>k. k \<noteq> f \<longrightarrow> k \<noteq> 0 \<longrightarrow> slot_output v s k = []" "sv_primary v' = sv_primary v"
    by (auto simp: write_effect_def)
  show ?thesis
    using io_fwrite_log [OF ok l f(2)] f l
    by (cases "f = h") (auto simp: log_of_def)
next
  assume e: "quiet_effect s v s' v'"
  then have "slot_output v s h = []" "sv_primary v' = sv_primary v"
    using l by (auto simp: quiet_effect_def log_of_def)
  moreover have "disk (sv_io v') p = Some old \<and> (\<exists>st. streams (sv_io v') h = Some st \<and> st_path st = p \<and>
      st_write st \<and> (st_append st \<or> st_pos st = length old))"
  proof (cases "sv_io v' = sv_io v")
    case True
    with l show ?thesis by (auto simp: log_of_def split: option.splits)
  next
    case False
    with e obtain k f d where "io_fread k f (sv_io v) = Some (d, sv_io v')" by (auto simp: quiet_effect_def)
    from io_fread_log [OF l this] show ?thesis .
  qed
  ultimately show ?thesis using l by (auto simp: log_of_def)
qed

lemma io_fopen_devmem: "io_fopen p m w = (h, w') \<Longrightarrow> devmem w' = devmem w"
  using io_fopen_cases [of p m w h w'] by (auto simp: opened_def)

lemma service_slot_context:
  assumes s: "service_slot s v = Some (s', v')"
  shows "devmem (sv_io v') = devmem (sv_io v)" "sv_primary v \<noteq> 0 \<Longrightarrow> sv_primary v' = sv_primary v"
proof -
  show "devmem (sv_io v') = devmem (sv_io v)"
    using service_slot_effect [OF s]
  proof (elim disjE)
    assume "fopen_effect s v s' v'"
    from fopen_effect_io [OF this] show ?thesis by (auto dest: io_fopen_devmem)
  qed (auto simp: write_effect_def quiet_effect_def dest: io_fwrite_ok(3) io_fread_ok(3))
  show "sv_primary v \<noteq> 0 \<Longrightarrow> sv_primary v' = sv_primary v"
    using service_slot_effect [OF s] by (auto simp: effect_defs)
qed

lemma service_slot_live:
  assumes s: "service_slot s v = Some (s', v')" and ok: "service_ok v"
  shows "io_live (sv_io v) \<subseteq> io_live (sv_io v')"
  using service_slot_effect [OF s]
proof (elim disjE)
  assume "fopen_effect s v s' v'"
  from fopen_effect_io [OF this] show ?thesis
  proof
    assume k: "lookup0 (sv_files v) (cstr (slot_path s)) = 0 \<and>
      io_fopen (cstr (slot_path s)) (cstr (slot_mode s)) (sv_io v) = (slot_handle s', sv_io v')"
    have "io_ok (sv_io v)" using ok by (simp add: service_ok_def stdio.table_ok_def)
    with k io_fopen_cases [of "cstr (slot_path s)" "cstr (slot_mode s)" "sv_io v" "slot_handle s'" "sv_io v'"]
    show ?thesis by (auto dest: opened_ok)
  qed simp
qed (auto simp: write_effect_def quiet_effect_def dest: io_fwrite_ok(1) io_fread_ok(1))

lemma service_slot_handle:
  "service_slot s v = Some (s', v') \<Longrightarrow> slot_opcode s \<noteq> HC_OP_FOPEN \<Longrightarrow> slot_handle s' = slot_handle s"
  by (auto simp: service_slot_def Let_def split: if_splits option.splits prod.splits)

lemma request_ok_mono:
  "request_ok v s \<Longrightarrow> io_live (sv_io v) \<subseteq> io_live (sv_io v') \<Longrightarrow> request_ok v' s"
  by (auto simp: request_ok_def handle_ok_def)

lemma request_ok_after:
  assumes s: "service_slot s v = Some (s', v')" and ok: "service_ok v" "request_ok v s"
  shows "request_ok v' s'"
proof (cases "slot_opcode s = HC_OP_FOPEN")
  case True
  then show ?thesis using service_slot_frame(3) [OF s] by (simp add: request_ok_def hc_ops)
next
  case False
  from request_ok_mono [OF ok(2) service_slot_live [OF s ok(1)]] show ?thesis
    using service_slot_frame(3,7) [OF s] service_slot_handle [OF s False] by (simp add: request_ok_def)
qed

lemma slot_output_context:
  assumes "devmem (sv_io v') = devmem (sv_io v)" "sv_primary v' = sv_primary v"
  shows "slot_output v' s h = slot_output v s h"
  by (simp add: slot_output_def assms)

section \<open>One scan of the queue\<close>

definition ready :: "HostcallSlot \<Rightarrow> bool" where
  "ready s \<longleftrightarrow> slot_status s = 1"

lemma visit_slot_skip: "\<not> ready (sl ! i) \<Longrightarrow> visit_slot i (sl, v) = Some (False, sl, v)"
  by (simp add: visit_slot_def ready_def)

lemma visit_slot_serve:
  "ready (sl ! i) \<Longrightarrow> visit_slot i (sl, v) = Some (b, sl', v') \<Longrightarrow>
   \<exists>s'. b \<and> service_slot (sl ! i) v = Some (s', v') \<and> sl' = sl[i := s'\<lparr>slot_status := 2\<rparr>]"
  by (auto simp: visit_slot_def ready_def Let_def split: option.splits)

definition slot_done :: "HostcallSlot \<Rightarrow> HostcallSlot \<Rightarrow> bool" where
  "slot_done s s' \<longleftrightarrow> (if ready s then slot_status s' = 2 \<and> slot_turn s' = slot_turn s else s' = s)"

lemma visit_slot_nth:
  assumes "visit_slot i (sl, v) = Some (b, sl', v')" "i < length sl"
  shows "length sl' = length sl" "b \<longleftrightarrow> ready (sl ! i)" "slot_done (sl ! i) (sl' ! i)"
    "j \<noteq> i \<Longrightarrow> sl' ! j = sl ! j"
proof -
  have "length sl' = length sl \<and> (b \<longleftrightarrow> ready (sl ! i)) \<and> slot_done (sl ! i) (sl' ! i) \<and>
      (j \<noteq> i \<longrightarrow> sl' ! j = sl ! j)"
  proof (cases "ready (sl ! i)")
    case False
    then show ?thesis using assms visit_slot_skip [OF False, of v] by (auto simp: slot_done_def)
  next
    case True
    then show ?thesis using assms visit_slot_serve [OF True assms(1)]
      by (auto simp: slot_done_def dest: service_slot_frame(1))
  qed
  then show "length sl' = length sl" "b \<longleftrightarrow> ready (sl ! i)" "slot_done (sl ! i) (sl' ! i)"
    "j \<noteq> i \<Longrightarrow> sl' ! j = sl ! j" by simp_all
qed

text \<open>A scan turns every ready slot into a done slot, in index order, and touches no other.\<close>

lemma scan_from_nth:
  "scan_from n i any (sl, v) = Some (any', sl', v') \<Longrightarrow> i + n \<le> length sl \<Longrightarrow>
   length sl' = length sl \<and> (if i \<le> j \<and> j < i + n then slot_done (sl ! j) (sl' ! j) else sl' ! j = sl ! j)"
proof (induction n arbitrary: i any sl v)
  case (Suc n)
  from Suc.prems obtain b sl1 v1 where v: "visit_slot i (sl, v) = Some (b, sl1, v1)"
    and r: "scan_from n (Suc i) (any \<or> b) (sl1, v1) = Some (any', sl', v')"
    by (auto split: option.splits)
  have i: "i < length sl" using Suc.prems(2) by simp
  note nth = visit_slot_nth [OF v i]
  have IH: "length sl' = length sl1 \<and> (if Suc i \<le> j \<and> j < Suc i + n then slot_done (sl1 ! j) (sl' ! j) else sl' ! j = sl1 ! j)"
    by (rule Suc.IH [OF r]) (use nth Suc.prems(2) in simp)
  show ?case
  proof (cases "j = i")
    case True
    with IH nth show ?thesis by simp
  next
    case False
    have "(i \<le> j \<and> j < i + Suc n) = (Suc i \<le> j \<and> j < Suc i + n)" using False by auto
    with IH nth(1) nth(4) [OF False] show ?thesis by (auto split: if_splits)
  qed
qed auto

lemma scan_from_any:
  "scan_from n i any (sl, v) = Some (any', sl', v') \<Longrightarrow> i + n \<le> length sl \<Longrightarrow>
   any' \<longleftrightarrow> any \<or> filter ready (take n (drop i sl)) \<noteq> []"
proof (induction n arbitrary: i any sl v)
  case (Suc n)
  from Suc.prems obtain b sl1 v1 where v: "visit_slot i (sl, v) = Some (b, sl1, v1)"
    and r: "scan_from n (Suc i) (any \<or> b) (sl1, v1) = Some (any', sl', v')"
    by (auto split: option.splits)
  have i: "i < length sl" using Suc.prems(2) by simp
  note nth = visit_slot_nth [OF v i]
  have "drop (Suc i) sl1 = drop (Suc i) sl"
    by (rule nth_equalityI) (use nth in auto)
  with Suc.IH [OF r] Suc.prems(2) nth show ?case
    by (simp add: Cons_nth_drop_Suc [OF i, symmetric])
qed simp

lemma scan_from_log:
  "scan_from n i any (sl, v) = Some (any', sl', v') \<Longrightarrow> i + n \<le> length sl \<Longrightarrow>
   service_ok v \<Longrightarrow> log_of v p h old \<Longrightarrow>
   service_ok v' \<and>
   log_of v' p h (old @ concat (map (\<lambda>s. slot_output v s h) (filter ready (take n (drop i sl)))))"
proof (induction n arbitrary: i any sl v old)
  case (Suc n)
  from Suc.prems obtain b sl1 v1 where v: "visit_slot i (sl, v) = Some (b, sl1, v1)"
    and r: "scan_from n (Suc i) (any \<or> b) (sl1, v1) = Some (any', sl', v')"
    by (auto split: option.splits)
  have i: "i < length sl" using Suc.prems(2) by simp
  note nth = visit_slot_nth [OF v i]
  have d: "drop (Suc i) sl1 = drop (Suc i) sl"
    by (rule nth_equalityI) (use nth in auto)
  have le: "Suc i + n \<le> length sl1" using Suc.prems(2) nth(1) by simp
  show ?case
  proof (cases "ready (sl ! i)")
    case False
    with v have "v1 = v" by (simp add: visit_slot_skip)
    with Suc.IH [OF r le] Suc.prems d False show ?thesis
      by (simp add: Cons_nth_drop_Suc [OF i, symmetric])
  next
    case True
    from visit_slot_serve [OF True v] obtain s' where s: "service_slot (sl ! i) v = Some (s', v1)" by blast
    have "sv_primary v \<noteq> 0" using Suc.prems(4) by (simp add: log_of_def)
    then have "slot_output v1 x h = slot_output v x h" for x
      using service_slot_context [OF s] by (intro slot_output_context) auto
    with Suc.IH [OF r le service_slot_ok [OF s Suc.prems(3)] service_slot_log [OF s Suc.prems(3,4)]] d True
    show ?thesis by (simp add: Cons_nth_drop_Suc [OF i, symmetric])
  qed
qed simp

lemma close_all_streams:
  "streams (close_all fs w) h = (if h \<noteq> 0 \<and> h \<in> snd ` set fs then None else streams w h)"
  by (induction fs w rule: close_all.induct) (auto simp: io_fclose_def)

lemma close_all_disk: "disk (close_all fs w) = disk w"
  by (induction fs w rule: close_all.induct) (auto simp: io_fclose_def)

lemma lookup0_in: "lookup0 fs n = h \<Longrightarrow> h \<noteq> 0 \<Longrightarrow> h \<in> snd ` set fs"
  by (force simp: lookup0_def split: option.splits dest: map_of_SomeD)

lemma close_all_none:
  assumes "service_ok v"
  shows "streams (close_all (sv_files v) (sv_io v)) h = None"
proof (cases "streams (sv_io v) h")
  case None
  then show ?thesis by (simp add: close_all_streams)
next
  case (Some st)
  then have "lookup0 (sv_files v) (st_path st) = h" "h \<noteq> 0"
    using assms by (auto simp: service_ok_def stdio.table_ok_def io_ok_def io_live_def)
  from lookup0_in [OF this] show ?thesis using \<open>h \<noteq> 0\<close> by (simp add: close_all_streams)
qed

text \<open>With well-formed requests no pass of the loop is undefined.\<close>

lemma visit_slot_total:
  assumes "service_ok v" "\<forall>s \<in> set sl. ready s \<longrightarrow> request_ok v s" "i < length sl"
  shows "\<exists>b sl' v'. visit_slot i (sl, v) = Some (b, sl', v') \<and> length sl' = length sl \<and>
    service_ok v' \<and> (\<forall>s \<in> set sl'. ready s \<longrightarrow> request_ok v' s)"
proof (cases "ready (sl ! i)")
  case False
  then show ?thesis using assms by (auto simp: visit_slot_skip)
next
  case True
  then have r: "request_ok v (sl ! i)" using assms by simp
  from service_slot_total [OF assms(1) r] obtain s' v' where s: "service_slot (sl ! i) v = Some (s', v')" by blast
  have "request_ok v' x" if x: "x \<in> set (sl[i := s'\<lparr>slot_status := 2\<rparr>])" "ready x" for x
  proof -
    have "x \<in> set sl"
      using set_update_subset_insert [of sl i "s'\<lparr>slot_status := 2\<rparr>"] x by (auto simp: ready_def)
    with assms(2) x(2) show ?thesis
      using request_ok_mono [OF _ service_slot_live [OF s assms(1)]] by blast
  qed
  with True s service_slot_ok [OF s assms(1)] show ?thesis
    by (auto simp: visit_slot_def ready_def)
qed

lemma scan_from_total:
  "service_ok v \<Longrightarrow> \<forall>s \<in> set sl. ready s \<longrightarrow> request_ok v s \<Longrightarrow> i + n \<le> length sl \<Longrightarrow>
   \<exists>any' sl' v'. scan_from n i any (sl, v) = Some (any', sl', v')"
proof (induction n arbitrary: i any sl v)
  case (Suc n)
  then have "i < length sl" by simp
  from visit_slot_total [OF Suc.prems(1,2) this] obtain b sl1 v1 where
    v1: "visit_slot i (sl, v) = Some (b, sl1, v1)" "length sl1 = length sl" "service_ok v1"
      "\<forall>s \<in> set sl1. ready s \<longrightarrow> request_ok v1 s" by blast
  from Suc.IH [OF v1(3,4)] Suc.prems(3) v1(1,2) show ?case by simp
qed simp

end
