(* ===== verification/Ring_Protocol.thy ===== *)
theory Ring_Protocol
  imports Host_Service
begin

text \<open>
  The handshake between the wavefronts and the CPU service loop as an interleaving of atomic
  steps: \<open>hc_acquire\<close>, \<open>hc_call_and_wait\<close> and \<open>hc_release\<close> of
  \<open>runtime/device/hostcall_lib.cpp\<close> on the elected lane of each wave, and the body of
  \<open>hostcall_service_loop\<close> on the CPU. Counters are 32-bit words as in the code. A wave that
  spins has no step until the word it reads has the awaited value. The ghost state counts
  tickets and generations without wrap-around and records every service; it never
  influences the code's state.
\<close>

section \<open>The code's state and steps\<close>

datatype wave_pc = WIdle | WSpin | WOwn | WReady | WWait | WRead | WClear | WTurn

record wave =
  w_pc :: wave_pc
  w_pos :: u32
  w_req :: request
  w_todo :: "request list"
  w_done :: "hc_result list"

datatype cpu_pc = CLook | CServe | CDone

record ring =
  rg_q :: HostcallQueue
  rg_wave :: "nat \<Rightarrow> wave"
  rg_sv :: service
  rg_cur :: nat
  rg_cpu :: cpu_pc

definition slot_of :: "HostcallQueue \<Rightarrow> nat \<Rightarrow> HostcallSlot" where
  "slot_of q i = slots q ! i"

definition set_slot :: "HostcallQueue \<Rightarrow> nat \<Rightarrow> HostcallSlot \<Rightarrow> HostcallQueue" where
  "set_slot q i s = q\<lparr>slots := (slots q)[i := s]\<rparr>"

text \<open>\<open>hc_acquire\<close>: the ticket (\<open>atomicAdd\<close>), then the generation gate.\<close>

definition hc_take_ticket :: "HostcallQueue \<Rightarrow> u32 \<times> HostcallQueue" where
  "hc_take_ticket q = (enqueue_pos q, q\<lparr>enqueue_pos := enqueue_pos q + 1\<rparr>)"

definition hc_gate :: "HostcallQueue \<Rightarrow> u32 \<Rightarrow> bool" where
  "hc_gate q pos \<longleftrightarrow> slot_turn (slot_of q (slot_index pos)) = pos"

text \<open>\<open>hc_call_and_wait\<close>: the marshalled request, the signal, the awaited answer.\<close>

definition hc_marshal :: "request \<Rightarrow> u32 \<Rightarrow> HostcallQueue \<Rightarrow> HostcallQueue" where
  "hc_marshal r pos q = set_slot q (slot_index pos) (submit r (slot_of q (slot_index pos)))"

definition hc_publish :: "u32 \<Rightarrow> HostcallQueue \<Rightarrow> HostcallQueue" where
  "hc_publish pos q =
     set_slot q (slot_index pos) ((slot_of q (slot_index pos))\<lparr>slot_status := 1\<rparr>)"

definition hc_done :: "HostcallQueue \<Rightarrow> u32 \<Rightarrow> bool" where
  "hc_done q pos \<longleftrightarrow> slot_status (slot_of q (slot_index pos)) = 2"

text \<open>\<open>hc_release\<close>: clear the status, then hand the slot to the next generation.\<close>

definition hc_clear :: "u32 \<Rightarrow> HostcallQueue \<Rightarrow> HostcallQueue" where
  "hc_clear pos q =
     set_slot q (slot_index pos) ((slot_of q (slot_index pos))\<lparr>slot_status := 0\<rparr>)"

definition hc_next_turn :: "u32 \<Rightarrow> HostcallQueue \<Rightarrow> HostcallQueue" where
  "hc_next_turn pos q =
     (let s = slot_of q (slot_index pos)
      in set_slot q (slot_index pos) (s\<lparr>slot_turn := slot_turn s + of_nat HC_NSLOTS\<rparr>))"

definition wave_step :: "nat \<Rightarrow> ring \<Rightarrow> ring option" where
  "wave_step w c =
     (let v = rg_wave c w; q = rg_q c; pos = w_pos v;
          upd = (\<lambda>q' v'. Some (c\<lparr>rg_q := q', rg_wave := (rg_wave c)(w := v')\<rparr>))
      in case w_pc v of
        WIdle \<Rightarrow> (case w_todo v of [] \<Rightarrow> None
          | r # rs \<Rightarrow> (let (p, q') = hc_take_ticket q
                     in upd q' (v\<lparr>w_pc := WSpin, w_pos := p, w_req := r, w_todo := rs\<rparr>)))
      | WSpin \<Rightarrow> if hc_gate q pos then upd q (v\<lparr>w_pc := WOwn\<rparr>) else None
      | WOwn \<Rightarrow> upd (hc_marshal (w_req v) pos q) (v\<lparr>w_pc := WReady\<rparr>)
      | WReady \<Rightarrow> upd (hc_publish pos q) (v\<lparr>w_pc := WWait\<rparr>)
      | WWait \<Rightarrow> if hc_done q pos then upd q (v\<lparr>w_pc := WRead\<rparr>) else None
      | WRead \<Rightarrow> upd q (v\<lparr>w_pc := WClear,
          w_done := w_done v @ [reply (w_req v) (slot_of q (slot_index pos))]\<rparr>)
      | WClear \<Rightarrow> upd (hc_clear pos q) (v\<lparr>w_pc := WTurn\<rparr>)
      | WTurn \<Rightarrow> upd (hc_next_turn pos q) (v\<lparr>w_pc := WIdle\<rparr>))"

text \<open>
  The CPU looks at one slot after the other, pass after pass: load the status; service the
  request; store status 2.
\<close>

definition cpu_next :: "nat \<Rightarrow> nat" where
  "cpu_next i = (if Suc i < HC_NSLOTS then Suc i else 0)"

definition cpu_step :: "ring \<Rightarrow> ring option" where
  "cpu_step c =
     (let i = rg_cur c; s = slot_of (rg_q c) i
      in case rg_cpu c of
        CLook \<Rightarrow> if slot_status s = 1 then Some (c\<lparr>rg_cpu := CServe\<rparr>)
                 else Some (c\<lparr>rg_cur := cpu_next i\<rparr>)
      | CServe \<Rightarrow> (case service_slot s (rg_sv c) of None \<Rightarrow> None
          | Some (s', v') \<Rightarrow> Some (c\<lparr>rg_q := set_slot (rg_q c) i s', rg_sv := v', rg_cpu := CDone\<rparr>))
      | CDone \<Rightarrow> Some (c\<lparr>rg_q := set_slot (rg_q c) i (s\<lparr>slot_status := 2\<rparr>),
                         rg_cur := cpu_next i, rg_cpu := CLook\<rparr>))"

datatype event = Wave nat | Cpu

fun ring_step :: "ring \<Rightarrow> event \<Rightarrow> ring option" where
  "ring_step c (Wave w) = wave_step w c"
| "ring_step c Cpu = cpu_step c"

definition idle_wave :: "request list \<Rightarrow> wave" where
  "idle_wave rs = \<lparr>w_pc = WIdle, w_pos = 0, w_req = Hc_close, w_todo = rs, w_done = []\<rparr>"

definition ring_init :: "(nat \<Rightarrow> request list) \<Rightarrow> service \<Rightarrow> ring" where
  "ring_init R sv = \<lparr>rg_q = queue_init, rg_wave = (\<lambda>w. idle_wave (R w)), rg_sv = sv,
     rg_cur = 0, rg_cpu = CLook\<rparr>"

section \<open>Ghost state\<close>

record log_entry =
  le_wave :: nat
  le_req :: request
  le_before :: HostcallSlot
  le_after :: HostcallSlot

record ghost =
  g_next :: nat
  g_tick :: "nat \<Rightarrow> nat"
  g_gen :: "nat \<Rightarrow> nat"
  g_owner :: "nat \<Rightarrow> nat"
  g_log :: "log_entry list"

definition ghost_init :: ghost where
  "ghost_init = \<lparr>g_next = 0, g_tick = (\<lambda>w. 0), g_gen = (\<lambda>i. i), g_owner = (\<lambda>i. 0), g_log = []\<rparr>"

fun ghost_step :: "ring \<Rightarrow> event \<Rightarrow> ring \<Rightarrow> ghost \<Rightarrow> ghost" where
  "ghost_step c (Wave w) c' g =
     (let v = rg_wave c w; i = slot_index (w_pos v)
      in case w_pc v of
        WIdle \<Rightarrow> g\<lparr>g_next := Suc (g_next g), g_tick := (g_tick g)(w := g_next g)\<rparr>
      | WSpin \<Rightarrow> g\<lparr>g_owner := (g_owner g)(i := w)\<rparr>
      | WTurn \<Rightarrow> g\<lparr>g_gen := (g_gen g)(i := g_gen g i + HC_NSLOTS)\<rparr>
      | _ \<Rightarrow> g)"
| "ghost_step c Cpu c' g =
     (let i = rg_cur c; w = g_owner g i
      in if rg_cpu c = CServe then
           g\<lparr>g_log := g_log g @ [\<lparr>le_wave = w, le_req = w_req (rg_wave c w),
             le_before = slot_of (rg_q c) i, le_after = slot_of (rg_q c') i\<rparr>]\<rparr>
         else g)"

definition traced_step :: "ring \<times> ghost \<Rightarrow> event \<Rightarrow> ring \<times> ghost \<Rightarrow> bool" where
  "traced_step cg e cg' \<longleftrightarrow>
     ring_step (fst cg) e = Some (fst cg') \<and> snd cg' = ghost_step (fst cg) e (fst cg') (snd cg)"

section \<open>The control invariant\<close>

definition active :: "wave_pc \<Rightarrow> bool" where
  "active pc \<longleftrightarrow> pc \<noteq> WIdle"

definition owning :: "wave_pc \<Rightarrow> bool" where
  "owning pc \<longleftrightarrow> pc \<noteq> WIdle \<and> pc \<noteq> WSpin"

definition tslot :: "ghost \<Rightarrow> nat \<Rightarrow> nat" where
  "tslot g w = g_tick g w mod HC_NSLOTS"

definition busy :: "ring \<Rightarrow> nat \<Rightarrow> bool" where
  "busy c i \<longleftrightarrow> rg_cur c = i \<and> rg_cpu c \<noteq> CLook"

definition pc_of :: "ring \<Rightarrow> nat \<Rightarrow> wave_pc" where
  "pc_of c w = w_pc (rg_wave c w)"

definition owned :: "ring \<Rightarrow> ghost \<Rightarrow> nat \<Rightarrow> bool" where
  "owned c g i \<longleftrightarrow> owning (pc_of c (g_owner g i)) \<and> tslot g (g_owner g i) = i"

fun status_ok :: "wave_pc \<Rightarrow> i32 \<Rightarrow> bool \<Rightarrow> bool" where
  "status_ok WWait st b \<longleftrightarrow> st = 1 \<or> (st = 2 \<and> \<not> b)"
| "status_ok WRead st b \<longleftrightarrow> st = 2 \<and> \<not> b"
| "status_ok WClear st b \<longleftrightarrow> st = 2 \<and> \<not> b"
| "status_ok _ st b \<longleftrightarrow> st = 0 \<and> \<not> b"

definition slot_inv :: "ring \<Rightarrow> ghost \<Rightarrow> nat \<Rightarrow> bool" where
  "slot_inv c g i \<longleftrightarrow> slot_turn (slot_of (rg_q c) i) = of_nat (g_gen g i) \<and>
     g_gen g i mod HC_NSLOTS = i \<and> slot_wf (slot_of (rg_q c) i) \<and>
     (if owned c g i then status_ok (pc_of c (g_owner g i)) (slot_status (slot_of (rg_q c) i)) (busy c i)
      else slot_status (slot_of (rg_q c) i) = 0 \<and> \<not> busy c i)"

definition wave_inv :: "nat \<Rightarrow> ring \<Rightarrow> ghost \<Rightarrow> nat \<Rightarrow> bool" where
  "wave_inv W c g w \<longleftrightarrow> (active (pc_of c w) \<longrightarrow>
     w_pos (rg_wave c w) = of_nat (g_tick g w) \<and>
     g_gen g (tslot g w) \<le> g_tick g w \<and> g_tick g w < g_next g \<and>
     (owning (pc_of c w) \<longrightarrow> g_tick g w = g_gen g (tslot g w) \<and> g_owner g (tslot g w) = w))"

definition ctl_inv :: "nat \<Rightarrow> ring \<Rightarrow> ghost \<Rightarrow> bool" where
  "ctl_inv W c g \<longleftrightarrow> length (slots (rg_q c)) = HC_NSLOTS \<and> enqueue_pos (rg_q c) = of_nat (g_next g) \<and>
     rg_cur c < HC_NSLOTS \<and>
     (\<forall>i < HC_NSLOTS. slot_inv c g i) \<and> (\<forall>w. wave_inv W c g w) \<and>
     (\<forall>i < HC_NSLOTS. g_gen g i < g_next g + HC_NSLOTS) \<and>
     (\<forall>w \<ge> W. w_pc (rg_wave c w) = WIdle \<and> w_todo (rg_wave c w) = []) \<and>
     (\<forall>w w'. active (pc_of c w) \<longrightarrow> active (pc_of c w') \<longrightarrow> g_tick g w = g_tick g w' \<longrightarrow> w = w') \<and>
     (\<forall>t < g_next g. t < g_gen g (t mod HC_NSLOTS) \<or> (\<exists>w. active (pc_of c w) \<and> g_tick g w = t))"

lemma ctl_invI:
  assumes "length (slots (rg_q c)) = HC_NSLOTS" "enqueue_pos (rg_q c) = of_nat (g_next g)"
    "rg_cur c < HC_NSLOTS" "\<And>i. i < HC_NSLOTS \<Longrightarrow> slot_inv c g i" "\<And>w. wave_inv W c g w"
    "\<And>i. i < HC_NSLOTS \<Longrightarrow> g_gen g i < g_next g + HC_NSLOTS"
    "\<And>w. W \<le> w \<Longrightarrow> w_pc (rg_wave c w) = WIdle \<and> w_todo (rg_wave c w) = []"
    "\<And>w w'. active (pc_of c w) \<Longrightarrow> active (pc_of c w') \<Longrightarrow> g_tick g w = g_tick g w' \<Longrightarrow> w = w'"
    "\<And>t. t < g_next g \<Longrightarrow> \<not> t < g_gen g (t mod HC_NSLOTS) \<Longrightarrow>
       \<exists>w. active (pc_of c w) \<and> g_tick g w = t"
  shows "ctl_inv W c g"
  using assms unfolding ctl_inv_def by blast

lemma nslots_pos [simp]: "0 < HC_NSLOTS" by (simp add: HC_NSLOTS_def)

lemma tslot_less [simp]: "tslot g w < HC_NSLOTS" by (simp add: tslot_def)

lemma cpu_next_less [simp]: "cpu_next i < HC_NSLOTS" by (simp add: cpu_next_def)

lemma slot_of_set [simp]:
  "i < length (slots q) \<Longrightarrow> slot_of (set_slot q i s) j = (if j = i then s else slot_of q j)"
  by (simp add: slot_of_def set_slot_def nth_list_update)

lemma set_slot_sel [simp]:
  "length (slots (set_slot q i s)) = length (slots q)" "enqueue_pos (set_slot q i s) = enqueue_pos q"
  by (simp_all add: set_slot_def)

lemma slot_of_enqueue [simp]: "slot_of (q\<lparr>enqueue_pos := p\<rparr>) i = slot_of q i"
  by (simp add: slot_of_def)

text \<open>
  The tickets of one slot that are taken but not yet past are held by distinct waves, so the
  distance between a waiting ticket and the slot's generation is below \<open>256 W\<close>; with
  \<open>W \<le> 2\<^sup>2\<^sup>4\<close> the 32-bit comparison of the gate is exact.
\<close>

lemma mod_window:
  fixes a n N :: nat
  assumes "a mod N = n mod N" "a < n + N"
  shows "a \<le> n"
proof (rule ccontr)
  assume "\<not> a \<le> n"
  then have "n \<le> a" "0 < a - n" "a - n < N" using assms(2) by auto
  moreover from this(1) have "N dvd a - n" using assms(1) by (simp only: mod_eq_dvd_iff_nat)
  ultimately show False by (auto dest: nat_dvd_not_less)
qed

lemma ctl_outstanding:
  assumes "ctl_inv W c g" "t < g_next g" "g_gen g (t mod HC_NSLOTS) \<le> t"
  shows "\<exists>w. active (pc_of c w) \<and> g_tick g w = t"
proof -
  from assms(1,2) have "t < g_gen g (t mod HC_NSLOTS) \<or> (\<exists>w. active (pc_of c w) \<and> g_tick g w = t)"
    unfolding ctl_inv_def by blast
  with assms(3) show ?thesis by simp
qed

lemma ctl_idle: "ctl_inv W c g \<Longrightarrow> W \<le> w \<Longrightarrow> w_pc (rg_wave c w) = WIdle \<and> w_todo (rg_wave c w) = []"
  by (simp add: ctl_inv_def)

lemma active_less: "ctl_inv W c g \<Longrightarrow> active (pc_of c w) \<Longrightarrow> w < W"
  using ctl_idle [of W c g w] by (auto simp: active_def pc_of_def not_less [symmetric])

lemma ticket_window:
  assumes c: "ctl_inv W c g" and a: "active (pc_of c w)"
  shows "g_tick g w - g_gen g (tslot g w) < HC_NSLOTS * W"
proof -
  let ?N = "HC_NSLOTS" and ?i = "tslot g w" and ?t = "g_tick g w"
  let ?G = "g_gen g ?i"
  have wi: "wave_inv W c g w" using c by (simp add: ctl_inv_def)
  have le: "?G \<le> ?t" and nx: "?t < g_next g" using wi a by (auto simp: wave_inv_def)
  have gm: "?G mod ?N = ?i" using c by (simp add: ctl_inv_def slot_inv_def)
  define k where "k = (?t - ?G) div ?N"
  have "?t mod ?N = ?G mod ?N" using gm by (simp add: tslot_def)
  then have "?N dvd ?t - ?G" using le by (simp only: mod_eq_dvd_iff_nat)
  then have "?N * k = ?t - ?G" unfolding k_def by (rule dvd_mult_div_cancel)
  then have t: "?t = ?G + ?N * k" using le by simp
  have "\<exists>v. active (pc_of c v) \<and> g_tick g v = ?G + ?N * j" if "j \<le> k" for j
  proof -
    have "?G + ?N * j \<le> ?t" using t that by simp
    then have "?G + ?N * j < g_next g" using nx by simp
    moreover have "(?G + ?N * j) mod ?N = ?i" using gm by simp
    ultimately show ?thesis using ctl_outstanding [OF c, of "?G + ?N * j"] by simp
  qed
  then obtain f where f: "\<And>j. j \<le> k \<Longrightarrow> active (pc_of c (f j)) \<and> g_tick g (f j) = ?G + ?N * j" by metis
  have "inj_on f {..k}"
  proof (rule inj_onI)
    fix a b assume ab: "a \<in> {..k}" "b \<in> {..k}" "f a = f b"
    have "?G + ?N * a = g_tick g (f a)" "?G + ?N * b = g_tick g (f b)" using f ab(1,2) by simp_all
    with ab(3) show "a = b" by (simp add: HC_NSLOTS_def)
  qed
  moreover have "f ` {..k} \<subseteq> {..<W}"
  proof (rule image_subsetI)
    fix j assume "j \<in> {..k}"
    then have "active (pc_of c (f j))" using f [of j] by simp
    then show "f j \<in> {..<W}" using active_less [OF c] by simp
  qed
  ultimately have "card {..k} \<le> card {..<W}" using card_inj_on_le by blast
  then have "Suc k \<le> W" by simp
  then have "?N * k < ?N * W" by simp
  with t show ?thesis by simp
qed

lemma gate_exact:
  assumes c: "ctl_inv W c g" and W: "W \<le> 2 ^ 24" and a: "active (pc_of c w)"
  shows "hc_gate (rg_q c) (w_pos (rg_wave c w)) \<longleftrightarrow> g_tick g w = g_gen g (tslot g w)"
proof -
  have wi: "wave_inv W c g w" and si: "slot_inv c g (tslot g w)"
    using c by (simp_all add: ctl_inv_def)
  have pos: "w_pos (rg_wave c w) = of_nat (g_tick g w)" and le: "g_gen g (tslot g w) \<le> g_tick g w"
    using wi a by (auto simp: wave_inv_def)
  have "g_tick g w - g_gen g (tslot g w) < HC_NSLOTS * W" by (rule ticket_window [OF c a])
  also have "\<dots> \<le> HC_NSLOTS * 2 ^ 24" using W by simp
  finally have lt: "g_tick g w - g_gen g (tslot g w) < 2 ^ 32" by (simp add: HC_NSLOTS_def)
  have "hc_gate (rg_q c) (w_pos (rg_wave c w)) \<longleftrightarrow> (of_nat (g_gen g (tslot g w)) :: u32) = of_nat (g_tick g w)"
    using si by (simp add: hc_gate_def pos slot_inv_def tslot_def)
  also have "\<dots> \<longleftrightarrow> (of_nat (g_tick g w - g_gen g (tslot g w)) :: u32) = 0"
    using le by (auto simp: of_nat_diff)
  also have "\<dots> \<longleftrightarrow> g_tick g w - g_gen g (tslot g w) = 0"
    using lt by (simp only: word_of_nat_eq_0_iff) (auto dest: nat_dvd_not_less)
  finally show ?thesis using le by auto
qed

lemma slot_index_pos:
  assumes "ctl_inv W c g" "active (pc_of c w)"
  shows "slot_index (w_pos (rg_wave c w)) = tslot g w"
  using assms by (simp add: ctl_inv_def wave_inv_def tslot_def)

lemma owner_slot:
  assumes "ctl_inv W c g" "owning (pc_of c w)"
  shows "g_owner g (tslot g w) = w" "owned c g (tslot g w)" "g_tick g w = g_gen g (tslot g w)"
proof -
  have "wave_inv W c g w" "active (pc_of c w)"
    using assms by (auto simp: ctl_inv_def owning_def active_def)
  then show o: "g_owner g (tslot g w) = w" and "g_tick g w = g_gen g (tslot g w)"
    using assms(2) by (auto simp: wave_inv_def)
  show "owned c g (tslot g w)" using assms(2) by (simp add: owned_def o)
qed

text \<open>A slot has at most one owner: mutual exclusion.\<close>

lemma owner_unique:
  assumes "ctl_inv W c g" "owning (pc_of c w)" "owning (pc_of c w')" "tslot g w = tslot g w'"
  shows "w = w'"
proof -
  have "g_owner g (tslot g w) = w'" unfolding assms(4) by (rule owner_slot(1) [OF assms(1,3)])
  with owner_slot(1) [OF assms(1,2)] show ?thesis by (rule trans [OF sym])
qed

lemma ctl_init:
  assumes "\<And>w. W \<le> w \<Longrightarrow> R w = []"
  shows "ctl_inv W (ring_init R sv) ghost_init"
proof -
  have "slot_inv (ring_init R sv) ghost_init i" if "i < HC_NSLOTS" for i
    using that queue_init_slot [OF that]
    by (simp add: slot_inv_def ring_init_def ghost_init_def slot_of_def owned_def owning_def pc_of_def
        idle_wave_def busy_def zero_slot_def slot_wf_def)
  moreover have "wave_inv W (ring_init R sv) ghost_init w" for w
    by (simp add: wave_inv_def ring_init_def pc_of_def idle_wave_def active_def)
  moreover have "\<not> active (pc_of (ring_init R sv) w)" for w
    by (simp add: ring_init_def pc_of_def idle_wave_def active_def)
  moreover have "length (slots (rg_q (ring_init R sv))) = HC_NSLOTS"
    "enqueue_pos (rg_q (ring_init R sv)) = 0" "rg_cur (ring_init R sv) = 0"
    "w_pc (rg_wave (ring_init R sv) w) = WIdle" "w_todo (rg_wave (ring_init R sv) w) = R w" for w
    by (simp_all add: ring_init_def queue_init_def idle_wave_def)
  moreover have "g_next ghost_init = 0" "g_gen ghost_init i = i" for i by (simp_all add: ghost_init_def)
  ultimately show ?thesis using assms by (simp add: ctl_inv_def)
qed

lemma ctl_len: "ctl_inv W c g \<Longrightarrow> length (slots (rg_q c)) = HC_NSLOTS"
  by (simp add: ctl_inv_def)

lemma ctl_slot: "ctl_inv W c g \<Longrightarrow> i < HC_NSLOTS \<Longrightarrow> slot_inv c g i"
  by (simp add: ctl_inv_def)

lemma ctl_wave: "ctl_inv W c g \<Longrightarrow> wave_inv W c g w"
  by (simp add: ctl_inv_def)

lemma owning_active [simp]: "owning pc \<Longrightarrow> active pc"
  by (simp add: owning_def active_def)

lemma set_slot_same [simp]: "set_slot q i (slot_of q i) = q"
  by (simp add: set_slot_def slot_of_def)

text \<open>
  Preservation, in four shapes: the steps of a wave inside its slot, the ticket, the gate, and
  the hand-over; then the steps of the CPU.
\<close>

lemma ctl_owner_step:
  assumes c: "ctl_inv W c g" and w: "owning (pc_of c w)" and i: "i = tslot g w"
    and v: "owning (w_pc v)" "w_pos v = w_pos (rg_wave c w)" "w_todo v = w_todo (rg_wave c w)"
    and s: "slot_turn s = slot_turn (slot_of (rg_q c) i)" "slot_wf s"
      "status_ok (w_pc v) (slot_status s) (busy c i)"
  shows "ctl_inv W (c\<lparr>rg_q := set_slot (rg_q c) i s, rg_wave := (rg_wave c)(w := v)\<rparr>) g"
    (is "ctl_inv W ?c g")
proof -
  note len = ctl_len [OF c]
  have iN: "i < HC_NSLOTS" by (simp add: i)
  have pc: "pc_of ?c x = (if x = w then w_pc v else pc_of c x)" for x by (simp add: pc_of_def)
  have act: "active (pc_of ?c x) = active (pc_of c x)" and own: "owning (pc_of ?c x) = owning (pc_of c x)" for x
    using w v(1) by (auto simp: pc)
  have sl: "slot_of (rg_q ?c) j = (if j = i then s else slot_of (rg_q c) j)" for j
    using iN len by simp
  have ow: "owned ?c g j = owned c g j" for j by (simp add: owned_def own)
  have b: "busy ?c j = busy c j" for j by (simp add: busy_def)
  have oi: "owned c g i" "g_owner g i = w" using owner_slot [OF c w] by (simp_all add: i)
  have "slot_inv ?c g j" if j: "j < HC_NSLOTS" for j
  proof (cases "j = i")
    case True
    with ctl_slot [OF c j] s oi iN len show ?thesis by (simp add: slot_inv_def ow b pc)
  next
    case False
    have "g_owner g j \<noteq> w" if "owned c g j" using that False i by (auto simp: owned_def)
    with ctl_slot [OF c j] False iN len show ?thesis by (auto simp: slot_inv_def ow b pc)
  qed
  moreover have "wave_inv W ?c g x" for x
    using ctl_wave [OF c, of x] v(2) unfolding wave_inv_def act own by auto
  moreover have "w_pc (rg_wave c w) \<noteq> WIdle" using w by (auto simp: owning_def pc_of_def)
  moreover have "\<not> W \<le> w" using active_less [OF c owning_active [OF w]] by simp
  ultimately show ?thesis
    using c unfolding ctl_inv_def act by (simp add: v(3)) blast
qed

lemma ctl_take:
  assumes c: "ctl_inv W c g" and w: "pc_of c w = WIdle" and r: "w_todo (rg_wave c w) = r # rs"
    and v: "w_pc v = WSpin" "w_pos v = enqueue_pos (rg_q c)"
    and g': "g' = g\<lparr>g_next := Suc (g_next g), g_tick := (g_tick g)(w := g_next g)\<rparr>"
  shows "ctl_inv W (c\<lparr>rg_q := rg_q c\<lparr>enqueue_pos := enqueue_pos (rg_q c) + 1\<rparr>,
     rg_wave := (rg_wave c)(w := v)\<rparr>) g'" (is "ctl_inv W ?c g'")
proof -
  have pc: "pc_of ?c x = (if x = w then WSpin else pc_of c x)" for x by (simp add: pc_of_def v)
  have own: "owning (pc_of ?c x) = owning (pc_of c x)" for x using w by (simp add: pc owning_def)
  have act: "active (pc_of ?c x) = (x = w \<or> active (pc_of c x))" for x by (auto simp: pc active_def)
  have nw: "\<not> active (pc_of c w)" "\<not> owning (pc_of c w)" by (simp_all add: w active_def owning_def)
  have ts: "x \<noteq> w \<Longrightarrow> tslot g' x = tslot g x" for x by (simp add: tslot_def g')
  have gg: "g_gen g' = g_gen g" "g_owner g' = g_owner g" "g_next g' = Suc (g_next g)"
    "g_tick g' x = (if x = w then g_next g else g_tick g x)" for x by (simp_all add: g')
  have sl: "slot_of (rg_q ?c) j = slot_of (rg_q c) j" for j by simp
  have ow: "owned ?c g' j = owned c g j" for j
    using nw ts [of "g_owner g j"] by (cases "g_owner g j = w") (auto simp: owned_def own gg)
  have b: "busy ?c j = busy c j" for j by (simp add: busy_def)
  have "slot_inv ?c g' j" if j: "j < HC_NSLOTS" for j
  proof -
    have "owned c g j \<Longrightarrow> pc_of ?c (g_owner g j) = pc_of c (g_owner g j)"
      using nw by (auto simp: pc owned_def)
    with ctl_slot [OF c j] show ?thesis by (simp add: slot_inv_def sl ow b gg)
  qed
  moreover have gle: "g_gen g (g_next g mod HC_NSLOTS) \<le> g_next g"
  proof -
    let ?i = "g_next g mod HC_NSLOTS"
    have i: "?i < HC_NSLOTS" by simp
    have "g_gen g ?i mod HC_NSLOTS = ?i" using ctl_slot [OF c i] by (simp add: slot_inv_def)
    moreover have "g_gen g ?i < g_next g + HC_NSLOTS" using c i by (simp add: ctl_inv_def)
    ultimately show ?thesis by (rule mod_window)
  qed
  moreover have "wave_inv W ?c g' x" for x
  proof (cases "x = w")
    case True
    have "enqueue_pos (rg_q c) = of_nat (g_next g)" using c by (simp add: ctl_inv_def)
    with True gle v nw show ?thesis unfolding wave_inv_def own by (simp add: gg tslot_def)
  next
    case False
    with ctl_wave [OF c, of x] show ?thesis
      unfolding wave_inv_def own act by (auto simp: gg ts)
  qed
  moreover have wW: "w < W" using ctl_idle [OF c, of w] r by (auto simp: not_less [symmetric])
  have lt: "g_tick g x < g_next g" if "active (pc_of c x)" for x
    using ctl_wave [OF c, of x] that by (simp add: wave_inv_def)
  show ?thesis
  proof (rule ctl_invI)
    fix x y assume xy: "active (pc_of ?c x)" "active (pc_of ?c y)" "g_tick g' x = g_tick g' y"
    show "x = y"
    proof (cases "x = w \<or> y = w")
      case True
      with xy lt [of x] lt [of y] show ?thesis by (auto simp: act gg split: if_splits)
    next
      case False
      with xy have "active (pc_of c x)" "active (pc_of c y)" "g_tick g x = g_tick g y"
        by (simp_all add: act gg)
      then show ?thesis using c unfolding ctl_inv_def by blast
    qed
  next
    fix t assume t: "t < g_next g'" "\<not> t < g_gen g' (t mod HC_NSLOTS)"
    show "\<exists>x. active (pc_of ?c x) \<and> g_tick g' x = t"
    proof (cases "t = g_next g")
      case True
      then have "active (pc_of ?c w) \<and> g_tick g' w = t" unfolding act by (simp add: gg)
      then show ?thesis by blast
    next
      case False
      with t ctl_outstanding [OF c, of t] obtain x where x: "active (pc_of c x)" "g_tick g x = t"
        by (auto simp: gg)
      with nw have "active (pc_of ?c x) \<and> g_tick g' x = t" unfolding act by (auto simp: gg)
      then show ?thesis by blast
    qed
  next
    fix i assume "i < HC_NSLOTS"
    then have "g_gen g i < g_next g + HC_NSLOTS" using c by (simp add: ctl_inv_def)
    then show "g_gen g' i < g_next g' + HC_NSLOTS" by (simp add: gg)
  next
    fix x assume "W \<le> x"
    then show "w_pc (rg_wave ?c x) = WIdle \<and> w_todo (rg_wave ?c x) = []"
      using ctl_idle [OF c, of x] wW by simp
  qed (use c calculation in \<open>simp_all add: ctl_inv_def gg\<close>)
qed

lemma ctl_distinct:
  "ctl_inv W c g \<Longrightarrow> active (pc_of c w) \<Longrightarrow> active (pc_of c w') \<Longrightarrow> g_tick g w = g_tick g w' \<Longrightarrow> w = w'"
  unfolding ctl_inv_def by blast

lemma ctl_frame:
  assumes c: "ctl_inv W c g"
    and g: "g_next g' = g_next g" "g_gen g' = g_gen g" "g_tick g' = g_tick g"
    and act: "\<And>x. active (pc_of c' x) = active (pc_of c x)"
    and q: "length (slots (rg_q c')) = HC_NSLOTS" "enqueue_pos (rg_q c') = enqueue_pos (rg_q c)"
      "rg_cur c' < HC_NSLOTS"
    and inv: "\<And>i. i < HC_NSLOTS \<Longrightarrow> slot_inv c' g' i" "\<And>w. wave_inv W c' g' w"
    and todo: "\<And>x. W \<le> x \<Longrightarrow> w_todo (rg_wave c' x) = w_todo (rg_wave c x)"
  shows "ctl_inv W c' g'"
proof (rule ctl_invI)
  fix x assume x: "W \<le> x"
  have "\<not> active (pc_of c x)" using ctl_idle [OF c x] by (simp add: pc_of_def active_def)
  then have "\<not> active (pc_of c' x)" by (simp add: act)
  with ctl_idle [OF c x] todo [OF x] show "w_pc (rg_wave c' x) = WIdle \<and> w_todo (rg_wave c' x) = []"
    by (simp add: active_def pc_of_def)
next
  fix x y assume "active (pc_of c' x)" "active (pc_of c' y)" "g_tick g' x = g_tick g' y"
  then show "x = y" using ctl_distinct [OF c] by (simp add: act g)
next
  fix t assume "t < g_next g'" "\<not> t < g_gen g' (t mod HC_NSLOTS)"
  then show "\<exists>w. active (pc_of c' w) \<and> g_tick g' w = t"
    using ctl_outstanding [OF c, of t] by (simp add: act g)
qed (use c q inv in \<open>simp_all add: ctl_inv_def g\<close>)

lemma ctl_gate:
  assumes c: "ctl_inv W c g" and w: "pc_of c w = WSpin" and t: "g_tick g w = g_gen g (tslot g w)"
    and v: "w_pc v = WOwn" "w_pos v = w_pos (rg_wave c w)"
    and g': "g' = g\<lparr>g_owner := (g_owner g)(tslot g w := w)\<rparr>"
  shows "ctl_inv W (c\<lparr>rg_wave := (rg_wave c)(w := v)\<rparr>) g'" (is "ctl_inv W ?c g'")
proof -
  let ?i = "tslot g w"
  have aw: "active (pc_of c w)" "\<not> owning (pc_of c w)" by (simp_all add: w active_def owning_def)
  have pc: "pc_of ?c x = (if x = w then WOwn else pc_of c x)" for x by (simp add: pc_of_def v)
  have own: "owning (pc_of ?c x) = (x = w \<or> owning (pc_of c x))" for x by (simp add: pc owning_def)
  have act: "active (pc_of ?c x) = active (pc_of c x)" for x using aw(1) by (simp add: pc active_def)
  have gg: "g_gen g' = g_gen g" "g_next g' = g_next g" "g_tick g' = g_tick g" "tslot g' x = tslot g x"
    "g_owner g' j = (if j = ?i then w else g_owner g j)" for x j by (simp_all add: g' tslot_def)
  have free: "tslot g x \<noteq> ?i" if "owning (pc_of c x)" for x
  proof
    assume e: "tslot g x = ?i"
    have "g_tick g x = g_gen g (tslot g x)" by (rule owner_slot(3) [OF c that])
    also have "\<dots> = g_tick g w" unfolding e by (rule t [symmetric])
    finally have "x = w" by (rule ctl_distinct [OF c owning_active [OF that] aw(1)])
    with that aw show False by simp
  qed
  have iN: "?i < HC_NSLOTS" by simp
  have now: "\<not> owned c g ?i" using free by (auto simp: owned_def)
  have b: "busy ?c j = busy c j" for j by (simp add: busy_def)
  have sl: "rg_q ?c = rg_q c" by simp
  have "slot_inv ?c g' j" if j: "j < HC_NSLOTS" for j
  proof (cases "j = ?i")
    case True
    have "owned ?c g' j" using True by (simp add: owned_def own gg)
    with ctl_slot [OF c j] now True show ?thesis
      unfolding slot_inv_def b sl gg(1) by (simp add: gg pc)
  next
    case False
    have "g_owner g j \<noteq> w" if "owned c g j" using that aw by (auto simp: owned_def)
    then have "owned ?c g' j = owned c g j" "owned c g j \<Longrightarrow> pc_of ?c (g_owner g' j) = pc_of c (g_owner g j)"
      using False by (auto simp: owned_def own gg pc_of_def)
    with ctl_slot [OF c j] show ?thesis
      unfolding slot_inv_def b sl gg(1) by (cases "owned c g j") simp_all
  qed
  moreover have "wave_inv W ?c g' x" for x
  proof (cases "x = w")
    case True
    with ctl_wave [OF c, of x] aw t v show ?thesis
      unfolding wave_inv_def act own gg by simp
  next
    case False
    with ctl_wave [OF c, of x] free [of x] show ?thesis
      unfolding wave_inv_def act own gg by simp
  qed
  moreover have "w < W" by (rule active_less [OF c aw(1)])
  moreover have "rg_cur c < HC_NSLOTS" using c by (simp add: ctl_inv_def)
  ultimately show ?thesis
    by (intro ctl_frame [OF c]) (simp_all only: gg act, simp_all add: ctl_len [OF c])
qed

lemma mod_next:
  fixes a b N :: nat
  assumes "a mod N = b mod N" "a \<le> b" "a \<noteq> b"
  shows "a + N \<le> b"
proof -
  have "N dvd b - a" using assms(1,2) by (simp only: mod_eq_dvd_iff_nat [symmetric])
  moreover have "0 < b - a" using assms(2,3) by simp
  ultimately have "N \<le> b - a" by (rule dvd_imp_le)
  then show ?thesis using assms(2) by simp
qed

lemma ctl_turn:
  assumes c: "ctl_inv W c g" and w: "pc_of c w = WTurn" and i: "i = tslot g w"
    and v: "w_pc v = WIdle" "w_todo v = w_todo (rg_wave c w)"
    and s: "slot_turn s = slot_turn (slot_of (rg_q c) i) + of_nat HC_NSLOTS" "slot_wf s"
      "slot_status s = slot_status (slot_of (rg_q c) i)"
    and g': "g' = g\<lparr>g_gen := (g_gen g)(i := g_gen g i + HC_NSLOTS)\<rparr>"
  shows "ctl_inv W (c\<lparr>rg_q := set_slot (rg_q c) i s, rg_wave := (rg_wave c)(w := v)\<rparr>) g'"
    (is "ctl_inv W ?c g'")
proof -
  note len = ctl_len [OF c]
  have iN: "i < HC_NSLOTS" by (simp add: i)
  have aw: "active (pc_of c w)" "owning (pc_of c w)" by (simp_all add: w active_def owning_def)
  note os = owner_slot [OF c aw(2), folded i]
  have pc: "pc_of ?c x = (if x = w then WIdle else pc_of c x)" for x by (simp add: pc_of_def v)
  have own: "owning (pc_of ?c x) = (x \<noteq> w \<and> owning (pc_of c x))" for x by (simp add: pc owning_def)
  have act: "active (pc_of ?c x) = (x \<noteq> w \<and> active (pc_of c x))" for x by (simp add: pc active_def)
  have gg: "g_gen g' j = (if j = i then g_gen g i + HC_NSLOTS else g_gen g j)" "g_next g' = g_next g"
    "g_tick g' = g_tick g" "tslot g' x = tslot g x" "g_owner g' = g_owner g" for x j
    by (simp_all add: g' tslot_def)
  have b: "busy ?c j = busy c j" for j by (simp add: busy_def)
  have sl: "slot_of (rg_q ?c) j = (if j = i then s else slot_of (rg_q c) j)" for j
    using iN len by simp
  have si: "slot_inv c g i" by (rule ctl_slot [OF c iN])
  then have gi: "g_gen g i mod HC_NSLOTS = i" by (simp add: slot_inv_def)
  have lt: "g_tick g w < g_next g" using ctl_wave [OF c, of w] aw by (simp add: wave_inv_def)
  have inv_s: "slot_inv ?c g' j" if j: "j < HC_NSLOTS" for j
  proof (cases "j = i")
    case True
    have no: "\<not> owned ?c g' i" using os by (auto simp: owned_def own gg)
    from si os w s no True show ?thesis unfolding slot_inv_def b sl gg by simp
  next
    case False
    have ow: "owned ?c g' j = owned c g j" using False i unfolding owned_def own gg by auto
    have "g_owner g j \<noteq> w" if "owned c g j" using that False i by (auto simp: owned_def)
    then have "owned c g j \<Longrightarrow> pc_of ?c (g_owner g' j) = pc_of c (g_owner g j)"
      unfolding pc gg by auto
    with ctl_slot [OF c j] False ow show ?thesis
      unfolding slot_inv_def b sl gg by (cases "owned c g j") simp_all
  qed
  have inv_w: "wave_inv W ?c g' x" for x
  proof (cases "active (pc_of ?c x) \<and> tslot g x = i")
    case True
    then have x: "x \<noteq> w" "active (pc_of c x)" "tslot g x = i" by (simp_all add: act)
    from ctl_wave [OF c, of x] x have xi: "g_gen g i \<le> g_tick g x" "g_tick g x < g_next g"
      "w_pos (rg_wave c x) = of_nat (g_tick g x)" by (auto simp: wave_inv_def)
    have "g_gen g i \<noteq> g_tick g x"
      using os(3) ctl_distinct [OF c x(2) aw(1)] x(1) by metis
    then have "g_gen g i + HC_NSLOTS \<le> g_tick g x"
      using gi x(3) xi(1) by (intro mod_next) (simp_all add: tslot_def)
    moreover have "\<not> owning (pc_of c x)" using owner_unique [OF c _ aw(2), of x] x i by auto
    ultimately show ?thesis using xi x unfolding wave_inv_def own gg by simp
  next
    case False
    with ctl_wave [OF c, of x] show ?thesis unfolding wave_inv_def own act gg by auto
  qed
  show ?thesis
  proof (rule ctl_invI)
    fix t assume t: "t < g_next g'" "\<not> t < g_gen g' (t mod HC_NSLOTS)"
    then have "t < g_next g" "g_gen g (t mod HC_NSLOTS) \<le> t" by (auto simp: gg split: if_splits)
    then obtain x where x: "active (pc_of c x)" "g_tick g x = t" using ctl_outstanding [OF c] by blast
    have "x \<noteq> w"
    proof
      assume "x = w"
      then have tw: "t = g_tick g w" using x by simp
      have m: "t mod HC_NSLOTS = i" unfolding tw i tslot_def by (rule refl)
      have "t = g_gen g i" unfolding tw by (rule os(3))
      with t(2) show False unfolding m gg by (simp add: HC_NSLOTS_def)
    qed
    with x have "active (pc_of ?c x) \<and> g_tick g' x = t" unfolding act by (simp add: gg)
    then show "\<exists>x. active (pc_of ?c x) \<and> g_tick g' x = t" by blast
  next
    fix x y assume "active (pc_of ?c x)" "active (pc_of ?c y)" "g_tick g' x = g_tick g' y"
    then show "x = y" using ctl_distinct [OF c, of x y] unfolding act gg by simp
  next
    fix x assume "W \<le> x"
    then show "w_pc (rg_wave ?c x) = WIdle \<and> w_todo (rg_wave ?c x) = []"
      using ctl_idle [OF c, of x] v by auto
  next
    fix j assume j: "j < HC_NSLOTS"
    then have "g_gen g j < g_next g + HC_NSLOTS" using c by (simp add: ctl_inv_def)
    then show "g_gen g' j < g_next g' + HC_NSLOTS" using lt os(3) by (simp add: gg)
  qed (use c len inv_s inv_w in \<open>simp_all add: gg, simp_all add: ctl_inv_def\<close>)
qed

text \<open>The steps of the CPU: moving on, taking up a request, storing the answer, signalling it.\<close>

lemma ctl_cpu:
  assumes c: "ctl_inv W c g" and cur: "i = rg_cur c" and g': "g_next g' = g_next g"
    "g_gen g' = g_gen g" "g_tick g' = g_tick g" "g_owner g' = g_owner g"
    and rw: "rg_wave c' = rg_wave c" and q: "rg_q c' = set_slot (rg_q c) i s" "rg_cur c' < HC_NSLOTS"
    and s: "slot_turn s = slot_turn (slot_of (rg_q c) i)" "slot_wf (slot_of (rg_q c) i) \<Longrightarrow> slot_wf s"
    and b: "\<And>j. j \<noteq> i \<Longrightarrow> \<not> busy c' j"
    and st: "\<not> busy c i \<Longrightarrow> slot_status (slot_of (rg_q c) i) \<noteq> 1 \<Longrightarrow>
        slot_status s = slot_status (slot_of (rg_q c) i) \<and> \<not> busy c' i"
      "slot_status (slot_of (rg_q c) i) = 1 \<Longrightarrow> slot_status s = 1 \<or> (slot_status s = 2 \<and> \<not> busy c' i)"
  shows "ctl_inv W c' g'"
proof (rule ctl_frame [OF c g'(1-3)])
  note len = ctl_len [OF c]
  have iN: "i < HC_NSLOTS" using c cur by (simp add: ctl_inv_def)
  have sl: "slot_of (rg_q c') j = (if j = i then s else slot_of (rg_q c) j)" for j
    using iN len by (simp add: q)
  have pc: "pc_of c' x = pc_of c x" for x by (simp add: pc_of_def rw)
  have ow: "owned c' g' j = owned c g j" for j by (simp add: owned_def pc tslot_def g')
  show "active (pc_of c' x) = active (pc_of c x)" for x by (simp add: pc)
  show "wave_inv W c' g' x" for x
    using ctl_wave [OF c, of x] by (simp add: wave_inv_def pc tslot_def g' rw)
  show "slot_inv c' g' j" if j: "j < HC_NSLOTS" for j
  proof (cases "j = i")
    case False
    have "\<not> busy c j" using False cur by (simp add: busy_def)
    with False ctl_slot [OF c j] b [OF False] show ?thesis
      unfolding slot_inv_def ow sl pc g' by (cases "owned c g j") simp_all
  next
    case True
    have si: "slot_inv c g i" by (rule ctl_slot [OF c iN])
    show ?thesis
    proof (cases "owned c g i")
      case False
      with si True s st show ?thesis unfolding slot_inv_def ow sl pc g' by simp
    next
      case o: True
      have "status_ok (pc_of c (g_owner g i)) (slot_status s) (busy c' i)"
      proof (cases "slot_status (slot_of (rg_q c) i) = 1")
        case True
        with si o have "pc_of c (g_owner g i) = WWait"
          by (cases "pc_of c (g_owner g i)") (auto simp: slot_inv_def)
        with st(2) [OF True] show ?thesis by auto
      next
        case n1: False
        with si o have "\<not> busy c i"
          by (cases "pc_of c (g_owner g i)") (auto simp: slot_inv_def)
        with st(1) n1 si o show ?thesis by (simp add: slot_inv_def)
      qed
      with si True s o show ?thesis unfolding slot_inv_def ow sl pc g' by simp
    qed
  qed
qed (use c in \<open>simp_all add: q rw ctl_inv_def\<close>)

lemma ctl_step:
  assumes c: "ctl_inv W c g" and W: "W \<le> 2 ^ 24" and s: "traced_step (c, g) e (c', g')"
  shows "ctl_inv W c' g'"
proof (cases e)
  case (Wave w)
  let ?v = "rg_wave c w" and ?q = "rg_q c" and ?i = "tslot g w"
  from s Wave have st: "wave_step w c = Some c'" and g': "g' = ghost_step c (Wave w) c' g"
    by (simp_all add: traced_step_def)
  have act: "w_pc ?v \<noteq> WIdle \<Longrightarrow> active (pc_of c w)" by (simp add: active_def pc_of_def)
  then have ix: "w_pc ?v \<noteq> WIdle \<Longrightarrow> slot_index (w_pos ?v) = ?i" using slot_index_pos [OF c] by simp
  have si: "slot_inv c g ?i" by (rule ctl_slot [OF c]) simp
  then have wf: "slot_wf (slot_of ?q ?i)" by (simp add: slot_inv_def)
  have own: "owning (w_pc ?v) \<Longrightarrow> status_ok (w_pc ?v) (slot_status (slot_of ?q ?i)) (busy c ?i)"
    using si owner_slot [OF c, of w] by (simp add: slot_inv_def pc_of_def)
  have q_same: "c\<lparr>rg_q := ?q, rg_wave := f\<rparr> = c\<lparr>rg_q := set_slot ?q ?i (slot_of ?q ?i), rg_wave := f\<rparr>" for f
    by simp
  show ?thesis
  proof (cases "w_pc ?v")
    case WIdle
    then obtain r rs where r: "w_todo ?v = r # rs"
      using st by (cases "w_todo ?v") (auto simp: Let_def wave_step_def)
    with st WIdle have "c' = c\<lparr>rg_q := ?q\<lparr>enqueue_pos := enqueue_pos ?q + 1\<rparr>,
       rg_wave := (rg_wave c)(w := ?v\<lparr>w_pc := WSpin, w_pos := enqueue_pos ?q, w_req := r, w_todo := rs\<rparr>)\<rparr>"
      by (simp add: wave_step_def hc_take_ticket_def Let_def)
    moreover have "g' = g\<lparr>g_next := Suc (g_next g), g_tick := (g_tick g)(w := g_next g)\<rparr>"
      using WIdle by (simp add: g')
    ultimately show ?thesis using ctl_take [OF c, of w r rs] WIdle r by (simp add: pc_of_def)
  next
    case WSpin
    then have gate: "hc_gate ?q (w_pos ?v)" and c': "c' = c\<lparr>rg_q := ?q, rg_wave := (rg_wave c)(w := ?v\<lparr>w_pc := WOwn\<rparr>)\<rparr>"
      using st by (auto simp: Let_def wave_step_def split: if_splits)
    have c'': "c' = c\<lparr>rg_wave := (rg_wave c)(w := ?v\<lparr>w_pc := WOwn\<rparr>)\<rparr>" by (simp add: c')
    have "g_tick g w = g_gen g ?i" using gate gate_exact [OF c W act] WSpin by simp
    moreover have "g' = g\<lparr>g_owner := (g_owner g)(?i := w)\<rparr>" using WSpin ix by (simp add: g')
    ultimately show ?thesis using WSpin unfolding c'' by (intro ctl_gate [OF c]) (simp_all add: pc_of_def)
  next
    case WTurn
    with st ix have "c' = c\<lparr>rg_q := set_slot ?q ?i ((slot_of ?q ?i)\<lparr>slot_turn := slot_turn (slot_of ?q ?i) + of_nat HC_NSLOTS\<rparr>),
       rg_wave := (rg_wave c)(w := ?v\<lparr>w_pc := WIdle\<rparr>)\<rparr>"
      by (simp add: wave_step_def hc_next_turn_def Let_def)
    moreover have "g' = g\<lparr>g_gen := (g_gen g)(?i := g_gen g ?i + HC_NSLOTS)\<rparr>"
      using WTurn ix by (simp add: g' Let_def)
    ultimately show ?thesis
      using WTurn wf by (auto intro!: ctl_turn [OF c, of w] simp: pc_of_def slot_wf_def)
  next
    case WOwn
    with st ix have c': "c' = c\<lparr>rg_q := set_slot ?q ?i (submit (w_req ?v) (slot_of ?q ?i)),
       rg_wave := (rg_wave c)(w := ?v\<lparr>w_pc := WReady\<rparr>)\<rparr>"
      by (simp add: Let_def wave_step_def hc_marshal_def)
    have "g' = g" using WOwn by (simp add: g' Let_def)
    then show ?thesis using WOwn wf own unfolding c'
      by (simp add: ctl_owner_step [OF c] pc_of_def owning_def submit_wf)
  next
    case WReady
    with st ix have c': "c' = c\<lparr>rg_q := set_slot ?q ?i ((slot_of ?q ?i)\<lparr>slot_status := 1\<rparr>),
       rg_wave := (rg_wave c)(w := ?v\<lparr>w_pc := WWait\<rparr>)\<rparr>"
      by (simp add: Let_def wave_step_def hc_publish_def)
    have "g' = g" using WReady by (simp add: g' Let_def)
    then show ?thesis using WReady wf own unfolding c'
      by (simp add: ctl_owner_step [OF c] pc_of_def owning_def slot_wf_def)
  next
    case WWait
    with st ix have d: "slot_status (slot_of ?q ?i) = 2"
      and c': "c' = c\<lparr>rg_q := ?q, rg_wave := (rg_wave c)(w := ?v\<lparr>w_pc := WRead\<rparr>)\<rparr>"
      by (auto simp: Let_def wave_step_def hc_done_def split: if_splits)
    have "g' = g" using WWait by (simp add: g' Let_def)
    then show ?thesis using WWait wf own d unfolding c' q_same
      by (simp only:) (rule ctl_owner_step [OF c], simp_all add: pc_of_def owning_def)
  next
    case WRead
    with st ix have c': "c' = c\<lparr>rg_q := ?q, rg_wave := (rg_wave c)(w := ?v\<lparr>w_pc := WClear,
        w_done := w_done ?v @ [reply (w_req ?v) (slot_of ?q ?i)]\<rparr>)\<rparr>"
      by (simp add: Let_def wave_step_def)
    have "g' = g" using WRead by (simp add: g' Let_def)
    then show ?thesis using WRead wf own unfolding c' q_same
      by (simp only:) (rule ctl_owner_step [OF c], simp_all add: pc_of_def owning_def)
  next
    case WClear
    with st ix have c': "c' = c\<lparr>rg_q := set_slot ?q ?i ((slot_of ?q ?i)\<lparr>slot_status := 0\<rparr>),
       rg_wave := (rg_wave c)(w := ?v\<lparr>w_pc := WTurn\<rparr>)\<rparr>"
      by (simp add: Let_def wave_step_def hc_clear_def)
    have "g' = g" using WClear by (simp add: g' Let_def)
    then show ?thesis using WClear wf own unfolding c'
      by (simp add: ctl_owner_step [OF c] pc_of_def owning_def slot_wf_def)
  qed
next
  case Cpu
  let ?i = "rg_cur c" let ?s = "slot_of (rg_q c) ?i"
  from s Cpu have st: "cpu_step c = Some c'" and g': "g' = ghost_step c Cpu c' g"
    by (simp_all add: traced_step_def)
  have gg: "g_next g' = g_next g" "g_gen g' = g_gen g" "g_tick g' = g_tick g" "g_owner g' = g_owner g"
    by (simp_all add: g' Let_def)
  have iN: "?i < HC_NSLOTS" using c by (simp add: ctl_inv_def)
  note cpu = ctl_cpu [OF c refl gg]
  have si: "slot_inv c g ?i" by (rule ctl_slot [OF c iN])
  have b1: "busy c ?i \<Longrightarrow> slot_status ?s = 1"
    using si by (cases "pc_of c (g_owner g ?i)") (auto simp: slot_inv_def split: if_splits)
  show ?thesis
  proof (cases "rg_cpu c")
    case CLook
    show ?thesis
    proof (cases "slot_status ?s = 1")
      case True
      with CLook st have "c' = c\<lparr>rg_cpu := CServe\<rparr>" by (simp add: Let_def cpu_step_def)
      with True iN show ?thesis by (intro cpu [of _ ?s]) (auto simp: busy_def)
    next
      case False
      with CLook st have "c' = c\<lparr>rg_cur := cpu_next ?i\<rparr>" by (simp add: Let_def cpu_step_def)
      with False CLook show ?thesis by (intro cpu [of _ ?s]) (auto simp: busy_def)
    qed
  next
    case CServe
    with st obtain s' v' where sv: "service_slot ?s (rg_sv c) = Some (s', v')"
      and c': "c' = c\<lparr>rg_q := set_slot (rg_q c) ?i s', rg_sv := v', rg_cpu := CDone\<rparr>"
      by (auto simp: Let_def cpu_step_def split: option.splits)
    have "busy c ?i" by (simp add: busy_def CServe)
    with b1 have "slot_status ?s = 1" by simp
    with c' CServe iN show ?thesis
      using service_slot_frame(1,2) [OF sv] service_slot_wf [OF sv]
      by (intro cpu [of _ s']) (auto simp: busy_def)
  next
    case CDone
    with st have c': "c' = c\<lparr>rg_q := set_slot (rg_q c) ?i (?s\<lparr>slot_status := 2\<rparr>),
        rg_cur := cpu_next ?i, rg_cpu := CLook\<rparr>" by (simp add: Let_def cpu_step_def)
    have "busy c ?i" by (simp add: busy_def CDone)
    with c' show ?thesis by (intro cpu [of _ "?s\<lparr>slot_status := 2\<rparr>"]) (auto simp: busy_def slot_wf_def)
  qed
qed

section \<open>Every request is served once, by one atomic service\<close>

text \<open>
  The log is a sequential run of \<open>service_slot\<close> from the initial service state; its entries
  of one wave are exactly the requests that the wave has issued, in order, and the results that
  the wave has read are the replies of its own entries.
\<close>

fun run_log :: "service \<Rightarrow> log_entry list \<Rightarrow> service option" where
  "run_log v [] = Some v"
| "run_log v (e # es) =
     (case service_slot (le_before e) v of None \<Rightarrow> None
      | Some (s', v') \<Rightarrow> if s' = le_after e then run_log v' es else None)"

definition wave_log :: "ghost \<Rightarrow> nat \<Rightarrow> log_entry list" where
  "wave_log g w = filter (\<lambda>e. le_wave e = w) (g_log g)"

definition entry_reply :: "log_entry \<Rightarrow> hc_result" where
  "entry_reply e = reply (le_req e) (le_after e)"

definition published :: "request \<Rightarrow> HostcallSlot \<Rightarrow> bool" where
  "published r s \<longleftrightarrow> (\<exists>s0. slot_wf s0 \<and> s = (submit r s0)\<lparr>slot_status := 1\<rparr>)"

definition served :: "ring \<Rightarrow> ghost \<Rightarrow> nat \<Rightarrow> bool" where
  "served c g w \<longleftrightarrow> pc_of c w = WRead \<or>
     (pc_of c w = WWait \<and> (slot_status (slot_of (rg_q c) (tslot g w)) = 2 \<or>
        (rg_cur c = tslot g w \<and> rg_cpu c = CDone)))"

definition to_serve :: "ring \<Rightarrow> ghost \<Rightarrow> nat \<Rightarrow> request list" where
  "to_serve c g w = (if served c g w \<or> pc_of c w \<in> {WIdle, WClear, WTurn} then []
     else [w_req (rg_wave c w)])"

definition to_read :: "ring \<Rightarrow> ghost \<Rightarrow> nat \<Rightarrow> hc_result list" where
  "to_read c g w = (if served c g w
     then [reply (w_req (rg_wave c w)) (slot_of (rg_q c) (tslot g w))] else [])"

definition data_inv :: "(nat \<Rightarrow> request list) \<Rightarrow> ring \<Rightarrow> ghost \<Rightarrow> nat \<Rightarrow> bool" where
  "data_inv R c g w \<longleftrightarrow>
     map entry_reply (wave_log g w) = w_done (rg_wave c w) @ to_read c g w \<and>
     map le_req (wave_log g w) @ to_serve c g w @ w_todo (rg_wave c w) = R w \<and>
     (pc_of c w = WReady \<longrightarrow> published (w_req (rg_wave c w)) ((slot_of (rg_q c) (tslot g w))\<lparr>slot_status := 1\<rparr>)) \<and>
     (pc_of c w = WWait \<and> \<not> served c g w \<longrightarrow>
        published (w_req (rg_wave c w)) (slot_of (rg_q c) (tslot g w)))"

definition log_inv :: "service \<Rightarrow> ring \<Rightarrow> ghost \<Rightarrow> bool" where
  "log_inv sv c g \<longleftrightarrow> run_log sv (g_log g) = Some (rg_sv c) \<and>
     (\<forall>e \<in> set (g_log g). published (le_req e) (le_before e))"

definition ring_inv :: "nat \<Rightarrow> (nat \<Rightarrow> request list) \<Rightarrow> service \<Rightarrow> ring \<times> ghost \<Rightarrow> bool" where
  "ring_inv W R sv cg \<longleftrightarrow> ctl_inv W (fst cg) (snd cg) \<and> (\<forall>w. data_inv R (fst cg) (snd cg) w) \<and>
     log_inv sv (fst cg) (snd cg)"

lemma run_log_append:
  "run_log v (es @ fs) = (case run_log v es of None \<Rightarrow> None | Some v' \<Rightarrow> run_log v' fs)"
  by (induction v es rule: run_log.induct) (auto split: option.splits)

lemma reply_status [simp]: "reply r (s\<lparr>slot_status := x\<rparr>) = reply r s"
  by (cases r) simp_all

lemma data_frame:
  assumes d: "data_inv R c g x" and w: "rg_wave c' x = rg_wave c x" "g_tick g' x = g_tick g x"
    and l: "wave_log g' x = wave_log g x"
    and s: "owning (pc_of c x) \<Longrightarrow> slot_of (rg_q c') (tslot g x) = slot_of (rg_q c) (tslot g x)"
    and b: "owning (pc_of c x) \<Longrightarrow> (rg_cur c' = tslot g x \<and> rg_cpu c' = CDone) =
        (rg_cur c = tslot g x \<and> rg_cpu c = CDone)"
  shows "data_inv R c' g' x"
proof -
  have pc: "pc_of c' x = pc_of c x" and ts: "tslot g' x = tslot g x"
    using w by (simp_all add: pc_of_def tslot_def)
  show ?thesis
  proof (cases "owning (pc_of c x)")
    case True
    have "served c' g' x = served c g x" unfolding served_def pc ts s [OF True] b [OF True] ..
    with d show ?thesis unfolding data_inv_def to_serve_def to_read_def pc ts w s [OF True] l by simp
  next
    case False
    then have n: "pc_of c x \<noteq> WRead" "pc_of c x \<noteq> WWait" "pc_of c x \<noteq> WReady"
      by (auto simp: owning_def)
    then have "\<not> served c' g' x" "\<not> served c g x" by (simp_all add: served_def pc)
    with d n show ?thesis unfolding data_inv_def to_serve_def to_read_def pc w l by simp
  qed
qed

lemma data_init: "data_inv R (ring_init R sv) ghost_init w"
  by (simp add: data_inv_def wave_log_def ghost_init_def to_read_def to_serve_def served_def pc_of_def
      ring_init_def idle_wave_def)

lemma log_init: "log_inv sv (ring_init R sv) ghost_init"
  by (simp add: log_inv_def ghost_init_def ring_init_def)

lemma ring_inv_init:
  "(\<And>w. W \<le> w \<Longrightarrow> R w = []) \<Longrightarrow> ring_inv W R sv (ring_init R sv, ghost_init)"
  by (simp add: ring_inv_def ctl_init data_init log_init)

lemma data_wave_step:
  assumes c: "ctl_inv W c g" and d: "\<And>x. data_inv R c g x"
    and s: "wave_step w c = Some c'" and g': "g' = ghost_step c (Wave w) c' g"
  shows "data_inv R c' g' x"
proof -
  let ?v = "rg_wave c w" and ?q = "rg_q c" and ?i = "tslot g w"
  have ix: "w_pc ?v \<noteq> WIdle \<Longrightarrow> slot_index (w_pos ?v) = ?i"
    using slot_index_pos [OF c] by (simp add: active_def pc_of_def)
  have len: "?i < length (slots ?q)" using ctl_len [OF c] by simp
  have lg: "g_log g' = g_log g" by (cases "w_pc ?v") (simp_all add: g' Let_def)
  have cpu: "rg_cur c' = rg_cur c" "rg_cpu c' = rg_cpu c"
    using s by (auto simp: wave_step_def Let_def hc_take_ticket_def split: wave_pc.splits list.splits if_splits)
  have si: "slot_inv c g ?i" by (rule ctl_slot [OF c]) simp
  then have wf: "slot_wf (slot_of ?q ?i)" by (simp add: slot_inv_def)
  have own: "owning (w_pc ?v) \<Longrightarrow> status_ok (w_pc ?v) (slot_status (slot_of ?q ?i)) (busy c ?i)"
    using si owner_slot [OF c, of w] by (simp add: slot_inv_def pc_of_def)
  show ?thesis
  proof (cases "x = w")
    case False
    have "rg_wave c' x = rg_wave c x" "g_tick g' x = g_tick g x"
      using s False by (auto simp: wave_step_def g' Let_def hc_take_ticket_def
          split: wave_pc.splits list.splits if_splits)
    moreover have "slot_of (rg_q c') (tslot g x) = slot_of ?q (tslot g x)" if o: "owning (pc_of c x)"
    proof (cases "owning (pc_of c w)")
      case True
      then have "tslot g x \<noteq> ?i" using owner_unique [OF c o] False by auto
      then show ?thesis using s len True ix
        by (auto simp: wave_step_def Let_def hc_publish_def hc_marshal_def hc_clear_def hc_next_turn_def
            owning_def pc_of_def split: wave_pc.splits if_splits)
    next
      case False
      then show ?thesis using s by (auto simp: wave_step_def Let_def hc_take_ticket_def owning_def pc_of_def
            split: wave_pc.splits list.splits if_splits)
    qed
    ultimately show ?thesis using lg cpu by (intro data_frame [OF d]) (simp_all add: wave_log_def)
  next
    case True
    have dw: "data_inv R c g w" by (rule d)
    note defs = data_inv_def to_serve_def to_read_def served_def pc_of_def
    show ?thesis unfolding True
    proof (cases "w_pc ?v")
      case WIdle
      with s dw lg show "data_inv R c' g' w"
        by (auto simp: wave_step_def hc_take_ticket_def Let_def defs wave_log_def split: list.splits)
    next
      case WSpin
      with s dw lg show "data_inv R c' g' w"
        by (auto simp: wave_step_def Let_def defs wave_log_def split: if_splits)
    next
      case WOwn
      have "published (w_req ?v) ((submit (w_req ?v) (slot_of ?q ?i))\<lparr>slot_status := 1\<rparr>)"
        using wf by (auto simp: published_def)
      with WOwn s dw lg ix len show "data_inv R c' g' w"
        by (auto simp: wave_step_def Let_def defs wave_log_def hc_marshal_def g')
    next
      case WReady
      with own have "\<not> busy c ?i" by (simp add: owning_def)
      with WReady s dw lg ix len show "data_inv R c' g' w"
        by (auto simp: wave_step_def Let_def defs wave_log_def hc_publish_def g' busy_def)
    next
      case WWait
      with s dw lg ix len show "data_inv R c' g' w"
        by (auto simp: wave_step_def Let_def defs wave_log_def hc_done_def g' split: if_splits)
    next
      case WRead
      with s dw lg ix len show "data_inv R c' g' w"
        by (auto simp: wave_step_def Let_def defs wave_log_def g')
    next
      case WClear
      with s dw lg ix len show "data_inv R c' g' w"
        by (auto simp: wave_step_def Let_def defs wave_log_def hc_clear_def g')
    next
      case WTurn
      with s dw lg ix len show "data_inv R c' g' w"
        by (auto simp: wave_step_def Let_def defs wave_log_def hc_next_turn_def g')
    qed
  qed
qed

text \<open>The slot that the CPU is serving belongs to a wave that waits there.\<close>

lemma busy_owner:
  assumes c: "ctl_inv W c g" and b: "rg_cpu c \<noteq> CLook"
  obtains w where "g_owner g (rg_cur c) = w" "tslot g w = rg_cur c" "pc_of c w = WWait"
    "slot_status (slot_of (rg_q c) (rg_cur c)) = 1"
proof -
  have "rg_cur c < HC_NSLOTS" using c by (simp add: ctl_inv_def)
  from ctl_slot [OF c this] have si: "slot_inv c g (rg_cur c)" .
  have bz: "busy c (rg_cur c)" using b by (simp add: busy_def)
  with si have o: "owned c g (rg_cur c)" by (auto simp: slot_inv_def split: if_splits)
  let ?w = "g_owner g (rg_cur c)"
  from si bz o have "pc_of c ?w = WWait \<and> slot_status (slot_of (rg_q c) (rg_cur c)) = 1"
    by (cases "pc_of c ?w") (auto simp: slot_inv_def)
  with o that show ?thesis by (auto simp: owned_def)
qed

lemma other_slot:
  assumes c: "ctl_inv W c g" and w: "tslot g w = rg_cur c" "pc_of c w = WWait"
    and x: "x \<noteq> w" "owning (pc_of c x)"
  shows "tslot g x \<noteq> rg_cur c"
proof
  assume "tslot g x = rg_cur c"
  then have "tslot g x = tslot g w" using w(1) by simp
  with owner_unique [OF c x(2), of w] w(2) x(1) show False by (simp add: owning_def)
qed

lemma data_cpu_step:
  assumes c: "ctl_inv W c g" and d: "\<And>x. data_inv R c g x" and l: "log_inv sv c g"
    and s: "cpu_step c = Some c'" and g': "g' = ghost_step c Cpu c' g"
  shows "data_inv R c' g' x" "log_inv sv c' g'"
proof -
  let ?i = "rg_cur c" let ?s = "slot_of (rg_q c) ?i"
  have iN: "?i < length (slots (rg_q c))" using c by (simp add: ctl_inv_def)
  note defs = data_inv_def to_serve_def to_read_def served_def pc_of_def
  have "data_inv R c' g' x \<and> log_inv sv c' g'"
  proof (cases "rg_cpu c")
    case CLook
    have g: "g' = g" by (simp add: g' CLook)
    have "rg_q c' = rg_q c" "rg_wave c' = rg_wave c" "rg_sv c' = rg_sv c" "rg_cpu c' \<noteq> CDone"
      using s CLook by (auto simp: cpu_step_def Let_def split: if_splits)
    then show ?thesis using l CLook unfolding g
      by (auto simp: log_inv_def intro!: data_frame [OF d])
  next
    case CServe
    then have "rg_cpu c \<noteq> CLook" by simp
    from busy_owner [OF c this] obtain w where w: "g_owner g ?i = w" "tslot g w = ?i" "pc_of c w = WWait"
      "slot_status ?s = 1" .
    from s CServe obtain s' v' where sv: "service_slot ?s (rg_sv c) = Some (s', v')"
      and c': "c' = c\<lparr>rg_q := set_slot (rg_q c) ?i s', rg_sv := v', rg_cpu := CDone\<rparr>"
      by (auto simp: Let_def cpu_step_def split: option.splits)
    define e where "e = \<lparr>le_wave = w, le_req = w_req (rg_wave c w), le_before = ?s, le_after = s'\<rparr>"
    have g: "g' = g\<lparr>g_log := g_log g @ [e]\<rparr>" using iN by (simp add: g' CServe w(1) c' e_def)
    have n: "\<not> served c g w" using w CServe by (simp add: served_def)
    then have p: "published (w_req (rg_wave c w)) ?s" using d [of w] w by (simp add: data_inv_def)
    have "log_inv sv c' g'" using l p sv unfolding g
      by (auto simp: log_inv_def run_log_append e_def c' split: option.splits)
    moreover have "data_inv R c' g' x"
    proof (cases "x = w")
      case False
      then have "wave_log g' x = wave_log g x" by (simp add: wave_log_def g e_def)
      with False show ?thesis using other_slot [OF c w(2,3) False] iN CServe c'
        by (intro data_frame [OF d]) (auto simp: g)
    next
      case True
      have wl: "wave_log g' w = wave_log g w @ [e]" by (simp add: wave_log_def g e_def)
      have ts: "tslot g' w = ?i" using w(2) by (simp add: g tslot_def)
      show ?thesis using d [of w] w n iN unfolding True data_inv_def wl ts
        by (simp add: c' to_serve_def to_read_def served_def pc_of_def ts e_def entry_reply_def)
    qed
    ultimately show ?thesis by simp
  next
    case CDone
    then have "rg_cpu c \<noteq> CLook" by simp
    from busy_owner [OF c this] obtain w where w: "g_owner g ?i = w" "tslot g w = ?i" "pc_of c w = WWait" .
    have c': "c' = c\<lparr>rg_q := set_slot (rg_q c) ?i (?s\<lparr>slot_status := 2\<rparr>), rg_cur := cpu_next ?i, rg_cpu := CLook\<rparr>"
      using s CDone by (simp add: cpu_step_def Let_def)
    have g: "g' = g" by (simp add: g' CDone)
    have "data_inv R c' g x"
    proof (cases "x = w")
      case False
      then show ?thesis using other_slot [OF c w(2,3) False] iN CDone
        by (intro data_frame [OF d]) (auto simp: c')
    next
      case True
      have "served c g w" "served c' g w" using w CDone iN by (simp_all add: served_def c' pc_of_def)
      then show ?thesis using d [of w] w iN unfolding True data_inv_def to_serve_def to_read_def
        by (simp add: c' pc_of_def)
    qed
    with l show ?thesis by (simp add: g log_inv_def c')
  qed
  then show "data_inv R c' g' x" "log_inv sv c' g'" by simp_all
qed

lemma wave_step_log:
  assumes "wave_step w c = Some c'" "log_inv sv c g"
  shows "log_inv sv c' (ghost_step c (Wave w) c' g)"
proof -
  have "rg_sv c' = rg_sv c" using assms(1)
    by (auto simp: wave_step_def Let_def hc_take_ticket_def split: wave_pc.splits list.splits if_splits)
  moreover have "g_log (ghost_step c (Wave w) c' g) = g_log g"
    by (cases "w_pc (rg_wave c w)") (simp_all add: Let_def)
  ultimately show ?thesis using assms(2) by (simp add: log_inv_def)
qed

lemma ring_inv_step:
  assumes i: "ring_inv W R sv cg" and W: "W \<le> 2 ^ 24" and s: "traced_step cg e cg'"
  shows "ring_inv W R sv cg'"
proof -
  obtain c g c' g' where cg: "cg = (c, g)" "cg' = (c', g')" by (cases cg, cases cg')
  have s': "traced_step (c, g) e (c', g')" and c: "ctl_inv W c g" and d: "\<And>w. data_inv R c g w"
    and l: "log_inv sv c g" using i s by (simp_all add: cg ring_inv_def)
  have "ctl_inv W c' g'" by (rule ctl_step [OF c W s'])
  moreover have "data_inv R c' g' x \<and> log_inv sv c' g'" for x
  proof (cases e)
    case (Wave w)
    with s' have "wave_step w c = Some c'" "g' = ghost_step c (Wave w) c' g"
      by (simp_all add: traced_step_def)
    with data_wave_step [OF c d this] wave_step_log [OF this(1) l] show ?thesis by simp
  next
    case Cpu
    with s' have "cpu_step c = Some c'" "g' = ghost_step c Cpu c' g"
      by (simp_all add: traced_step_def)
    with data_cpu_step [OF c d l this] show ?thesis by simp
  qed
  ultimately show ?thesis by (simp add: cg ring_inv_def)
qed

section \<open>Executions\<close>

fun ring_exec :: "ring \<Rightarrow> event list \<Rightarrow> ring option" where
  "ring_exec c [] = Some c"
| "ring_exec c (e # es) = (case ring_step c e of None \<Rightarrow> None | Some c' \<Rightarrow> ring_exec c' es)"

text \<open>The launch: at most \<open>W\<close> waves make calls, and a ticket distance fits in 32 bits.\<close>

definition launch_ok :: "nat \<Rightarrow> (nat \<Rightarrow> request list) \<Rightarrow> bool" where
  "launch_ok W R \<longleftrightarrow> W \<le> 2 ^ 24 \<and> (\<forall>w \<ge> W. R w = [])"

interpretation traced: inv_machine
  "\<lambda>cg. cg = (ring_init R sv, ghost_init)" traced_step
  "\<lambda>cg. launch_ok W R \<longrightarrow> ring_inv W R sv cg" for W R sv
proof (unfold_locales, goal_cases)
  case (1 cg)
  then show ?case by (auto simp: launch_ok_def intro: ring_inv_init)
next
  case (2 cg e cg')
  then show ?case by (auto simp: launch_ok_def intro: ring_inv_step)
qed

lemma exec_traced:
  "ring_exec c tr = Some c' \<Longrightarrow> machine.reach (\<lambda>cg. cg = (ring_init R sv, ghost_init)) traced_step tr0 (c, g) \<Longrightarrow>
   \<exists>g'. machine.reach (\<lambda>cg. cg = (ring_init R sv, ghost_init)) traced_step (tr0 @ tr) (c', g')"
proof (induction tr arbitrary: c g tr0)
  case (Cons e es)
  then obtain c1 where c1: "ring_step c e = Some c1" "ring_exec c1 es = Some c'"
    by (auto split: option.splits)
  then have "traced_step (c, g) e (c1, ghost_step c e c1 g)" by (simp add: traced_step_def)
  from traced.reach.reach_step [OF Cons.prems(2) this] Cons.IH [OF c1(2)] show ?case by fastforce
qed auto

text \<open>Every execution of the code is an execution with ghost state, and keeps the invariant.\<close>

lemma exec_inv:
  assumes "ring_exec (ring_init R sv) tr = Some c" "launch_ok W R"
  shows "\<exists>g. ring_inv W R sv (c, g)"
proof -
  have "machine.reach (\<lambda>cg. cg = (ring_init R sv, ghost_init)) traced_step [] (ring_init R sv, ghost_init)"
    by (rule traced.reach.reach_init) simp
  from exec_traced [OF assms(1) this] obtain g where
    "machine.reach (\<lambda>cg. cg = (ring_init R sv, ghost_init)) traced_step tr (c, g)" by auto
  from traced.reach_inv [OF this, of W] assms(2) show ?thesis by blast
qed

text \<open>
  The progress of one slot: the wave that the slot's generation admits exists, because the
  outstanding tickets of a slot are contiguous, and it is blocked only by an unserved request.
\<close>

lemma slot_progress:
  assumes c: "ctl_inv W c g" and W: "W \<le> 2 ^ 24" and a: "active (pc_of c w)"
  obtains w' where "active (pc_of c w')" "tslot g w' = tslot g w" "g_tick g w' \<le> g_tick g w"
    "wave_step w' c \<noteq> None \<or> slot_status (slot_of (rg_q c) (tslot g w)) = 1"
proof -
  let ?i = "tslot g w"
  have si: "slot_inv c g ?i" by (rule ctl_slot [OF c]) simp
  have wi: "g_gen g ?i \<le> g_tick g w" "g_tick g w < g_next g"
    using ctl_wave [OF c, of w] a by (auto simp: wave_inv_def)
  have gm: "g_gen g ?i mod HC_NSLOTS = ?i" using si by (simp add: slot_inv_def)
  then obtain v where v: "active (pc_of c v)" "g_tick g v = g_gen g ?i"
    using ctl_outstanding [OF c, of "g_gen g ?i"] wi by auto
  have vi: "tslot g v = ?i" using v(2) gm by (simp add: tslot_def)
  have ix: "slot_index (w_pos (rg_wave c v)) = ?i" using slot_index_pos [OF c v(1)] vi by simp
  have "wave_step v c \<noteq> None \<or> slot_status (slot_of (rg_q c) ?i) = 1"
  proof (cases "owning (pc_of c v)")
    case False
    then have "w_pc (rg_wave c v) = WSpin" using v(1) by (simp add: owning_def active_def pc_of_def)
    moreover have "hc_gate (rg_q c) (w_pos (rg_wave c v))" using gate_exact [OF c W v(1)] v(2) vi by simp
    ultimately show ?thesis by (simp add: wave_step_def Let_def)
  next
    case True
    then have "owned c g ?i" "g_owner g ?i = v" using owner_slot [OF c True] vi by simp_all
    with si have st: "status_ok (pc_of c v) (slot_status (slot_of (rg_q c) ?i)) (busy c ?i)"
      by (simp add: slot_inv_def)
    show ?thesis
    proof (cases "w_pc (rg_wave c v)")
      case WWait
      then show ?thesis using st ix by (auto simp: wave_step_def Let_def hc_done_def pc_of_def)
    qed (use True in \<open>auto simp: wave_step_def Let_def owning_def pc_of_def\<close>)
  qed
  with v vi wi that show ?thesis by simp
qed

text \<open>The wave steps still to come: eight per request.\<close>

fun pc_left :: "wave_pc \<Rightarrow> nat" where
  "pc_left WIdle = 0" | "pc_left WSpin = 7" | "pc_left WOwn = 6" | "pc_left WReady = 5"
| "pc_left WWait = 4" | "pc_left WRead = 3" | "pc_left WClear = 2" | "pc_left WTurn = 1"

definition wave_left :: "wave \<Rightarrow> nat" where
  "wave_left v = 8 * length (w_todo v) + pc_left (w_pc v)"

lemma wave_step_left:
  assumes "wave_step w c = Some c'"
  shows "Suc (wave_left (rg_wave c' w)) = wave_left (rg_wave c w)"
    "x \<noteq> w \<Longrightarrow> rg_wave c' x = rg_wave c x"
  using assms
  by (auto simp: wave_step_def Let_def hc_take_ticket_def wave_left_def
      split: wave_pc.splits list.splits if_splits)

lemma cpu_step_wave: "cpu_step c = Some c' \<Longrightarrow> rg_wave c' = rg_wave c"
  by (auto simp: cpu_step_def Let_def split: cpu_pc.splits option.splits if_splits)

lemma exec_left:
  "ring_exec c tr = Some c' \<Longrightarrow>
   count_list tr (Wave w) + wave_left (rg_wave c' w) = wave_left (rg_wave c w)"
proof (induction tr arbitrary: c)
  case (Cons e es)
  then obtain c1 where c1: "ring_step c e = Some c1" "ring_exec c1 es = Some c'"
    by (auto split: option.splits)
  from Cons.IH [OF c1(2)] show ?case
  proof (cases e)
    case (Wave x)
    with c1(1) Cons.IH [OF c1(2)] wave_step_left [of x c c1] show ?thesis by (cases "x = w") auto
  next
    case Cpu
    with c1(1) Cons.IH [OF c1(2)] cpu_step_wave [of c c1] show ?thesis by simp
  qed
qed simp

section \<open>The CPU answers\<close>

definition cpu_dist :: "ring \<Rightarrow> nat \<Rightarrow> nat" where
  "cpu_dist c i = 3 * ((i + HC_NSLOTS - rg_cur c) mod HC_NSLOTS) +
     (case rg_cpu c of CLook \<Rightarrow> 3 | CServe \<Rightarrow> 2 | CDone \<Rightarrow> 1)"

definition cpu_wf :: "ring \<Rightarrow> bool" where
  "cpu_wf c \<longleftrightarrow> length (slots (rg_q c)) = HC_NSLOTS \<and> rg_cur c < HC_NSLOTS"

lemma cpu_next_dist:
  assumes "i < HC_NSLOTS" "k < HC_NSLOTS" "i \<noteq> k"
  shows "Suc ((i + HC_NSLOTS - cpu_next k) mod HC_NSLOTS) = (i + HC_NSLOTS - k) mod HC_NSLOTS"
proof (cases "k < i")
  case True
  then have "i + HC_NSLOTS - cpu_next k = (i - Suc k) + HC_NSLOTS" "i + HC_NSLOTS - k = (i - k) + HC_NSLOTS"
    using assms by (auto simp: cpu_next_def)
  then have "(i + HC_NSLOTS - cpu_next k) mod HC_NSLOTS = i - Suc k"
    "(i + HC_NSLOTS - k) mod HC_NSLOTS = i - k" using assms by (simp_all only: mod_add_self2) simp_all
  then show ?thesis using True by simp
next
  case False
  with assms have "i < k" by simp
  then show ?thesis using assms by (cases "Suc k < HC_NSLOTS") (auto simp: cpu_next_def)
qed

lemma cpu_step_dist:
  assumes s: "cpu_step c = Some c'" and c: "cpu_wf c" "i < HC_NSLOTS"
    and st: "slot_status (slot_of (rg_q c) i) = 1"
  shows "cpu_wf c' \<and> (slot_status (slot_of (rg_q c') i) = 2 \<or>
    (slot_status (slot_of (rg_q c') i) = 1 \<and> cpu_dist c' i < cpu_dist c i))"
proof (cases "rg_cpu c")
  case CLook
  then show ?thesis using s c st cpu_next_dist [OF c(2), of "rg_cur c"]
    by (cases "i = rg_cur c") (auto simp: cpu_step_def Let_def cpu_wf_def cpu_dist_def split: if_splits)
next
  case CServe
  then show ?thesis using s c st
    by (auto simp: cpu_step_def Let_def cpu_wf_def cpu_dist_def split: option.splits dest: service_slot_frame(2))
next
  case CDone
  then show ?thesis using s c st cpu_next_dist [OF c(2), of "rg_cur c"]
    by (cases "i = rg_cur c") (auto simp: cpu_step_def Let_def cpu_wf_def cpu_dist_def)
qed

lemma cpu_step_done:
  assumes s: "cpu_step c = Some c'" and c: "cpu_wf c"
    and st: "slot_status (slot_of (rg_q c) i) = 2"
  shows "cpu_wf c' \<and> slot_status (slot_of (rg_q c') i) = 2"
  using assms by (auto simp: cpu_step_def Let_def cpu_wf_def
      split: cpu_pc.splits option.splits if_splits dest: service_slot_frame(2))

lemma cpu_run_done:
  "ring_exec c (replicate n Cpu) = Some c' \<Longrightarrow> cpu_wf c \<Longrightarrow>
   slot_status (slot_of (rg_q c) i) = 2 \<Longrightarrow> slot_status (slot_of (rg_q c') i) = 2"
proof (induction n arbitrary: c)
  case (Suc n)
  then obtain c1 where c1: "cpu_step c = Some c1" "ring_exec c1 (replicate n Cpu) = Some c'"
    by (auto split: option.splits)
  from cpu_step_done [OF c1(1) Suc.prems(2,3)] Suc.IH [OF c1(2)] show ?case by simp
qed simp

lemma cpu_run_answers:
  "ring_exec c (replicate n Cpu) = Some c' \<Longrightarrow> cpu_wf c \<Longrightarrow> i < HC_NSLOTS \<Longrightarrow>
   slot_status (slot_of (rg_q c) i) = 1 \<Longrightarrow> cpu_dist c i \<le> n \<Longrightarrow>
   slot_status (slot_of (rg_q c') i) = 2"
proof (induction n arbitrary: c)
  case 0
  then show ?case by (simp add: cpu_dist_def split: cpu_pc.splits)
next
  case (Suc n)
  then obtain c1 where c1: "cpu_step c = Some c1" "ring_exec c1 (replicate n Cpu) = Some c'"
    by (auto split: option.splits)
  from cpu_step_dist [OF c1(1) Suc.prems(2-4)] show ?case
    using Suc.IH [OF c1(2)] cpu_run_done [OF c1(2)] Suc.prems by auto
qed

lemma cpu_dist_le: "cpu_dist c i \<le> 3 * HC_NSLOTS"
proof -
  have "(i + HC_NSLOTS - rg_cur c) mod HC_NSLOTS < HC_NSLOTS" by simp
  then have "3 * ((i + HC_NSLOTS - rg_cur c) mod HC_NSLOTS) + 3 \<le> 3 * HC_NSLOTS" by linarith
  then show ?thesis by (simp add: cpu_dist_def split: cpu_pc.splits)
qed

definition cpu_ready :: "ring \<Rightarrow> bool" where
  "cpu_ready c \<longleftrightarrow> cpu_wf c \<and> service_ok (rg_sv c) \<and>
     (rg_cpu c = CServe \<longrightarrow> ready (slot_of (rg_q c) (rg_cur c))) \<and>
     (\<forall>i < HC_NSLOTS. ready (slot_of (rg_q c) i) \<longrightarrow> request_ok (rg_sv c) (slot_of (rg_q c) i))"

lemma cpu_ready_step:
  assumes c: "cpu_ready c"
  shows "\<exists>c'. cpu_step c = Some c' \<and> cpu_ready c'"
proof (cases "rg_cpu c")
  case CLook
  then show ?thesis using c by (auto simp: cpu_step_def Let_def cpu_ready_def cpu_wf_def ready_def)
next
  case CDone
  then show ?thesis using c by (auto simp: cpu_step_def Let_def cpu_ready_def cpu_wf_def ready_def)
next
  case CServe
  let ?s = "slot_of (rg_q c) (rg_cur c)"
  have cur: "rg_cur c < HC_NSLOTS" "length (slots (rg_q c)) = HC_NSLOTS" and ok: "service_ok (rg_sv c)"
    "request_ok (rg_sv c) ?s" using c CServe by (auto simp: cpu_ready_def cpu_wf_def)
  from service_slot_total [OF ok] obtain s' v' where s: "service_slot ?s (rg_sv c) = Some (s', v')" by blast
  let ?c = "c\<lparr>rg_q := set_slot (rg_q c) (rg_cur c) s', rg_sv := v', rg_cpu := CDone\<rparr>"
  have "cpu_step c = Some ?c" using s CServe by (simp add: cpu_step_def Let_def)
  moreover have "request_ok v' (slot_of (rg_q ?c) i)" if "i < HC_NSLOTS" "ready (slot_of (rg_q ?c) i)" for i
    using that cur c request_ok_after [OF s ok] request_ok_mono [OF _ service_slot_live [OF s ok(1)]]
    by (cases "i = rg_cur c") (auto simp: cpu_ready_def)
  ultimately show ?thesis using cur service_slot_ok [OF s ok(1)]
    by (auto simp: cpu_ready_def cpu_wf_def)
qed

lemma cpu_ready_run: "cpu_ready c \<Longrightarrow> \<exists>c'. ring_exec c (replicate n Cpu) = Some c'"
proof (induction n arbitrary: c)
  case (Suc n)
  from cpu_ready_step [OF Suc.prems] obtain c1 where "cpu_step c = Some c1" "cpu_ready c1" by blast
  with Suc.IH [of c1] show ?case by simp
qed simp

end
