(* ===== verification/Mailbox_Properties.thy ===== *)
theory Mailbox_Properties
  imports Ring_Protocol "HOL-Library.Sublist"
begin

text \<open>
  What the mailbox promises to its callers, over \<open>runtime/device/hostcall_lib.cpp\<close> and
  \<open>runtime/host/hostcall_service.cpp\<close>: the ring protocol, the service, and the marshalling,
  with a small concrete launch that the witnesses run.
\<close>

section \<open>A concrete launch\<close>

definition demo_io :: io where
  "demo_io = \<lparr>disk = (\<lambda>_. None), streams = (\<lambda>_. None), io_handles = [4096, 8192, 12288],
     openable = (\<lambda>_ _. True), devmem = (\<lambda>_. CHR ''x'')\<rparr>"

definition demo_calls :: "nat \<Rightarrow> request list" where
  "demo_calls w = (if w < 2 then [Hc_write_id (of_nat w + 5)] else [])"

definition demo_start :: ring where
  "demo_start = ring_init demo_calls (service_init demo_io)"

text \<open>Two waves take tickets, pass their gates and publish; the CPU serves slot 0.\<close>

definition demo_trace :: "event list" where
  "demo_trace = [Wave 0, Wave 1, Wave 0, Wave 1, Wave 0, Wave 0, Wave 1, Wave 1, Cpu, Cpu, Cpu, Wave 0, Wave 0]"

lemma demo_launch_ok: "launch_ok 2 demo_calls"
  by (simp add: launch_ok_def demo_calls_def)

lemma queue_init_sel [simp]: "length (slots queue_init) = HC_NSLOTS" "enqueue_pos queue_init = 0"
  by (simp_all add: queue_init_def)

lemma slot_of_init [simp]: "i < HC_NSLOTS \<Longrightarrow> slot_of queue_init i = zero_slot\<lparr>slot_turn := of_nat i\<rparr>"
  by (simp add: slot_of_def queue_init_slot)

lemmas ring_eval = ring_init_def wave_step_def cpu_step_def hc_take_ticket_def hc_gate_def hc_marshal_def
  hc_publish_def hc_done_def hc_clear_def hc_next_turn_def slot_index_mod idle_wave_def

lemma demo_runs:
  "\<exists>c. ring_exec demo_start demo_trace = Some c \<and> pc_of c 0 = WClear \<and> pc_of c 1 = WWait \<and>
     w_pos (rg_wave c 0) = 0 \<and> w_pos (rg_wave c 1) = 1 \<and> w_done (rg_wave c 0) = [RVoid] \<and>
     slot_status (slot_of (rg_q c) 1) = 1"
  by (simp add: demo_start_def demo_trace_def demo_calls_def ring_eval pc_of_def Let_def
      HC_NSLOTS_def zero_slot_def submit_def service_slot_def hc_ops service_init_def)

section \<open>The ring protocol\<close>

text \<open>
  C1: Linearizability. In every execution the state of the service is the result of running
  \<open>service_slot\<close> on a sequence of published requests one after the other; the entries of a
  wave in that sequence are a prefix of the calls the wave makes, in order; the results a wave
  has read are the replies of its own first entries, and at most one reply is still unread. A
  wave that has finished had every call served exactly once and read every reply.
\<close>

theorem ring_linearizable:
  assumes "launch_ok W R" "ring_exec (ring_init R sv) tr = Some c"
  shows "\<exists>log. run_log sv log = Some (rg_sv c) \<and>
    (\<forall>e \<in> set log. published (le_req e) (le_before e)) \<and>
    (\<forall>w. let L = filter (\<lambda>e. le_wave e = w) log; v = rg_wave c w in
       prefix (map le_req L) (R w) \<and>
       prefix (w_done v) (map entry_reply L) \<and> length L \<le> Suc (length (w_done v)) \<and>
       (w_pc v = WIdle \<and> w_todo v = [] \<longrightarrow> map le_req L = R w \<and> w_done v = map entry_reply L))"
proof -
  obtain g where g: "ring_inv W R sv (c, g)" using exec_inv assms by blast
  have "let L = wave_log g w; v = rg_wave c w in
       prefix (map le_req L) (R w) \<and>
       prefix (w_done v) (map entry_reply L) \<and> length L \<le> Suc (length (w_done v)) \<and>
       (w_pc v = WIdle \<and> w_todo v = [] \<longrightarrow> map le_req L = R w \<and> w_done v = map entry_reply L)" for w
  proof -
    have d: "map entry_reply (wave_log g w) = w_done (rg_wave c w) @ to_read c g w"
      "map le_req (wave_log g w) @ to_serve c g w @ w_todo (rg_wave c w) = R w"
      using g by (auto simp: ring_inv_def data_inv_def)
    have "length (wave_log g w) = length (w_done (rg_wave c w)) + length (to_read c g w)"
      using arg_cong [OF d(1), of length] by simp
    moreover have "length (to_read c g w) \<le> 1" by (simp add: to_read_def)
    moreover have "prefix (map le_req (wave_log g w)) (R w)" unfolding d(2) [symmetric] by simp
    moreover have "prefix (w_done (rg_wave c w)) (map entry_reply (wave_log g w))"
      unfolding d(1) by simp
    moreover have "map le_req (wave_log g w) = R w \<and> w_done (rg_wave c w) = map entry_reply (wave_log g w)"
      if "w_pc (rg_wave c w) = WIdle" "w_todo (rg_wave c w) = []"
      using d that by (simp add: to_serve_def to_read_def served_def pc_of_def)
    ultimately show ?thesis by (simp add: Let_def)
  qed
  then show ?thesis using g
    by (intro exI [of _ "g_log g"]) (simp add: ring_inv_def log_inv_def wave_log_def)
qed

theorem ring_linearizable_witness:
  "\<exists>c log. ring_exec demo_start demo_trace = Some c \<and> pc_of c 0 = WClear \<and>
     run_log (service_init demo_io) log = Some (rg_sv c) \<and>
     prefix [RVoid] (map entry_reply (filter (\<lambda>e. le_wave e = 0) log))"
proof -
  obtain c where c: "ring_exec demo_start demo_trace = Some c" "pc_of c 0 = WClear" "w_done (rg_wave c 0) = [RVoid]"
    using demo_runs by blast
  from ring_linearizable [OF demo_launch_ok c(1) [unfolded demo_start_def]] obtain log where
    "run_log (service_init demo_io) log = Some (rg_sv c)"
    "prefix (w_done (rg_wave c 0)) (map entry_reply (filter (\<lambda>e. le_wave e = 0) log))"
    by (auto simp: Let_def)
  with c show ?thesis by auto
qed

text \<open>
  C4: Mutual exclusion. Two waves that are past the generation gate (marshalling, waiting,
  reading or releasing) never use the same slot, whatever the wrap of the 32-bit ticket counter.
\<close>

theorem ring_mutual_exclusion:
  assumes "launch_ok W R" "ring_exec (ring_init R sv) tr = Some c"
    and "owning (pc_of c w)" "owning (pc_of c w')"
    and "slot_index (w_pos (rg_wave c w)) = slot_index (w_pos (rg_wave c w'))"
  shows "w = w'"
proof -
  obtain g where "ring_inv W R sv (c, g)" using exec_inv assms(1,2) by blast
  then have c: "ctl_inv W c g" by (simp add: ring_inv_def)
  have "tslot g w = tslot g w'"
    using assms(5) slot_index_pos [OF c owning_active [OF assms(3)]]
      slot_index_pos [OF c owning_active [OF assms(4)]] by simp
  then show ?thesis by (rule owner_unique [OF c assms(3,4)])
qed

theorem ring_mutual_exclusion_witness:
  "\<exists>c. ring_exec demo_start demo_trace = Some c \<and> owning (pc_of c 0) \<and> owning (pc_of c 1) \<and>
     slot_index (w_pos (rg_wave c 0)) \<noteq> slot_index (w_pos (rg_wave c 1))"
proof -
  obtain c where c: "ring_exec demo_start demo_trace = Some c" "pc_of c 0 = WClear" "pc_of c 1 = WWait"
    using demo_runs by blast
  have o: "owning (pc_of c 0)" "owning (pc_of c 1)" unfolding c owning_def by simp_all
  have "slot_index (w_pos (rg_wave c 0)) \<noteq> slot_index (w_pos (rg_wave c 1))"
    using ring_mutual_exclusion [OF demo_launch_ok c(1) [unfolded demo_start_def] o] by auto
  with c o show ?thesis by blast
qed

lemma waiting_resolved:
  assumes "launch_ok W R" "ring_exec (ring_init R sv) tr = Some c" "pc_of c w \<noteq> WIdle"
  shows "\<exists>w'. pc_of c w' \<noteq> WIdle \<and>
    slot_index (w_pos (rg_wave c w')) = slot_index (w_pos (rg_wave c w)) \<and>
    (wave_step w' c \<noteq> None \<or> slot_status (slot_of (rg_q c) (slot_index (w_pos (rg_wave c w)))) = 1)"
proof -
  obtain g where "ring_inv W R sv (c, g)" using exec_inv assms(1,2) by blast
  then have c: "ctl_inv W c g" by (simp add: ring_inv_def)
  have W: "W \<le> 2 ^ 24" using assms(1) by (simp add: launch_ok_def)
  have a: "active (pc_of c w)" using assms(3) by (simp add: active_def)
  from slot_progress [OF c W a] obtain w' where w': "active (pc_of c w')" "tslot g w' = tslot g w"
    "wave_step w' c \<noteq> None \<or> slot_status (slot_of (rg_q c) (tslot g w)) = 1" by blast
  with slot_index_pos [OF c a] slot_index_pos [OF c w'(1)] show ?thesis
    by (intro exI [of _ w']) (simp add: active_def)
qed

text \<open>
  C5: No deadlock. For every wave that holds a ticket, the slot of the ticket has a wave with an
  older or equal ticket that can take its next step at once, or an unserved request that only
  the CPU has to answer. No wave without a ticket is ever waited for, so waves that are not
  resident on the device cannot block the ones that are.
\<close>

theorem ring_no_deadlock:
  assumes "launch_ok W R" "ring_exec (ring_init R sv) tr = Some c" "pc_of c w \<noteq> WIdle"
  shows "\<exists>w'. pc_of c w' \<noteq> WIdle \<and>
    slot_index (w_pos (rg_wave c w')) = slot_index (w_pos (rg_wave c w)) \<and>
    (wave_step w' c \<noteq> None \<or> slot_status (slot_of (rg_q c) (slot_index (w_pos (rg_wave c w)))) = 1)"
  using waiting_resolved [OF assms] .

theorem ring_no_deadlock_witness:
  "\<exists>c w'. ring_exec demo_start demo_trace = Some c \<and> pc_of c w' \<noteq> WIdle \<and>
     (wave_step w' c \<noteq> None \<or> slot_status (slot_of (rg_q c) (slot_index (w_pos (rg_wave c 1)))) = 1)"
proof -
  obtain c where c: "ring_exec demo_start demo_trace = Some c" "pc_of c 1 = WWait"
    using demo_runs by blast
  then have "pc_of c 1 \<noteq> WIdle" by simp
  from ring_no_deadlock [OF demo_launch_ok c(1) [unfolded demo_start_def] this] c(1) show ?thesis by blast
qed

lemma ring_completes_parts:
  assumes "launch_ok W R" "ring_exec (ring_init R sv) tr = Some c"
  shows "count_list tr (Wave w) + wave_left (rg_wave c w) = 8 * length (R w)"
    and "(\<forall>x. wave_step x c = None) \<Longrightarrow> (\<forall>i < HC_NSLOTS. slot_status (slot_of (rg_q c) i) \<noteq> 1) \<Longrightarrow>
      w_pc (rg_wave c w) = WIdle \<and> w_todo (rg_wave c w) = [] \<and> length (w_done (rg_wave c w)) = length (R w)"
proof -
  show "count_list tr (Wave w) + wave_left (rg_wave c w) = 8 * length (R w)"
    using exec_left [OF assms(2)] by (simp add: ring_init_def idle_wave_def wave_left_def)
  assume q: "\<forall>x. wave_step x c = None" "\<forall>i < HC_NSLOTS. slot_status (slot_of (rg_q c) i) \<noteq> 1"
  have i: "w_pc (rg_wave c w) = WIdle"
    using waiting_resolved [OF assms, of w] q by (auto simp: pc_of_def)
  moreover have t: "w_todo (rg_wave c w) = []"
    using q(1) [rule_format, of w] i by (cases "w_todo (rg_wave c w)") (auto simp: wave_step_def Let_def hc_take_ticket_def)
  moreover obtain g where "ring_inv W R sv (c, g)" using exec_inv assms by blast
  then have d: "map entry_reply (wave_log g w) = w_done (rg_wave c w) @ to_read c g w"
      "map le_req (wave_log g w) @ to_serve c g w @ w_todo (rg_wave c w) = R w"
    by (auto simp: ring_inv_def data_inv_def)
  have "length (w_done (rg_wave c w)) = length (R w)"
    using arg_cong [OF d(1), of length] arg_cong [OF d(2), of length] i t
    by (simp add: to_serve_def to_read_def served_def pc_of_def)
  ultimately show "w_pc (rg_wave c w) = WIdle \<and> w_todo (rg_wave c w) = [] \<and>
      length (w_done (rg_wave c w)) = length (R w)" by blast
qed

text \<open>
  C6: Bounded work and completion. A wave takes exactly eight steps per call, so every execution
  has finitely many wave steps; and when no wave can step and no request is unserved, every wave
  has made all its calls and read all its replies.
\<close>

theorem ring_completes:
  assumes "launch_ok W R" "ring_exec (ring_init R sv) tr = Some c"
  shows "count_list tr (Wave w) + wave_left (rg_wave c w) = 8 * length (R w) \<and>
    ((\<forall>x. wave_step x c = None) \<longrightarrow> (\<forall>i < HC_NSLOTS. slot_status (slot_of (rg_q c) i) \<noteq> 1) \<longrightarrow>
      w_pc (rg_wave c w) = WIdle \<and> w_todo (rg_wave c w) = [] \<and> length (w_done (rg_wave c w)) = length (R w))"
  by (rule conjI, rule ring_completes_parts(1) [OF assms], rule impI, rule impI, rule ring_completes_parts(2) [OF assms])

text \<open>A launch of one wave, run to its end.\<close>

definition demo_one :: "nat \<Rightarrow> request list" where
  "demo_one w = (if w = 0 then [Hc_write_id 5] else [])"

definition demo_full :: "event list" where
  "demo_full = [Wave 0, Wave 0, Wave 0, Wave 0, Cpu, Cpu, Cpu, Wave 0, Wave 0, Wave 0, Wave 0]"

lemma demo_full_runs:
  "\<exists>c. ring_exec (ring_init demo_one (service_init demo_io)) demo_full = Some c \<and>
     w_pc (rg_wave c 0) = WIdle \<and> w_todo (rg_wave c 0) = [] \<and>
     (\<forall>x. x \<noteq> 0 \<longrightarrow> rg_wave c x = idle_wave []) \<and>
     slots (rg_q c) = (slots queue_init)[0 := slot_of (rg_q c) 0] \<and> slot_status (slot_of (rg_q c) 0) = 0"
  by (simp add: demo_full_def demo_one_def ring_eval Let_def
      HC_NSLOTS_def zero_slot_def submit_def service_slot_def hc_ops service_init_def)
    (simp add: set_slot_def)

theorem ring_completes_witness:
  "\<exists>c. ring_exec (ring_init demo_one (service_init demo_io)) demo_full = Some c \<and>
     count_list demo_full (Wave 0) + wave_left (rg_wave c 0) = 8 \<and> length (w_done (rg_wave c 0)) = 1"
proof -
  obtain c where c: "ring_exec (ring_init demo_one (service_init demo_io)) demo_full = Some c"
    "w_pc (rg_wave c 0) = WIdle" "w_todo (rg_wave c 0) = []" "\<forall>x. x \<noteq> 0 \<longrightarrow> rg_wave c x = idle_wave []"
    "slots (rg_q c) = (slots queue_init)[0 := slot_of (rg_q c) 0]" "slot_status (slot_of (rg_q c) 0) = 0"
    using demo_full_runs by blast
  from c(5) obtain s where s: "slots (rg_q c) = (slots queue_init)[0 := s]" by blast
  have l: "launch_ok 1 demo_one" by (simp add: launch_ok_def demo_one_def)
  have "wave_step x c = None" for x
    using c(2-4) by (cases "x = 0") (simp_all add: wave_step_def Let_def idle_wave_def)
  moreover have "\<forall>i < HC_NSLOTS. slot_status (slot_of (rg_q c) i) \<noteq> 1"
  proof (intro allI impI)
    fix i assume i: "i < HC_NSLOTS"
    show "slot_status (slot_of (rg_q c) i) \<noteq> 1"
    proof (cases "i = 0")
      case False
      then have "slot_of (rg_q c) i = slot_of queue_init i" unfolding slot_of_def s by simp
      with i show ?thesis by (simp add: zero_slot_def)
    qed (simp add: c(6))
  qed
  ultimately show ?thesis
    using ring_completes [OF l c(1), of 0] c(1) by (auto simp: demo_one_def)
qed

text \<open>
  C7: The CPU answers. From any state in which the service is consistent and the unserved
  requests are well-formed, \<open>3 * 256\<close> steps of the CPU alone are enough: no step is undefined,
  and every slot whose request was pending at the start is answered at the end.
\<close>

theorem cpu_answers_all:
  assumes "cpu_ready c" "3 * HC_NSLOTS \<le> n"
  shows "\<exists>c'. ring_exec c (replicate n Cpu) = Some c' \<and>
    (\<forall>i < HC_NSLOTS. slot_status (slot_of (rg_q c) i) = 1 \<longrightarrow> slot_status (slot_of (rg_q c') i) = 2)"
proof -
  obtain c' where c': "ring_exec c (replicate n Cpu) = Some c'" using cpu_ready_run [OF assms(1)] by blast
  have "cpu_wf c" using assms(1) by (simp add: cpu_ready_def)
  with c' show ?thesis
    using cpu_run_answers [OF c'] cpu_dist_le [of c] assms(2) by (meson le_trans)
qed

definition demo_pending :: ring where
  "demo_pending = demo_start\<lparr>rg_q := set_slot queue_init 7
     ((submit (Hc_write_id 9) (zero_slot\<lparr>slot_turn := 7\<rparr>))\<lparr>slot_status := 1\<rparr>)\<rparr>"

lemma service_init_ok: "io_ok w \<Longrightarrow> io_live w = {} \<Longrightarrow> service_ok (service_init w)"
  by (simp add: service_ok_def service_init_def stdio.table_ok_def lookup0_def io_live_def)

lemma demo_io_ok: "io_ok demo_io" "io_live demo_io = {}"
  by (simp_all add: io_ok_def io_live_def demo_io_def)

lemma demo_pending_ready: "cpu_ready demo_pending"
  using service_init_ok [OF demo_io_ok]
  by (simp add: cpu_ready_def cpu_wf_def demo_pending_def demo_start_def ring_init_def HC_NSLOTS_def
      request_ok_def submit_def hc_ops ready_def zero_slot_def)

theorem cpu_answers_all_witness:
  "\<exists>c'. ring_exec demo_pending (replicate 768 Cpu) = Some c' \<and> slot_status (slot_of (rg_q c') 7) = 2"
proof -
  have "3 * HC_NSLOTS \<le> 768" by (simp add: HC_NSLOTS_def)
  from cpu_answers_all [OF demo_pending_ready this] obtain c' where
    c': "ring_exec demo_pending (replicate 768 Cpu) = Some c'"
    "\<forall>i < HC_NSLOTS. slot_status (slot_of (rg_q demo_pending) i) = 1 \<longrightarrow> slot_status (slot_of (rg_q c') i) = 2"
    by blast
  have "slot_status (slot_of (rg_q demo_pending) 7) = 1" by (simp add: demo_pending_def HC_NSLOTS_def)
  with c' show ?thesis by (auto simp: HC_NSLOTS_def)
qed

section \<open>The service\<close>

text \<open>
  C8: With well-formed requests a scan of the service loop is defined; it keeps the file table
  consistent, answers every ready slot (status 2, same generation) and leaves every other slot as
  it was, and appends to each trace file exactly the payloads that the ready slots direct to its
  stream, in slot order, whole and without interleaving.
\<close>

theorem scan_appends_in_order:
  assumes "length sl = HC_NSLOTS" "service_ok v" "\<forall>s \<in> set sl. ready s \<longrightarrow> request_ok v s"
    and "log_of v p h old"
  shows "\<exists>any sl' v'. service_scan (sl, v) = Some (any, sl', v') \<and>
    service_ok v' \<and> length sl' = HC_NSLOTS \<and> (any \<longleftrightarrow> (\<exists>s \<in> set sl. ready s)) \<and>
    (\<forall>i < HC_NSLOTS. slot_done (sl ! i) (sl' ! i)) \<and>
    log_of v' p h (old @ concat (map (\<lambda>s. slot_output v s h) (filter ready sl)))"
proof -
  have n: "0 + HC_NSLOTS \<le> length sl" using assms(1) by simp
  obtain any sl' v' where s: "scan_from HC_NSLOTS 0 False (sl, v) = Some (any, sl', v')"
    using scan_from_total [OF assms(2,3) n] by blast
  have "length sl' = HC_NSLOTS" using scan_from_nth [OF s n] assms(1) by simp
  moreover have "slot_done (sl ! i) (sl' ! i)" if "i < HC_NSLOTS" for i
    using scan_from_nth [OF s n, of i] that by simp
  ultimately show ?thesis
    using s scan_from_any [OF s n] scan_from_log [OF s n assms(2,4)] assms(1)
    by (auto simp: filter_empty_conv service_scan_def)
qed

text \<open>Two writes to one open trace file, in slots 3 and 5 of an otherwise idle queue.\<close>

definition demo_service :: service where
  "demo_service = \<lparr>sv_io = demo_io\<lparr>disk := (disk demo_io)(''t.txt'' := Some ''A''),
       streams := (streams demo_io)(4096 := Some \<lparr>st_path = ''t.txt'', st_pos = 1, st_append = False,
         st_read = False, st_write = True\<rparr>), io_handles := [8192, 12288]\<rparr>,
     sv_files = [(''t.txt'', 4096)], sv_primary = 4096, sv_opens = 1, sv_writes = 1, sv_closes = 0\<rparr>"

definition demo_write :: "char \<Rightarrow> HostcallSlot" where
  "demo_write ch = (submit (Gpu_fwrite_256 4096 (\<lambda>_. ch) 2) zero_slot)\<lparr>slot_status := 1\<rparr>"

definition demo_queue :: "HostcallSlot list" where
  "demo_queue = (replicate HC_NSLOTS zero_slot)[3 := demo_write CHR ''B'', 5 := demo_write CHR ''C'']"

lemma demo_service_ok: "service_ok demo_service"
  by (simp add: service_ok_def demo_service_def stdio.table_ok_def lookup0_def io_ok_def io_live_def demo_io_def)

lemma demo_service_log: "log_of demo_service ''t.txt'' 4096 ''A''"
  by (simp add: log_of_def demo_service_def)

lemma take_two: "Suc 0 < length xs \<Longrightarrow> take (Suc (Suc 0)) (xs[0 := a, Suc 0 := b]) = [a, b]"
  by (cases xs; cases "tl xs") auto

lemma demo_write_fields:
  "slot_opcode (demo_write ch) = HC_OP_FWRITE" "slot_handle (demo_write ch) = 4096"
  "slot_size (demo_write ch) = 2" "take 2 (slot_data (demo_write ch)) = [ch, ch]" "ready (demo_write ch)"
  by (simp_all add: demo_write_def submit_def clamp_size_def hc_sizes ready_def numeral_2_eq_2 zero_slot_def take_two)

lemma demo_queue_ready:
  "length demo_queue = HC_NSLOTS" "filter ready demo_queue = [demo_write CHR ''B'', demo_write CHR ''C'']"
proof -
  have z: "\<not> ready zero_slot" by (simp add: ready_def zero_slot_def)
  then have idle: "filter ready (replicate n zero_slot) = []" for n by (induction n) auto
  have "replicate (3 + (3 + 250)) zero_slot = replicate 3 zero_slot @ replicate 3 zero_slot @ replicate 250 zero_slot"
    by (simp only: replicate_add)
  then have "replicate 256 zero_slot = replicate 3 zero_slot @ zero_slot # zero_slot # zero_slot # replicate 250 zero_slot"
    by (simp add: numeral_3_eq_3)
  then have q: "demo_queue = replicate 3 zero_slot @ demo_write CHR ''B'' # zero_slot # demo_write CHR ''C'' # replicate 250 zero_slot"
    by (simp add: demo_queue_def HC_NSLOTS_def list_update_append)
  show "filter ready demo_queue = [demo_write CHR ''B'', demo_write CHR ''C'']"
    unfolding q filter_append filter.simps by (simp add: idle z demo_write_fields)
  show "length demo_queue = HC_NSLOTS" by (simp add: demo_queue_def)
qed

theorem scan_appends_in_order_witness:
  "\<exists>any sl' v'. service_scan (demo_queue, demo_service) = Some (any, sl', v') \<and>
     disk (sv_io v') ''t.txt'' = Some ''ABBCC'' \<and> any"
proof -
  have r: "\<forall>s \<in> set demo_queue. ready s \<longrightarrow> request_ok demo_service s"
  proof (intro ballI impI)
    fix s assume "s \<in> set demo_queue" "ready s"
    then have "s \<in> set (filter ready demo_queue)" by simp
    then show "request_ok demo_service s"
      by (auto simp: demo_queue_ready request_ok_def demo_write_fields handle_ok_def hc_ops hc_sizes
          io_live_def demo_service_def)
  qed
  from scan_appends_in_order [OF demo_queue_ready(1) demo_service_ok r demo_service_log]
  obtain any sl' v' where s: "service_scan (demo_queue, demo_service) = Some (any, sl', v')"
    "any \<longleftrightarrow> (\<exists>s \<in> set demo_queue. ready s)"
    "log_of v' ''t.txt'' 4096 (''A'' @ concat (map (\<lambda>s. slot_output demo_service s 4096) (filter ready demo_queue)))"
    by blast
  from s(3) have "disk (sv_io v') ''t.txt'' = Some ''ABBCC''"
    by (simp add: demo_queue_ready slot_output_def demo_write_fields log_of_def)
  moreover have "any" using s(2) demo_queue_ready(2) by (metis filter_False list.distinct(1))
  ultimately show ?thesis using s(1) by blast
qed

section \<open>Calls from the device to the file system\<close>

text \<open>The services of several requests, one after the other.\<close>

fun run_slots :: "HostcallSlot list \<Rightarrow> service \<Rightarrow> service option" where
  "run_slots [] v = Some v"
| "run_slots (s # ss) v = (case service_slot s v of None \<Rightarrow> None | Some (s', v') \<Rightarrow> run_slots ss v')"

lemma service_slot_lookup:
  assumes "service_slot s v = Some (s', v')" "lookup0 (sv_files v) n = h" "h \<noteq> 0"
  shows "lookup0 (sv_files v') n = h"
  using service_slot_effect [OF assms(1)]
proof (elim disjE)
  assume e: "fopen_effect s v s' v'"
  then have o: "fopen_once io_fopen (sv_files v) (cstr (slot_path s)) (cstr (slot_mode s)) (sv_io v) =
      (slot_handle s', sv_files v', sv_io v')" by (simp add: fopen_effect_def)
  from stdio.once_lookup [OF o, of n] fopen_effect_io [OF e] assms(2,3) show ?thesis by auto
qed (use assms(2) in \<open>auto simp: write_effect_def quiet_effect_def\<close>)

lemma run_slots_lookup:
  "run_slots ss v = Some v' \<Longrightarrow> lookup0 (sv_files v) n = h \<Longrightarrow> h \<noteq> 0 \<Longrightarrow> lookup0 (sv_files v') n = h"
  by (induction ss v rule: run_slots.induct) (auto split: option.splits dest: service_slot_lookup)

lemma run_slots_ok: "run_slots ss v = Some v' \<Longrightarrow> service_ok v \<Longrightarrow> service_ok v'"
  by (induction ss v rule: run_slots.induct) (auto split: option.splits dest: service_slot_ok)

lemma fopen_service:
  assumes "service_slot s v = Some (s', v')" "slot_opcode s = HC_OP_FOPEN" "service_ok v"
  shows "lookup0 (sv_files v') (cstr (slot_path s)) = slot_handle s'"
proof -
  from service_slot_effect [OF assms(1)] assms(2) have e: "fopen_effect s v s' v'"
    by (auto simp: write_effect_def quiet_effect_def)
  then have "fopen_once io_fopen (sv_files v) (cstr (slot_path s)) (cstr (slot_mode s)) (sv_io v) =
      (slot_handle s', sv_files v', sv_io v')" by (simp add: fopen_effect_def)
  from stdio.once_lookup [OF this, of "cstr (slot_path s)"] show ?thesis by simp
qed

lemma submit_path:
  "slot_wf s \<Longrightarrow> cstr (slot_path (submit (Gpu_fopen (Some f) m) s)) = cstr_mem (HC_PATH_SIZE - 1) f"
  by (simp add: submit_def marshal_str_spec slot_wf_def HC_PATH_SIZE_def cstr_write_string)

text \<open>
  C9: A file name is one file. When a wave's open has succeeded, any later open, after any calls
  of any waves, returns the same handle exactly when the name is the same in its first 127
  characters.
\<close>

theorem fopen_handle_iff_name:
  assumes "service_ok v" "slot_wf s1" "slot_wf s2"
    and "service_slot (submit (Gpu_fopen (Some f1) m1) s1) v = Some (r1, v1)" "slot_handle r1 \<noteq> 0"
    and "run_slots ss v1 = Some v2"
    and "service_slot (submit (Gpu_fopen (Some f2) m2) s2) v2 = Some (r2, v3)"
  shows "slot_handle r2 = slot_handle r1 \<longleftrightarrow> cstr_mem (HC_PATH_SIZE - 1) f2 = cstr_mem (HC_PATH_SIZE - 1) f1"
proof -
  let ?n1 = "cstr_mem (HC_PATH_SIZE - 1) f1" and ?n2 = "cstr_mem (HC_PATH_SIZE - 1) f2"
  have v1: "service_ok v1" and v2: "service_ok v2" and v3: "service_ok v3"
    using service_slot_ok [OF assms(4,1)] run_slots_ok [OF assms(6)] service_slot_ok [OF assms(7)] by auto
  have l1: "lookup0 (sv_files v1) ?n1 = slot_handle r1"
    using fopen_service [OF assms(4) _ assms(1)] submit_path [OF assms(2)] by simp
  have l3: "lookup0 (sv_files v3) ?n1 = slot_handle r1"
    using service_slot_lookup [OF assms(7) run_slots_lookup [OF assms(6) l1 assms(5)] assms(5)] .
  have "lookup0 (sv_files v3) ?n2 = slot_handle r2"
    using fopen_service [OF assms(7) _ v2] submit_path [OF assms(3)] by simp
  then show ?thesis using l3 v3 assms(5) unfolding service_ok_def stdio.table_ok_def by metis
qed

theorem fopen_handle_iff_name_witness:
  "\<exists>r1 v1 r2 v3. service_slot (submit (Gpu_fopen (Some (mem_of ''a'')) (Some (mem_of ''w''))) zero_slot) (service_init demo_io) = Some (r1, v1) \<and>
     service_slot (submit (Gpu_fopen (Some (mem_of ''b'')) (Some (mem_of ''w''))) zero_slot) v1 = Some (r2, v3) \<and>
     slot_handle r1 \<noteq> 0 \<and> slot_handle r1 \<noteq> slot_handle r2"
proof -
  let ?s1 = "submit (Gpu_fopen (Some (mem_of ''a'')) (Some (mem_of ''w''))) zero_slot"
  let ?s2 = "submit (Gpu_fopen (Some (mem_of ''b'')) (Some (mem_of ''w''))) zero_slot"
  have ok: "service_ok (service_init demo_io)" by (rule service_init_ok [OF demo_io_ok])
  have wf: "slot_wf zero_slot" by simp
  have rq: "request_ok v (submit (Gpu_fopen f m) s)" for v f m s
    by (simp add: request_ok_def hc_ops)
  from service_slot_total [OF ok rq] obtain r1 v1 where 1: "service_slot ?s1 (service_init demo_io) = Some (r1, v1)" by blast
  from service_slot_total [OF service_slot_ok [OF 1 ok] rq] obtain r2 v3 where 2: "service_slot ?s2 v1 = Some (r2, v3)" by blast
  have m: "cstr (slot_mode ?s1) = ''w''"
    by (simp add: submit_def marshal_str_spec HC_MODE_SIZE_def zero_slot_def cstr_write_string)
      (simp add: cstr_mem_def mem_of_def upt_rec)
  have "slot_handle r1 = 4096" using 1 m
    by (auto simp: service_slot_def fopen_once_def Let_def service_init_def io_fopen_def demo_io_def hc_ops)
  moreover have "cstr_mem (HC_PATH_SIZE - 1) (mem_of ''a'') \<noteq> cstr_mem (HC_PATH_SIZE - 1) (mem_of ''b'')"
    by (simp add: cstr_mem_def mem_of_def HC_PATH_SIZE_def upt_rec)
  moreover have "slot_handle r1 \<noteq> 0" using calculation by simp
  ultimately have "slot_handle r1 \<noteq> slot_handle r2"
    using fopen_handle_iff_name [OF ok wf wf 1 _ _ 2, of "[]"] by auto
  with 1 2 \<open>slot_handle r1 \<noteq> 0\<close> show ?thesis by blast
qed

text \<open>The bytes of a by-value write, as the device stages them.\<close>

definition staged :: "(nat \<Rightarrow> char) \<Rightarrow> i32 \<Rightarrow> string" where
  "staged d n = map d [0..<min (nat (sint n)) HC_DATA_SIZE]"

lemma nat_clamp: "nat (sint (clamp_size n)) = min (nat (sint n)) HC_DATA_SIZE"
  by (simp add: clamp_size_def HC_DATA_SIZE_def)

lemma submit_fwrite_data:
  "slot_wf s \<Longrightarrow> take (nat (sint (clamp_size n))) (slot_data (submit (Gpu_fwrite_256 h d n) s)) = staged d n"
proof -
  assume "slot_wf s"
  then have "nat (sint (clamp_size n)) \<le> length (slot_data s)" by (simp add: nat_clamp slot_wf_def)
  then show ?thesis
    by (simp add: submit_def Let_def copy_bytes_spec write_at_def staged_def nat_clamp)
qed

lemma service_fwrite:
  assumes "slot_opcode s = HC_OP_FWRITE" "slot_handle s \<noteq> 0" "slot_payload s = Some d"
    "service_slot s v = Some (s', v')"
  shows "\<exists>n w'. io_fwrite d (slot_handle s) (sv_io v) = Some (n, w') \<and> slot_retval s' = of_nat n"
  using assms by (auto simp: service_slot_def hc_ops Let_def split: option.splits)

lemma io_fwrite_count:
  "io_fwrite d f w = Some (n, w') \<Longrightarrow> streams w f = Some st \<Longrightarrow> st_write st \<Longrightarrow> n = length d"
  by (auto simp: io_fwrite_def Let_def)

text \<open>
  C30: A by-value write of \<open>n \<ge> 0\<close> bytes to an open trace file appends exactly the first
  \<open>min n 512\<close> bytes of the caller's memory to the file, and the caller gets that count back.
\<close>

theorem fwrite_256_appends:
  assumes "service_ok v" "slot_wf s" "0 \<le> sint n" "log_of v p h old"
  shows "\<exists>s' v'. service_slot (submit (Gpu_fwrite_256 h d n) s) v = Some (s', v') \<and>
    service_ok v' \<and> log_of v' p h (old @ staged d n) \<and>
    reply (Gpu_fwrite_256 h d n) s' = RCount (of_nat (length (staged d n)))"
proof -
  let ?s = "submit (Gpu_fwrite_256 h d n) s"
  have f: "slot_opcode ?s = HC_OP_FWRITE" "slot_handle ?s = h" "slot_size ?s = clamp_size n"
    by (simp_all add: submit_def Let_def)
  from assms(4) obtain st where st: "streams (sv_io v) h = Some st" "st_write st" "h \<noteq> 0"
    by (auto simp: log_of_def split: option.splits)
  have "request_ok v ?s"
    using f st clamp_size_nonneg [OF assms(3)] sint_clamp_le [of n]
    by (auto simp: request_ok_def handle_ok_def io_live_def hc_ops)
  from service_slot_total [OF assms(1) this] obtain s' v' where s: "service_slot ?s v = Some (s', v')" by blast
  have out: "slot_output v ?s h = staged d n"
    using submit_fwrite_data [OF assms(2)] by (simp add: slot_output_def f)
  have pay: "slot_payload ?s = Some (staged d n)"
    using submit_fwrite_data [OF assms(2)] clamp_size_nonneg [OF assms(3)] sint_clamp_le [of n]
    by (simp add: slot_payload_def f)
  have "slot_retval s' = of_nat (length (staged d n))"
    using service_fwrite [OF f(1) _ pay s] io_fwrite_count [OF _ st(1,2)] st(3) f(2) by auto
  with s service_slot_ok [OF s assms(1)] service_slot_log [OF s assms(1,4)] show ?thesis
    by (simp add: out)
qed

theorem fwrite_256_appends_witness:
  "\<exists>s' v'. service_slot (submit (Gpu_fwrite_256 4096 (mem_of ''hello'') 5) zero_slot) demo_service = Some (s', v') \<and>
     disk (sv_io v') ''t.txt'' = Some ''Ahello'' \<and> slot_retval s' = 5"
proof -
  have "0 \<le> sint (5 :: i32)" by simp
  from fwrite_256_appends [OF demo_service_ok zero_slot_wf this demo_service_log, of "mem_of ''hello''"]
  obtain s' v' where s: "service_slot (submit (Gpu_fwrite_256 4096 (mem_of ''hello'') 5) zero_slot) demo_service = Some (s', v')"
    "log_of v' ''t.txt'' 4096 (''A'' @ staged (mem_of ''hello'') 5)"
    "RCount (slot_retval s') = RCount (of_nat (length (staged (mem_of ''hello'') 5)))" by auto
  have "staged (mem_of ''hello'') 5 = ''hello''" by (simp add: staged_def mem_of_def HC_DATA_SIZE_def upt_rec)
  with s show ?thesis by (auto simp: log_of_def)
qed

lemma hc_write_uses_stale_handle_parts:
  assumes "slot_wf s"
  shows "slot_output v (submit Hc_write s) h = (if slot_handle s = h then trace_msg else [])"
    and "slot_handle s = 0 \<Longrightarrow> service_slot (submit Hc_write s) v =
      Some ((submit Hc_write s)\<lparr>slot_retval := - 1\<rparr>, v\<lparr>sv_writes := sv_writes v + 1\<rparr>)"
proof -
  have l: "length trace_msg = 23" by (simp add: trace_msg_def)
  have f: "slot_opcode (submit Hc_write s) = HC_OP_FWRITE" "slot_handle (submit Hc_write s) = slot_handle s"
    "slot_size (submit Hc_write s) = 23" by (simp_all add: submit_def l)
  have "take 23 (copy_bytes (length trace_msg) (mem_of trace_msg) (slot_data s)) = trace_msg"
    using assms l by (simp add: copy_bytes_spec write_at_def slot_wf_def HC_DATA_SIZE_def)
      (simp add: mem_of_def list_eq_iff_nth_eq)
  then show "slot_output v (submit Hc_write s) h = (if slot_handle s = h then trace_msg else [])"
    by (simp add: slot_output_def f) (simp add: submit_def hc_ops)
  show "slot_handle s = 0 \<Longrightarrow> service_slot (submit Hc_write s) v =
      Some ((submit Hc_write s)\<lparr>slot_retval := - 1\<rparr>, v\<lparr>sv_writes := sv_writes v + 1\<rparr>)"
    using f by (simp add: service_slot_def Let_def hc_ops)
qed

text \<open>
  The nullary \<open>hc_write\<close> never sets the handle, so its text goes to whatever stream the
  previous call through the same slot left there, and is lost on a slot whose handle is null:
  the service of the request then writes nothing and answers \<open>-1\<close>, even when a trace file is
  open and primary.
\<close>

theorem hc_write_uses_stale_handle:
  assumes "slot_wf s"
  shows "slot_output v (submit Hc_write s) h = (if slot_handle s = h then trace_msg else []) \<and>
    (slot_handle s = 0 \<longrightarrow> service_slot (submit Hc_write s) v =
      Some ((submit Hc_write s)\<lparr>slot_retval := - 1\<rparr>, v\<lparr>sv_writes := sv_writes v + 1\<rparr>))"
  by (rule conjI, rule hc_write_uses_stale_handle_parts(1) [OF assms], rule impI, rule hc_write_uses_stale_handle_parts(2) [OF assms])

theorem hc_write_uses_stale_handle_witness:
  "sv_primary demo_service = 4096 \<and> slot_output demo_service (submit Hc_write zero_slot) 4096 = [] \<and>
   (\<exists>s'. service_slot (submit Hc_write zero_slot) demo_service = Some (s', demo_service\<lparr>sv_writes := 2\<rparr>) \<and> slot_retval s' = - 1)"
proof -
  have z: "slot_handle zero_slot = 0" by (simp add: zero_slot_def)
  from hc_write_uses_stale_handle [OF zero_slot_wf, of demo_service 4096] z
  show ?thesis by (simp add: demo_service_def)
qed

section \<open>Lanes\<close>



end
