(* ===== verification/User_Probe.thy ===== *)
theory User_Probe
  imports Device_Lib "HOL-Library.Monad_Syntax"
begin

text \<open>
  The user's device library, \<open>instrumentation/user_lib/user_probe.cpp\<close>: text formatting into
  staging buffers, the global wavefront id, and the probes. A probe works on its wave's variables
  and makes hostcalls; it is modelled per lane, as a function from the variables to the new
  variables and the requests it issues. A store outside a buffer is undefined and is
  \<open>None\<close>. The handle that \<open>gpu_fopen\<close> returns is an argument.
\<close>

section \<open>Text formatting\<close>

definition put_byte :: "string \<Rightarrow> nat \<Rightarrow> char \<Rightarrow> string option" where
  "put_byte b i c = (if i < length b then Some (b[i := c]) else None)"

fun put_str :: "string \<Rightarrow> nat \<Rightarrow> string \<Rightarrow> (string \<times> nat) option" where
  "put_str b i [] = Some (b, i)"
| "put_str b i (c # s) = do { b' \<leftarrow> put_byte b i c; put_str b' (Suc i) s }"

function uint_digits :: "u32 \<Rightarrow> string \<Rightarrow> string" where
  "uint_digits v t =
     (if v = 0 then t else uint_digits (v div 10) (t @ [char_of (48 + unat (v mod 10))]))"
  by pat_completeness auto
termination
proof (relation "measure (\<lambda>(v, t). unat v)", goal_cases)
  case (2 v t)
  then have "0 < unat v" by (simp add: unat_gt_0)
  then show ?case by (simp add: unat_div)
qed simp

declare uint_digits.simps [simp del]

fun put_rev :: "string \<Rightarrow> nat \<Rightarrow> string \<Rightarrow> nat \<Rightarrow> (string \<times> nat) option" where
  "put_rev b i t 0 = Some (b, i)"
| "put_rev b i t (Suc n) = do { b' \<leftarrow> put_byte b i (t ! n); put_rev b' (Suc i) t n }"

definition put_uint :: "string \<Rightarrow> nat \<Rightarrow> u32 \<Rightarrow> (string \<times> nat) option" where
  "put_uint b i v =
     (let t = uint_digits v (if v = 0 then [CHR ''0''] else [])
      in put_rev b i t (length t))"

lemma put_str_spec:
  "i \<le> length b \<Longrightarrow> put_str b i s =
     (if i + length s \<le> length b then Some (write_at i s b, i + length s) else None)"
proof (induction s arbitrary: b i)
  case (Cons c s)
  show ?case
  proof (cases "i < length b")
    case True
    with Cons.IH [of "Suc i" "b[i := c]"]
    have "put_str (b[i := c]) (Suc i) s = (if Suc i + length s \<le> length b
        then Some (write_at (Suc i) s (b[i := c]), Suc i + length s) else None)" by simp
    moreover have "write_at (Suc i) s (b[i := c]) = write_at i (c # s) b"
      using True by (simp add: write_at_def upd_conv_take_nth_drop add.commute)
    ultimately show ?thesis using True by (simp add: put_byte_def)
  qed (simp add: put_byte_def)
qed simp

lemma put_rev_str: "n \<le> length t \<Longrightarrow> put_rev b i t n = put_str b i (rev (take n t))"
  by (induction n arbitrary: b i) (simp_all add: take_Suc_conv_app_nth)

lemma uint_digits_dec:
  "rev (uint_digits v t) = (if v = 0 then [] else dec (unat v)) @ rev t"
proof (induction v t rule: uint_digits.induct)
  case (1 v t)
  show ?case
  proof (cases "v = 0")
    case True
    then show ?thesis by (subst uint_digits.simps) simp
  next
    case False
    let ?d = "char_of (48 + unat (v mod 10)) :: char"
    have m: "unat (v mod 10) = unat v mod 10" and q: "unat (v div 10) = unat v div 10"
      by (simp_all add: unat_mod unat_div)
    have z: "v div 10 = 0 \<longleftrightarrow> unat v < 10" by (simp flip: unat_eq_zero add: q div_eq_0_iff)
    have "rev (uint_digits v t) = (if v div 10 = 0 then [] else dec (unat v div 10)) @ ?d # rev t"
      using 1 False by (subst uint_digits.simps) (simp add: q)
    also have "\<dots> = dec (unat v) @ rev t"
      by (subst (2) dec.simps) (simp add: z digit_char_def m)
    finally show ?thesis using False by simp
  qed
qed

lemma digit_zero: "digit_char 0 = CHR ''0''"
  by (simp add: digit_char_def char_of_eq_iff)

lemma put_uint_spec: "put_uint b i v = put_str b i (dec (unat v))"
proof -
  have "rev (uint_digits v (if v = 0 then [CHR ''0''] else [])) = dec (unat v)"
    by (cases "v = 0") (simp_all add: uint_digits_dec dec.simps [of 0] digit_zero)
  then show ?thesis by (simp add: put_uint_def put_rev_str Let_def)
qed

text \<open>Appending to a buffer whose first bytes are already formatted.\<close>

lemma write_at_append:
  "length s + length s' \<le> length b \<Longrightarrow> write_at (length s) s' (write_at 0 s b) = write_at 0 (s @ s') b"
  by (simp add: write_at_def add.commute)

lemma put_str_next:
  assumes "n = length s" "length s \<le> length b"
  shows "put_str (write_at 0 s b) n s' =
    (if n + length s' \<le> length b then Some (write_at 0 (s @ s') b, n + length s') else None)"
  using put_str_spec [of "length s" "write_at 0 s b" s'] assms write_at_append [of s s' b] by simp

lemma put_str_first:
  "put_str b 0 s = (if length s \<le> length b then Some (write_at 0 s b, length s) else None)"
  using put_str_spec [of 0 b s] by simp

lemma put_byte_next:
  assumes "n = length s" "length s \<le> length b"
  shows "put_byte (write_at 0 s b) n c =
    (if n < length b then Some (write_at 0 (s @ [c]) b) else None)"
  using assms write_at_snoc [of 0 s b c] by (simp add: put_byte_def)

lemma put_uint_next:
  assumes "n = length s" "length s \<le> length b"
  shows "put_uint (write_at 0 s b) n v =
    (if n + length (dec (unat v)) \<le> length b
     then Some (write_at 0 (s @ dec (unat v)) b, n + length (dec (unat v))) else None)"
  by (simp add: put_uint_spec put_str_next assms)

lemmas fmt_simps = put_str_first put_str_next put_byte_next put_uint_next

lemma length_dec_u32: "length (dec (unat (v :: u32))) \<le> 10"
proof (rule length_dec_le)
  have "unat v < 2 ^ 32" using unsigned_less [of v] by simp
  then show "unat v < 10 ^ 10" by simp
qed simp

section \<open>The global wavefront id\<close>

record dim3 =
  dx :: u32
  dy :: u32
  dz :: u32

record wave_ctx =
  cx_exec :: u64
  cx_lane :: nat
  cx_blockDim :: dim3
  cx_blockIdx :: dim3
  cx_gridDim :: dim3
  cx_threadIdx :: dim3

definition global_wavefront_id :: "wave_ctx \<Rightarrow> u32" where
  "global_wavefront_id cx =
     (let bdx = dx (cx_blockDim cx); bdy = dy (cx_blockDim cx); bdz = dz (cx_blockDim cx);
          wpb = (bdx * bdy * bdz + 63) div 64;
          blk = (dz (cx_blockIdx cx) * dy (cx_gridDim cx) + dy (cx_blockIdx cx)) * dx (cx_gridDim cx)
                + dx (cx_blockIdx cx);
          lin = (dz (cx_threadIdx cx) * bdy + dy (cx_threadIdx cx)) * bdx + dx (cx_threadIdx cx)
      in blk * wpb + lin div 64)"

section \<open>The probes\<close>

definition elected :: "wave_ctx \<Rightarrow> bool" where
  "elected cx = hc_first_active_lane (cx_exec cx) (cx_lane cx)"

definition popcountll :: "u64 \<Rightarrow> i32" where
  "popcountll ex = of_nat (length (filter (bit ex) [0..<64]))"

definition user_probe :: "wave_ctx \<Rightarrow> request" where
  "user_probe cx = Hc_write_id (readfirstlane (cx_exec cx) (\<lambda>l. popcountll (cx_exec cx)))"

text \<open>The slice of \<open>pw_probe\<close> as 32-bit cells: the counters are at bytes 8 and 12.\<close>

definition pw_probe :: "wave_ctx \<Rightarrow> i32 list \<Rightarrow> i32 list option" where
  "pw_probe cx cells =
     (if elected cx then
        (if 3 < length cells then Some (cells[2 := cells ! 2 + 1, 3 := popcountll (cx_exec cx)])
         else None)
      else Some cells)"

record pw_vars =
  pv_handle :: i64
  pv_hits :: i32
  pv_lanes :: i32
  pv_name :: string
  pv_line :: string

definition pw_open :: "wave_ctx \<Rightarrow> i64 \<Rightarrow> pw_vars \<Rightarrow> (pw_vars \<times> request list) option" where
  "pw_open cx h v =
     (if \<not> elected cx then Some (v, []) else do {
        (nm, i) \<leftarrow> put_str (pv_name v) 0 ''wave_'';
        (nm, i) \<leftarrow> put_uint nm i (global_wavefront_id cx);
        (nm, i) \<leftarrow> put_str nm i ''.txt'';
        nm \<leftarrow> put_byte nm i NUL;
        Some (v\<lparr>pv_name := nm, pv_handle := h, pv_hits := 0, pv_lanes := 0\<rparr>,
              [Gpu_fopen (Some (mem_of nm)) (Some (mem_of ''w''))])})"

definition pw_flush :: "wave_ctx \<Rightarrow> i64 \<Rightarrow> pw_vars \<Rightarrow> (pw_vars \<times> request list) option" where
  "pw_flush cx line_addr v =
     (if \<not> elected cx then Some (v, []) else do {
        (t, i) \<leftarrow> put_str (pv_line v) 0 ''wave '';
        (t, i) \<leftarrow> put_uint t i (global_wavefront_id cx);
        (t, i) \<leftarrow> put_str t i '': hits='';
        (t, i) \<leftarrow> put_uint t i (pv_hits v);
        (t, i) \<leftarrow> put_str t i '' lanes='';
        (t, i) \<leftarrow> put_uint t i (pv_lanes v);
        t \<leftarrow> put_byte t i (CHR 0x0A);
        Some (v\<lparr>pv_line := t\<rparr>, [Gpu_fwrite (pv_handle v) line_addr (of_nat (Suc i))])})"

definition pw_magic :: i64 where
  "pw_magic = 0xABCDE"

definition pw_openfile :: request where
  "pw_openfile = Gpu_fopen (Some (mem_of ''captured.txt'')) (Some (mem_of ''w''))"

definition pw_writeln :: "i64 \<Rightarrow> request" where
  "pw_writeln handle = Gpu_fwrite_256 handle (mem_of (''hello from a wave'' @ [CHR 0x0A])) 18"

text \<open>Block counters: the index is the block number as unsigned.\<close>

definition bb_inc :: "wave_ctx \<Rightarrow> i32 \<Rightarrow> u32 list \<Rightarrow> u32 list option" where
  "bb_inc cx bbid counts =
     (if \<not> elected cx then Some counts
      else if unat bbid < length counts then Some (counts[unat bbid := counts ! unat bbid + 1])
      else None)"

definition bb_inc_one :: "wave_ctx \<Rightarrow> u32 \<Rightarrow> u32" where
  "bb_inc_one cx counter = (if \<not> elected cx then counter else counter + 1)"

fun report_from :: "u32 list \<Rightarrow> nat \<Rightarrow> nat \<Rightarrow> string \<times> nat \<Rightarrow> (string \<times> nat) option" where
  "report_from counts 0 k ti = Some ti"
| "report_from counts (Suc n) k (t, i) = do {
     (t, i) \<leftarrow> put_str t i ''bb '';
     (t, i) \<leftarrow> put_uint t i (of_nat k);
     (t, i) \<leftarrow> put_str t i '': '';
     c \<leftarrow> (if k < length counts then Some (counts ! k) else None);
     (t, i) \<leftarrow> put_uint t i c;
     t \<leftarrow> put_byte t i (CHR 0x0A);
     report_from counts n (Suc k) (t, Suc i) }"

definition bb_flush_pw ::
    "wave_ctx \<Rightarrow> i64 \<Rightarrow> i64 \<Rightarrow> u32 list \<Rightarrow> string \<Rightarrow> string \<Rightarrow> i32 \<Rightarrow> (string \<times> string \<times> request list) option" where
  "bb_flush_pw cx h report_addr counts fname report nbb =
     (if \<not> elected cx then Some (fname, report, []) else do {
        (nm, fi) \<leftarrow> put_str fname 0 ''bbcount_'';
        (nm, fi) \<leftarrow> put_uint nm fi (global_wavefront_id cx);
        (nm, fi) \<leftarrow> put_str nm fi ''.txt'';
        nm \<leftarrow> put_byte nm fi NUL;
        (t, i) \<leftarrow> report_from counts (nat (sint nbb)) 0 (report, 0);
        Some (nm, t, [Gpu_fopen (Some (mem_of nm)) (Some (mem_of ''w'')),
                      Gpu_fwrite h report_addr (of_nat i)])})"

fun fill_from :: "nat \<Rightarrow> string \<times> nat \<Rightarrow> (string \<times> nat) option" where
  "fill_from 0 rn = Some rn"
| "fill_from (Suc m) (rec, n) = do {
     rec \<leftarrow> put_byte rec n (char_of (65 + n mod 26));
     fill_from m (rec, Suc n) }"

definition pwr_fill :: "string \<Rightarrow> u32 \<Rightarrow> i32 \<Rightarrow> (string \<times> nat) option" where
  "pwr_fill rec wid nbytes = do {
     (rec, n) \<leftarrow> put_str rec 0 ''wave '';
     (rec, n) \<leftarrow> put_uint rec n wid;
     (rec, n) \<leftarrow> put_str rec n '': '';
     (rec, n) \<leftarrow> fill_from (nat (sint nbytes - 1 - int n)) (rec, n);
     rec \<leftarrow> put_byte rec n (CHR 0x0A);
     Some (rec, Suc n) }"

definition real_write ::
    "wave_ctx \<Rightarrow> i64 \<Rightarrow> i64 \<Rightarrow> string \<Rightarrow> string \<Rightarrow> i32 \<Rightarrow> (string \<times> string \<times> request list) option" where
  "real_write cx h rec_addr fname rec nbytes =
     (if \<not> elected cx then Some (fname, rec, []) else do {
        (nm, i) \<leftarrow> put_str fname 0 ''real_'';
        (nm, i) \<leftarrow> put_uint nm i (global_wavefront_id cx);
        (nm, i) \<leftarrow> put_str nm i ''.txt'';
        nm \<leftarrow> put_byte nm i NUL;
        (rec, n) \<leftarrow> pwr_fill rec (global_wavefront_id cx) nbytes;
        Some (nm, rec, [Gpu_fopen (Some (mem_of nm)) (Some (mem_of ''w'')),
                        Gpu_fwrite h rec_addr (of_nat n)])})"

definition bv_write ::
    "wave_ctx \<Rightarrow> i64 \<Rightarrow> string \<Rightarrow> string \<Rightarrow> i32 \<Rightarrow> (string \<times> string \<times> request list) option" where
  "bv_write cx h fname rec nbytes =
     (if \<not> elected cx then Some (fname, rec, []) else do {
        (nm, i) \<leftarrow> put_str fname 0 ''bv_'';
        (nm, i) \<leftarrow> put_uint nm i (global_wavefront_id cx);
        (nm, i) \<leftarrow> put_str nm i ''.txt'';
        nm \<leftarrow> put_byte nm i NUL;
        (rec, n) \<leftarrow> pwr_fill rec (global_wavefront_id cx) nbytes;
        Some (nm, rec, [Gpu_fopen (Some (mem_of nm)) (Some (mem_of ''w'')),
                        Gpu_fwrite_256 h (mem_of rec) (of_nat n)])})"

definition pw_mark2 :: "wave_ctx \<Rightarrow> u32 \<times> u32 \<Rightarrow> u32 \<times> u32" where
  "pw_mark2 cx ab = (if \<not> elected cx then ab else (0xAAAA, 0xBBBB))"

section \<open>What the probes format\<close>

text \<open>A staged C string is read back whole, up to the reader's limit.\<close>

lemma cstr_mem_staged:
  assumes "NUL \<notin> set s" "length s < length b" "length s < lim"
  shows "cstr_mem lim (mem_of (write_at 0 (s @ [NUL]) b)) = s"
proof -
  let ?b = "write_at 0 (s @ [NUL]) b"
  have split: "[0..<lim] = [0..<length s] @ length s # [Suc (length s)..<lim]"
    using assms(3) upt_add_eq_append [of 0 "length s" "lim - length s"] by (simp add: upt_conv_Cons)
  have lb: "length ?b = length b" by (rule length_write_at) (use assms(2) in simp)
  have "mem_of ?b i = s ! i" if "i < length s" for i
    using assms(2) that by (simp add: mem_of_def lb) (simp add: write_at_def nth_append)
  then have m: "map (mem_of ?b) [0..<length s] = s" by (intro nth_equalityI) simp_all
  have n: "mem_of ?b (length s) = NUL"
    using assms(2) by (simp add: mem_of_def lb) (simp add: write_at_def nth_append)
  have "map (mem_of ?b) [0..<lim] = s @ NUL # map (mem_of ?b) [Suc (length s)..<lim]"
    unfolding split map_append m by (simp add: n)
  then show ?thesis unfolding cstr_mem_def
    using assms(1) by (simp add: takeWhile_append_stop all_not_eq_nul)
qed

lemma take_staged: "length s \<le> length b \<Longrightarrow> take (length s) (write_at 0 s b) = s"
  by (simp add: write_at_def)

definition wave_file :: "string \<Rightarrow> u32 \<Rightarrow> string" where
  "wave_file prefix wid = prefix @ dec (unat wid) @ ''.txt''"

lemma wave_file_no_nul: "NUL \<notin> set pre \<Longrightarrow> NUL \<notin> set (wave_file pre wid)"
  using dec_not_nul by (auto simp: wave_file_def)

lemma length_wave_file: "length (wave_file pre wid) \<le> length pre + 14"
  using length_dec_u32 [of wid] by (simp add: wave_file_def)

lemma wave_file_inj: "wave_file pre a = wave_file pre b \<Longrightarrow> a = b"
  by (auto simp: wave_file_def dest!: dec_inj intro: word_unat_eq_iff [THEN iffD2])

lemma pw_open_spec:
  assumes "elected cx" "length (pv_name v) = 64"
  defines "f \<equiv> wave_file ''wave_'' (global_wavefront_id cx)"
  shows "pw_open cx h v = Some (v\<lparr>pv_name := write_at 0 (f @ [NUL]) (pv_name v), pv_handle := h,
      pv_hits := 0, pv_lanes := 0\<rparr>, [Gpu_fopen (Some (mem_of (write_at 0 (f @ [NUL]) (pv_name v)))) (Some (mem_of ''w''))])"
proof -
  have "length (dec (unat (global_wavefront_id cx))) \<le> 10" by (rule length_dec_u32)
  then show ?thesis
    using assms(1,2) by (simp add: pw_open_def fmt_simps f_def wave_file_def del: put_str.simps)
qed

definition flush_line :: "u32 \<Rightarrow> i32 \<Rightarrow> i32 \<Rightarrow> string" where
  "flush_line wid hits lanes = ''wave '' @ dec (unat wid) @ '': hits='' @ dec (unat hits) @
     '' lanes='' @ dec (unat lanes) @ [CHR 0x0A]"

lemma length_flush_line: "length (flush_line wid hits lanes) \<le> 50"
  using length_dec_u32 [of wid] length_dec_u32 [of hits] length_dec_u32 [of lanes]
  by (simp add: flush_line_def)

lemma pw_flush_spec:
  assumes "elected cx" "length (pv_line v) = 128"
  defines "s \<equiv> flush_line (global_wavefront_id cx) (pv_hits v) (pv_lanes v)"
  shows "pw_flush cx a v = Some (v\<lparr>pv_line := write_at 0 s (pv_line v)\<rparr>,
      [Gpu_fwrite (pv_handle v) a (of_nat (length s))])"
  using length_dec_u32 [of "global_wavefront_id cx"] length_dec_u32 [of "pv_hits v"]
    length_dec_u32 [of "pv_lanes v"] assms(1,2)
  by (simp add: pw_flush_def fmt_simps s_def flush_line_def del: put_str.simps)

text \<open>The report of the block counters.\<close>

definition bb_line :: "u32 list \<Rightarrow> nat \<Rightarrow> string" where
  "bb_line counts k = ''bb '' @ dec k @ '': '' @ dec (unat (counts ! k)) @ [CHR 0x0A]"

definition bb_report :: "u32 list \<Rightarrow> nat \<Rightarrow> string" where
  "bb_report counts n = concat (map (bb_line counts) [0..<n])"

lemma report_from_spec:
  "k + n \<le> length counts \<Longrightarrow> k + n \<le> 2 ^ 31 \<Longrightarrow> length s \<le> length b \<Longrightarrow>
   report_from counts n k (write_at 0 s b, length s) =
     (let s' = s @ concat (map (bb_line counts) [k..<k + n])
      in if length s' \<le> length b then Some (write_at 0 s' b, length s') else None)"
proof (induction n arbitrary: k s)
  case (Suc n)
  have u: "unat (of_nat k :: u32) = k" using Suc.prems(2) by (simp add: unat_of_nat take_bit_nat_eq_self)
  have up: "[k..<k + Suc n] = k # [Suc k..<Suc k + n]" by (simp add: upt_conv_Cons del: upt_Suc)
  let ?l = "bb_line counts k"
  have line: "length ?l = 3 + length (dec k) + 2 + length (dec (unat (counts ! k))) + 1"
    by (simp add: bb_line_def)
  show ?case
  proof (cases "length s + length ?l \<le> length b")
    case True
    have "report_from counts (Suc n) k (write_at 0 s b, length s) =
        report_from counts n (Suc k) (write_at 0 (s @ ?l) b, length (s @ ?l))"
      using True line Suc.prems u by (simp add: fmt_simps bb_line_def add.assoc del: put_str.simps)
    also have "\<dots> = (let s' = (s @ ?l) @ concat (map (bb_line counts) [Suc k..<Suc k + n])
      in if length s' \<le> length b then Some (write_at 0 s' b, length s') else None)"
      using True Suc.prems by (intro Suc.IH) simp_all
    finally show ?thesis unfolding up by (simp only: list.map concat.simps append_assoc)
  next
    case False
    have "report_from counts (Suc n) k (write_at 0 s b, length s) = None"
      using False line Suc.prems u by (auto simp: fmt_simps bind_eq_None_conv simp del: put_str.simps)
    with False show ?thesis unfolding up by (simp add: Let_def del: upt_Suc)
  qed
qed simp

lemma bb_flush_spec:
  assumes "elected cx" "length fname = 64" "0 \<le> sint nbb" "nat (sint nbb) \<le> length counts"
  defines "f \<equiv> wave_file ''bbcount_'' (global_wavefront_id cx)" and "s \<equiv> bb_report counts (nat (sint nbb))"
  shows "bb_flush_pw cx h a counts fname report nbb =
    (if length s \<le> length report then
       Some (write_at 0 (f @ [NUL]) fname, write_at 0 s report,
         [Gpu_fopen (Some (mem_of (write_at 0 (f @ [NUL]) fname))) (Some (mem_of ''w'')),
          Gpu_fwrite h a (of_nat (length s))])
     else None)"
proof -
  have "sint nbb < 2 ^ 31" using sint_lt [of nbb] by simp
  then have n: "nat (sint nbb) \<le> 2 ^ 31" by simp
  have r: "report_from counts (nat (sint nbb)) 0 (report, 0) =
     (if length s \<le> length report then Some (write_at 0 s report, length s) else None)"
    using report_from_spec [of 0 "nat (sint nbb)" counts "[]" report] assms(4) n
    by (simp add: s_def bb_report_def Let_def)
  have "length (dec (unat (global_wavefront_id cx))) \<le> 10" by (rule length_dec_u32)
  with assms(1,2) show ?thesis
    by (simp add: bb_flush_pw_def fmt_simps r f_def wave_file_def del: put_str.simps)
qed

lemma bb_report_fits:
  assumes "n \<le> 10000"
  shows "length (bb_report counts n) \<le> 20 * n"
proof -
  have "length (bb_line counts k) \<le> 20" if "k < n" for k
    using length_dec_u32 [of "counts ! k"] length_dec_le [of k 4] that assms by (simp add: bb_line_def)
  then have "sum_list (map (length \<circ> bb_line counts) [0..<n]) \<le> sum_list (map (\<lambda>k. 20) [0..<n])"
    by (intro sum_list_mono) simp
  then show ?thesis by (simp add: bb_report_def length_concat sum_list_triv)
qed

text \<open>The filler of the fixed-size records.\<close>

lemma fill_from_spec:
  "length s \<le> length b \<Longrightarrow> fill_from m (write_at 0 s b, length s) =
     (let s' = s @ map (\<lambda>n. char_of (65 + n mod 26)) [length s..<length s + m]
      in if length s' \<le> length b then Some (write_at 0 s' b, length s') else None)"
proof (induction m arbitrary: s)
  case (Suc m)
  let ?c = "char_of (65 + length s mod 26) :: char"
  have up: "[length s..<length s + Suc m] = length s # [length (s @ [?c])..<length (s @ [?c]) + m]"
    by (simp add: upt_conv_Cons del: upt_Suc)
  show ?case
  proof (cases "length s < length b")
    case True
    have "fill_from (Suc m) (write_at 0 s b, length s) = fill_from m (write_at 0 (s @ [?c]) b, length (s @ [?c]))"
      using True by (simp add: put_byte_next)
    also have "\<dots> = (let s' = (s @ [?c]) @ map (\<lambda>n. char_of (65 + n mod 26)) [length (s @ [?c])..<length (s @ [?c]) + m]
      in if length s' \<le> length b then Some (write_at 0 s' b, length s') else None)"
      using True by (intro Suc.IH) simp
    finally show ?thesis unfolding up by simp
  next
    case False
    with Suc.prems show ?thesis by (simp add: put_byte_next Let_def)
  qed
qed simp

definition record_head :: "u32 \<Rightarrow> string" where
  "record_head wid = ''wave '' @ dec (unat wid) @ '': ''"

definition record_text :: "u32 \<Rightarrow> i32 \<Rightarrow> string" where
  "record_text wid nbytes =
     (let h = record_head wid
      in h @ map (\<lambda>n. char_of (65 + n mod 26)) [length h..<max (length h) (nat (sint nbytes - 1))] @ [CHR 0x0A])"

lemma pwr_fill_spec:
  "pwr_fill rec wid nbytes =
     (let s = record_text wid nbytes
      in if length s \<le> length rec then Some (write_at 0 s rec, length s) else None)"
proof -
  let ?h = "record_head wid" and ?m = "nat (sint nbytes - 1 - int (length (record_head wid)))"
  have l: "length ?h = 5 + length (dec (unat wid)) + 2" by (simp add: record_head_def)
  have m: "length ?h + ?m = max (length ?h) (nat (sint nbytes - 1))" by linarith
  show ?thesis
  proof (cases "length ?h \<le> length rec")
    case True
    have "pwr_fill rec wid nbytes = do {
       (rec, n) \<leftarrow> fill_from ?m (write_at 0 ?h rec, length ?h);
       rec \<leftarrow> put_byte rec n (CHR 0x0A);
       Some (rec, Suc n) }"
      using True l by (simp add: pwr_fill_def fmt_simps record_head_def add.assoc del: put_str.simps)
    also have "\<dots> = (let s = record_text wid nbytes
      in if length s \<le> length rec then Some (write_at 0 s rec, length s) else None)"
      by (auto simp: fill_from_spec [OF True] Let_def m put_byte_next record_text_def max_def)
    finally show ?thesis .
  next
    case False
    then have "pwr_fill rec wid nbytes = None"
      using l by (auto simp: pwr_fill_def fmt_simps bind_eq_None_conv simp del: put_str.simps)
    with False show ?thesis by (simp add: record_text_def Let_def)
  qed
qed

section \<open>Wavefront ids\<close>

text \<open>The quantities of a launch as natural numbers.\<close>

lemma mixed_radix:
  fixes p q w :: nat
  assumes "q < w" "q' < w"
  shows "p * w + q = p' * w + q' \<longleftrightarrow> p = p' \<and> q = q'"
proof
  assume e: "p * w + q = p' * w + q'"
  from arg_cong [OF e, of "\<lambda>x. x div w"] assms have "p = p'" by simp
  with e show "p = p' \<and> q = q'" by simp
qed simp

definition block_threads :: "wave_ctx \<Rightarrow> nat" where
  "block_threads cx = unat (dx (cx_blockDim cx)) * unat (dy (cx_blockDim cx)) * unat (dz (cx_blockDim cx))"

definition grid_blocks :: "wave_ctx \<Rightarrow> nat" where
  "grid_blocks cx = unat (dx (cx_gridDim cx)) * unat (dy (cx_gridDim cx)) * unat (dz (cx_gridDim cx))"

definition linear3 :: "dim3 \<Rightarrow> dim3 \<Rightarrow> nat" where
  "linear3 i d = (unat (dz i) * unat (dy d) + unat (dy i)) * unat (dx d) + unat (dx i)"

definition in_dims :: "dim3 \<Rightarrow> dim3 \<Rightarrow> bool" where
  "in_dims i d \<longleftrightarrow> dx i < dx d \<and> dy i < dy d \<and> dz i < dz d"

definition waves_per_block :: "wave_ctx \<Rightarrow> nat" where
  "waves_per_block cx = (block_threads cx + 63) div 64"

definition launch_fits :: "wave_ctx \<Rightarrow> bool" where
  "launch_fits cx \<longleftrightarrow> in_dims (cx_threadIdx cx) (cx_blockDim cx) \<and> in_dims (cx_blockIdx cx) (cx_gridDim cx) \<and>
     block_threads cx + 63 < 2 ^ 32 \<and> grid_blocks cx * waves_per_block cx < 2 ^ 32"

lemma linear3_less:
  assumes "in_dims i d"
  shows "linear3 i d < unat (dx d) * unat (dy d) * unat (dz d)"
proof -
  let ?X = "unat (dx d)" and ?Y = "unat (dy d)" and ?Z = "unat (dz d)"
  have b: "unat (dx i) < ?X" "unat (dy i) < ?Y" "unat (dz i) < ?Z"
    using assms by (simp_all add: in_dims_def word_less_nat_alt)
  have "linear3 i d < (unat (dz i) * ?Y + unat (dy i)) * ?X + ?X" using b(1) by (simp add: linear3_def)
  also have "\<dots> = (unat (dz i) * ?Y + Suc (unat (dy i))) * ?X" by simp
  also have "\<dots> \<le> (unat (dz i) * ?Y + ?Y) * ?X" using b(2) by (intro mult_le_mono1) simp
  also have "\<dots> = Suc (unat (dz i)) * ?Y * ?X" by simp
  also have "\<dots> \<le> ?Z * ?Y * ?X" using b(3) by (intro mult_le_mono1) simp
  finally show ?thesis by (simp add: mult.commute mult.left_commute)
qed

lemma word_linear3:
  "(dz i * dy d + dy i) * dx d + dx i = of_nat (linear3 i d)"
  by (simp add: linear3_def)

lemma unat_small: "n < 2 ^ 32 \<Longrightarrow> unat (of_nat n :: u32) = n"
  by (simp add: unat_of_nat take_bit_nat_eq_self)

lemma sint_of_nat_small: "n < 2 ^ 31 \<Longrightarrow> sint (of_nat n :: 32 word) = int n"
proof -
  assume n: "n < 2 ^ 31"
  then have "unat (of_nat n :: 32 word) = n" by (intro unat_small) simp
  then have "uint (of_nat n :: 32 word) = int n" by (metis uint_nat)
  moreover have "sint (of_nat n :: 32 word) = signed_take_bit 31 (uint (of_nat n :: 32 word))" by (simp add: sint_uint)
  ultimately show ?thesis using n by (simp add: signed_take_bit_int_eq_self)
qed

lemma wavefront_id_nat:
  assumes "launch_fits cx"
  shows "unat (global_wavefront_id cx) =
      linear3 (cx_blockIdx cx) (cx_gridDim cx) * waves_per_block cx + linear3 (cx_threadIdx cx) (cx_blockDim cx) div 64"
    and "linear3 (cx_threadIdx cx) (cx_blockDim cx) div 64 < waves_per_block cx"
    and "linear3 (cx_blockIdx cx) (cx_gridDim cx) < grid_blocks cx"
proof -
  let ?blk = "linear3 (cx_blockIdx cx) (cx_gridDim cx)" and ?lin = "linear3 (cx_threadIdx cx) (cx_blockDim cx)"
  let ?w = "waves_per_block cx" and ?B = "block_threads cx"
  have B: "?B + 63 < 2 ^ 32" and G: "grid_blocks cx * ?w < 2 ^ 32"
    using assms by (simp_all add: launch_fits_def)
  show blk: "?blk < grid_blocks cx"
    using assms linear3_less by (simp add: launch_fits_def grid_blocks_def)
  have lin: "?lin < ?B" using assms linear3_less by (simp add: launch_fits_def block_threads_def)
  then show l: "?lin div 64 < ?w" unfolding waves_per_block_def by linarith
  have wpb: "(dx (cx_blockDim cx) * dy (cx_blockDim cx) * dz (cx_blockDim cx) + 63) div 64 = of_nat ?w"
  proof (rule word_unat_eq_iff [THEN iffD2])
    have "dx (cx_blockDim cx) * dy (cx_blockDim cx) * dz (cx_blockDim cx) + 63 = of_nat (?B + 63)"
      by (simp add: block_threads_def)
    moreover have "?w < 2 ^ 32" using B unfolding waves_per_block_def by linarith
    ultimately show "unat ((dx (cx_blockDim cx) * dy (cx_blockDim cx) * dz (cx_blockDim cx) + 63) div 64) = unat (of_nat ?w :: u32)"
      using B by (simp only: unat_div unat_small) (simp add: waves_per_block_def)
  qed
  have lw: "(of_nat ?lin :: u32) div 64 = of_nat (?lin div 64)"
  proof (rule word_unat_eq_iff [THEN iffD2])
    have "?lin < 2 ^ 32" "?lin div 64 < 2 ^ 32" using lin B by linarith+
    then show "unat ((of_nat ?lin :: u32) div 64) = unat (of_nat (?lin div 64) :: u32)"
      by (simp only: unat_div unat_small) simp
  qed
  have "global_wavefront_id cx = of_nat (?blk * ?w + ?lin div 64)"
    unfolding global_wavefront_id_def Let_def wpb word_linear3 lw by simp
  moreover have "?blk * ?w + ?lin div 64 < 2 ^ 32"
  proof -
    have "?blk * ?w + ?lin div 64 < Suc ?blk * ?w" using l by simp
    also have "\<dots> \<le> grid_blocks cx * ?w" using blk by (intro mult_le_mono1) simp
    finally show ?thesis using G by simp
  qed
  ultimately show "unat (global_wavefront_id cx) = ?blk * ?w + ?lin div 64" by (simp only: unat_small)
qed

text \<open>
  C11: In a launch whose wave count fits in 32 bits, \<open>global_wavefront_id\<close> is below
  \<open>numBlocks * ceil(blockDim / 64)\<close>, the host's wave count, and two lanes get the same id
  exactly when they are in the same wave of the same block: no two waves share a slice.
\<close>

theorem wavefront_id_unique:
  assumes "launch_fits cx" "launch_fits cx'"
    and "cx_blockDim cx' = cx_blockDim cx" "cx_gridDim cx' = cx_gridDim cx"
  shows "unat (global_wavefront_id cx) < grid_blocks cx * waves_per_block cx \<and>
    (global_wavefront_id cx = global_wavefront_id cx' \<longleftrightarrow>
       linear3 (cx_blockIdx cx) (cx_gridDim cx) = linear3 (cx_blockIdx cx') (cx_gridDim cx') \<and>
       linear3 (cx_threadIdx cx) (cx_blockDim cx) div 64 = linear3 (cx_threadIdx cx') (cx_blockDim cx') div 64)"
proof -
  let ?w = "waves_per_block cx"
  have w': "waves_per_block cx' = ?w" by (simp add: waves_per_block_def block_threads_def assms(3))
  note a = wavefront_id_nat [OF assms(1)] and b = wavefront_id_nat [OF assms(2), unfolded w']
  have "unat (global_wavefront_id cx) < Suc (linear3 (cx_blockIdx cx) (cx_gridDim cx)) * ?w"
    using a(1,2) by simp
  also have "\<dots> \<le> grid_blocks cx * ?w" using a(3) by (intro mult_le_mono1) simp
  finally have lt: "unat (global_wavefront_id cx) < grid_blocks cx * ?w" .
  show ?thesis using lt by (simp only: word_unat_eq_iff a(1) b(1) mixed_radix [OF a(2) b(2)])
qed

definition demo_ctx :: "u32 \<Rightarrow> u32 \<Rightarrow> wave_ctx" where
  "demo_ctx b t = \<lparr>cx_exec = - 1, cx_lane = 0, cx_blockDim = \<lparr>dx = 128, dy = 2, dz = 1\<rparr>,
     cx_blockIdx = \<lparr>dx = b, dy = 1, dz = 0\<rparr>, cx_gridDim = \<lparr>dx = 3, dy = 2, dz = 1\<rparr>,
     cx_threadIdx = \<lparr>dx = t, dy = 1, dz = 0\<rparr>\<rparr>"

theorem wavefront_id_unique_witness:
  "global_wavefront_id (demo_ctx 2 5) \<noteq> global_wavefront_id (demo_ctx 2 64) \<and>
   unat (global_wavefront_id (demo_ctx 2 5)) < 24"
proof -
  have f: "launch_fits (demo_ctx 2 5)" "launch_fits (demo_ctx 2 64)"
    by (simp_all add: launch_fits_def demo_ctx_def in_dims_def block_threads_def grid_blocks_def waves_per_block_def)
  show ?thesis using wavefront_id_unique [OF f]
    by (simp add: demo_ctx_def grid_blocks_def waves_per_block_def block_threads_def linear3_def)
qed

section \<open>One trace file per wave\<close>

lemma per_wave_trace_parts:
  assumes "elected cx" "length (pv_name v) = 64" "length (pv_line v) = 128"
  shows "\<exists>v' nm. pw_open cx h v = Some (v', [Gpu_fopen (Some (mem_of nm)) (Some (mem_of ''w''))]) \<and>
    cstr_mem (HC_PATH_SIZE - 1) (mem_of nm) = wave_file ''wave_'' (global_wavefront_id cx) \<and>
    pv_handle v' = h \<and> pv_hits v' = 0 \<and> pv_lanes v' = 0 \<and>
    (\<forall>hits lanes. \<exists>v'' n. pw_flush cx a (v'\<lparr>pv_hits := hits, pv_lanes := lanes\<rparr>) =
        Some (v'', [Gpu_fwrite h a (of_nat n)]) \<and>
      take n (pv_line v'') = flush_line (global_wavefront_id cx) hits lanes \<and> n \<le> 50)"
    and "wave_file ''wave_'' (global_wavefront_id cx) = wave_file ''wave_'' (global_wavefront_id cx') \<Longrightarrow>
      global_wavefront_id cx = global_wavefront_id cx'"
proof -
  let ?f = "wave_file ''wave_'' (global_wavefront_id cx)"
  let ?nm = "write_at 0 (?f @ [NUL]) (pv_name v)"
  let ?v = "v\<lparr>pv_name := ?nm, pv_handle := h, pv_hits := 0, pv_lanes := 0\<rparr>"
  have l: "length ?f \<le> 19" using length_wave_file [of "''wave_''"] by simp
  have nm: "cstr_mem (HC_PATH_SIZE - 1) (mem_of ?nm) = ?f"
    using l assms(2) by (intro cstr_mem_staged wave_file_no_nul) (simp_all add: HC_PATH_SIZE_def)
  have "\<exists>v'' n. pw_flush cx a (?v\<lparr>pv_hits := hits, pv_lanes := lanes\<rparr>) = Some (v'', [Gpu_fwrite h a (of_nat n)]) \<and>
      take n (pv_line v'') = flush_line (global_wavefront_id cx) hits lanes \<and> n \<le> 50" for hits lanes
  proof -
    let ?s = "flush_line (global_wavefront_id cx) hits lanes"
    have "length ?s \<le> 50" by (rule length_flush_line)
    moreover have "take (length ?s) (write_at 0 ?s (pv_line v)) = ?s"
      using calculation assms(3) by (intro take_staged) simp
    ultimately show ?thesis
      using pw_flush_spec [OF assms(1), of "?v\<lparr>pv_hits := hits, pv_lanes := lanes\<rparr>" a] assms(3)
      by (intro exI [of _ "?v\<lparr>pv_hits := hits, pv_lanes := lanes, pv_line := write_at 0 ?s (pv_line v)\<rparr>"] exI [of _ "length ?s"]) simp
  qed
  with nm pw_open_spec [OF assms(1,2)]
  show "\<exists>v' nm. pw_open cx h v = Some (v', [Gpu_fopen (Some (mem_of nm)) (Some (mem_of ''w''))]) \<and>
    cstr_mem (HC_PATH_SIZE - 1) (mem_of nm) = ?f \<and>
    pv_handle v' = h \<and> pv_hits v' = 0 \<and> pv_lanes v' = 0 \<and>
    (\<forall>hits lanes. \<exists>v'' n. pw_flush cx a (v'\<lparr>pv_hits := hits, pv_lanes := lanes\<rparr>) =
        Some (v'', [Gpu_fwrite h a (of_nat n)]) \<and>
      take n (pv_line v'') = flush_line (global_wavefront_id cx) hits lanes \<and> n \<le> 50)"
    by (intro exI [of _ ?v] exI [of _ ?nm]) simp
qed (rule wave_file_inj)

text \<open>
  With the variables that the mutator declares (64 bytes of name, 128 bytes of line) the
  open and flush probes never leave their buffers: the open probe asks for the file
  \<open>wave_<id>.txt\<close>, stores the handle and clears the counters, and the flush probe stages one
  whole line with the id and both counters and writes exactly its bytes to that handle. Two
  waves ask for the same file only if they have the same id.
\<close>

theorem per_wave_trace:
  assumes "elected cx" "length (pv_name v) = 64" "length (pv_line v) = 128"
  shows "(\<exists>v' nm. pw_open cx h v = Some (v', [Gpu_fopen (Some (mem_of nm)) (Some (mem_of ''w''))]) \<and>
      cstr_mem (HC_PATH_SIZE - 1) (mem_of nm) = wave_file ''wave_'' (global_wavefront_id cx) \<and>
      pv_handle v' = h \<and> pv_hits v' = 0 \<and> pv_lanes v' = 0 \<and>
      (\<forall>hits lanes. \<exists>v'' n. pw_flush cx a (v'\<lparr>pv_hits := hits, pv_lanes := lanes\<rparr>) =
          Some (v'', [Gpu_fwrite h a (of_nat n)]) \<and>
        take n (pv_line v'') = flush_line (global_wavefront_id cx) hits lanes \<and> n \<le> 50)) \<and>
    (wave_file ''wave_'' (global_wavefront_id cx) = wave_file ''wave_'' (global_wavefront_id cx') \<longrightarrow>
      global_wavefront_id cx = global_wavefront_id cx')"
  by (rule conjI, rule per_wave_trace_parts(1) [OF assms], rule impI, rule per_wave_trace_parts(2) [OF assms])

lemma demo_ctx_elected: "elected (demo_ctx b t)"
  by (simp add: elected_def demo_ctx_def hc_first_active_lane_iff)

theorem per_wave_trace_witness:
  "\<exists>v' nm. pw_open (demo_ctx 2 5) 4096 \<lparr>pv_handle = 0, pv_hits = 7, pv_lanes = 7,
       pv_name = replicate 64 NUL, pv_line = replicate 128 NUL\<rparr> =
     Some (v', [Gpu_fopen (Some (mem_of nm)) (Some (mem_of ''w''))]) \<and>
     cstr_mem 127 (mem_of nm) = ''wave_22.txt'' \<and> pv_handle v' = 4096 \<and> pv_hits v' = 0"
proof -
  let ?v = "\<lparr>pv_handle = 0, pv_hits = 7, pv_lanes = 7, pv_name = replicate 64 NUL, pv_line = replicate 128 NUL\<rparr>"
  have "length (pv_name ?v) = 64" "length (pv_line ?v) = 128" by simp_all
  from conjunct1 [OF per_wave_trace [OF demo_ctx_elected this, of 2 5 4096 0]]
  obtain v' nm where p: "pw_open (demo_ctx 2 5) 4096 ?v = Some (v', [Gpu_fopen (Some (mem_of nm)) (Some (mem_of ''w''))])"
    "cstr_mem (HC_PATH_SIZE - 1) (mem_of nm) = wave_file ''wave_'' (global_wavefront_id (demo_ctx 2 5))"
    "pv_handle v' = 4096" "pv_hits v' = 0" by blast
  have "global_wavefront_id (demo_ctx 2 5) = 22"
    by (simp add: global_wavefront_id_def demo_ctx_def Let_def word_div_def) 
  then have "wave_file ''wave_'' (global_wavefront_id (demo_ctx 2 5)) = ''wave_22.txt''"
    by (simp add: wave_file_def dec.simps digit_char_def char_of_eq_iff)
  with p show ?thesis by (auto simp: HC_PATH_SIZE_def)
qed

section \<open>Block counts\<close>

text \<open>A probe is called under EXEC by every active lane of the wave, in lane order.\<close>

definition with_lane :: "wave_ctx \<Rightarrow> nat \<Rightarrow> wave_ctx" where
  "with_lane cx l = cx\<lparr>cx_lane := l\<rparr>"

fun run_lanes :: "(nat \<Rightarrow> 'a \<Rightarrow> 'a option) \<Rightarrow> nat list \<Rightarrow> 'a \<Rightarrow> 'a option" where
  "run_lanes f [] s = Some s"
| "run_lanes f (l # ls) s = (case f l s of None \<Rightarrow> None | Some s' \<Rightarrow> run_lanes f ls s')"

definition wave_call :: "u64 \<Rightarrow> (nat \<Rightarrow> 'a \<Rightarrow> 'a option) \<Rightarrow> 'a \<Rightarrow> 'a option" where
  "wave_call ex f s = run_lanes f (filter (bit ex) [0..<64]) s"

lemma run_lanes_none: "(\<And>l s. l \<in> set ls \<Longrightarrow> f l s = Some s) \<Longrightarrow> run_lanes f ls s = Some s"
  by (induction ls arbitrary: s) auto

lemma wave_call_elected:
  assumes "l < 64" "bit ex l" "hc_first_active_lane ex l"
    and "\<And>l' s. l' < 64 \<Longrightarrow> \<not> hc_first_active_lane ex l' \<Longrightarrow> f l' s = Some s"
  shows "wave_call ex f s = f l s"
proof -
  obtain r where r: "filter (bit ex) [0..<64] = l # r"
    using filter_upt_hd [of l 64 "bit ex"] assms(1-3) by (auto simp: hc_first_active_lane_iff)
  have "sorted (l # r)" "distinct (l # r)" unfolding r [symmetric] by (simp_all add: sorted_wrt_filter)
  then have "f x y = Some y" if "x \<in> set r" for x y
  proof -
    have "l < x" using that \<open>sorted (l # r)\<close> \<open>distinct (l # r)\<close> by (auto simp: le_less)
    moreover have "x \<in> set (filter (bit ex) [0..<64])" unfolding r using that by simp
    then have "x < 64" by simp
    ultimately show ?thesis using assms by (auto simp: hc_first_active_lane_iff)
  qed
  then have "run_lanes f r y = Some y" for y by (rule run_lanes_none)
  then show ?thesis by (simp add: wave_call_def r split: option.splits)
qed

fun bb_path :: "wave_ctx \<Rightarrow> i32 list \<Rightarrow> u32 list \<Rightarrow> u32 list option" where
  "bb_path cx [] counts = Some counts"
| "bb_path cx (b # bs) counts =
     (case wave_call (cx_exec cx) (\<lambda>l. bb_inc (with_lane cx l) b) counts of None \<Rightarrow> None
      | Some counts' \<Rightarrow> bb_path cx bs counts')"

lemma bb_inc_wave:
  assumes "cx_exec cx \<noteq> 0" "unat b < length counts"
  shows "wave_call (cx_exec cx) (\<lambda>l. bb_inc (with_lane cx l) b) counts =
    Some (counts[unat b := counts ! unat b + 1])"
proof -
  from elected_exists [OF assms(1)] obtain l where
    l: "l < 64" "bit (cx_exec cx) l" "hc_first_active_lane (cx_exec cx) l" by blast
  have "wave_call (cx_exec cx) (\<lambda>l. bb_inc (with_lane cx l) b) counts = bb_inc (with_lane cx l) b counts"
    by (rule wave_call_elected [OF l]) (simp add: bb_inc_def elected_def with_lane_def)
  with l assms(2) show ?thesis by (simp add: bb_inc_def elected_def with_lane_def)
qed

text \<open>
  When a wave runs through a path of blocks, whatever lanes are active, the counter of each
  block grows by the number of times the path visits it (on 32 bits), and no other cell changes.
\<close>

theorem block_counts:
  assumes "cx_exec cx \<noteq> 0" "\<forall>b \<in> set path. unat b < length counts"
  shows "\<exists>counts'. bb_path cx path counts = Some counts' \<and> length counts' = length counts \<and>
    (\<forall>k < length counts. counts' ! k = counts ! k + of_nat (count_list (map unat path) k))"
  using assms(2)
proof (induction path arbitrary: counts)
  case (Cons b bs)
  let ?c = "counts[unat b := counts ! unat b + 1]"
  have b: "unat b < length counts" using Cons.prems by simp
  have "\<forall>x \<in> set bs. unat x < length ?c" using Cons.prems by simp
  from Cons.IH [OF this] obtain c' where c': "bb_path cx bs ?c = Some c'" "length c' = length ?c"
    "\<forall>k < length ?c. c' ! k = ?c ! k + of_nat (count_list (map unat bs) k)" by blast
  have "c' ! k = counts ! k + of_nat (count_list (map unat (b # bs)) k)" if "k < length counts" for k
    using c'(3) that by (cases "k = unat b") auto
  with c' bb_inc_wave [OF assms(1) b] show ?case by simp
qed simp

theorem block_counts_witness:
  "\<exists>c. bb_path (demo_ctx 0 0) [0, 1, 2, 1, 2] [0, 0, 0] = Some c \<and> c ! 2 = 2"
proof -
  have "cx_exec (demo_ctx 0 0) \<noteq> 0" "\<forall>b \<in> set [0 :: i32, 1, 2, 1, 2]. unat b < length [0 :: u32, 0, 0]"
    by (simp_all add: demo_ctx_def)
  from block_counts [OF this] obtain c where "bb_path (demo_ctx 0 0) [0, 1, 2, 1, 2] [0, 0, 0] = Some c"
    "\<forall>k < 3. c ! k = [0 :: u32, 0, 0] ! k + of_nat (count_list (map unat [0 :: i32, 1, 2, 1, 2]) k)" by auto
  then show ?thesis by (auto dest: spec [of _ 2])
qed

lemma length_dec_ge: "10 ^ k \<le> n \<Longrightarrow> k < length (dec n)"
proof (induction k arbitrary: n)
  case 0
  show ?case by (rule length_dec_pos)
next
  case (Suc k)
  then have "10 ^ k \<le> n div 10" by (simp add: less_eq_div_iff_mult_less_eq mult.commute)
  moreover have "(10 :: nat) \<le> 10 ^ Suc k" by simp
  then have "\<not> n < 10" using Suc.prems by linarith
  ultimately show ?case using Suc.IH [of "n div 10"] by (subst dec.simps) simp
qed

lemma sum_from: "sum_list (map (\<lambda>k. if m \<le> k then 1 else 0 :: nat) [0..<n]) = n - m"
  by (induction n) auto

lemma bb_report_long:
  assumes "11127 \<le> n" "\<forall>k < n. 10 ^ 9 \<le> unat (counts ! k)"
  shows "20 * n + 16 < length (bb_report counts n)"
proof -
  let ?i = "\<lambda>m k. if m \<le> k then 1 else 0 :: nat"
  have "17 + (?i 10 k + ?i 100 k + ?i 1000 k + ?i 10000 k) \<le> length (bb_line counts k)" if "k < n" for k
  proof -
    have "1 + (?i 10 k + ?i 100 k + ?i 1000 k + ?i 10000 k) \<le> length (dec k)"
      using length_dec_ge [of 1 k] length_dec_ge [of 2 k] length_dec_ge [of 3 k] length_dec_ge [of 4 k]
        length_dec_pos [of k] by (auto simp: Suc_le_eq simp del: length_dec_pos)
    moreover have "10 \<le> length (dec (unat (counts ! k)))"
      using length_dec_ge [of 9 "unat (counts ! k)"] assms(2) that by simp
    ultimately show ?thesis by (simp add: bb_line_def)
  qed
  then have "sum_list (map (\<lambda>k. 17 + (?i 10 k + ?i 100 k + ?i 1000 k + ?i 10000 k)) [0..<n])
      \<le> sum_list (map (length \<circ> bb_line counts) [0..<n])"
    by (intro sum_list_mono) simp
  also have "\<dots> = length (bb_report counts n)" by (simp add: bb_report_def length_concat)
  finally show ?thesis using assms(1)
    by (simp only: sum_list_addf sum_from) (simp add: sum_list_triv)
qed

lemma block_report_parts:
  assumes "elected cx" "length fname = 64" "0 \<le> sint nbb" "length counts = nat (sint nbb)"
    and "length report = 20 * nat (sint nbb) + 16"
  shows "nat (sint nbb) \<le> 10000 \<Longrightarrow> \<exists>nm t n. bb_flush_pw cx h a counts fname report nbb =
      Some (nm, t, [Gpu_fopen (Some (mem_of nm)) (Some (mem_of ''w'')), Gpu_fwrite h a (of_nat n)]) \<and>
      cstr_mem (HC_PATH_SIZE - 1) (mem_of nm) = wave_file ''bbcount_'' (global_wavefront_id cx) \<and>
      take n t = bb_report counts (nat (sint nbb))"
    and "bb_flush_pw cx h a counts fname report nbb = None \<longleftrightarrow>
      20 * nat (sint nbb) + 16 < length (bb_report counts (nat (sint nbb)))"
    and "11127 \<le> nat (sint nbb) \<Longrightarrow> \<forall>c \<in> set counts. 10 ^ 9 \<le> unat c \<Longrightarrow>
      bb_flush_pw cx h a counts fname report nbb = None"
proof -
  let ?f = "wave_file ''bbcount_'' (global_wavefront_id cx)" and ?s = "bb_report counts (nat (sint nbb))"
  have sp: "bb_flush_pw cx h a counts fname report nbb =
    (if length ?s \<le> length report then
       Some (write_at 0 (?f @ [NUL]) fname, write_at 0 ?s report,
         [Gpu_fopen (Some (mem_of (write_at 0 (?f @ [NUL]) fname))) (Some (mem_of ''w'')),
          Gpu_fwrite h a (of_nat (length ?s))])
     else None)"
    using assms by (intro bb_flush_spec) simp_all
  have l: "length ?f \<le> 22" using length_wave_file [of "''bbcount_''"] by simp
  have nm: "cstr_mem (HC_PATH_SIZE - 1) (mem_of (write_at 0 (?f @ [NUL]) fname)) = ?f"
    using l assms(2) by (intro cstr_mem_staged wave_file_no_nul) (simp_all add: HC_PATH_SIZE_def)
  show "bb_flush_pw cx h a counts fname report nbb = None \<longleftrightarrow> 20 * nat (sint nbb) + 16 < length ?s"
    using sp assms(5) by simp
  {
    assume "nat (sint nbb) \<le> 10000"
    then have "length ?s \<le> length report" using bb_report_fits assms(5) by (metis le_add1 le_trans)
    then show "\<exists>nm t n. bb_flush_pw cx h a counts fname report nbb =
        Some (nm, t, [Gpu_fopen (Some (mem_of nm)) (Some (mem_of ''w'')), Gpu_fwrite h a (of_nat n)]) \<and>
        cstr_mem (HC_PATH_SIZE - 1) (mem_of nm) = ?f \<and> take n t = ?s"
      using sp nm take_staged [of ?s report] by auto
  next
    assume "11127 \<le> nat (sint nbb)" "\<forall>c \<in> set counts. 10 ^ 9 \<le> unat c"
    then have "length report < length ?s"
      unfolding assms(5) by (intro bb_report_long) (simp_all add: assms(4))
    then show "bb_flush_pw cx h a counts fname report nbb = None" using sp by simp
  }
qed

text \<open>
  C12: With the buffers that the mutator declares for \<open>n\<close> blocks (\<open>4 n\<close>, 64 and
  \<open>20 n + 16\<close> bytes) the flush probe is safe for up to 10000 blocks, whatever the counts are: it
  asks for \<open>bbcount_<id>.txt\<close> and writes exactly one line per block with its count. For any number
  of blocks it writes past the end of the report buffer exactly when the text of these lines is
  longer than the buffer; this happens for 11127 blocks and more whose counts all have ten digits.
\<close>

theorem block_report:
  assumes "elected cx" "length fname = 64" "0 \<le> sint nbb" "length counts = nat (sint nbb)"
    and "length report = 20 * nat (sint nbb) + 16"
  shows "(nat (sint nbb) \<le> 10000 \<longrightarrow> (\<exists>nm t n. bb_flush_pw cx h a counts fname report nbb =
        Some (nm, t, [Gpu_fopen (Some (mem_of nm)) (Some (mem_of ''w'')), Gpu_fwrite h a (of_nat n)]) \<and>
      cstr_mem (HC_PATH_SIZE - 1) (mem_of nm) = wave_file ''bbcount_'' (global_wavefront_id cx) \<and>
      take n t = bb_report counts (nat (sint nbb)))) \<and>
    (bb_flush_pw cx h a counts fname report nbb = None \<longleftrightarrow>
      20 * nat (sint nbb) + 16 < length (bb_report counts (nat (sint nbb)))) \<and>
    (11127 \<le> nat (sint nbb) \<longrightarrow> (\<forall>c \<in> set counts. 10 ^ 9 \<le> unat c) \<longrightarrow>
      bb_flush_pw cx h a counts fname report nbb = None)"
  by (intro conjI impI) (erule block_report_parts(1) [OF assms], rule block_report_parts(2) [OF assms], erule (1) block_report_parts(3) [OF assms])

theorem block_report_witness:
  "(\<exists>nm t n. bb_flush_pw (demo_ctx 2 5) 4096 0 [7, 12] (replicate 64 NUL) (replicate 56 NUL) 2 =
      Some (nm, t, [Gpu_fopen (Some (mem_of nm)) (Some (mem_of ''w'')), Gpu_fwrite 4096 0 (of_nat n)]) \<and>
      take n t = bb_report [7, 12] 2) \<and>
   bb_flush_pw (demo_ctx 2 5) 4096 0 (replicate 12000 1000000000) (replicate 64 NUL) (replicate 240016 NUL) 12000 = None"
proof
  have "\<exists>nm t n. bb_flush_pw (demo_ctx 2 5) 4096 0 [7, 12] (replicate 64 NUL) (replicate 56 NUL) 2 =
      Some (nm, t, [Gpu_fopen (Some (mem_of nm)) (Some (mem_of ''w'')), Gpu_fwrite 4096 0 (of_nat n)]) \<and>
      cstr_mem (HC_PATH_SIZE - 1) (mem_of nm) = wave_file ''bbcount_'' (global_wavefront_id (demo_ctx 2 5)) \<and>
      take n t = bb_report [7, 12] (nat (sint (2 :: i32)))"
    by (rule block_report [THEN conjunct1, THEN mp]) (simp_all add: demo_ctx_elected)
  then show "\<exists>nm t n. bb_flush_pw (demo_ctx 2 5) 4096 0 [7, 12] (replicate 64 NUL) (replicate 56 NUL) 2 =
      Some (nm, t, [Gpu_fopen (Some (mem_of nm)) (Some (mem_of ''w'')), Gpu_fwrite 4096 0 (of_nat n)]) \<and>
      take n t = bb_report [7, 12] 2" by auto
  show "bb_flush_pw (demo_ctx 2 5) 4096 0 (replicate 12000 1000000000) (replicate 64 NUL) (replicate 240016 NUL) 12000 = None"
    by (rule block_report [THEN conjunct2, THEN conjunct2, THEN mp, THEN mp]) (simp_all add: demo_ctx_elected)
qed

text \<open>
  The record probes write exactly \<open>nbytes\<close> bytes, with the wave's header first and a
  newline last, when \<open>nbytes\<close> has room for the header and the newline; for a smaller
  \<open>nbytes\<close> the header is not bounded, and a buffer of the declared size is overrun.
\<close>

theorem record_fill:
  assumes "length rec = nat (sint nbytes)"
  shows "length (record_head wid) < nat (sint nbytes) \<Longrightarrow>
      \<exists>rec'. pwr_fill rec wid nbytes = Some (rec', nat (sint nbytes)) \<and>
        take (length (record_head wid)) rec' = record_head wid \<and> last rec' = CHR 0x0A \<and>
        length rec' = nat (sint nbytes)"
    and "nat (sint nbytes) \<le> length (record_head wid) \<Longrightarrow> pwr_fill rec wid nbytes = None"
proof -
  let ?h = "record_head wid" and ?s = "record_text wid nbytes"
  have l: "length ?s = Suc (max (length ?h) (nat (sint nbytes - 1)))"
    by (simp add: record_text_def Let_def)
  {
    assume "length ?h < nat (sint nbytes)"
    then have ls: "length ?s = nat (sint nbytes)" unfolding l by linarith
    then have w: "write_at 0 ?s rec = ?s" using assms by (simp add: write_at_def)
    have "take (length ?h) ?s = ?h" "last ?s = CHR 0x0A" by (simp_all add: record_text_def Let_def)
    then show "\<exists>rec'. pwr_fill rec wid nbytes = Some (rec', nat (sint nbytes)) \<and>
        take (length ?h) rec' = ?h \<and> last rec' = CHR 0x0A \<and> length rec' = nat (sint nbytes)"
      using ls assms w by (intro exI [of _ ?s]) (simp add: pwr_fill_spec Let_def)
  next
    assume "nat (sint nbytes) \<le> length ?h"
    then show "pwr_fill rec wid nbytes = None" using l assms by (simp add: pwr_fill_spec Let_def)
  }
qed

theorem record_fill_witness:
  "pwr_fill (replicate 8 NUL) 7 8 = None \<and> (\<exists>rec'. pwr_fill (replicate 12 NUL) 7 12 = Some (rec', 12))"
proof -
  have h: "length (record_head 7) = 8" by (simp add: record_head_def dec.simps)
  have "pwr_fill (replicate 8 NUL) 7 8 = None" by (rule record_fill(2)) (simp_all add: h)
  moreover have "length (replicate 12 NUL) = nat (sint (12 :: i32))" by simp
  note record_fill(1) [OF this, of 7]
  then have "\<exists>rec'. pwr_fill (replicate 12 NUL) 7 12 = Some (rec', 12)" by (auto simp: h)
  ultimately show ?thesis by simp
qed

end
