(* ===== verification/Co_Elf.thy ===== *)
theory Co_Elf
  imports Prelude "HOL-Library.Monad_Syntax"
begin

text \<open>
  The readers of \<open>runtime/host/co_stride.h\<close>: a symbol's value, a kernel argument's offset and
  the number of explicit arguments, taken from the bytes of a code object. A file that cannot be
  read is \<open>None\<close> in place of its bytes. A read outside the bytes is undefined behaviour and
  gives \<open>None\<close>; a result is \<open>Some\<close>. Offsets from the start of the buffer are natural
  numbers, the bounds checks are 64-bit and wrap (\<open>add64\<close>).
\<close>

section \<open>Little-endian reads\<close>

fun le_val :: "bytes \<Rightarrow> nat" where
  "le_val [] = 0"
| "le_val (x # xs) = unat x + 256 * le_val xs"

fun le_bytes :: "nat \<Rightarrow> nat \<Rightarrow> bytes" where
  "le_bytes 0 v = []"
| "le_bytes (Suc n) v = of_nat (v mod 256) # le_bytes n (v div 256)"

lemma length_le_bytes [simp]: "length (le_bytes n v) = n"
  by (induction n arbitrary: v) auto

lemma le_val_bytes: "v < 256 ^ n \<Longrightarrow> le_val (le_bytes n v) = v"
proof (induction n arbitrary: v)
  case (Suc n)
  then have "v div 256 < 256 ^ n" by (simp add: div_less_iff_less_mult mult.commute)
  then show ?case using Suc.IH by (simp add: unat_of_nat_u8)
qed simp

definition rd :: "nat \<Rightarrow> bytes \<Rightarrow> nat \<Rightarrow> nat option" where
  "rd n b off = (if off + n \<le> length b then Some (le_val (take n (drop off b))) else None)"

definition add64 :: "nat \<Rightarrow> nat \<Rightarrow> nat" where
  "add64 x y = (x + y) mod 2 ^ 64"

definition memcmp_at :: "bytes \<Rightarrow> nat \<Rightarrow> bytes \<Rightarrow> bool option" where
  "memcmp_at b off pat =
     (if off + length pat \<le> length b then Some (take (length pat) (drop off b) = pat) else None)"

text \<open>\<open>strcmp(nm, name) == 0\<close> for a name without NUL: bytes are read up to the first difference.\<close>

fun strcmp_at :: "bytes \<Rightarrow> nat \<Rightarrow> bytes \<Rightarrow> bool option" where
  "strcmp_at b off [] = (if off < length b then Some (b ! off = 0) else None)"
| "strcmp_at b off (c # cs) =
     (if off < length b then (if b ! off = c then strcmp_at b (Suc off) cs else Some False) else None)"

section \<open>The common prologue\<close>

definition elf_magic :: bytes where
  "elf_magic = [0x7f, 0x45, 0x4c, 0x46]"

definition co_sections :: "bytes \<Rightarrow> (nat \<times> nat \<times> nat) option option" where
  "co_sections b =
     (if length b \<le> 64 then Some None
      else if take 4 b \<noteq> elf_magic \<or> b ! 4 \<noteq> 2 then Some None
      else do {
        shoff \<leftarrow> rd 8 b 0x28;
        shentsize \<leftarrow> rd 2 b 0x3a;
        shnum \<leftarrow> rd 2 b 0x3c;
        if shentsize < 0x40 \<or> shoff = 0 \<or> add64 shoff (shnum * shentsize) > length b then Some None
        else Some (Some (shoff, shentsize, shnum)) })"

section \<open>Symbols\<close>

fun sym_loop :: "nat \<Rightarrow> bytes \<Rightarrow> nat \<Rightarrow> nat \<Rightarrow> nat \<Rightarrow> nat \<Rightarrow> nat \<Rightarrow> bytes \<Rightarrow> nat \<Rightarrow> nat option option" where
  "sym_loop 0 b symoff symsz syment stroff strsz name o' = None"
| "sym_loop (Suc fuel) b symoff symsz syment stroff strsz name o' =
     (if add64 o' syment \<le> symsz then do {
        st_name \<leftarrow> rd 4 b (symoff + o');
        if st_name = 0 \<or> strsz \<le> st_name
        then sym_loop fuel b symoff symsz syment stroff strsz name (add64 o' syment)
        else do {
          eq \<leftarrow> strcmp_at b (stroff + st_name) name;
          if eq then do { v \<leftarrow> rd 8 b (symoff + o' + 8); Some (Some (v mod 2 ^ 32)) }
          else sym_loop fuel b symoff symsz syment stroff strsz name (add64 o' syment) } }
      else Some None)"

definition sym_section :: "bytes \<Rightarrow> nat \<Rightarrow> nat \<Rightarrow> nat \<Rightarrow> bytes \<Rightarrow> nat \<Rightarrow> nat option option" where
  "sym_section b shoff shentsize shnum name i = do {
     let sh = shoff + i * shentsize;
     sht \<leftarrow> rd 4 b (sh + 0x04);
     if sht \<noteq> 2 \<and> sht \<noteq> 11 then Some None
     else do {
       symoff \<leftarrow> rd 8 b (sh + 0x18);
       symsz \<leftarrow> rd 8 b (sh + 0x20);
       link \<leftarrow> rd 4 b (sh + 0x28);
       syment \<leftarrow> rd 8 b (sh + 0x38);
       if syment < 24 \<or> shnum \<le> link \<or> add64 symoff symsz > length b then Some None
       else do {
         let strh = shoff + link * shentsize;
         stroff \<leftarrow> rd 8 b (strh + 0x18);
         strsz \<leftarrow> rd 8 b (strh + 0x20);
         if add64 stroff strsz > length b then Some None
         else sym_loop (Suc (length b)) b symoff symsz syment stroff strsz name 0 } } }"

fun sections_from :: "(nat \<Rightarrow> 'a option option) \<Rightarrow> nat \<Rightarrow> nat \<Rightarrow> 'a option option" where
  "sections_from f 0 i = Some None"
| "sections_from f (Suc n) i =
     (case f i of None \<Rightarrow> None | Some (Some v) \<Rightarrow> Some (Some v) | Some None \<Rightarrow> sections_from f n (Suc i))"

definition or_default :: "'a \<Rightarrow> 'a option option \<Rightarrow> 'a option" where
  "or_default d r = (case r of None \<Rightarrow> None | Some None \<Rightarrow> Some d | Some (Some v) \<Rightarrow> Some v)"

definition over_sections :: "bytes option \<Rightarrow> 'a \<Rightarrow> (bytes \<Rightarrow> nat \<Rightarrow> nat \<Rightarrow> nat \<Rightarrow> nat \<Rightarrow> 'a option option) \<Rightarrow> 'a option" where
  "over_sections file d f =
     (case file of None \<Rightarrow> Some d
      | Some b \<Rightarrow> (case co_sections b of None \<Rightarrow> None | Some None \<Rightarrow> Some d
          | Some (Some (shoff, shentsize, shnum)) \<Rightarrow>
              or_default d (sections_from (f b shoff shentsize shnum) shnum 0)))"

definition co_read_symbol_u32 :: "bytes option \<Rightarrow> bytes \<Rightarrow> nat \<Rightarrow> nat option" where
  "co_read_symbol_u32 file name dflt =
     over_sections file dflt (\<lambda>b shoff shentsize shnum i. sym_section b shoff shentsize shnum name i)"

section \<open>Notes\<close>

definition mp_fail :: nat where
  "mp_fail = 0xffffffff"

text \<open>\<open>co_mp_uint(p, end)\<close>: \<open>e\<close> is the end of the note.\<close>

definition co_mp_uint :: "bytes \<Rightarrow> nat \<Rightarrow> nat \<Rightarrow> nat option" where
  "co_mp_uint b p e =
     (if e \<le> p then Some mp_fail else do {
        t \<leftarrow> rd 1 b p;
        if t < 0x80 then Some t
        else if t = 0xcc \<and> p + 1 < e then rd 1 b (p + 1)
        else if t = 0xcd \<and> p + 2 < e then do {
          h \<leftarrow> rd 1 b (p + 1); l \<leftarrow> rd 1 b (p + 2); Some (h * 2 ^ 8 + l) }
        else if t = 0xce \<and> p + 4 < e then do {
          x3 \<leftarrow> rd 1 b (p + 1); x2 \<leftarrow> rd 1 b (p + 2); x1 \<leftarrow> rd 1 b (p + 3); x0 \<leftarrow> rd 1 b (p + 4);
          Some (x3 * 2 ^ 24 + x2 * 2 ^ 16 + x1 * 2 ^ 8 + x0) }
        else Some mp_fail })"

function memfind_from :: "bytes \<Rightarrow> nat \<Rightarrow> nat \<Rightarrow> bytes \<Rightarrow> nat \<Rightarrow> nat option option" where
  "memfind_from b hay hlen nd i =
     (if i + length nd \<le> hlen then
        (case memcmp_at b (hay + i) nd of None \<Rightarrow> None
         | Some eq \<Rightarrow> if eq then Some (Some (hay + i)) else memfind_from b hay hlen nd (Suc i))
      else Some None)"
  by pat_completeness auto
termination
  by (relation "measure (\<lambda>(b, hay, hlen, nd, i). Suc hlen - i)") auto

declare memfind_from.simps [simp del]

definition co_memfind :: "bytes \<Rightarrow> nat \<Rightarrow> nat \<Rightarrow> bytes \<Rightarrow> nat option option" where
  "co_memfind b hay hlen nd =
     (if nd = [] \<or> hlen < length nd then Some None else memfind_from b hay hlen nd 0)"

definition offset_key :: bytes where
  "offset_key = [0xa7, 0x2e, 0x6f, 0x66, 0x66, 0x73, 0x65, 0x74]"

text \<open>The last \<open>.offset\<close> key that ends at or before \<open>P\<close>.\<close>

function last_key :: "bytes \<Rightarrow> nat \<Rightarrow> nat \<Rightarrow> nat option \<Rightarrow> nat option option" where
  "last_key b P s q =
     (if s + 8 \<le> P then
        (case memcmp_at b s offset_key of None \<Rightarrow> None
         | Some eq \<Rightarrow> last_key b P (Suc s) (if eq then Some s else q))
      else Some q)"
  by pat_completeness auto
termination
  by (relation "measure (\<lambda>(b, P, s, q). P - s)") auto

declare last_key.simps [simp del]

definition offset_section :: "bytes \<Rightarrow> nat \<Rightarrow> nat \<Rightarrow> nat \<Rightarrow> bytes \<Rightarrow> nat \<Rightarrow> nat option option" where
  "offset_section b shoff shentsize shnum kind i = do {
     let sh = shoff + i * shentsize;
     sht \<leftarrow> rd 4 b (sh + 0x04);
     if sht \<noteq> 7 then Some None
     else do {
       noff \<leftarrow> rd 8 b (sh + 0x18);
       nsz \<leftarrow> rd 8 b (sh + 0x20);
       if add64 noff nsz > length b \<or> nsz < length kind then Some None
       else do {
         p \<leftarrow> co_memfind b noff nsz kind;
         case p of None \<Rightarrow> Some None
         | Some P \<Rightarrow> do {
             q \<leftarrow> last_key b P noff None;
             case q of None \<Rightarrow> Some None
             | Some Q \<Rightarrow> do {
                 v \<leftarrow> co_mp_uint b (Q + 8) (noff + nsz);
                 if v \<noteq> mp_fail then Some (Some v) else Some None } } } } }"

definition co_read_kernarg_offset :: "bytes option \<Rightarrow> bytes \<Rightarrow> nat \<Rightarrow> nat option" where
  "co_read_kernarg_offset file kind dflt =
     over_sections file dflt (\<lambda>b shoff shentsize shnum i. offset_section b shoff shentsize shnum kind i)"

definition value_kind_key :: bytes where
  "value_kind_key = [0xab, 0x2e, 0x76, 0x61, 0x6c, 0x75, 0x65, 0x5f, 0x6b, 0x69, 0x6e, 0x64]"

definition hidden_prefix :: bytes where
  "hidden_prefix = [0x68, 0x69, 0x64, 0x64, 0x65, 0x6e, 0x5f]"

text \<open>The header of the \<open>value_kind\<close> string at \<open>v\<close>: its length and first byte.\<close>

definition kind_header :: "bytes \<Rightarrow> nat \<Rightarrow> nat \<Rightarrow> (nat \<times> nat) option option" where
  "kind_header b v ne =
     (if ne \<le> v then Some None else do {
        t \<leftarrow> rd 1 b v;
        if 0xa0 \<le> t \<and> t \<le> 0xbf then Some (Some (t mod 32, v + 1))
        else if v + 1 < ne \<and> t = 0xd9 then do { n \<leftarrow> rd 1 b (v + 1); Some (Some (n, v + 2)) }
        else Some None })"

lemma kind_header_after: "kind_header b v ne = Some (Some (len, str)) \<Longrightarrow> v < str"
  by (auto simp: kind_header_def Let_def bind_eq_Some_conv split: if_splits)

text \<open>
  The scan of one note: the count so far, whether a key was seen; \<open>Inl\<close> is the early return
  at the first hidden argument, \<open>Inr\<close> the count at the end of the scan.
\<close>

function count_scan :: "bytes \<Rightarrow> nat \<Rightarrow> nat \<Rightarrow> nat \<Rightarrow> bool \<Rightarrow> (nat + nat \<times> bool) option" where
  "count_scan b ne p count found =
     (if p + 12 \<le> ne then
        (case memcmp_at b p value_kind_key of None \<Rightarrow> None
         | Some eq \<Rightarrow>
             if \<not> eq then count_scan b ne (Suc p) count found
             else (case kind_header b (p + 12) ne of None \<Rightarrow> None
               | Some None \<Rightarrow> count_scan b ne (p + 12) count True
               | Some (Some (len, str)) \<Rightarrow>
                   if ne < str + len then Some (Inr (count, True))
                   else (case (if 7 \<le> len then memcmp_at b str hidden_prefix else Some False) of
                       None \<Rightarrow> None
                     | Some hid \<Rightarrow> if hid then Some (Inl count)
                                   else count_scan b ne (str + len) (Suc count) True)))
      else Some (Inr (count, found)))"
  by pat_completeness auto
termination
  by (relation "measure (\<lambda>(b, ne, p, count, found). Suc ne - p)") (auto dest!: kind_header_after)

declare count_scan.simps [simp del]

definition count_section :: "bytes \<Rightarrow> nat \<Rightarrow> nat \<Rightarrow> nat \<Rightarrow> nat \<Rightarrow> nat option option" where
  "count_section b shoff shentsize shnum i = do {
     let sh = shoff + i * shentsize;
     sht \<leftarrow> rd 4 b (sh + 0x04);
     if sht \<noteq> 7 then Some None
     else do {
       noff \<leftarrow> rd 8 b (sh + 0x18);
       nsz \<leftarrow> rd 8 b (sh + 0x20);
       if add64 noff nsz > length b \<or> nsz < 12 then Some None
       else do {
         r \<leftarrow> count_scan b (noff + nsz) noff 0 False;
         case r of Inl c \<Rightarrow> Some (Some c)
         | Inr (c, found) \<Rightarrow> if found then Some (Some c) else Some None } } }"

definition co_read_explicit_arg_count :: "bytes option \<Rightarrow> int \<Rightarrow> int option" where
  "co_read_explicit_arg_count file dflt =
     over_sections file dflt
       (\<lambda>b shoff shentsize shnum i. map_option (map_option int) (count_section b shoff shentsize shnum i))"

section \<open>The symbol table as a list\<close>

definition field :: "nat \<Rightarrow> bytes \<Rightarrow> nat \<Rightarrow> nat" where
  "field n b off = le_val (take n (drop off b))"

definition cstring :: "bytes \<Rightarrow> nat \<Rightarrow> bytes" where
  "cstring b off = takeWhile (\<lambda>x. x \<noteq> 0) (drop off b)"

lemma rd_field: "off + n \<le> length b \<Longrightarrow> rd n b off = Some (field n b off)"
  by (simp add: rd_def field_def)

lemma le_val_less: "le_val xs < 256 ^ length xs"
proof (induction xs)
  case (Cons x xs)
  have "unat x < 256" using unsigned_less [of x] by simp
  with Cons show ?case by simp
qed simp

lemma field_less: "field n b off < 256 ^ n"
  unfolding field_def by (rule less_le_trans [OF le_val_less]) simp

text \<open>
  \<open>headers_ok\<close>: the file passes the prologue and its section headers lie in it;
  \<open>symbols_ok\<close>: so do its symbol tables and their string tables, which end in NUL.
\<close>

definition headers_ok :: "bytes \<Rightarrow> nat \<Rightarrow> nat \<Rightarrow> nat \<Rightarrow> bool" where
  "headers_ok b shoff shentsize shnum \<longleftrightarrow> 64 < length b \<and> length b < 2 ^ 63 \<and> take 4 b = elf_magic \<and> b ! 4 = 2 \<and>
     shoff = field 8 b 0x28 \<and> shentsize = field 2 b 0x3a \<and> shnum = field 2 b 0x3c \<and>
     0x40 \<le> shentsize \<and> shoff \<noteq> 0 \<and> shoff + shnum * shentsize \<le> length b"

definition is_symtab :: "bytes \<Rightarrow> nat \<Rightarrow> bool" where
  "is_symtab b sh \<longleftrightarrow> field 4 b (sh + 4) = 2 \<or> field 4 b (sh + 4) = 11"

definition symbols_ok :: "bytes \<Rightarrow> nat \<Rightarrow> nat \<Rightarrow> nat \<Rightarrow> bool" where
  "symbols_ok b shoff shentsize shnum \<longleftrightarrow> (\<forall>i < shnum. let sh = shoff + i * shentsize in is_symtab b sh \<longrightarrow>
     field 8 b (sh + 0x18) + field 8 b (sh + 0x20) \<le> length b \<and>
     24 \<le> field 8 b (sh + 0x38) \<and> field 8 b (sh + 0x38) < 2 ^ 63 \<and> field 4 b (sh + 0x28) < shnum \<and>
     (let strh = shoff + field 4 b (sh + 0x28) * shentsize in
        field 8 b (strh + 0x18) + field 8 b (strh + 0x20) \<le> length b \<and>
        (0 < field 8 b (strh + 0x20) \<longrightarrow> b ! (field 8 b (strh + 0x18) + field 8 b (strh + 0x20) - 1) = 0)))"

definition sym_entry :: "bytes \<Rightarrow> nat \<Rightarrow> nat \<Rightarrow> nat \<Rightarrow> nat \<Rightarrow> nat \<Rightarrow> (bytes \<times> nat) list" where
  "sym_entry b symoff syment stroff strsz k =
     (let o' = symoff + k * syment; n = field 4 b o'
      in if n = 0 \<or> strsz \<le> n then [] else [(cstring b (stroff + n), field 8 b (o' + 8))])"

definition section_symbols :: "bytes \<Rightarrow> nat \<Rightarrow> nat \<Rightarrow> nat \<Rightarrow> (bytes \<times> nat) list" where
  "section_symbols b shoff shentsize i =
     (let sh = shoff + i * shentsize; strh = shoff + field 4 b (sh + 0x28) * shentsize;
          syment = field 8 b (sh + 0x38)
      in if is_symtab b sh then
           concat (map (sym_entry b (field 8 b (sh + 0x18)) syment (field 8 b (strh + 0x18)) (field 8 b (strh + 0x20)))
             [0..<field 8 b (sh + 0x20) div syment])
         else [])"

definition elf_symbols :: "bytes \<Rightarrow> nat \<Rightarrow> nat \<Rightarrow> nat \<Rightarrow> (bytes \<times> nat) list" where
  "elf_symbols b shoff shentsize shnum = concat (map (section_symbols b shoff shentsize) [0..<shnum])"

lemma strcmp_at_spec:
  "0 \<notin> set name \<Longrightarrow> off \<le> j \<Longrightarrow> j < length b \<Longrightarrow> b ! j = 0 \<Longrightarrow>
   strcmp_at b off name = Some (cstring b off = name)"
proof (induction b off name rule: strcmp_at.induct)
  case (1 b off)
  then show ?case by (cases "drop off b") (auto simp: cstring_def nth_via_drop)
next
  case (2 b off c cs)
  then have lt: "off < length b" by simp
  have d: "drop off b = b ! off # drop (Suc off) b" using lt by (simp add: Cons_nth_drop_Suc)
  show ?case
  proof (cases "b ! off = c")
    case True
    with 2 have "off \<noteq> j" by auto
    with 2 True lt have "strcmp_at b (Suc off) cs = Some (cstring b (Suc off) = cs)" by simp
    with True lt d 2(2) show ?thesis by (simp add: cstring_def)
  next
    case False
    with lt d show ?thesis by (auto simp: cstring_def)
  qed
qed

lemma add64_less: "x + y < 2 ^ 64 \<Longrightarrow> add64 x y = x + y"
  by (simp add: add64_def)

lemma sym_loop_spec:
  assumes len: "length b < 2 ^ 63" and sym: "symoff + symsz \<le> length b" "24 \<le> syment" "syment < 2 ^ 63"
    and str: "stroff + strsz \<le> length b" "0 < strsz \<longrightarrow> b ! (stroff + strsz - 1) = 0" and name: "0 \<notin> set name"
  shows "n = symsz div syment \<Longrightarrow> k \<le> n \<Longrightarrow> n - k < fuel \<Longrightarrow>
    sym_loop fuel b symoff symsz syment stroff strsz name (k * syment) =
      Some (map_option (\<lambda>v. v mod 2 ^ 32)
        (map_of (concat (map (sym_entry b symoff syment stroff strsz) [k..<n])) name))"
proof (induction fuel arbitrary: k)
  case (Suc fuel)
  have sz: "n * syment \<le> symsz" using Suc.prems(1) by simp
  have add: "add64 (k * syment) syment = Suc k * syment"
  proof -
    have "k * syment \<le> n * syment" using Suc.prems(2) by simp
    then have "k * syment \<le> length b" using sz sym(1) by linarith
    then have "k * syment + syment < 2 ^ 63 + 2 ^ 63" using sym(3) len by linarith
    then have "k * syment + syment < 2 ^ 64" by simp
    then show ?thesis by (simp add: add64_less)
  qed
  show ?case
  proof (cases "k < n")
    case False
    then have "n = k" using Suc.prems(2) by simp
    moreover have "\<not> Suc n * syment \<le> symsz"
      using Suc.prems(1) sym(2) by (simp add: dividend_less_div_times not_le)
    ultimately show ?thesis using add by simp
  next
    case True
    then have "Suc k * syment \<le> n * syment" by (intro mult_le_mono1) simp
    then have in_sz: "Suc k * syment \<le> symsz" using sz by simp
    have in_b: "symoff + k * syment + 24 \<le> length b" using in_sz sym by simp
    let ?e = "sym_entry b symoff syment stroff strsz"
    let ?n = "field 4 b (symoff + k * syment)"
    have r4: "rd 4 b (symoff + k * syment) = Some ?n" using in_b by (simp add: rd_field)
    have r8: "rd 8 b (symoff + k * syment + 8) = Some (field 8 b (symoff + k * syment + 8))"
      using in_b by (simp add: rd_field)
    have IH: "sym_loop fuel b symoff symsz syment stroff strsz name (Suc k * syment) =
      Some (map_option (\<lambda>v. v mod 2 ^ 32) (map_of (concat (map ?e [Suc k..<n])) name))"
      using Suc.IH [of "Suc k"] Suc.prems True by simp
    have up: "[k..<n] = k # [Suc k..<n]" using True by (rule upt_conv_Cons)
    show ?thesis
    proof (cases "?n = 0 \<or> strsz \<le> ?n")
      case True
      then have "?e k = []" by (simp add: sym_entry_def Let_def)
      with True add in_sz r4 IH show ?thesis unfolding up by (simp del: mult_Suc)
    next
      case False
      then have "strcmp_at b (stroff + ?n) name = Some (cstring b (stroff + ?n) = name)"
        using str by (intro strcmp_at_spec [OF name, of _ "stroff + strsz - 1"]) auto
      moreover have "?e k = [(cstring b (stroff + ?n), field 8 b (symoff + k * syment + 8))]"
        using False by (simp add: sym_entry_def Let_def)
      ultimately show ?thesis using False add in_sz r4 r8 IH unfolding up by (simp del: mult_Suc)
    qed
  qed
qed simp

lemma sections_from_spec:
  "(\<And>k. i \<le> k \<Longrightarrow> k < i + n \<Longrightarrow> f k = Some (map_option g (map_of (s k) x))) \<Longrightarrow>
   sections_from f n i = Some (map_option g (map_of (concat (map s [i..<i + n])) x))"
proof (induction n arbitrary: i)
  case (Suc n)
  have "f i = Some (map_option g (map_of (s i) x))" using Suc.prems [of i] by simp
  moreover have "sections_from f n (Suc i) = Some (map_option g (map_of (concat (map s [Suc i..<Suc i + n])) x))"
    using Suc.prems by (intro Suc.IH) simp
  moreover have "[i..<i + Suc n] = i # [Suc i..<Suc i + n]" by (simp add: upt_conv_Cons del: upt_Suc)
  ultimately show ?case
    by (cases "map_of (s i) x") (simp_all add: map_add_def del: upt_Suc)
qed simp

lemma co_sections_ok:
  assumes "headers_ok b shoff shentsize shnum"
  shows "co_sections b = Some (Some (shoff, shentsize, shnum))"
proof -
  have h: "64 < length b" "length b < 2 ^ 63" "take 4 b = elf_magic" "b ! 4 = 2" "shoff = field 8 b 0x28"
    "shentsize = field 2 b 0x3a" "shnum = field 2 b 0x3c" "0x40 \<le> shentsize" "shoff \<noteq> 0"
    "shoff + shnum * shentsize \<le> length b"
    using assms unfolding headers_ok_def by blast+
  have "shoff + shnum * shentsize < 2 ^ 64" using h(2,10) by simp
  then have a: "add64 shoff (shnum * shentsize) = shoff + shnum * shentsize" by (rule add64_less)
  have "rd 8 b 0x28 = Some shoff" "rd 2 b 0x3a = Some shentsize" "rd 2 b 0x3c = Some shnum"
    using h(1) by (simp_all add: rd_field h(5-7))
  with h(1,3,4,8,9,10) a show ?thesis by (simp add: co_sections_def)
qed

lemma section_in:
  assumes "headers_ok b shoff shentsize shnum" "i < shnum"
  shows "shoff + i * shentsize + 64 \<le> length b"
proof -
  have "Suc i * shentsize \<le> shnum * shentsize" using assms(2) by (intro mult_le_mono1) simp
  moreover have "shoff + shnum * shentsize \<le> length b" "0x40 \<le> shentsize"
    using assms(1) unfolding headers_ok_def by blast+
  ultimately show ?thesis by simp
qed

lemma sym_section_spec:
  assumes h: "headers_ok b shoff shentsize shnum" and s: "symbols_ok b shoff shentsize shnum"
    and i: "i < shnum" and name: "0 \<notin> set name"
  shows "sym_section b shoff shentsize shnum name i =
    Some (map_option (\<lambda>v. v mod 2 ^ 32) (map_of (section_symbols b shoff shentsize i) name))"
proof -
  let ?sh = "shoff + i * shentsize"
  have in_b: "?sh + 64 \<le> length b" by (rule section_in [OF h i])
  have len: "length b < 2 ^ 63" using h by (simp add: headers_ok_def)
  show ?thesis
  proof (cases "is_symtab b ?sh")
    case False
    then show ?thesis using in_b
      by (simp add: sym_section_def rd_field section_symbols_def is_symtab_def Let_def)
  next
    case True
    let ?link = "field 4 b (?sh + 0x28)" let ?st = "shoff + ?link * shentsize"
    let ?o = "field 8 b (?sh + 0x18)" and ?z = "field 8 b (?sh + 0x20)" and ?e = "field 8 b (?sh + 0x38)"
    let ?so = "field 8 b (?st + 0x18)" and ?sz = "field 8 b (?st + 0x20)"
    have ok: "?o + ?z \<le> length b" "24 \<le> ?e" "?e < 2 ^ 63" "?link < shnum" "?so + ?sz \<le> length b"
      "0 < ?sz \<longrightarrow> b ! (?so + ?sz - 1) = 0"
      using s i True unfolding symbols_ok_def Let_def by blast+
    have st: "?st + 64 \<le> length b" by (rule section_in [OF h ok(4)])
    have a: "add64 ?o ?z = ?o + ?z" "add64 ?so ?sz = ?so + ?sz"
      using ok(1,5) len by (auto intro!: add64_less)
    have r: "rd 4 b (?sh + 4) = Some (field 4 b (?sh + 4))" "rd 8 b (?sh + 0x18) = Some ?o"
      "rd 8 b (?sh + 0x20) = Some ?z" "rd 4 b (?sh + 0x28) = Some ?link" "rd 8 b (?sh + 0x38) = Some ?e"
      "rd 8 b (?st + 0x18) = Some ?so" "rd 8 b (?st + 0x20) = Some ?sz"
      using in_b st by (simp_all add: rd_field)
    have "?z div ?e \<le> length b" using ok(1) by (meson div_le_dividend le_trans add_leE)
    then have "sym_loop (Suc (length b)) b ?o ?z ?e ?so ?sz name (0 * ?e) =
      Some (map_option (\<lambda>v. v mod 2 ^ 32) (map_of (concat (map (sym_entry b ?o ?e ?so ?sz) [0..<?z div ?e])) name))"
      by (intro sym_loop_spec [OF len ok(1-3,5,6) name refl]) simp_all
    moreover have "\<not> (field 4 b (?sh + 4) \<noteq> 2 \<and> field 4 b (?sh + 4) \<noteq> 11)"
      using True by (auto simp: is_symtab_def)
    ultimately show ?thesis using True ok(1,2,4,5)
      by (simp only: sym_section_def r a Let_def section_symbols_def bind.bind_lunit if_True if_False) simp
  qed
qed

lemma co_read_symbol_u32_ok:
  assumes "headers_ok b shoff shentsize shnum" "symbols_ok b shoff shentsize shnum" "0 \<notin> set name"
  shows "co_read_symbol_u32 (Some b) name dflt =
    Some (case map_of (elf_symbols b shoff shentsize shnum) name of None \<Rightarrow> dflt | Some v \<Rightarrow> v mod 2 ^ 32)"
proof -
  have "sections_from (sym_section b shoff shentsize shnum name) shnum 0 =
    Some (map_option (\<lambda>v. v mod 2 ^ 32)
      (map_of (concat (map (section_symbols b shoff shentsize) [0..<0 + shnum])) name))"
    using sym_section_spec [OF assms(1,2) _ assms(3)] by (intro sections_from_spec) simp
  then show ?thesis
    by (simp add: co_read_symbol_u32_def over_sections_def co_sections_ok [OF assms(1)] or_default_def
        elf_symbols_def split: option.splits)
qed

text \<open>
  C13: For a code object whose section headers, symbol tables and string tables lie in the file
  and end in NUL, \<open>co_read_symbol_u32\<close> reads nothing outside the file, ends, and returns the
  low 32 bits of the value of the first symbol of that name in the file's symbol tables, or the
  default when there is none.
\<close>

theorem read_symbol_first:
  assumes "headers_ok b shoff shentsize shnum" "symbols_ok b shoff shentsize shnum" "0 \<notin> set name"
  shows "co_read_symbol_u32 (Some b) name dflt =
    Some (case map_of (elf_symbols b shoff shentsize shnum) name of None \<Rightarrow> dflt | Some v \<Rightarrow> v mod 2 ^ 32)"
  by (rule co_read_symbol_u32_ok [OF assms])

text \<open>
  A concrete file: a symbol table with a null symbol and "st" = 96 at 192, its string table at 240.
\<close>

definition demo_syms :: bytes where
  "demo_syms = elf_magic @ [2] @ replicate 35 0 @ [64, 0, 0, 0, 0, 0, 0, 0] @ replicate 10 0 @ [64, 0, 2, 0, 0, 0] @
     [0, 0, 0, 0, 2, 0, 0, 0] @ replicate 16 0 @ [192, 0, 0, 0, 0, 0, 0, 0] @ [48, 0, 0, 0, 0, 0, 0, 0] @
       [1, 0, 0, 0] @ replicate 12 0 @ [24, 0, 0, 0, 0, 0, 0, 0] @
     [0, 0, 0, 0, 3, 0, 0, 0] @ replicate 16 0 @ [240, 0, 0, 0, 0, 0, 0, 0] @ [4, 0, 0, 0, 0, 0, 0, 0] @ replicate 24 0 @
     replicate 24 0 @ [1, 0, 0, 0, 0, 0, 0, 0] @ [96, 0, 0, 0, 0, 0, 0, 0] @ replicate 8 0 @
     [0, 0x73, 0x74, 0]"

theorem read_symbol_first_witness:
  "co_read_symbol_u32 (Some demo_syms) [0x73, 0x74] 7 = Some 96"
proof -
  have len: "length demo_syms = 244" by (simp add: demo_syms_def elf_magic_def)
  have hd: "take 4 demo_syms = elf_magic" "demo_syms ! 4 = 2" "field 8 demo_syms 0x28 = 64"
    "field 2 demo_syms 0x3a = 64" "field 2 demo_syms 0x3c = 2" by code_simp+
  have s0: "field 4 demo_syms (64 + 4) = 2" "field 8 demo_syms (64 + 0x18) = 192" "field 8 demo_syms (64 + 0x20) = 48"
    "field 4 demo_syms (64 + 0x28) = 1" "field 8 demo_syms (64 + 0x38) = 24" by code_simp+
  have s1: "field 4 demo_syms (128 + 4) = 3" "field 8 demo_syms (128 + 0x18) = 240"
    "field 8 demo_syms (128 + 0x20) = 4" "demo_syms ! 243 = 0" by code_simp+
  have h: "headers_ok demo_syms 64 64 2" using hd by (simp add: headers_ok_def len)
  have all2: "(\<forall>i < 2. P i) \<longleftrightarrow> P 0 \<and> P (1 :: nat)" for P by (auto simp: less_2_cases_iff)
  have s: "symbols_ok demo_syms 64 64 2"
    unfolding symbols_ok_def all2 using s0 s1 by (simp add: Let_def is_symtab_def len)
  have "elf_symbols demo_syms 64 64 2 = [([0x73, 0x74], 96)]" by code_simp
  with read_symbol_first [OF h s, of "[0x73, 0x74]" 7] show ?thesis by simp
qed

section \<open>Notes: searching and decoding\<close>

definition at :: "bytes \<Rightarrow> nat \<Rightarrow> bytes \<Rightarrow> bool" where
  "at b off pat \<longleftrightarrow> off + length pat \<le> length b \<and> take (length pat) (drop off b) = pat"

lemma memcmp_at_spec: "off + length pat \<le> length b \<Longrightarrow> memcmp_at b off pat = Some (at b off pat)"
  by (simp add: memcmp_at_def at_def)

lemma memfind_first:
  assumes "hay + hlen \<le> length b" "k + length nd \<le> hlen" "at b (hay + k) nd"
  shows "i \<le> k \<Longrightarrow> (\<forall>j. i \<le> j \<longrightarrow> j < k \<longrightarrow> \<not> at b (hay + j) nd) \<Longrightarrow>
    memfind_from b hay hlen nd i = Some (Some (hay + k))"
proof (induction "k - i" arbitrary: i)
  case 0
  then have "i = k" by simp
  then show ?case using assms by (subst memfind_from.simps) (simp add: memcmp_at_spec)
next
  case (Suc d)
  then have lt: "i < k" by simp
  have "memfind_from b hay hlen nd (Suc i) = Some (Some (hay + k))"
    using Suc lt by (intro Suc.hyps(1)) auto
  with Suc.prems(2) lt assms(1,2) show ?case
    by (subst memfind_from.simps) (simp add: memcmp_at_spec)
qed

lemma memfind_none:
  assumes "hay + hlen \<le> length b"
  shows "(\<forall>j. i \<le> j \<longrightarrow> j + length nd \<le> hlen \<longrightarrow> \<not> at b (hay + j) nd) \<Longrightarrow>
    memfind_from b hay hlen nd i = Some None"
proof (induction "Suc hlen - i" arbitrary: i)
  case 0
  then show ?case by (subst memfind_from.simps) simp
next
  case (Suc d)
  have "memfind_from b hay hlen nd (Suc i) = Some None" if "i + length nd \<le> hlen"
    using Suc that by (intro Suc.hyps(1)) auto
  with Suc.prems assms show ?case by (subst memfind_from.simps) (simp add: memcmp_at_spec)
qed

lemma last_key_none:
  assumes "P \<le> length b"
  shows "(\<forall>j. s \<le> j \<longrightarrow> j + 8 \<le> P \<longrightarrow> \<not> at b j offset_key) \<Longrightarrow> last_key b P s q = Some q"
proof (induction "P - s" arbitrary: s)
  case 0
  then show ?case by (subst last_key.simps) simp
next
  case (Suc d)
  have "last_key b P (Suc s) q = Some q" using Suc by (intro Suc.hyps(1)) auto
  moreover have "length offset_key = 8" by (simp add: offset_key_def)
  ultimately show ?case using Suc.prems assms by (subst last_key.simps) (simp add: memcmp_at_spec)
qed

lemma last_key_spec:
  assumes P: "P \<le> length b" and Q: "Q + 8 \<le> P" "at b Q offset_key"
    and last: "\<forall>j. Q < j \<longrightarrow> j + 8 \<le> P \<longrightarrow> \<not> at b j offset_key"
  shows "s \<le> Q \<Longrightarrow> last_key b P s q = Some (Some Q)"
proof (induction "Q - s" arbitrary: s q)
  case 0
  then have s: "s = Q" by simp
  have "length offset_key = 8" by (simp add: offset_key_def)
  moreover have "last_key b P (Suc Q) (Some Q) = Some (Some Q)" using last by (intro last_key_none [OF P]) auto
  ultimately show ?case using P Q unfolding s by (subst last_key.simps) (simp add: memcmp_at_spec)
next
  case (Suc d)
  have "length offset_key = 8" by (simp add: offset_key_def)
  moreover have "last_key b P (Suc s) q' = Some (Some Q)" for q' using Suc by (intro Suc.hyps(1)) auto
  ultimately show ?case using Suc(2,3) P Q by (subst last_key.simps) (simp add: memcmp_at_spec)
qed

text \<open>The msgpack encodings of an unsigned integer below \<open>2\<^sup>3\<^sup>2\<close>.\<close>

definition mp_enc :: "nat \<Rightarrow> bytes" where
  "mp_enc v =
     (if v < 2 ^ 7 then [of_nat v]
      else if v < 2 ^ 8 then [0xcc, of_nat v]
      else if v < 2 ^ 16 then [0xcd, of_nat (v div 2 ^ 8), of_nat v]
      else [0xce, of_nat (v div 2 ^ 24), of_nat (v div 2 ^ 16), of_nat (v div 2 ^ 8), of_nat v])"

lemma rd1_at: "at b p pat \<Longrightarrow> k < length pat \<Longrightarrow> rd 1 b (p + k) = Some (unat (pat ! k))"
proof -
  assume a: "at b p pat" "k < length pat"
  then have l: "p + k < length b" by (simp add: at_def)
  have "take (length pat) (drop p b) = pat" using a(1) by (simp add: at_def)
  then have "take (length pat) (drop p b) ! k = pat ! k" by simp
  moreover have "take (length pat) (drop p b) ! k = b ! (p + k)" using a(2) l by simp
  ultimately have "b ! (p + k) = pat ! k" by simp
  moreover have "take 1 (drop (p + k) b) = [b ! (p + k)]" using l by (simp add: take_Suc_conv_app_nth)
  ultimately show ?thesis using l by (simp add: rd_def)
qed

lemma unat_byte: "unat (of_nat n :: u8) = n mod 2 ^ 8"
  by (simp add: unat_of_nat take_bit_eq_mod)

lemma be32:
  fixes v :: nat
  shows "v div 2 ^ 24 * 2 ^ 24 + v div 2 ^ 16 mod 2 ^ 8 * 2 ^ 16 + v div 2 ^ 8 mod 2 ^ 8 * 2 ^ 8 + v mod 2 ^ 8 = v"
proof -
  define a where "a = v div 256"
  define b where "b = a div 256"
  define c where "c = b div 256"
  have e: "v div 2 ^ 8 = a" "v div 2 ^ 16 = b" "v div 2 ^ 24 = c"
    by (simp_all add: a_def b_def c_def div_mult2_eq [symmetric])
  have "v = a * 256 + v mod 256" "a = b * 256 + a mod 256" "b = c * 256 + b mod 256"
    unfolding a_def b_def c_def by simp_all
  then show ?thesis unfolding e by simp
qed

lemma co_mp_uint_spec:
  assumes "at b p (mp_enc v)" "p + length (mp_enc v) \<le> e" "v < 2 ^ 32"
  shows "co_mp_uint b p e = Some v"
proof -
  note r = rd1_at [OF assms(1)]
  consider "v < 2 ^ 7" | "2 ^ 7 \<le> v" "v < 2 ^ 8" | "2 ^ 8 \<le> v" "v < 2 ^ 16" | "2 ^ 16 \<le> v" by linarith
  then show ?thesis
  proof cases
    case 1
    with assms(2) r [of 0] show ?thesis by (simp add: co_mp_uint_def mp_enc_def unat_byte)
  next
    case 2
    with assms(2) r [of 0] r [of 1] show ?thesis by (simp add: co_mp_uint_def mp_enc_def unat_byte)
  next
    case 3
    have "v div 2 ^ 8 mod 2 ^ 8 * 2 ^ 8 + v mod 2 ^ 8 = v" using 3(2) by simp
    with 3 assms(2) r [of 0] r [of 1] r [of 2] show ?thesis by (simp add: co_mp_uint_def mp_enc_def unat_byte)
  next
    case 4
    then have "\<not> v < 128" "\<not> v < 256" "\<not> v < 65536" by simp_all
    moreover have "v div 2 ^ 24 < 2 ^ 8" using assms(3) by (simp add: div_less_iff_less_mult)
    ultimately show ?thesis using be32 [of v] assms(2) r [of 0] r [of 1] r [of 2] r [of 3] r [of 4]
      by (simp add: co_mp_uint_def mp_enc_def unat_byte)
  qed
qed

text \<open>
  The layout that the compiler emits for one argument: the key, the encoded offset, anything
  that does not repeat the key, then the value kind; \<open>kind\<close> occurs first there.
\<close>

definition note_section :: "bytes \<Rightarrow> nat \<Rightarrow> nat \<Rightarrow> nat \<Rightarrow> bool" where
  "note_section b sh noff nsz \<longleftrightarrow> field 4 b (sh + 4) = 7 \<and> field 8 b (sh + 0x18) = noff \<and>
     field 8 b (sh + 0x20) = nsz \<and> noff + nsz \<le> length b"

definition arg_layout :: "bytes \<Rightarrow> nat \<Rightarrow> nat \<Rightarrow> bytes \<Rightarrow> nat \<Rightarrow> bool" where
  "arg_layout b noff nsz kind v \<longleftrightarrow> (\<exists>Q P. at b Q offset_key \<and> noff \<le> Q \<and> at b (Q + 8) (mp_enc v) \<and>
     Q + 8 + length (mp_enc v) \<le> P \<and> at b P kind \<and> P + length kind \<le> noff + nsz \<and>
     (\<forall>j. noff \<le> j \<longrightarrow> j < P \<longrightarrow> \<not> at b j kind) \<and>
     (\<forall>j. Q < j \<longrightarrow> j + 8 \<le> P \<longrightarrow> \<not> at b j offset_key))"

lemma offset_section_spec:
  assumes h: "headers_ok b shoff shentsize shnum" and i: "i < shnum"
    and n: "note_section b (shoff + i * shentsize) noff nsz" and a: "arg_layout b noff nsz kind v"
    and v: "v < mp_fail" and k: "kind \<noteq> []"
  shows "offset_section b shoff shentsize shnum kind i = Some (Some v)"
proof -
  from a obtain Q P where QP: "at b Q offset_key" "noff \<le> Q" "at b (Q + 8) (mp_enc v)"
    "Q + 8 + length (mp_enc v) \<le> P" "at b P kind" "P + length kind \<le> noff + nsz"
    "\<forall>j. noff \<le> j \<longrightarrow> j < P \<longrightarrow> \<not> at b j kind" "\<forall>j. Q < j \<longrightarrow> j + 8 \<le> P \<longrightarrow> \<not> at b j offset_key"
    unfolding arg_layout_def by blast
  have in_b: "shoff + i * shentsize + 64 \<le> length b" by (rule section_in [OF h i])
  have len: "length b < 2 ^ 63" using h by (simp add: headers_ok_def)
  have ns: "noff + nsz \<le> length b" using n by (simp add: note_section_def)
  then have ad: "add64 noff nsz = noff + nsz" using len by (intro add64_less) simp
  have r: "rd 4 b (shoff + i * shentsize + 4) = Some 7" "rd 8 b (shoff + i * shentsize + 0x18) = Some noff"
    "rd 8 b (shoff + i * shentsize + 0x20) = Some nsz"
    using in_b n by (simp_all add: rd_field note_section_def)
  have nP: "noff \<le> P" "P \<le> length b" using QP(2,4,6) ns by simp_all
  have "memfind_from b noff nsz kind 0 = Some (Some (noff + (P - noff)))"
    using QP(5-7) ns nP by (intro memfind_first) auto
  then have f: "co_memfind b noff nsz kind = Some (Some P)"
    using nP QP(6) k by (simp add: co_memfind_def)
  have l: "last_key b P noff None = Some (Some Q)"
    using QP nP by (intro last_key_spec) auto
  have m: "co_mp_uint b (Q + 8) (noff + nsz) = Some v"
    using QP v by (intro co_mp_uint_spec) (auto simp: mp_fail_def)
  have "length kind \<le> nsz" using QP(6) nP(1) by simp
  then show ?thesis using v ns by (simp add: offset_section_def Let_def r ad f l m)
qed

lemma sections_from_skip:
  "(\<And>j. i \<le> j \<Longrightarrow> j < i + k \<Longrightarrow> f j = Some None) \<Longrightarrow> f (i + k) = Some (Some v) \<Longrightarrow> k < n \<Longrightarrow>
   sections_from f n i = Some (Some v)"
proof (induction k arbitrary: i n)
  case 0
  then show ?case by (cases n) simp_all
next
  case (Suc k)
  obtain m where m: "n = Suc m" using Suc.prems(3) by (cases n) auto
  have "sections_from f m (Suc i) = Some (Some v)"
    using Suc.prems m by (intro Suc.IH) simp_all
  with Suc.prems(1) [of i] m show ?case by simp
qed

text \<open>
  C14: When the first note section of a code object holds the metadata of an argument in the
  compiler's layout, \<open>co_read_kernarg_offset\<close> stays inside the file and returns the
  argument's offset, for every offset below \<open>0xffffffff\<close> in any of the four msgpack widths.
\<close>

theorem read_kernarg_offset:
  assumes "headers_ok b shoff shentsize shnum" "i < shnum"
    and "\<forall>j < i. field 4 b (shoff + j * shentsize + 4) \<noteq> 7"
    and "note_section b (shoff + i * shentsize) noff nsz" "arg_layout b noff nsz kind v"
    and "v < mp_fail" "kind \<noteq> []"
  shows "co_read_kernarg_offset (Some b) kind dflt = Some v"
proof -
  have "offset_section b shoff shentsize shnum kind j = Some None" if "j < i" for j
    using section_in [OF assms(1), of j] that assms(2,3)
    by (simp add: offset_section_def Let_def rd_field)
  then have "sections_from (\<lambda>i. offset_section b shoff shentsize shnum kind i) shnum 0 = Some (Some v)"
    using offset_section_spec [OF assms(1,2,4-7)] assms(2) by (intro sections_from_skip [of 0 i]) simp_all
  then show ?thesis
    by (simp add: co_read_kernarg_offset_def over_sections_def co_sections_ok [OF assms(1)] or_default_def)
qed

text \<open>
  A concrete file: the ELF header, one SHT_NOTE header at 64, one note at 128 with an argument
  at offset 44 and the value kind "ab".
\<close>

definition demo_note :: bytes where
  "demo_note = elf_magic @ [2] @ replicate 35 0 @ [64, 0, 0, 0, 0, 0, 0, 0] @ replicate 10 0 @ [64, 0, 1, 0, 0, 0] @
     [0, 0, 0, 0, 7, 0, 0, 0] @ replicate 16 0 @ [128, 0, 0, 0, 0, 0, 0, 0] @ [13, 0, 0, 0, 0, 0, 0, 0] @ replicate 24 0 @
     [1] @ offset_key @ [44, 5] @ [0x61, 0x62]"

theorem read_kernarg_offset_witness:
  "co_read_kernarg_offset (Some demo_note) [0x61, 0x62] 7 = Some 44"
proof (rule read_kernarg_offset)
  have len: "length demo_note = 141" by (simp add: demo_note_def elf_magic_def offset_key_def)
  have pat: "take 8 (drop 129 demo_note) = offset_key" "take 1 (drop 137 demo_note) = [44]"
    "take 2 (drop 139 demo_note) = [0x61, 0x62]" "take 4 demo_note = elf_magic" "demo_note ! 4 = 2"
    by code_simp+
  have fld: "field 8 demo_note 0x28 = 64" "field 2 demo_note 0x3a = 64" "field 2 demo_note 0x3c = 1"
    "field 4 demo_note (64 + 4) = 7" "field 8 demo_note (64 + 0x18) = 128" "field 8 demo_note (64 + 0x20) = 13"
    by code_simp+
  show "headers_ok demo_note 64 64 1" using pat fld by (simp add: headers_ok_def len)
  show "note_section demo_note (64 + 0 * 64) 128 13" using fld by (simp add: note_section_def len)
  have e: "mp_enc 44 = [44]" by (simp add: mp_enc_def)
  have k8: "length offset_key = 8" by (simp add: offset_key_def)
  have "list_all (\<lambda>j. take 2 (drop j demo_note) \<noteq> [0x61, 0x62]) [128..<139]"
    "list_all (\<lambda>j. take 8 (drop j demo_note) \<noteq> offset_key) [130..<132]" by code_simp+
  then have nk: "\<forall>j \<in> {128..<139}. take 2 (drop j demo_note) \<noteq> [0x61, 0x62]"
    "\<forall>j \<in> {130..<132}. take 8 (drop j demo_note) \<noteq> offset_key"
    by (simp_all only: list_all_iff set_upt)
  have "\<not> at demo_note j [0x61, 0x62]" if "128 \<le> j" "j < 139" for j
    using nk(1) that by (simp add: at_def numeral_2_eq_2)
  moreover have "\<not> at demo_note j offset_key" if "129 < j" "j + 8 \<le> 139" for j
    using nk(2) that by (simp add: at_def k8)
  ultimately show "arg_layout demo_note 128 13 [0x61, 0x62] 44"
    unfolding arg_layout_def using pat
    by (intro exI [of _ 129] exI [of _ 139]) (simp add: at_def e k8 len)
qed (simp_all add: mp_fail_def)

text \<open>The argument list of a kernel in a note, and the number that precedes the hidden ones.\<close>

definition fixstr :: "bytes \<Rightarrow> bytes" where
  "fixstr k = (0xa0 + of_nat (length k)) # k"

definition arg_bytes :: "bytes \<times> bytes \<Rightarrow> bytes" where
  "arg_bytes gk = fst gk @ value_kind_key @ fixstr (snd gk)"

definition args_bytes :: "(bytes \<times> bytes) list \<Rightarrow> bytes" where
  "args_bytes args = concat (map arg_bytes args)"

definition is_hidden :: "bytes \<Rightarrow> bool" where
  "is_hidden k \<longleftrightarrow> take 7 k = hidden_prefix"

text \<open>No key starts inside the bytes between two keys, and a kind is shorter than 32 bytes.\<close>

definition gap_ok :: "bytes \<Rightarrow> bool" where
  "gap_ok g \<longleftrightarrow> (\<forall>i < length g. take 12 (drop i (g @ value_kind_key)) \<noteq> value_kind_key)"

definition tail_ok :: "bytes \<Rightarrow> bool" where
  "tail_ok t \<longleftrightarrow> (\<forall>i. i + 12 \<le> length t \<longrightarrow> take 12 (drop i t) \<noteq> value_kind_key)"

lemma key_len [simp]: "length value_kind_key = 12" by (simp add: value_kind_key_def)

definition region :: "bytes \<Rightarrow> nat \<Rightarrow> nat \<Rightarrow> bytes \<Rightarrow> bool" where
  "region b p ne c \<longleftrightarrow> p \<le> ne \<and> ne \<le> length b \<and> take (ne - p) (drop p b) = c"

lemma region_length: "region b p ne c \<Longrightarrow> ne = p + length c"
  by (auto simp: region_def)

lemma region_drop:
  "region b p ne (x @ y) \<Longrightarrow> region b (p + length x) ne y"
proof -
  assume r: "region b p ne (x @ y)"
  then have l: "ne = p + length x + length y" by (auto dest: region_length)
  have "drop (length x) (take (ne - p) (drop p b)) = y" using r by (simp add: region_def)
  then have "take (ne - p - length x) (drop (p + length x) b) = y"
    by (simp add: drop_take add.commute)
  with r l show ?thesis by (simp add: region_def)
qed

lemma region_at:
  assumes "region b p ne c" "i + length pat \<le> length c"
  shows "at b (p + i) pat \<longleftrightarrow> take (length pat) (drop i c) = pat"
proof -
  have l: "ne = p + length c" "ne \<le> length b" using assms(1) by (auto simp: region_def)
  have c: "c = take (length c) (drop p b)" using assms(1) l(1) by (simp add: region_def)
  have "take (length pat) (drop i c) = take (length pat) (drop i (take (length c) (drop p b)))"
    using c by simp
  also have "\<dots> = take (length pat) (drop (p + i) b)"
    using assms(2) by (simp add: drop_take add.commute)
  finally show ?thesis using l assms(2) by (simp add: at_def)
qed

lemma kind_header_fixstr:
  assumes "region b p ne (fixstr k @ r)" "length k < 32"
  shows "kind_header b p ne = Some (Some (length k, p + 1))"
proof -
  have l: "ne = p + Suc (length k) + length r" "ne \<le> length b"
    using region_length [OF assms(1)] assms(1) by (simp_all add: fixstr_def region_def)
  have "at b (p + 0) [0xa0 + of_nat (length k)]"
    by (subst region_at [OF assms(1)]) (simp_all add: fixstr_def)
  then have "rd 1 b p = Some (unat (0xa0 + of_nat (length k) :: u8))" using rd1_at [of b p _ 0] by simp
  moreover have "unat (0xa0 + of_nat (length k) :: u8) = 160 + length k"
  proof -
    have "(0xa0 + of_nat (length k) :: u8) = of_nat (160 + length k)" by simp
    then show ?thesis using assms(2) by (simp only: unat_byte) simp
  qed
  moreover have "(length k + 5 * 32) mod 32 = length k" using assms(2) by (simp only: mod_mult_self1) simp
  then have "(160 + length k) mod 32 = length k" by (simp add: add.commute)
  ultimately show ?thesis using l assms(2) by (simp add: kind_header_def)
qed

lemma count_scan_skip:
  assumes g: "region b p ne (g @ value_kind_key @ r)" "gap_ok g"
  shows "j \<le> length g \<Longrightarrow> count_scan b ne (p + j) c f = count_scan b ne (p + length g) c f"
proof (induction "length g - j" arbitrary: j)
  case (Suc d)
  then have j: "j < length g" by simp
  have ne: "ne = p + length g + 12 + length r" "ne \<le> length b"
    using region_length [OF g(1)] g(1) by (simp_all add: region_def)
  have "take 12 (drop j (g @ value_kind_key @ r)) = take 12 (drop j (g @ value_kind_key))"
    using j by simp
  then have "\<not> at b (p + j) value_kind_key"
    using g(2) j by (subst region_at [OF g(1)]) (auto simp: gap_ok_def)
  then have "memcmp_at b (p + j) value_kind_key = Some False"
    using ne j by (subst memcmp_at_spec) simp_all
  then have "count_scan b ne (p + j) c f = count_scan b ne (p + Suc j) c f"
    using ne j by (subst count_scan.simps) simp
  also have "\<dots> = count_scan b ne (p + length g) c f" using Suc j by (intro Suc.hyps(1)) simp_all
  finally show ?case .
qed simp

lemma count_scan_tail:
  assumes t: "region b p ne t" "tail_ok t"
  shows "j \<le> length t \<Longrightarrow> count_scan b ne (p + j) c f = Some (Inr (c, f))"
proof (induction "length t - j" arbitrary: j)
  case 0
  then show ?case using region_length [OF t(1)] by (subst count_scan.simps) simp
next
  case (Suc d)
  have ne: "ne = p + length t" "ne \<le> length b" using region_length [OF t(1)] t(1) by (simp_all add: region_def)
  show ?case
  proof (cases "j + 12 \<le> length t")
    case False
    then show ?thesis using ne by (subst count_scan.simps) simp
  next
    case True
    then have "\<not> at b (p + j) value_kind_key"
      using t(2) by (subst region_at [OF t(1)]) (auto simp: tail_ok_def)
    then have "memcmp_at b (p + j) value_kind_key = Some False"
      using ne True by (subst memcmp_at_spec) simp_all
    then have "count_scan b ne (p + j) c f = count_scan b ne (p + Suc j) c f"
      using ne True by (subst count_scan.simps) simp
    also have "\<dots> = Some (Inr (c, f))" using Suc True by (intro Suc.hyps(1)) simp_all
    finally show ?thesis .
  qed
qed

lemma count_scan_arg:
  assumes r: "region b p ne (arg_bytes (g, k) @ rest)" and g: "gap_ok g" and k: "length k < 32"
  shows "count_scan b ne p c f =
    (if is_hidden k then Some (Inl c)
     else count_scan b ne (p + length (arg_bytes (g, k))) (Suc c) True)"
proof -
  have r1: "region b p ne (g @ value_kind_key @ fixstr k @ rest)" using r by (simp add: arg_bytes_def)
  let ?q = "p + length g"
  have r2: "region b ?q ne (value_kind_key @ fixstr k @ rest)" by (rule region_drop [OF r1])
  have r3: "region b (?q + 12) ne (fixstr k @ rest)" using region_drop [OF r2] by simp
  then have r3': "region b (?q + 12) ne ([0xa0 + of_nat (length k)] @ k @ rest)" by (simp add: fixstr_def)
  have r4: "region b (?q + 12 + 1) ne (k @ rest)" using region_drop [OF r3'] by simp
  have ne: "ne = ?q + 12 + 1 + length k + length rest" "ne \<le> length b"
    using region_length [OF r4] r4 by (simp_all add: region_def)
  have m: "memcmp_at b ?q value_kind_key = Some True"
    using ne region_at [OF r2, of 0 value_kind_key] by (subst memcmp_at_spec) simp_all
  have hd: "kind_header b (?q + 12) ne = Some (Some (length k, ?q + 12 + 1))"
    by (rule kind_header_fixstr [OF r3 k])
  have hid: "(if 7 \<le> length k then memcmp_at b (?q + 12 + 1) hidden_prefix else Some False) = Some (is_hidden k)"
  proof (cases "7 \<le> length k")
    case True
    have h7: "length hidden_prefix = 7" by (simp add: hidden_prefix_def)
    have "at b (?q + 12 + 1 + 0) hidden_prefix \<longleftrightarrow> is_hidden k"
      using True h7 by (subst region_at [OF r4]) (simp_all add: is_hidden_def)
    with True ne h7 show ?thesis by (simp add: memcmp_at_spec)
  next
    case False
    then have "length (take 7 k) \<noteq> length hidden_prefix" by (simp add: hidden_prefix_def)
    then have "\<not> is_hidden k" unfolding is_hidden_def by metis
    with False show ?thesis by simp
  qed
  have "count_scan b ne p c f = count_scan b ne ?q c f"
    using count_scan_skip [OF r1 g, of 0] by simp
  also have "\<dots> = (if is_hidden k then Some (Inl c) else count_scan b ne (?q + 12 + 1 + length k) (Suc c) True)"
  proof -
    have "?q + 12 \<le> ne" "\<not> ne < ?q + 12 + 1 + length k" using ne by simp_all
    then show ?thesis
      by (subst count_scan.simps) (cases "is_hidden k"; simp only: m hd hid option.case prod.case if_True if_False not_True_eq_False bool.case simp_thms)
  qed
  also have "?q + 12 + 1 + length k = p + length (arg_bytes (g, k))"
    by (simp add: arg_bytes_def fixstr_def)
  finally show ?thesis .
qed

lemma count_scan_args:
  "region b p ne (args_bytes args @ t) \<Longrightarrow> \<forall>(g, k) \<in> set args. gap_ok g \<and> length k < 32 \<Longrightarrow> tail_ok t \<Longrightarrow>
   count_scan b ne p c f =
     (if \<exists>k \<in> snd ` set args. is_hidden k
      then Some (Inl (c + length (takeWhile (\<lambda>k. \<not> is_hidden k) (map snd args))))
      else Some (Inr (c + length args, f \<or> args \<noteq> [])))"
proof (induction args arbitrary: p c f)
  case Nil
  then show ?case using count_scan_tail [of b p ne t 0] by (simp add: args_bytes_def)
next
  case (Cons gk args)
  obtain g k where gk: "gk = (g, k)" by (cases gk)
  have r: "region b p ne (arg_bytes (g, k) @ args_bytes args @ t)"
    using Cons.prems(1) by (simp add: args_bytes_def gk)
  have r': "region b (p + length (arg_bytes (g, k))) ne (args_bytes args @ t)" by (rule region_drop [OF r])
  have step: "count_scan b ne p c f = (if is_hidden k then Some (Inl c)
     else count_scan b ne (p + length (arg_bytes (g, k))) (Suc c) True)"
    using Cons.prems(2) by (intro count_scan_arg [OF r]) (auto simp: gk)
  show ?case unfolding step using Cons.IH [OF r'] Cons.prems(2,3) by (auto simp: gk)
qed

lemma co_read_explicit_arg_count_ok:
  assumes h: "headers_ok b shoff shentsize shnum" and i: "i < shnum"
    and first: "\<forall>j < i. field 4 b (shoff + j * shentsize + 4) \<noteq> 7"
    and n: "note_section b (shoff + i * shentsize) noff nsz"
    and args: "take nsz (drop noff b) = args_bytes args @ t" "args \<noteq> []" "tail_ok t"
      "\<forall>(g, k) \<in> set args. gap_ok g \<and> length k < 32"
  shows "co_read_explicit_arg_count (Some b) dflt =
    Some (int (length (takeWhile (\<lambda>k. \<not> is_hidden k) (map snd args))))"
proof -
  have ns: "noff + nsz \<le> length b" using n by (simp add: note_section_def)
  have r: "region b noff (noff + nsz) (args_bytes args @ t)" using args(1) ns by (simp add: region_def)
  have l12: "12 \<le> length (arg_bytes gk)" for gk by (simp add: arg_bytes_def)
  have "length (args_bytes args) \<le> nsz" using arg_cong [OF args(1), of length] ns by simp
  moreover obtain gk rest where "args = gk # rest" using args(2) by (cases args) auto
  ultimately have sz: "12 \<le> nsz" using l12 [of gk] by (simp add: args_bytes_def)
  have tw: "length (takeWhile (\<lambda>k. \<not> is_hidden k) (map snd args)) = length args" if "\<not> (\<exists>k \<in> snd ` set args. is_hidden k)"
    using that by (subst takeWhile_eq_all_conv [THEN iffD2]) auto
  have len: "length b < 2 ^ 63" using h by (simp add: headers_ok_def)
  have ad: "add64 noff nsz = noff + nsz" using ns len by (intro add64_less) simp
  have in_b: "shoff + i * shentsize + 64 \<le> length b" by (rule section_in [OF h i])
  have rds: "rd 4 b (shoff + i * shentsize + 4) = Some 7" "rd 8 b (shoff + i * shentsize + 0x18) = Some noff"
    "rd 8 b (shoff + i * shentsize + 0x20) = Some nsz"
    using in_b n by (simp_all add: rd_field note_section_def)
  have "count_section b shoff shentsize shnum i =
      Some (Some (length (takeWhile (\<lambda>k. \<not> is_hidden k) (map snd args))))"
    using count_scan_args [OF r args(4,3), of 0 False] sz ns args(2) tw
    by (auto simp: count_section_def Let_def rds ad)
  moreover have "count_section b shoff shentsize shnum j = Some None" if "j < i" for j
    using section_in [OF h, of j] that i first by (simp add: count_section_def Let_def rd_field)
  ultimately have "sections_from (\<lambda>i. map_option (map_option int) (count_section b shoff shentsize shnum i)) shnum 0 =
      Some (Some (int (length (takeWhile (\<lambda>k. \<not> is_hidden k) (map snd args)))))"
    using i by (intro sections_from_skip [of 0 i]) simp_all
  then show ?thesis
    by (simp add: co_read_explicit_arg_count_def over_sections_def co_sections_ok [OF h] or_default_def)
qed

text \<open>
  On a note that lists a kernel's arguments, \<open>co_read_explicit_arg_count\<close> stays inside
  the file and returns the number of arguments before the first hidden one, or all of them when
  none is hidden.
\<close>

theorem explicit_arg_count:
  assumes h: "headers_ok b shoff shentsize shnum" and i: "i < shnum"
    and first: "\<forall>j < i. field 4 b (shoff + j * shentsize + 4) \<noteq> 7"
    and n: "note_section b (shoff + i * shentsize) noff nsz"
    and args: "take nsz (drop noff b) = args_bytes args @ t" "args \<noteq> []" "tail_ok t"
      "\<forall>(g, k) \<in> set args. gap_ok g \<and> length k < 32"
  shows "co_read_explicit_arg_count (Some b) dflt =
    Some (int (length (takeWhile (\<lambda>k. \<not> is_hidden k) (map snd args))))"
  by (rule co_read_explicit_arg_count_ok [OF assms])

definition demo_args :: "(bytes \<times> bytes) list" where
  "demo_args = [([9], [0x78]), ([8, 8], [0x79, 0x79]), ([], hidden_prefix @ [0x7a])]"

definition demo_arg_file :: bytes where
  "demo_arg_file = elf_magic @ [2] @ replicate 35 0 @ [64, 0, 0, 0, 0, 0, 0, 0] @ replicate 10 0 @ [64, 0, 1, 0, 0, 0] @
     [0, 0, 0, 0, 7, 0, 0, 0] @ replicate 16 0 @ [128, 0, 0, 0, 0, 0, 0, 0] @ [54, 0, 0, 0, 0, 0, 0, 0] @ replicate 24 0 @
     args_bytes demo_args @ [0]"

theorem explicit_arg_count_witness:
  "co_read_explicit_arg_count (Some demo_arg_file) 9 = Some 2"
proof -
  have len: "length demo_arg_file = 182" by code_simp
  have hd: "take 4 demo_arg_file = elf_magic" "demo_arg_file ! 4 = 2" "field 8 demo_arg_file 0x28 = 64"
    "field 2 demo_arg_file 0x3a = 64" "field 2 demo_arg_file 0x3c = 1" "field 4 demo_arg_file (64 + 4) = 7"
    "field 8 demo_arg_file (64 + 0x18) = 128" "field 8 demo_arg_file (64 + 0x20) = 54"
    "take 54 (drop 128 demo_arg_file) = args_bytes demo_args @ [0]" by code_simp+
  have h: "headers_ok demo_arg_file 64 64 1" using hd by (simp add: headers_ok_def len)
  have n: "note_section demo_arg_file (64 + 0 * 64) 128 54" using hd by (simp add: note_section_def len)
  have "gap_ok [9]" "gap_ok []" by (simp_all add: gap_ok_def value_kind_key_def)
  moreover have "gap_ok [8, 8]" unfolding gap_ok_def by (auto simp: value_kind_key_def less_Suc_eq)
  ultimately have g: "\<forall>(g, k) \<in> set demo_args. gap_ok g \<and> length k < 32"
    by (simp add: demo_args_def hidden_prefix_def)
  have t: "tail_ok [0]" by (simp add: tail_ok_def)
  have "demo_args \<noteq> []" by (simp add: demo_args_def)
  from explicit_arg_count [OF h _ _ n hd(9) this t g, of 9] show ?thesis
    by (simp add: demo_args_def is_hidden_def hidden_prefix_def)
qed

text \<open>
  The bounds checks add 64-bit values without guarding against wrap-around: a file whose
  header puts the section table 64 bytes below \<open>2\<^sup>6\<^sup>4\<close> passes the check, and all three readers
  then read outside the buffer instead of returning the default.
\<close>

definition bad_file :: bytes where
  "bad_file = elf_magic @ [2] @ replicate 35 0 @ [0xc0, 0xff, 0xff, 0xff, 0xff, 0xff, 0xff, 0xff] @
     replicate 10 0 @ [64, 0, 1, 0] @ replicate 3 0"

theorem section_check_wraps:
  "co_sections bad_file = Some (Some (2 ^ 64 - 64, 64, 1)) \<and>
   co_read_symbol_u32 (Some bad_file) name dflt = None \<and>
   co_read_kernarg_offset (Some bad_file) kind dflt = None \<and>
   co_read_explicit_arg_count (Some bad_file) n = None"
proof -
  have len: "length bad_file = 65" by code_simp
  have hd: "take 4 bad_file = elf_magic" "bad_file ! 4 = 2"
    "take 8 (drop 0x28 bad_file) = [0xc0, 0xff, 0xff, 0xff, 0xff, 0xff, 0xff, 0xff]"
    "take 2 (drop 0x3a bad_file) = [64, 0]" "take 2 (drop 0x3c bad_file) = [1, 0]" by code_simp+
  have "rd 8 bad_file 0x28 = Some (2 ^ 64 - 64)" "rd 2 bad_file 0x3a = Some 64" "rd 2 bad_file 0x3c = Some 1"
    unfolding rd_def hd(3-5) by (simp_all add: len)
  with hd(1,2) have c: "co_sections bad_file = Some (Some (2 ^ 64 - 64, 64, 1))"
    by (simp add: co_sections_def len add64_def)
  note len
  then have "rd 4 bad_file (2 ^ 64 - 64 + 0 * 64 + 4) = None" by (simp add: rd_def)
  with c show ?thesis
    by (simp add: co_read_symbol_u32_def co_read_kernarg_offset_def co_read_explicit_arg_count_def
        over_sections_def or_default_def sym_section_def offset_section_def count_section_def Let_def)
qed

end
