(* ===== verification/Msgpack.thy ===== *)
theory Msgpack
  imports Prelude "HOL-Library.Sublist"
begin

text \<open>
  The MessagePack reader of \<open>analysis/cfrecovery/structure.C\<close> (lines 35 to 106): values,
  the recursive parser over the bytes between \<open>p\<close> and \<open>end\<close> (a null return is
  \<open>None\<close>, the returned pointer is the list of bytes left), the map lookup and the names of
  the hidden kernel arguments. \<open>long long\<close> results are integers in the signed 64-bit range.
\<close>

section \<open>Values and the parser\<close>

datatype MsgVal = MNil | MBool bool | MInt int | MStr string | MArr "MsgVal list"
  | MMap "(MsgVal \<times> MsgVal) list"

text \<open>Big-endian value of the first \<open>n\<close> bytes, and the casts to signed types.\<close>

fun be_acc :: "nat \<Rightarrow> bytes \<Rightarrow> nat" where
  "be_acc v [] = v"
| "be_acc v (x # xs) = be_acc (v * 256 + unat x) xs"

definition be :: "nat \<Rightarrow> bytes \<Rightarrow> nat" where
  "be n p = be_acc 0 (take n p)"

definition signed :: "nat \<Rightarrow> nat \<Rightarrow> int" where
  "signed bits v = (if v < 2 ^ (bits - 1) then int v else int v - 2 ^ bits)"

definition mp_int :: "nat \<Rightarrow> (nat \<Rightarrow> int) \<Rightarrow> bytes \<Rightarrow> (MsgVal \<times> bytes) option" where
  "mp_int n cast p = (if length p < n then None else Some (MInt (cast (be n p)), drop n p))"

definition chars :: "bytes \<Rightarrow> string" where
  "chars bs = map (\<lambda>b. char_of (unat b)) bs"

definition mp_str :: "nat \<Rightarrow> bytes \<Rightarrow> (MsgVal \<times> bytes) option" where
  "mp_str n p = (if length p < n then None else Some (MStr (chars (take n p)), drop n p))"

definition mp_strn :: "nat \<Rightarrow> bytes \<Rightarrow> (MsgVal \<times> bytes) option" where
  "mp_strn k p = (if length p < k then None else mp_str (be k p) (drop k p))"

text \<open>
  The dispatch on the first byte: a complete value, or an array or map whose \<open>n\<close> elements
  follow (the loops that parse them are the same for the three widths of the length).
\<close>

datatype mp_head = HVal MsgVal | HArr nat | HMap nat

definition head_val :: "(MsgVal \<times> bytes) option \<Rightarrow> (mp_head \<times> bytes) option" where
  "head_val r = map_option (\<lambda>(v, r). (HVal v, r)) r"

definition head_len :: "(nat \<Rightarrow> mp_head) \<Rightarrow> nat \<Rightarrow> bytes \<Rightarrow> (mp_head \<times> bytes) option" where
  "head_len f k p = (if length p < k then None else Some (f (be k p), drop k p))"

fun mp_dispatch :: "bytes \<Rightarrow> (mp_head \<times> bytes) option" where
  "mp_dispatch [] = None"
| "mp_dispatch (b # p) =
     (let c = unat b in
      if c \<le> 0x7f then Some (HVal (MInt (int c)), p)
      else if 0xe0 \<le> c then Some (HVal (MInt (signed 8 c)), p)
      else if b AND 0xe0 = 0xa0 then head_val (mp_str (unat (b AND 0x1f)) p)
      else if b AND 0xf0 = 0x90 then Some (HArr (unat (b AND 0x0f)), p)
      else if b AND 0xf0 = 0x80 then Some (HMap (unat (b AND 0x0f)), p)
      else if c = 0xc0 then Some (HVal MNil, p)
      else if c = 0xc2 then Some (HVal (MBool False), p)
      else if c = 0xc3 then Some (HVal (MBool True), p)
      else if c = 0xcc then head_val (mp_int 1 int p)
      else if c = 0xcd then head_val (mp_int 2 int p)
      else if c = 0xce then head_val (mp_int 4 int p)
      else if c = 0xcf then head_val (mp_int 8 (signed 64) p)
      else if c = 0xd0 then head_val (mp_int 1 (signed 8) p)
      else if c = 0xd1 then head_val (mp_int 2 (signed 16) p)
      else if c = 0xd2 then head_val (mp_int 4 (signed 32) p)
      else if c = 0xd3 then head_val (mp_int 8 (signed 64) p)
      else if c = 0xd9 then head_val (mp_strn 1 p)
      else if c = 0xda then head_val (mp_strn 2 p)
      else if c = 0xdb then head_val (mp_strn 4 p)
      else if c = 0xdc then head_len HArr 2 p
      else if c = 0xdd then head_len HArr 4 p
      else if c = 0xde then head_len HMap 2 p
      else if c = 0xdf then head_len HMap 4 p
      else None)"

lemma mp_dispatch_length: "mp_dispatch p = Some (h, r) \<Longrightarrow> length r < length p"
proof (cases p)
  case (Cons b q)
  assume "mp_dispatch p = Some (h, r)"
  then have "length r \<le> length q" unfolding Cons
    by (auto simp: Let_def head_val_def head_len_def mp_str_def mp_strn_def mp_int_def split: if_splits)
  then show ?thesis by (simp add: Cons)
qed simp

function (sequential) mp_val :: "bytes \<Rightarrow> (MsgVal \<times> bytes) option"
  and mp_arr :: "nat \<Rightarrow> bytes \<Rightarrow> (MsgVal list \<times> bytes) option"
  and mp_map :: "nat \<Rightarrow> bytes \<Rightarrow> ((MsgVal \<times> MsgVal) list \<times> bytes) option" where
  "mp_val p =
     (case mp_dispatch p of None \<Rightarrow> None
      | Some (h, r) \<Rightarrow> (case h of HVal v \<Rightarrow> Some (v, r)
          | HArr n \<Rightarrow> (case mp_arr n r of None \<Rightarrow> None | Some (vs, r') \<Rightarrow> Some (MArr vs, r'))
          | HMap n \<Rightarrow> (case mp_map n r of None \<Rightarrow> None | Some (kvs, r') \<Rightarrow> Some (MMap kvs, r'))))"
| "mp_arr 0 p = Some ([], p)"
| "mp_arr (Suc n) p =
     (case mp_val p of None \<Rightarrow> None
      | Some (v, r) \<Rightarrow> (case mp_arr n r of None \<Rightarrow> None | Some (vs, r') \<Rightarrow> Some (v # vs, r')))"
| "mp_map 0 p = Some ([], p)"
| "mp_map (Suc n) p =
     (case mp_val p of None \<Rightarrow> None
      | Some (k, r) \<Rightarrow> (case mp_val r of None \<Rightarrow> None
        | Some (v, r2) \<Rightarrow> (case mp_map n r2 of None \<Rightarrow> None | Some (kvs, r') \<Rightarrow> Some ((k, v) # kvs, r'))))"
  by pat_completeness auto

lemma mp_dom_length:
  "mp_val_mp_arr_mp_map_dom (Inl p) \<Longrightarrow> mp_val p = Some (v, r) \<Longrightarrow> length r < length p"
  "mp_val_mp_arr_mp_map_dom (Inr (Inl (n, p))) \<Longrightarrow> mp_arr n p = Some (vs, r) \<Longrightarrow> length r \<le> length p"
  "mp_val_mp_arr_mp_map_dom (Inr (Inr (n, p))) \<Longrightarrow> mp_map n p = Some (kvs, r) \<Longrightarrow> length r \<le> length p"
proof (induction p and n p and n p arbitrary: v r and vs r and kvs r rule: mp_val_mp_arr_mp_map.pinduct)
  case (1 p)
  from 1(4) obtain h q where h: "mp_dispatch p = Some (h, q)"
    by (auto simp: mp_val.psimps [OF 1(1)] split: option.splits)
  then have "length q < length p" by (rule mp_dispatch_length)
  with h 1(2-4) show ?case
    by (cases h) (fastforce simp: mp_val.psimps [OF 1(1)] split: option.splits)+
next
  case (3 n p)
  from 3(4) show ?case using 3(2,3)
    by (fastforce simp: mp_arr.psimps(2) [OF 3(1)] split: option.splits)
next
  case (5 n p)
  from 5(5) show ?case using 5(2-4)
    by (fastforce simp: mp_map.psimps(2) [OF 5(1)] split: option.splits)
qed (auto simp: mp_arr.psimps mp_map.psimps)

lemma mp_dom_two:
  "mp_val p = Some (k, r) \<Longrightarrow> mp_val r = Some (v, r2) \<Longrightarrow> mp_val_mp_arr_mp_map_dom (Inl p)
    \<Longrightarrow> mp_val_mp_arr_mp_map_dom (Inl r) \<Longrightarrow> length r2 < length p"
  by (rule less_trans [OF mp_dom_length(1) mp_dom_length(1)])

lemma mp_dom_all: "All mp_val_mp_arr_mp_map_dom"
proof (relation "measures [\<lambda>x. case x of Inl p \<Rightarrow> length p | Inr (Inl (n, p)) \<Rightarrow> length p | Inr (Inr (n, p)) \<Rightarrow> length p,
    \<lambda>x. case x of Inl p \<Rightarrow> 0 | Inr (Inl (n, p)) \<Rightarrow> Suc n | Inr (Inr (n, p)) \<Rightarrow> Suc n]")
qed (auto dest: mp_dispatch_length mp_dom_length intro: mp_dom_two)

termination mp_val
  by (rule mp_dom_all)

declare mp_val.simps [simp del]

definition mpParse :: "bytes \<Rightarrow> (MsgVal \<times> bytes) option" where
  "mpParse p = mp_val p"

lemma mp_val_length:
  "mp_val p = Some (v, r) \<Longrightarrow> length r < length p"
  "mp_arr n p = Some (vs, r) \<Longrightarrow> length r \<le> length p"
  "mp_map n p = Some (kvs, r) \<Longrightarrow> length r \<le> length p"
  using mp_dom_length mp_dom_all by blast+

section \<open>Lookup and the names of the hidden arguments\<close>

fun mpGet_list :: "(MsgVal \<times> MsgVal) list \<Rightarrow> string \<Rightarrow> MsgVal option" where
  "mpGet_list [] key = None"
| "mpGet_list ((k, v) # kvs) key = (if k = MStr key then Some v else mpGet_list kvs key)"

fun mpGet :: "MsgVal \<Rightarrow> string \<Rightarrow> MsgVal option" where
  "mpGet (MMap kvs) key = mpGet_list kvs key"
| "mpGet _ key = None"

definition hidden_dim :: "string \<Rightarrow> string \<Rightarrow> string" where
  "hidden_dim vk base =
     (if 2 \<le> length vk \<and> vk ! (length vk - 2) = CHR ''_'' then
        (let c = last vk in if c = CHR ''x'' \<or> c = CHR ''y'' \<or> c = CHR ''z'' then base @ ''.'' @ [c] else base)
      else base)"

definition prettyHidden :: "string \<Rightarrow> string" where
  "prettyHidden vk =
     (if starts_with ''hidden_group_size'' vk then hidden_dim vk ''blockDim''
      else if starts_with ''hidden_block_count'' vk then hidden_dim vk ''gridDim''
      else if starts_with ''hidden_remainder'' vk then hidden_dim vk ''remainder''
      else if starts_with ''hidden_global_offset'' vk then hidden_dim vk ''globalOffset''
      else if starts_with ''hidden_'' vk then drop 7 vk
      else '''')"

section \<open>The encoder of the format\<close>

text \<open>
  The MessagePack encoding with the shortest header of each kind: the specification the parser
  is compared with.
\<close>

fun be_bytes :: "nat \<Rightarrow> nat \<Rightarrow> bytes" where
  "be_bytes 0 v = []"
| "be_bytes (Suc n) v = be_bytes n (v div 256) @ [of_nat (v mod 256)]"

definition enc_nat :: "nat \<Rightarrow> bytes" where
  "enc_nat n =
     (if n < 128 then [of_nat n] else if n < 256 then 0xcc # be_bytes 1 n
      else if n < 2 ^ 16 then 0xcd # be_bytes 2 n else if n < 2 ^ 32 then 0xce # be_bytes 4 n
      else 0xcf # be_bytes 8 n)"

definition enc_neg :: "int \<Rightarrow> bytes" where
  "enc_neg i =
     (if - 32 \<le> i then [of_nat (nat (i + 256))]
      else if - 128 \<le> i then 0xd0 # be_bytes 1 (nat (i + 2 ^ 8))
      else if - 32768 \<le> i then 0xd1 # be_bytes 2 (nat (i + 2 ^ 16))
      else if - 2147483648 \<le> i then 0xd2 # be_bytes 4 (nat (i + 2 ^ 32))
      else 0xd3 # be_bytes 8 (nat (i + 2 ^ 64)))"

definition enc_int :: "int \<Rightarrow> bytes" where
  "enc_int i = (if 0 \<le> i then enc_nat (nat i) else enc_neg i)"

definition unchars :: "string \<Rightarrow> bytes" where
  "unchars s = map (\<lambda>c. of_nat (of_char c)) s"

definition enc_str :: "string \<Rightarrow> bytes" where
  "enc_str s = (let n = length s in
     (if n < 32 then of_nat (160 + n) # unchars s else if n < 256 then 0xd9 # be_bytes 1 n @ unchars s
      else if n < 2 ^ 16 then 0xda # be_bytes 2 n @ unchars s else 0xdb # be_bytes 4 n @ unchars s))"

definition enc_head :: "nat \<Rightarrow> u8 \<Rightarrow> u8 \<Rightarrow> nat \<Rightarrow> bytes" where
  "enc_head fixed t16 t32 n =
     (if n < 16 then [of_nat (fixed + n)] else if n < 2 ^ 16 then t16 # be_bytes 2 n else t32 # be_bytes 4 n)"

fun enc :: "MsgVal \<Rightarrow> bytes" where
  "enc MNil = [0xc0]"
| "enc (MBool b) = [if b then 0xc3 else 0xc2]"
| "enc (MInt i) = enc_int i"
| "enc (MStr s) = enc_str s"
| "enc (MArr vs) = enc_head 144 0xdc 0xdd (length vs) @ concat (map enc vs)"
| "enc (MMap kvs) = enc_head 128 0xde 0xdf (length kvs) @ concat (map (\<lambda>(k, v). enc k @ enc v) kvs)"

text \<open>The values the format can hold.\<close>

fun mp_fits :: "MsgVal \<Rightarrow> bool" where
  "mp_fits MNil = True"
| "mp_fits (MBool b) = True"
| "mp_fits (MInt i) = (- (2 ^ 63) \<le> i \<and> i < 2 ^ 63)"
| "mp_fits (MStr s) = (length s < 2 ^ 32)"
| "mp_fits (MArr vs) = (length vs < 2 ^ 32 \<and> (\<forall>v \<in> set vs. mp_fits v))"
| "mp_fits (MMap kvs) = (length kvs < 2 ^ 32 \<and> (\<forall>(k, v) \<in> set kvs. mp_fits k \<and> mp_fits v))"

section \<open>The parser inverts the encoder\<close>

lemma be_acc_append: "be_acc a (xs @ ys) = be_acc (be_acc a xs) ys"
  by (induction xs arbitrary: a) auto

lemma length_be_bytes [simp]: "length (be_bytes n v) = n"
  by (induction n arbitrary: v) auto

lemma be_acc_bytes: "v < 256 ^ n \<Longrightarrow> be_acc a (be_bytes n v) = a * 256 ^ n + v"
proof (induction n arbitrary: v)
  case (Suc n)
  from Suc.prems have "v div 256 < 256 ^ n" by (simp add: div_less_iff_less_mult mult.commute)
  moreover have "unat (of_nat (v mod 256) :: u8) = v mod 256"
    by (simp add: unat_of_nat take_bit_eq_mod)
  ultimately show ?case by (simp add: Suc.IH be_acc_append algebra_simps)
qed simp

lemma be_bytes_read: "v < 256 ^ n \<Longrightarrow> be n (be_bytes n v @ r) = v"
  by (simp add: be_def be_acc_bytes)

lemma mp_int_enc: "v < 256 ^ n \<Longrightarrow> mp_int n cast (be_bytes n v @ r) = Some (MInt (cast v), r)"
  by (simp add: mp_int_def be_bytes_read)

lemma head_len_enc: "v < 256 ^ n \<Longrightarrow> head_len f n (be_bytes n v @ r) = Some (f v, r)"
  by (simp add: head_len_def be_bytes_read)

lemma length_unchars [simp]: "length (unchars s) = length s"
  by (simp add: unchars_def)

lemma chars_unchars [simp]: "chars (unchars s) = s"
proof (induction s)
  case (Cons c s)
  have "unat (of_nat (of_char c) :: u8) = of_char c"
    by (simp add: unat_of_nat take_bit_eq_mod)
  with Cons show ?case by (simp add: chars_def unchars_def)
qed (simp add: chars_def unchars_def)

lemma mp_str_enc: "mp_str (length s) (unchars s @ r) = Some (MStr s, r)"
  by (simp add: mp_str_def)

lemma mp_strn_enc:
  "length s < 256 ^ k \<Longrightarrow> mp_strn k (be_bytes k (length s) @ unchars s @ r) = Some (MStr s, r)"
  by (simp add: mp_strn_def be_bytes_read mp_str_enc)

lemma dispatch_nat:
  "n < 2 ^ 63 \<Longrightarrow> mp_dispatch (enc_nat n @ r) = Some (HVal (MInt (int n)), r)"
  by (auto simp: enc_nat_def Let_def head_val_def mp_int_enc signed_def unat_of_nat_u8 simp del: be_bytes.simps)

lemma nat_neg_bound: "- (2 ^ k) \<le> i \<Longrightarrow> i < 0 \<Longrightarrow> nat (i + 2 ^ k) < 2 ^ k"
  by (simp add: nat_less_iff)

lemma signed_neg:
  assumes "- (2 ^ k) \<le> i" "i < 0"
  shows "signed (Suc k) (nat (i + 2 ^ Suc k)) = i"
proof -
  have "(2::int) ^ k \<le> i + 2 ^ Suc k" using assms(1) by simp
  then have "\<not> nat (i + 2 ^ Suc k) < 2 ^ k" by (simp add: nat_less_iff)
  moreover have "0 \<le> i + 2 ^ Suc k" using \<open>2 ^ k \<le> i + 2 ^ Suc k\<close> zero_le_power [of "2::int" k] by linarith
  ultimately show ?thesis by (simp add: signed_def)
qed

lemma mp_int_neg:
  assumes "- (2 ^ k) \<le> i" "i < 0" "256 ^ n = (2::nat) ^ Suc k"
  shows "mp_int n (signed (Suc k)) (be_bytes n (nat (i + 2 ^ Suc k)) @ r) = Some (MInt i, r)"
proof -
  have "- (2 ^ Suc k) \<le> i" using assms(1) by (rule order_trans [rotated]) simp
  then have "nat (i + 2 ^ Suc k) < 256 ^ n" using assms(2,3) nat_neg_bound [of "Suc k" i] by simp
  then show ?thesis using signed_neg [OF assms(1,2)] by (simp add: mp_int_enc)
qed

lemma mp_int_neg_byte:
  "- 128 \<le> i \<Longrightarrow> i < 0 \<Longrightarrow> mp_int (Suc 0) (signed 8) (be_bytes (Suc 0) (nat (i + 256)) @ r) = Some (MInt i, r)"
  using mp_int_neg [of 7 i "Suc 0" r] by (simp del: be_bytes.simps)

lemmas mp_int_negs = mp_int_neg_byte mp_int_neg [where k = 15 and n = 2, simplified]
  mp_int_neg [where k = 31 and n = 4, simplified] mp_int_neg [where k = 63 and n = 8, simplified]

lemma dispatch_neg:
  assumes "- (2 ^ 63) \<le> i" "i < 0"
  shows "mp_dispatch (enc_neg i @ r) = Some (HVal (MInt i), r)"
proof (cases "- 32 \<le> i")
  case True
  have n: "unat (of_nat (nat (i + 256)) :: u8) = nat (i + 256)"
    using True assms by (intro unat_of_nat_u8) (simp add: nat_less_iff)
  have s: "signed 8 (nat (i + 256)) = i" using signed_neg [of 7 i] True assms by simp
  have big: "224 \<le> nat (i + 256)" using True by simp
  show ?thesis using True by (simp only: enc_neg_def if_True append.simps mp_dispatch.simps Let_def n s)
      (use big in simp)
next
  case False
  then show ?thesis using assms
    by (simp add: enc_neg_def Let_def head_val_def mp_int_negs del: be_bytes.simps)
qed

lemma small_heads:
  "n < 32 \<Longrightarrow> mp_dispatch (of_nat (160 + n) # p) = head_val (mp_str n p)"
  "n < 16 \<Longrightarrow> mp_dispatch (of_nat (144 + n) # p) = Some (HArr n, p)"
  "n < 16 \<Longrightarrow> mp_dispatch (of_nat (128 + n) # p) = Some (HMap n, p)"
proof -
  have a: "\<forall>n \<in> set [0..<32]. (of_nat (160 + n) AND 0xe0 :: u8) = 0xa0 \<and> unat (of_nat (160 + n) AND 0x1f :: u8) = n"
    by (simp add: upt_conv_Cons)
  have b: "\<forall>n \<in> set [0..<16]. (of_nat (144 + n) AND 0xf0 :: u8) = 0x90 \<and> unat (of_nat (144 + n) AND 0x0f :: u8) = n
      \<and> (of_nat (144 + n) AND 0xe0 :: u8) \<noteq> 0xa0"
    by (simp add: upt_conv_Cons)
  have c: "\<forall>n \<in> set [0..<16]. (of_nat (128 + n) AND 0xf0 :: u8) = 0x80 \<and> unat (of_nat (128 + n) AND 0x0f :: u8) = n
      \<and> (of_nat (128 + n) AND 0xe0 :: u8) \<noteq> 0xa0"
    by (simp add: upt_conv_Cons)
  show "n < 32 \<Longrightarrow> mp_dispatch (of_nat (160 + n) # p) = head_val (mp_str n p)"
    using a by (simp add: Let_def unat_of_nat_u8 del: of_nat_add)
  show "n < 16 \<Longrightarrow> mp_dispatch (of_nat (144 + n) # p) = Some (HArr n, p)"
    using b by (simp add: Let_def unat_of_nat_u8 del: of_nat_add)
  show "n < 16 \<Longrightarrow> mp_dispatch (of_nat (128 + n) # p) = Some (HMap n, p)"
    using c by (simp add: Let_def unat_of_nat_u8 del: of_nat_add)
qed

lemma dispatch_int: "- (2 ^ 63) \<le> i \<Longrightarrow> i < 2 ^ 63 \<Longrightarrow> mp_dispatch (enc_int i @ r) = Some (HVal (MInt i), r)"
  using dispatch_nat [of "nat i" r] dispatch_neg [of i r] by (simp add: enc_int_def nat_less_iff)

lemma dispatch_str: "length s < 2 ^ 32 \<Longrightarrow> mp_dispatch (enc_str s @ r) = Some (HVal (MStr s), r)"
proof -
  assume len: "length s < 2 ^ 32"
  show ?thesis
  proof (cases "length s < 32")
    case True
    then show ?thesis
      by (simp only: enc_str_def Let_def if_True append.simps small_heads(1) mp_str_enc head_val_def option.map prod.case)
  next
    case False
    then show ?thesis using len mp_strn_enc [of s 1 r]
      by (simp add: enc_str_def Let_def head_val_def mp_strn_enc del: be_bytes.simps)
  qed
qed

lemma dispatch_arr: "n < 2 ^ 32 \<Longrightarrow> mp_dispatch (enc_head 144 0xdc 0xdd n @ r) = Some (HArr n, r)"
  by (cases "n < 16") (simp_all add: enc_head_def small_heads(2) Let_def head_len_enc del: be_bytes.simps mp_dispatch.simps(2) of_nat_add,
    auto simp add: Let_def head_len_enc simp del: be_bytes.simps)

lemma dispatch_map: "n < 2 ^ 32 \<Longrightarrow> mp_dispatch (enc_head 128 0xde 0xdf n @ r) = Some (HMap n, r)"
  by (cases "n < 16") (simp_all add: enc_head_def small_heads(3) Let_def head_len_enc del: be_bytes.simps mp_dispatch.simps(2) of_nat_add,
    auto simp add: Let_def head_len_enc simp del: be_bytes.simps)

text \<open>Parsing the elements one after the other undoes the concatenation of their encodings.\<close>

lemma mp_arr_enc:
  assumes "\<And>v r. v \<in> set vs \<Longrightarrow> mp_val (enc v @ r) = Some (v, r)"
  shows "mp_arr (length vs) (concat (map enc vs) @ r) = Some (vs, r)"
  using assms by (induction vs) simp_all

lemma mp_map_enc:
  assumes "\<And>k v r. (k, v) \<in> set kvs \<Longrightarrow> mp_val (enc k @ r) = Some (k, r) \<and> mp_val (enc v @ r) = Some (v, r)"
  shows "mp_map (length kvs) (concat (map (\<lambda>(k, v). enc k @ enc v) kvs) @ r) = Some (kvs, r)"
  using assms
proof (induction kvs)
  case (Cons kv kvs)
  obtain k v where kv: "kv = (k, v)" by (cases kv)
  have "mp_val (enc k @ q) = Some (k, q) \<and> mp_val (enc v @ q) = Some (v, q)" for q
    using Cons.prems [of k v q] kv by simp
  moreover have "mp_map (length kvs) (concat (map (\<lambda>(k, v). enc k @ enc v) kvs) @ r) = Some (kvs, r)"
    by (rule Cons.IH, rule Cons.prems) simp
  ultimately show ?case by (simp add: kv)
qed simp

lemma mp_val_enc: "mp_fits v \<Longrightarrow> mp_val (enc v @ r) = Some (v, r)"
proof (induction v arbitrary: r)
  case (MArr vs)
  then have "mp_arr (length vs) (concat (map enc vs) @ r) = Some (vs, r)" by (intro mp_arr_enc) auto
  with MArr.prems show ?case by (subst mp_val.simps) (simp add: dispatch_arr)
next
  case (MMap kvs)
  then have "mp_map (length kvs) (concat (map (\<lambda>(k, v). enc k @ enc v) kvs) @ r) = Some (kvs, r)"
    by (intro mp_map_enc) (fastforce simp: prod_set_defs)
  with MMap.prems show ?case by (subst mp_val.simps) (simp add: dispatch_map)
qed (subst mp_val.simps, simp add: dispatch_int dispatch_str head_val_def Let_def)+

section \<open>What is left is a proper suffix of the input\<close>

lemma suffix_drop: "suffix (drop n p) p"
  by (metis append_take_drop_id suffix_def)

lemma mp_dispatch_suffix: "mp_dispatch p = Some (h, r) \<Longrightarrow> strict_suffix r p"
proof (cases p)
  case (Cons b q)
  assume "mp_dispatch p = Some (h, r)"
  then have "suffix r q" unfolding Cons
    by (auto simp: Let_def head_val_def head_len_def mp_str_def mp_strn_def mp_int_def suffix_drop split: if_splits)
  then show ?thesis by (auto simp: Cons strict_suffix_def suffix_Cons dest: suffix_length_le)
qed simp

lemma mp_suffix:
  "mp_val p = Some (v, r) \<Longrightarrow> strict_suffix r p"
  "mp_arr n p = Some (vs, r) \<Longrightarrow> suffix r p"
  "mp_map n p = Some (kvs, r) \<Longrightarrow> suffix r p"
proof (induction p and n p and n p arbitrary: v r and vs r and kvs r rule: mp_val_mp_arr_mp_map.induct)
  case (1 p)
  from 1(3) obtain h q where h: "mp_dispatch p = Some (h, q)"
    by (auto simp: mp_val.simps [of p] split: option.splits)
  then have s: "strict_suffix q p" by (rule mp_dispatch_suffix)
  from 1 h have "suffix r q"
    by (cases h) (auto simp: mp_val.simps [of p] split: option.splits)
  with s show ?case by (rule suffix_order.le_less_trans [rotated])
next
  case (3 n p)
  then show ?case
    by (fastforce split: option.splits intro: suffix_order.order_trans suffix_order.less_imp_le)
next
  case (5 n p)
  from 5(4) obtain k q1 w q2 ws where "mp_val p = Some (k, q1)" "mp_val q1 = Some (w, q2)" "mp_map n q2 = Some (ws, r)"
    by (auto split: option.splits)
  then have "suffix r q2" "suffix q2 q1" "suffix q1 p" using 5(1-3) by (auto intro: suffix_order.less_imp_le)
  then show ?case by (blast intro: suffix_order.order_trans)
qed auto

section \<open>Properties\<close>

text \<open>
  C15: the parser inverts the MessagePack encoding, whatever follows it, and what it leaves of
  any input is a proper suffix of it: the returned pointer stays between \<open>p\<close> and \<open>end\<close>.
\<close>
theorem msgpack_roundtrip:
  assumes "mp_fits v"
  shows "mpParse (enc v @ r) = Some (v, r)
    \<and> (\<forall>p w q. mpParse p = Some (w, q) \<longrightarrow> strict_suffix q p)"
  using assms by (simp add: mpParse_def mp_val_enc mp_suffix(1))

lemma msgpack_roundtrip_witness:
  "mpParse (enc (MMap [(MStr ''.offset'', MInt 40), (MStr ''.args'', MArr [MBool True, MInt (- 200), MNil])]) @ [7])
    = Some (MMap [(MStr ''.offset'', MInt 40), (MStr ''.args'', MArr [MBool True, MInt (- 200), MNil])], [7])"
  using msgpack_roundtrip [of "MMap [(MStr ''.offset'', MInt 40), (MStr ''.args'', MArr [MBool True, MInt (- 200), MNil])]"]
  by simp

end
