(* ===== verification/Loader_Config.thy ===== *)
theory Loader_Config
  imports Co_Elf Msgpack
begin

text \<open>
  The configuration of the loader hooks (\<open>hostcall_hooks.h\<close>, lines 76 to 147): files read whole,
  the table of substitutions from the environment or a manifest, and the reader of clang
  offload bundles. The process environment and the file system are parameters: a variable is
  set or not, a file has the size \<open>ftell\<close> reports and the bytes \<open>fread\<close> delivers. A read outside
  the bundle's memory is undefined behaviour and gives \<open>None\<close>.
\<close>

section \<open>Files and configuration\<close>

record File =
  file_size :: nat
  file_data :: bytes

type_synonym files = "string \<Rightarrow> File option"
type_synonym environ = "string \<Rightarrow> string option"

definition slurp :: "files \<Rightarrow> string \<Rightarrow> bytes \<Rightarrow> bool \<times> bytes" where
  "slurp fs path out =
     (case fs path of None \<Rightarrow> (False, out)
      | Some f \<Rightarrow>
          (let n = file_size f; got = take n (file_data f)
           in (length got = n, got @ replicate (n - length got) 0)))"

record Sub =
  sub_orig :: bytes
  sub_inst :: bytes
  sub_bundle :: bytes
  sub_tag :: string

definition add_sub :: "files \<Rightarrow> string \<Rightarrow> string \<Rightarrow> string \<Rightarrow> Sub list \<Rightarrow> Sub list" where
  "add_sub fs orig inst bundle subs =
     (case (slurp fs orig [], slurp fs inst [], slurp fs bundle []) of
        ((True, x), (True, y), (True, z)) \<Rightarrow> subs @ [\<lparr>sub_orig = x, sub_inst = y, sub_bundle = z, sub_tag = orig\<rparr>]
      | _ \<Rightarrow> subs)"

text \<open>\<open>%1023s\<close>: white space, then at most 1023 other characters, at least one.\<close>

definition isspace :: "char \<Rightarrow> bool" where
  "isspace c = (c \<in> {CHR 0x20, CHR 0x09, CHR 0x0A, CHR 0x0B, CHR 0x0C, CHR 0x0D})"

definition scan_token :: "string \<Rightarrow> (string \<times> string) option" where
  "scan_token s =
     (let t = dropWhile isspace s; w = take 1023 (takeWhile (\<lambda>c. \<not> isspace c) t)
      in if w = [] then None else Some (w, drop (length w) t))"

lemma scan_token_shorter: "scan_token s = Some (w, r) \<Longrightarrow> length r < length s"
proof -
  assume a: "scan_token s = Some (w, r)"
  let ?t = "dropWhile isspace s"
  have w: "w = take 1023 (takeWhile (\<lambda>c. \<not> isspace c) ?t)" "w \<noteq> []" "r = drop (length w) ?t"
    using a by (auto simp: scan_token_def Let_def split: if_splits)
  have "length w \<le> length ?t" unfolding w(1) using length_takeWhile_le [of "\<lambda>c. \<not> isspace c" ?t] by simp
  moreover have "length ?t \<le> length s" by (rule length_dropWhile_le)
  ultimately show ?thesis using w(2,3) by (cases w) auto
qed

function manifest_lines :: "string \<Rightarrow> (string \<times> string \<times> string) list" where
  "manifest_lines s =
     (case scan_token s of None \<Rightarrow> []
      | Some (a, s1) \<Rightarrow> (case scan_token s1 of None \<Rightarrow> []
          | Some (b, s2) \<Rightarrow> (case scan_token s2 of None \<Rightarrow> []
              | Some (c, s3) \<Rightarrow> (cstr a, cstr b, cstr c) # manifest_lines s3)))"
  by pat_completeness auto
termination
  by (relation "measure length") (auto dest!: scan_token_shorter)

declare manifest_lines.simps [simp del]

record Config =
  cfg_lib :: bytes
  cfg_subs :: "Sub list"
  cfg_ok :: bool

definition load_config :: "environ \<Rightarrow> files \<Rightarrow> Config" where
  "load_config env fs =
     (case env ''HOSTCALL_LIB'' of None \<Rightarrow> \<lparr>cfg_lib = [], cfg_subs = [], cfg_ok = False\<rparr>
      | Some lib \<Rightarrow>
          (let (ok, co) = slurp fs lib [] in
           if \<not> ok then \<lparr>cfg_lib = co, cfg_subs = [], cfg_ok = False\<rparr>
           else (case env ''HOSTCALL_MANIFEST'' of
               Some mf \<Rightarrow> (case fs mf of None \<Rightarrow> \<lparr>cfg_lib = co, cfg_subs = [], cfg_ok = False\<rparr>
                 | Some f \<Rightarrow>
                     (let subs = fold (\<lambda>(a, b, c). add_sub fs a b c) (manifest_lines (chars (file_data f))) []
                      in \<lparr>cfg_lib = co, cfg_subs = subs, cfg_ok = (subs \<noteq> [])\<rparr>))
             | None \<Rightarrow>
                 (case (env ''HOSTCALL_ORIG_CO'', env ''HOSTCALL_INST_CO'', env ''HOSTCALL_BUNDLE'') of
                    (Some a, Some b, Some c) \<Rightarrow>
                      (let subs = add_sub fs a b c []
                       in \<lparr>cfg_lib = co, cfg_subs = subs, cfg_ok = (subs \<noteq> [])\<rparr>)
                  | _ \<Rightarrow> \<lparr>cfg_lib = co, cfg_subs = [], cfg_ok = False\<rparr>))))"

section \<open>Offload bundles\<close>

definition bundle_magic :: bytes where
  "bundle_magic = map (\<lambda>c. of_nat (of_char c)) ''__CLANG_OFFLOAD_BUNDLE__''"

definition amdgcn :: bytes where
  "amdgcn = map (\<lambda>c. of_nat (of_char c)) ''amdgcn''"

definition memmem_at :: "bytes \<Rightarrow> nat \<Rightarrow> nat \<Rightarrow> bytes \<Rightarrow> bool option" where
  "memmem_at p off n pat = (if off + n \<le> length p then Some (contains_sub pat (take n (drop off p))) else None)"

text \<open>The entry table: the last device entry (offset, size) so far and the bundle's extent.\<close>

fun bundle_entries :: "nat \<Rightarrow> bytes \<Rightarrow> nat \<Rightarrow> (nat \<times> nat) option \<Rightarrow> nat \<Rightarrow> ((nat \<times> nat) option \<times> nat) option" where
  "bundle_entries 0 p e co ext = Some (co, ext)"
| "bundle_entries (Suc n) p e co ext = do {
     off \<leftarrow> rd 8 p e;
     sz \<leftarrow> rd 8 p (e + 8);
     tl \<leftarrow> rd 8 p (e + 16);
     dev \<leftarrow> (if 6 \<le> tl then memmem_at p (e + 24) tl amdgcn else Some False);
     bundle_entries n p (e + 24 + tl) (if dev then Some (off, sz) else co)
       (if add64 off sz > ext then add64 off sz else ext) }"

definition bundle_device_co :: "bytes \<Rightarrow> (nat \<times> nat \<times> nat) option option" where
  "bundle_device_co p = do {
     eq \<leftarrow> memcmp_at p 0 bundle_magic;
     if \<not> eq then Some None
     else do {
       n \<leftarrow> rd 8 p 24;
       (co, ext) \<leftarrow> bundle_entries n p 32 None 0;
       Some (case co of None \<Rightarrow> None | Some (off, sz) \<Rightarrow> Some (off, sz, ext)) } }"

text \<open>The first substitution whose original is the device code object.\<close>

fun match_orig :: "bytes \<Rightarrow> nat \<Rightarrow> nat \<Rightarrow> Sub list \<Rightarrow> Sub option option" where
  "match_orig p off sz [] = Some None"
| "match_orig p off sz (s # ss) =
     (if sz = length (sub_orig s) then do {
        eq \<leftarrow> memcmp_at p off (sub_orig s);
        if eq then Some (Some s) else match_orig p off sz ss }
      else match_orig p off sz ss)"

section \<open>The layout of a bundle\<close>

text \<open>
  A bundle as the offload bundler writes it: the entry table (offset, size, target triple) and
  the code objects wherever the table puts them.
\<close>

definition entry_bytes :: "nat \<times> nat \<times> bytes \<Rightarrow> bytes" where
  "entry_bytes = (\<lambda>(off, sz, triple). le_bytes 8 off @ le_bytes 8 sz @ le_bytes 8 (length triple) @ triple)"

definition bundle_ok :: "bytes \<Rightarrow> (nat \<times> nat \<times> bytes) list \<Rightarrow> bool" where
  "bundle_ok p es \<longleftrightarrow>
     starts_with (bundle_magic @ le_bytes 8 (length es) @ concat (map entry_bytes es)) p \<and> length p < 2 ^ 64 \<and>
     (\<forall>(off, sz, triple) \<in> set es. off + sz \<le> length p)"

definition is_device :: "nat \<times> nat \<times> bytes \<Rightarrow> bool" where
  "is_device = (\<lambda>(off, sz, triple). contains_sub amdgcn triple)"

definition device_of :: "(nat \<times> nat \<times> bytes) list \<Rightarrow> (nat \<times> nat) option" where
  "device_of es = (case filter is_device es of [] \<Rightarrow> None
     | ds \<Rightarrow> (case last ds of (off, sz, triple) \<Rightarrow> Some (off, sz)))"

definition extent :: "(nat \<times> nat \<times> bytes) list \<Rightarrow> nat" where
  "extent es = fold (\<lambda>(off, sz, triple) t. max t (off + sz)) es 0"

lemma contains_sub_length: "contains_sub p s \<Longrightarrow> length p \<le> length s"
  by (auto simp: contains_sub_iff)

lemma length_amdgcn [simp]: "length amdgcn = 6"
  by (simp add: amdgcn_def)

lemma length_bundle_magic [simp]: "length bundle_magic = 24"
  by (simp add: bundle_magic_def)

lemma rd_le_bytes:
  "length a = off \<Longrightarrow> v < 256 ^ n \<Longrightarrow> rd n (a @ le_bytes n v @ c) off = Some v"
  by (simp add: rd_def le_val_bytes)


definition pick :: "(nat \<times> nat) option \<Rightarrow> nat \<times> nat \<times> bytes \<Rightarrow> (nat \<times> nat) option" where
  "pick co e = (if is_device e then Some (fst e, fst (snd e)) else co)"

lemma bundle_entry_step:
  assumes "p = pre @ entry_bytes (off, sz, triple) @ rest" "off + sz \<le> length p" "length p < 2 ^ 64"
  shows "bundle_entries (Suc n) p (length pre) co t =
    bundle_entries n p (length pre + 24 + length triple) (pick co (off, sz, triple)) (max t (off + sz))"
proof -
  have bound: "off < 256 ^ 8" "sz < 256 ^ 8" "length triple < 256 ^ 8" using assms by (simp_all add: entry_bytes_def)
  have r0: "rd 8 p (length pre) = Some off"
    using rd_le_bytes [OF refl bound(1), of pre] by (simp add: assms(1) entry_bytes_def)
  have r1: "rd 8 p (length pre + 8) = Some sz"
    using rd_le_bytes [of "pre @ le_bytes 8 off" "length pre + 8", OF _ bound(2)] by (simp add: assms(1) entry_bytes_def)
  have r2: "rd 8 p (length pre + 16) = Some (length triple)"
    using rd_le_bytes [of "pre @ le_bytes 8 off @ le_bytes 8 sz" "length pre + 16", OF _ bound(3)] by (simp add: assms(1) entry_bytes_def)
  have m: "memmem_at p (length pre + 24) (length triple) amdgcn = Some (is_device (off, sz, triple))"
    by (simp add: memmem_at_def assms(1) entry_bytes_def is_device_def)
  have d: "is_device (off, sz, triple) \<Longrightarrow> 6 \<le> length triple"
    using contains_sub_length by (fastforce simp: is_device_def)
  have a: "add64 off sz = off + sz" using assms(2,3) by (simp add: add64_def)
  show ?thesis using r0 r1 r2 m d by (simp add: a pick_def max_def)
qed

lemma bundle_entries_spec:
  "p = pre @ concat (map entry_bytes es) @ rest \<Longrightarrow> \<forall>(off, sz, triple) \<in> set es. off + sz \<le> length p \<Longrightarrow>
    length p < 2 ^ 64 \<Longrightarrow>
    bundle_entries (length es) p (length pre) co t =
      Some (fold (\<lambda>e c. pick c e) es co, fold (\<lambda>(off, sz, triple) t. max t (off + sz)) es t)"
proof (induction es arbitrary: pre co t)
  case (Cons e es)
  obtain off sz triple where e: "e = (off, sz, triple)" by (cases e)
  have l: "length (entry_bytes e) = 24 + length triple" by (simp add: e entry_bytes_def)
  have p: "p = pre @ entry_bytes (off, sz, triple) @ (concat (map entry_bytes es) @ rest)" using Cons.prems(1) by (simp add: e)
  have "bundle_entries (length (e # es)) p (length pre) co t =
      bundle_entries (length es) p (length (pre @ entry_bytes e)) (pick co e) (max t (off + sz))"
    using bundle_entry_step [OF p] Cons.prems(2,3) l by (simp add: e add.assoc)
  then show ?case using Cons.IH [of "pre @ entry_bytes e"] Cons.prems p by (simp add: e)
qed simp

lemma fold_pick: "fold (\<lambda>e c. pick c e) es co = (case device_of es of None \<Rightarrow> co | Some d \<Rightarrow> Some d)"
  by (induction es rule: rev_induct) (auto simp: pick_def device_of_def split: list.splits prod.splits)

lemma bundle_device_co_spec:
  assumes "bundle_ok p es"
  shows "bundle_device_co p = Some (case device_of es of None \<Rightarrow> None | Some (off, sz) \<Rightarrow> Some (off, sz, extent es))"
proof -
  obtain rest where p: "p = (bundle_magic @ le_bytes 8 (length es)) @ concat (map entry_bytes es) @ rest"
    using assms by (auto simp: bundle_ok_def starts_with_iff)
  have "length es \<le> length (concat (map entry_bytes es))"
    by (induction es) (auto simp: entry_bytes_def)
  then have n: "length es < 256 ^ 8" using assms p by (simp add: bundle_ok_def)
  have "rd 8 p 24 = Some (length es)"
    using rd_le_bytes [OF length_bundle_magic n, of "concat (map entry_bytes es) @ rest"] p by simp
  moreover have "memcmp_at p 0 bundle_magic = Some True" by (simp add: memcmp_at_def p)
  moreover have "bundle_entries (length es) p 32 None 0 = Some (device_of es, extent es)"
    using bundle_entries_spec [OF p, of None 0] assms
    by (simp add: bundle_ok_def fold_pick extent_def split: option.splits)
  ultimately show ?thesis by (simp add: bundle_device_co_def)
qed


lemma match_orig_spec:
  "off + sz \<le> length p \<Longrightarrow>
    match_orig p off sz ss = Some (find (\<lambda>s. sub_orig s = take sz (drop off p)) ss)"
proof (induction ss)
  case (Cons s ss)
  have "length (sub_orig s) \<noteq> sz \<Longrightarrow> sub_orig s \<noteq> take sz (drop off p)" using Cons.prems by auto
  then show ?case using Cons by (auto simp: memcmp_at_def)
qed simp

section \<open>Manifests\<close>

definition token_ok :: "string \<Rightarrow> bool" where
  "token_ok w \<longleftrightarrow> w \<noteq> [] \<and> length w \<le> 1023 \<and> (\<forall>c \<in> set w. \<not> isspace c \<and> c \<noteq> NUL)"

definition blank :: "string \<Rightarrow> bool" where
  "blank s \<longleftrightarrow> s \<noteq> [] \<and> (\<forall>c \<in> set s. isspace c)"

definition manifest_line :: "string \<Rightarrow> string \<times> string \<times> string \<Rightarrow> string" where
  "manifest_line sep = (\<lambda>(a, b, c). a @ sep @ b @ sep @ c @ [CHR 0x0A])"

lemma isspace_newline [simp]: "isspace (CHR 0x0A)"
  by (simp add: isspace_def)

lemma scan_token_word:
  assumes "token_ok w" "blank sep" "\<forall>c \<in> set sp. isspace c"
  shows "scan_token (sp @ w @ sep @ r) = Some (w, sep @ r)"
proof -
  obtain c w' where w: "w = c # w'" using assms(1) by (cases w) (auto simp: token_ok_def)
  obtain d sep' where s: "sep = d # sep'" "isspace d" using assms(2) by (cases sep) (auto simp: blank_def)
  have "dropWhile isspace (sp @ w @ sep @ r) = w @ sep @ r"
    using assms(1,3) w by (simp add: dropWhile_append3 token_ok_def)
  moreover have "takeWhile (\<lambda>c. \<not> isspace c) (w @ sep @ r) = w"
    using assms(1) s takeWhile_append_stop [of w "\<lambda>c. \<not> isspace c" d "sep' @ r"] by (simp add: token_ok_def)
  ultimately show ?thesis using assms(1) by (simp add: scan_token_def Let_def token_ok_def)
qed

lemma scan_token_end: "\<forall>c \<in> set sp. isspace c \<Longrightarrow> scan_token sp = None"
  by (simp add: scan_token_def Let_def dropWhile_eq_Nil_conv [THEN iffD2])

lemma manifest_lines_spec:
  assumes "blank sep"
  shows "\<forall>(a, b, c) \<in> set ls. token_ok a \<and> token_ok b \<and> token_ok c \<Longrightarrow> \<forall>c \<in> set sp. isspace c \<Longrightarrow>
    manifest_lines (sp @ concat (map (manifest_line sep) ls)) = ls"
proof (induction ls arbitrary: sp)
  case Nil
  then show ?case by (simp add: manifest_lines.simps scan_token_end)
next
  case (Cons l ls)
  obtain a b c where l: "l = (a, b, c)" by (cases l)
  have ok: "token_ok a" "token_ok b" "token_ok c" using Cons.prems(1) by (simp_all add: l)
  have sep: "\<forall>c \<in> set sep. isspace c" using assms by (simp add: blank_def)
  let ?r = "concat (map (manifest_line sep) ls)"
  have "scan_token (sp @ concat (map (manifest_line sep) (l # ls))) = Some (a, sep @ b @ sep @ c @ [CHR 0x0A] @ ?r)"
    using scan_token_word [OF ok(1) assms Cons.prems(2)] by (simp add: l manifest_line_def)
  moreover have "scan_token (sep @ b @ sep @ c @ [CHR 0x0A] @ ?r) = Some (b, sep @ c @ [CHR 0x0A] @ ?r)"
    using scan_token_word [OF ok(2) assms sep] by simp
  moreover have "scan_token (sep @ c @ [CHR 0x0A] @ ?r) = Some (c, [CHR 0x0A] @ ?r)"
    using scan_token_word [OF ok(3) _ sep, of "[CHR 0x0A]" ?r] by (simp add: blank_def)
  moreover have "manifest_lines ([CHR 0x0A] @ ?r) = ls" using Cons.prems(1) by (intro Cons.IH) auto
  moreover have "cstr a = a" "cstr b = b" "cstr c = c" using ok by (auto intro!: cstr_id simp: token_ok_def)
  ultimately show ?case by (subst manifest_lines.simps) (simp add: l)
qed


text \<open>A line is usable when its three files can be read whole.\<close>

definition readable :: "files \<Rightarrow> string \<Rightarrow> bool" where
  "readable fs p = (case fs p of None \<Rightarrow> False | Some f \<Rightarrow> file_size f \<le> length (file_data f))"

definition contents :: "files \<Rightarrow> string \<Rightarrow> bytes" where
  "contents fs p = (case fs p of None \<Rightarrow> [] | Some f \<Rightarrow> take (file_size f) (file_data f))"

definition usable :: "files \<Rightarrow> string \<times> string \<times> string \<Rightarrow> bool" where
  "usable fs = (\<lambda>(a, b, c). readable fs a \<and> readable fs b \<and> readable fs c)"

definition sub_of :: "files \<Rightarrow> string \<times> string \<times> string \<Rightarrow> Sub" where
  "sub_of fs = (\<lambda>(a, b, c). \<lparr>sub_orig = contents fs a, sub_inst = contents fs b, sub_bundle = contents fs c, sub_tag = a\<rparr>)"

lemma slurp_readable: "readable fs p \<Longrightarrow> slurp fs p out = (True, contents fs p)"
  by (auto simp: slurp_def readable_def contents_def Let_def split: option.splits)

lemma slurp_unreadable: "\<not> readable fs p \<Longrightarrow> \<exists>x. slurp fs p out = (False, x)"
  by (auto simp: slurp_def readable_def Let_def split: option.splits)

lemma add_sub_spec: "add_sub fs a b c subs = (if usable fs (a, b, c) then subs @ [sub_of fs (a, b, c)] else subs)"
proof -
  have bad: "add_sub fs a b c subs = subs" if u: "\<not> usable fs (a, b, c)"
  proof -
    consider "\<not> readable fs a" | "readable fs a" "\<not> readable fs b" | "readable fs a" "readable fs b" "\<not> readable fs c"
      using u by (auto simp: usable_def)
    then show ?thesis
    proof cases
      case 1
      then show ?thesis using slurp_unreadable [of fs a "[]"] by (auto simp: add_sub_def split: prod.splits)
    next
      case 2
      then show ?thesis using slurp_unreadable [of fs b "[]"] by (auto simp: add_sub_def slurp_readable split: prod.splits)
    next
      case 3
      then show ?thesis using slurp_unreadable [of fs c "[]"] by (auto simp: add_sub_def slurp_readable)
    qed
  qed
  show ?thesis
  proof (cases "usable fs (a, b, c)")
    case True
    then show ?thesis by (simp add: add_sub_def usable_def sub_of_def slurp_readable)
  qed (simp add: bad)
qed

lemma add_subs_spec: "fold (\<lambda>(a, b, c). add_sub fs a b c) ls subs = subs @ map (sub_of fs) (filter (usable fs) ls)"
  by (induction ls arbitrary: subs) (auto simp: add_sub_spec)

lemma manifest_configures_parts:
  assumes "env ''HOSTCALL_LIB'' = Some lib" "env ''HOSTCALL_MANIFEST'' = Some mf" "fs mf = Some f"
    and "chars (file_data f) = concat (map (manifest_line sep) ls)" "blank sep"
    and "\<forall>(a, b, c) \<in> set ls. token_ok a \<and> token_ok b \<and> token_ok c"
  shows "cfg_ok (load_config env fs) \<longleftrightarrow> readable fs lib \<and> (\<exists>l \<in> set ls. usable fs l)"
    and "readable fs lib \<Longrightarrow> cfg_lib (load_config env fs) = contents fs lib \<and>
      cfg_subs (load_config env fs) = map (sub_of fs) (filter (usable fs) ls)"
proof -
  have "manifest_lines (chars (file_data f)) = ls"
    using manifest_lines_spec [OF assms(5,6), of "[]"] assms(4) by simp
  then have "load_config env fs =
      (if readable fs lib
       then \<lparr>cfg_lib = contents fs lib, cfg_subs = map (sub_of fs) (filter (usable fs) ls), cfg_ok = (filter (usable fs) ls \<noteq> [])\<rparr>
       else \<lparr>cfg_lib = snd (slurp fs lib []), cfg_subs = [], cfg_ok = False\<rparr>)"
    using slurp_readable [of fs lib "[]"] slurp_unreadable [of fs lib "[]"] assms(1-3)
    by (cases "readable fs lib") (auto simp: load_config_def add_subs_spec)
  then show "cfg_ok (load_config env fs) \<longleftrightarrow> readable fs lib \<and> (\<exists>l \<in> set ls. usable fs l)"
    and "readable fs lib \<Longrightarrow> cfg_lib (load_config env fs) = contents fs lib \<and>
      cfg_subs (load_config env fs) = map (sub_of fs) (filter (usable fs) ls)"
    by (auto simp: filter_empty_conv)
qed

text \<open>
  A manifest of \<open>orig inst bundle\<close> lines configures exactly the substitutions whose three
  files can be read whole, in the order of the lines; the configuration succeeds when the
  library can be read and at least one substitution is left.
\<close>

theorem manifest_configures:
  assumes "env ''HOSTCALL_LIB'' = Some lib" "env ''HOSTCALL_MANIFEST'' = Some mf" "fs mf = Some f"
    and "chars (file_data f) = concat (map (manifest_line sep) ls)" "blank sep"
    and "\<forall>(a, b, c) \<in> set ls. token_ok a \<and> token_ok b \<and> token_ok c"
  shows "(cfg_ok (load_config env fs) \<longleftrightarrow> readable fs lib \<and> (\<exists>l \<in> set ls. usable fs l)) \<and>
    (readable fs lib \<longrightarrow> cfg_lib (load_config env fs) = contents fs lib \<and>
      cfg_subs (load_config env fs) = map (sub_of fs) (filter (usable fs) ls))"
  by (rule conjI, rule manifest_configures_parts(1) [where env = env and fs = fs, OF assms], rule impI, rule manifest_configures_parts(2) [where env = env and fs = fs, OF assms])


definition demo_files :: files where
  "demo_files p = (if p = ''lib'' then Some \<lparr>file_size = 1, file_data = [7]\<rparr>
     else if p = ''m'' then Some \<lparr>file_size = 26, file_data = map (\<lambda>c. of_nat (of_char c))
         (''a b c'' @ [CHR 0x0A] @ ''a x c'' @ [CHR 0x0A])\<rparr>
     else if p = ''a'' then Some \<lparr>file_size = 2, file_data = [1, 2]\<rparr>
     else if p = ''b'' then Some \<lparr>file_size = 1, file_data = [3]\<rparr>
     else if p = ''c'' then Some \<lparr>file_size = 1, file_data = [4]\<rparr> else None)"

definition demo_environ :: environ where
  "demo_environ v = (if v = ''HOSTCALL_LIB'' then Some ''lib'' else if v = ''HOSTCALL_MANIFEST'' then Some ''m'' else None)"

lemma manifest_configures_witness:
  "cfg_ok (load_config demo_environ demo_files) \<and>
    cfg_subs (load_config demo_environ demo_files) = [\<lparr>sub_orig = [1, 2], sub_inst = [3], sub_bundle = [4], sub_tag = ''a''\<rparr>]"
proof -
  let ?ls = "[(''a'', ''b'', ''c''), (''a'', ''x'', ''c'')]"
  have e: "demo_environ ''HOSTCALL_LIB'' = Some ''lib''" "demo_environ ''HOSTCALL_MANIFEST'' = Some ''m''"
    by (simp_all add: demo_environ_def)
  obtain f where f: "demo_files ''m'' = Some f" "chars (file_data f) = concat (map (manifest_line '' '') ?ls)"
    by (simp add: demo_files_def chars_def manifest_line_def char_of_eq_iff)
  have t: "\<forall>(a, b, c) \<in> set ?ls. token_ok a \<and> token_ok b \<and> token_ok c" "blank '' ''"
    by (simp_all add: token_ok_def isspace_def blank_def)
  have r: "readable demo_files ''lib''" "readable demo_files ''a''" "readable demo_files ''b''" "readable demo_files ''c''"
      "\<not> readable demo_files ''x''"
    by (simp_all add: readable_def demo_files_def)
  have c: "contents demo_files ''a'' = [1, 2]" "contents demo_files ''b'' = [3]" "contents demo_files ''c'' = [4]"
    by (simp_all add: contents_def demo_files_def)
  show ?thesis
    using manifest_configures [where env = demo_environ and fs = demo_files and ls = ?ls and sep = "'' ''", OF e f t(2,1)] r c
    by (simp add: usable_def sub_of_def)
qed

end
