(* ===== verification/Loader_Hooks.thy ===== *)
theory Loader_Hooks
  imports Loader_Config User_Probe
begin

text \<open>
  The loader interposition of \<open>hostcall_hooks.h\<close> (lines 61 to 75 and 149 to 369), shared by the
  two injectors: what each hook does to the state of the injector and which real functions it
  calls. The HSA and HIP runtimes are a parameter: a function of the calls made so far and the
  call at hand that gives its status (0 is success) and its output. The state holds the log of
  the calls, oldest first. Handles and addresses are numbers, 0 is the null pointer. The cached
  readings of the code object (\<open>pw_stride\<close>, \<open>pw_nargs\<close>) are taken from the unchanged files.
\<close>

section \<open>The runtime\<close>

record FatBinaryWrapper =
  fw_magic :: u32
  fw_version :: u32
  fw_binary :: "bytes option"
  fw_dummy :: nat

text \<open>What a kernel argument points to: an argument of the application or the per-wave buffer.\<close>

datatype kernel_arg = AppArg nat | BufArg nat

datatype effect = RegisterFatBinary "FatBinaryWrapper option"
  | ReaderCreate bytes
  | LoadCodeObject nat nat nat
  | ExecutableFreeze nat
  | DefineMailbox nat nat nat
  | PoolAllocate nat nat
  | AllowAccess nat nat
  | StartService nat
  | JoinService
  | MallocManaged u64
  | LaunchKernel nat dim3 dim3 "kernel_arg list option" nat nat

record Pool =
  pool_id :: nat
  pool_global :: bool
  pool_fine :: bool

record Agent =
  agent_id :: nat
  agent_cpu :: bool
  agent_pools :: "Pool list"

record World =
  w_env :: environ
  w_files :: files
  w_agents :: "Agent list"
  w_rt :: "effect list \<Rightarrow> effect \<Rightarrow> nat \<times> nat"

text \<open>\<open>hsa_iterate_agents\<close> and its like call back until a status other than success.\<close>

fun hsa_iterate :: "('a \<Rightarrow> 'd \<Rightarrow> bool \<times> 'd) \<Rightarrow> 'a list \<Rightarrow> 'd \<Rightarrow> 'd" where
  "hsa_iterate f [] d = d"
| "hsa_iterate f (x # xs) d = (case f x d of (stop, d') \<Rightarrow> if stop then d' else hsa_iterate f xs d')"

definition find_cpu :: "Agent \<Rightarrow> Agent option \<Rightarrow> bool \<times> Agent option" where
  "find_cpu a s = (if agent_cpu a then (True, Some a) else (False, s))"

definition find_fine_grained :: "Pool \<Rightarrow> Pool option \<Rightarrow> bool \<times> Pool option" where
  "find_fine_grained p s =
     (if \<not> pool_global p then (False, s) else if pool_fine p then (True, Some p) else (False, s))"

section \<open>The state\<close>

record Loader =
  ld_config :: "Config option"
  ld_mbox :: nat
  ld_queue :: "HostcallQueue option"
  ld_run :: bool
  ld_started :: bool
  ld_joinable :: bool
  ld_readers :: "nat set"
  ld_exes :: "nat set"
  ld_arg_buf :: nat
  ld_log :: "effect list"

definition loader_init :: Loader where
  "loader_init = \<lparr>ld_config = None, ld_mbox = 0, ld_queue = None, ld_run = True, ld_started = False,
     ld_joinable = False, ld_readers = {}, ld_exes = {}, ld_arg_buf = 0, ld_log = []\<rparr>"

definition real :: "World \<Rightarrow> effect \<Rightarrow> Loader \<Rightarrow> (nat \<times> nat) \<times> Loader" where
  "real w c s = (w_rt w (ld_log s) c, s\<lparr>ld_log := ld_log s @ [c]\<rparr>)"

definition cfg :: "World \<Rightarrow> Loader \<Rightarrow> Config \<times> Loader" where
  "cfg w s = (case ld_config s of Some c \<Rightarrow> (c, s)
     | None \<Rightarrow> (let c = load_config (w_env w) (w_files w) in (c, s\<lparr>ld_config := Some c\<rparr>)))"

section \<open>The hooks\<close>

definition hook_register_fatbin :: "World \<Rightarrow> FatBinaryWrapper option \<Rightarrow> Loader \<Rightarrow> ((nat \<times> nat) \<times> Loader) option" where
  "hook_register_fatbin w data s0 =
     (let (c, s) = cfg w s0; pass = Some (real w (RegisterFatBinary data) s) in
      if \<not> cfg_ok c then pass
      else (case data of None \<Rightarrow> pass
        | Some wr \<Rightarrow> (case fw_binary wr of None \<Rightarrow> pass
          | Some p \<Rightarrow> (case bundle_device_co p of None \<Rightarrow> None | Some None \<Rightarrow> pass
            | Some (Some (off, sz, ext)) \<Rightarrow> (case match_orig p off sz (cfg_subs c) of None \<Rightarrow> None
              | Some None \<Rightarrow> pass
              | Some (Some sub) \<Rightarrow> Some (real w (RegisterFatBinary (Some (wr\<lparr>fw_binary := Some (sub_bundle sub)\<rparr>))) s))))))"

definition hook_co_reader :: "World \<Rightarrow> bytes \<Rightarrow> Loader \<Rightarrow> (nat \<times> nat) \<times> Loader" where
  "hook_co_reader w data s0 =
     (let ((st, h), s) = real w (ReaderCreate data) s0 in
      if st \<noteq> 0 then ((st, h), s)
      else (let (c, s) = cfg w s in
        if cfg_ok c \<and> list_ex (\<lambda>sub. data = sub_inst sub) (cfg_subs c)
        then ((st, h), s\<lparr>ld_readers := insert h (ld_readers s)\<rparr>) else ((st, h), s)))"

text \<open>\<open>sizeof(HostcallMailbox)\<close>: a 64-byte header and 256 slots of 696 bytes.\<close>

definition mailbox_size :: nat where
  "mailbox_size = 64 + HC_NSLOTS * 696"

definition ensure_runtime :: "World \<Rightarrow> nat \<Rightarrow> Loader \<Rightarrow> bool \<times> Loader" where
  "ensure_runtime w gpu s =
     (if ld_started s then (ld_mbox s \<noteq> 0, s)
      else (case hsa_iterate find_cpu (w_agents w) None of None \<Rightarrow> (False, s)
        | Some cpu \<Rightarrow> (case hsa_iterate find_fine_grained (agent_pools cpu) None of None \<Rightarrow> (False, s)
          | Some fg \<Rightarrow>
              (let ((st, m), s) = real w (PoolAllocate (pool_id fg) mailbox_size) s in
               if st \<noteq> 0 then (False, s)
               else (let (r, s) = real w (AllowAccess gpu m) s;
                         s = s\<lparr>ld_mbox := m, ld_queue := Some queue_init, ld_run := True\<rparr>;
                         (r, s) = real w (StartService m) s
                     in (True, s\<lparr>ld_joinable := True, ld_started := True\<rparr>))))))"

definition augment_executable :: "World \<Rightarrow> nat \<Rightarrow> nat \<Rightarrow> Loader \<Rightarrow> Loader" where
  "augment_executable w exe agent s =
     (let (r, s) = real w (DefineMailbox exe agent (ld_mbox s)) s;
          lib = (case ld_config s of None \<Rightarrow> [] | Some c \<Rightarrow> cfg_lib c);
          ((st, h), s) = real w (ReaderCreate lib) s
      in if st \<noteq> 0 then s else snd (real w (LoadCodeObject exe agent h) s))"

definition hook_load :: "World \<Rightarrow> nat \<Rightarrow> nat \<Rightarrow> nat \<Rightarrow> Loader \<Rightarrow> (nat \<times> nat) \<times> Loader" where
  "hook_load w exe agent reader s =
     (let s = (if reader \<in> ld_readers s then
                 (let (ok, s) = ensure_runtime w agent s in
                  if ok \<and> exe \<notin> ld_exes s
                  then augment_executable w exe agent (s\<lparr>ld_exes := insert exe (ld_exes s)\<rparr>) else s)
               else s)
      in real w (LoadCodeObject exe agent reader) s)"

definition hook_freeze :: "World \<Rightarrow> nat \<Rightarrow> Loader \<Rightarrow> (nat \<times> nat) \<times> Loader" where
  "hook_freeze w exe s = real w (ExecutableFreeze exe) s"

section \<open>Launches\<close>

definition inst_co :: "World \<Rightarrow> bytes option" where
  "inst_co w = (case w_env w ''HOSTCALL_INST_CO'' of None \<Rightarrow> None
     | Some p \<Rightarrow> (case slurp (w_files w) p [] of (ok, b) \<Rightarrow> if ok then Some b else None))"

definition pw_stride_name :: bytes where
  "pw_stride_name = map (\<lambda>c. of_nat (of_char c)) ''__dyninst_pw_stride''"

definition pw_stride :: "World \<Rightarrow> nat option" where
  "pw_stride w = co_read_symbol_u32 (inst_co w) pw_stride_name 4096"

definition pw_nargs :: "World \<Rightarrow> int option" where
  "pw_nargs w = do {
     v \<leftarrow> co_read_symbol_u32 (inst_co w) pw_stride_name 0;
     if v = 0 then Some (- 1) else co_read_explicit_arg_count (inst_co w) (- 1) }"

definition launch_waves :: "dim3 \<Rightarrow> dim3 \<Rightarrow> u64" where
  "launch_waves nb db =
     (let wpb = (ucast (dx db) * ucast (dy db) * ucast (dz db) + 63) div 64
      in ucast (dx nb) * ucast (dy nb) * ucast (dz nb) * wpb)"

text \<open>\<open>args\<close> is the argument array the application passes, \<open>None\<close> a null pointer.\<close>

definition hook_launch ::
    "World \<Rightarrow> nat \<Rightarrow> dim3 \<Rightarrow> dim3 \<Rightarrow> nat list option \<Rightarrow> nat \<Rightarrow> nat \<Rightarrow> Loader \<Rightarrow> ((nat \<times> nat) \<times> Loader) option" where
  "hook_launch w func nb db args shm stream s = do {
     n \<leftarrow> pw_nargs w;
     let unmodified = (\<lambda>s. Some (real w (LaunchKernel func nb db (map_option (map AppArg) args) shm stream) s));
     case args of None \<Rightarrow> unmodified s
     | Some xs \<Rightarrow>
         if n < 0 then unmodified s
         else do {
           stride \<leftarrow> pw_stride w;
           let sz = launch_waves nb db * of_nat stride;
           let ((rc, buf), s) = real w (MallocManaged sz) s;
           if rc \<noteq> 0 then unmodified s
           else if buf = 0 then unmodified (s\<lparr>ld_arg_buf := 0\<rparr>)
           else if length xs < nat n then None
           else Some (real w (LaunchKernel func nb db (Some (map AppArg (take (nat n) xs) @ [BufArg buf])) shm stream)
                 (s\<lparr>ld_arg_buf := buf\<rparr>)) } }"

definition hostcall_teardown :: "World \<Rightarrow> Loader \<Rightarrow> Loader" where
  "hostcall_teardown w s =
     (if ld_started s then
        (let s = s\<lparr>ld_run := False\<rparr>
         in if ld_joinable s then snd (real w JoinService (s\<lparr>ld_joinable := False\<rparr>)) else s)
      else s)"

section \<open>Histories\<close>

text \<open>The calls of the application that reach the hooks, one after another.\<close>

datatype event = EvFatbin "FatBinaryWrapper option" | EvReader bytes | EvLoad nat nat nat | EvFreeze nat
  | EvLaunch nat dim3 dim3 "nat list option" nat nat | EvTeardown

definition loader_step :: "World \<Rightarrow> Loader \<Rightarrow> event \<Rightarrow> Loader option" where
  "loader_step w s e = (case e of
       EvFatbin data \<Rightarrow> map_option snd (hook_register_fatbin w data s)
     | EvReader data \<Rightarrow> Some (snd (hook_co_reader w data s))
     | EvLoad exe agent reader \<Rightarrow> Some (snd (hook_load w exe agent reader s))
     | EvFreeze exe \<Rightarrow> Some (snd (hook_freeze w exe s))
     | EvLaunch func nb db args shm stream \<Rightarrow> map_option snd (hook_launch w func nb db args shm stream s)
     | EvTeardown \<Rightarrow> Some (hostcall_teardown w s))"

fun loader_run :: "World \<Rightarrow> event list \<Rightarrow> Loader \<Rightarrow> Loader option" where
  "loader_run w [] s = Some s"
| "loader_run w (e # es) s = (case loader_step w s e of None \<Rightarrow> None | Some s' \<Rightarrow> loader_run w es s')"


section \<open>The invariant of every history\<close>

fun is_start :: "effect \<Rightarrow> bool" where
  "is_start (StartService m) = True"
| "is_start c = False"

fun defines_for :: "nat \<Rightarrow> effect \<Rightarrow> bool" where
  "defines_for e (DefineMailbox e' a m) = (e' = e)"
| "defines_for e c = False"

fun is_define :: "effect \<Rightarrow> bool" where
  "is_define (DefineMailbox e a m) = True"
| "is_define c = False"

lemma defines_for_iff: "defines_for e c \<longleftrightarrow> (\<exists>a m. c = DefineMailbox e a m)"
  by (cases c) auto

lemma defines_for_is_define: "defines_for e c \<Longrightarrow> is_define c"
  by (cases c) auto

text \<open>Every definition of the mailbox comes after the start of the service on that mailbox.\<close>

definition served_first :: "effect list \<Rightarrow> bool" where
  "served_first log \<longleftrightarrow> (\<forall>i < length log. \<forall>e a m. log ! i = DefineMailbox e a m \<longrightarrow> StartService m \<in> set (take i log))"

definition loader_inv :: "World \<Rightarrow> Loader \<Rightarrow> bool" where
  "loader_inv w s \<longleftrightarrow>
     length (filter is_start (ld_log s)) = (if ld_started s then 1 else 0)
   \<and> (\<forall>e. length (filter (defines_for e) (ld_log s)) = (if e \<in> ld_exes s then 1 else 0))
   \<and> (\<forall>e a m. DefineMailbox e a m \<in> set (ld_log s) \<longrightarrow> m = ld_mbox s \<and> ld_started s)
   \<and> (ld_started s \<longrightarrow> StartService (ld_mbox s) \<in> set (ld_log s) \<and> ld_queue s = Some queue_init)
   \<and> served_first (ld_log s)
   \<and> (ld_joinable s \<longrightarrow> ld_started s) \<and> (ld_started s \<and> ld_run s \<longrightarrow> ld_joinable s)
   \<and> ((\<forall>log i. snd (w_rt w log (PoolAllocate i mailbox_size)) \<noteq> 0) \<longrightarrow> ld_started s \<longrightarrow> ld_mbox s \<noteq> 0)
   \<and> (\<forall>c. ld_config s = Some c \<longrightarrow> c = load_config (w_env w) (w_files w))
   \<and> (ld_readers s \<noteq> {} \<longrightarrow> ld_config s \<noteq> None \<and> cfg_ok (load_config (w_env w) (w_files w)))"

lemma served_first_snoc:
  "served_first (log @ [c]) \<longleftrightarrow> served_first log \<and> (\<forall>e a m. c = DefineMailbox e a m \<longrightarrow> StartService m \<in> set log)"
  unfolding served_first_def by (auto simp: nth_append less_Suc_eq)

lemma real_simps [simp]:
  "fst (real w c s) = w_rt w (ld_log s) c" "ld_log (snd (real w c s)) = ld_log s @ [c]"
  "ld_config (snd (real w c s)) = ld_config s" "ld_mbox (snd (real w c s)) = ld_mbox s"
  "ld_queue (snd (real w c s)) = ld_queue s" "ld_run (snd (real w c s)) = ld_run s"
  "ld_started (snd (real w c s)) = ld_started s" "ld_joinable (snd (real w c s)) = ld_joinable s"
  "ld_readers (snd (real w c s)) = ld_readers s" "ld_exes (snd (real w c s)) = ld_exes s"
  by (simp_all add: real_def)

lemma inv_real:
  "loader_inv w s \<Longrightarrow> \<not> is_start c \<Longrightarrow> \<not> is_define c \<Longrightarrow> loader_inv w (snd (real w c s))"
  unfolding loader_inv_def using defines_for_is_define [of _ c] by (auto simp: served_first_snoc)

lemma inv_init: "loader_inv w loader_init"
  by (simp add: loader_inv_def loader_init_def served_first_def)

lemma cfg_spec: "loader_inv w s \<Longrightarrow> fst (cfg w s) = load_config (w_env w) (w_files w)"
  by (cases "ld_config s") (simp_all add: cfg_def loader_inv_def Let_def)

lemma inv_config: "loader_inv w s \<Longrightarrow> loader_inv w (s\<lparr>ld_config := Some (load_config (w_env w) (w_files w))\<rparr>)"
  by (simp add: loader_inv_def)

lemma inv_cfg: "loader_inv w s \<Longrightarrow> loader_inv w (snd (cfg w s)) \<and> ld_config (snd (cfg w s)) \<noteq> None"
  by (cases "ld_config s") (simp_all add: cfg_def inv_config Let_def)

lemma inv_reader:
  "loader_inv w s \<Longrightarrow> ld_config s \<noteq> None \<Longrightarrow> cfg_ok (load_config (w_env w) (w_files w)) \<Longrightarrow>
    loader_inv w (s\<lparr>ld_readers := insert h (ld_readers s)\<rparr>)"
  by (simp add: loader_inv_def)

lemma inv_arg_buf: "loader_inv w s \<Longrightarrow> loader_inv w (s\<lparr>ld_arg_buf := b\<rparr>)"
  by (simp add: loader_inv_def)

lemma fatbin_call:
  "hook_register_fatbin w data s = Some r \<Longrightarrow> \<exists>d. r = real w (RegisterFatBinary d) (snd (cfg w s))"
  by (simp add: hook_register_fatbin_def Let_def split: prod.splits option.splits if_splits) blast+

lemma inv_fatbin: "loader_inv w s \<Longrightarrow> hook_register_fatbin w data s = Some r \<Longrightarrow> loader_inv w (snd r)"
  using fatbin_call [of w data s r] inv_cfg [of w s] inv_real [of w "snd (cfg w s)"] by auto

lemma inv_co_reader: "loader_inv w s \<Longrightarrow> loader_inv w (snd (hook_co_reader w data s))"
proof -
  assume inv: "loader_inv w s"
  obtain st h s1 where r: "real w (ReaderCreate data) s = ((st, h), s1)" by (metis prod.exhaust)
  obtain c s2 where c: "cfg w s1 = (c, s2)" by (cases "cfg w s1")
  have i1: "loader_inv w s1" using inv_real [OF inv, of "ReaderCreate data"] r by simp
  then have i2: "loader_inv w s2" "ld_config s2 \<noteq> None" "c = load_config (w_env w) (w_files w)"
    using inv_cfg [OF i1] cfg_spec [OF i1] c by auto
  show ?thesis using i1 i2 inv_reader [OF i2(1,2)] by (simp add: hook_co_reader_def r c)
qed


lemma iterate_find: "hsa_iterate find_cpu as s = (case find agent_cpu as of None \<Rightarrow> s | Some a \<Rightarrow> Some a)"
  by (induction as) (auto simp: find_cpu_def)

lemma iterate_pool:
  "hsa_iterate find_fine_grained ps s = (case find (\<lambda>p. pool_global p \<and> pool_fine p) ps of None \<Rightarrow> s | Some p \<Rightarrow> Some p)"
  by (induction ps) (auto simp: find_fine_grained_def)

lemma is_define_iff: "is_define c \<longleftrightarrow> (\<exists>e a m. c = DefineMailbox e a m)"
  by (cases c) auto

lemma inv_defined: "loader_inv w s \<Longrightarrow> DefineMailbox e a m \<in> set (ld_log s) \<Longrightarrow> m = ld_mbox s \<and> ld_started s"
  unfolding loader_inv_def by blast

lemma inv_up:
  "loader_inv w s \<Longrightarrow> ld_started s \<Longrightarrow> ld_queue s = Some queue_init"
  "loader_inv w s \<Longrightarrow> ld_started s \<Longrightarrow> StartService (ld_mbox s) \<in> set (ld_log s)"
  "loader_inv w s \<Longrightarrow> served_first (ld_log s)"
  "loader_inv w s \<Longrightarrow> \<forall>log i. snd (w_rt w log (PoolAllocate i mailbox_size)) \<noteq> 0 \<Longrightarrow> ld_started s \<Longrightarrow> ld_mbox s \<noteq> 0"
  unfolding loader_inv_def by blast+

lemma inv_counts:
  "loader_inv w s \<Longrightarrow> length (filter is_start (ld_log s)) = (if ld_started s then 1 else 0)"
  "loader_inv w s \<Longrightarrow> length (filter (defines_for e) (ld_log s)) = (if e \<in> ld_exes s then 1 else 0)"
  unfolding loader_inv_def by blast+

text \<open>The state right after a first successful start, and what a failed one leaves.\<close>

definition started_state :: "World \<Rightarrow> Pool \<Rightarrow> nat \<Rightarrow> Loader \<Rightarrow> Loader" where
  "started_state w fg gpu s =
     (let m = snd (w_rt w (ld_log s) (PoolAllocate (pool_id fg) mailbox_size)) in
      s\<lparr>ld_log := ld_log s @ [PoolAllocate (pool_id fg) mailbox_size, AllowAccess gpu m, StartService m],
        ld_mbox := m, ld_queue := Some queue_init, ld_run := True, ld_joinable := True, ld_started := True\<rparr>)"

definition fine_pool :: "World \<Rightarrow> Pool option" where
  "fine_pool w = (case find agent_cpu (w_agents w) of None \<Rightarrow> None
     | Some cpu \<Rightarrow> find (\<lambda>p. pool_global p \<and> pool_fine p) (agent_pools cpu))"

lemma ensure_runtime_cases:
  "ensure_runtime w gpu s =
     (if ld_started s then (ld_mbox s \<noteq> 0, s)
      else (case fine_pool w of None \<Rightarrow> (False, s)
        | Some fg \<Rightarrow> if fst (w_rt w (ld_log s) (PoolAllocate (pool_id fg) mailbox_size)) = 0
            then (True, started_state w fg gpu s)
            else (False, snd (real w (PoolAllocate (pool_id fg) mailbox_size) s))))"
  by (simp add: ensure_runtime_def iterate_find iterate_pool fine_pool_def started_state_def real_def Let_def
      split: option.splits prod.splits)

lemma no_defines: "\<forall>c \<in> set log. \<not> is_define c \<Longrightarrow> filter (defines_for e) log = []"
  using defines_for_is_define by (auto simp: filter_empty_conv)

lemma inv_not_started:
  assumes "loader_inv w s" "\<not> ld_started s"
  shows "filter is_start (ld_log s) = []" "ld_exes s = {}" "\<forall>c \<in> set (ld_log s). \<not> is_define c"
proof -
  show "filter is_start (ld_log s) = []" using assms by (simp add: loader_inv_def)
  show d: "\<forall>c \<in> set (ld_log s). \<not> is_define c"
  proof
    fix c assume "c \<in> set (ld_log s)"
    then show "\<not> is_define c" using inv_defined [OF assms(1)] assms(2) by (auto simp: is_define_iff)
  qed
  have "e \<notin> ld_exes s" for e
    using inv_counts(2) [OF assms(1), of e] no_defines [OF d, of e] by (cases "e \<in> ld_exes s") simp_all
  then show "ld_exes s = {}" by blast
qed

lemma inv_started_state: "loader_inv w s \<Longrightarrow> \<not> ld_started s \<Longrightarrow> loader_inv w (started_state w fg gpu s)"
proof -
  assume inv: "loader_inv w s" and ns: "\<not> ld_started s"
  note n = inv_not_started [OF inv ns]
  let ?s = "started_state w fg gpu s"
  obtain m where m: "ld_mbox ?s = m"
      "ld_log ?s = ld_log s @ [PoolAllocate (pool_id fg) mailbox_size, AllowAccess gpu m, StartService m]"
    by (simp add: started_state_def Let_def)
  have o: "ld_started ?s" "ld_joinable ?s" "ld_queue ?s = Some queue_init" "ld_exes ?s = {}" "ld_config ?s = ld_config s"
      "ld_readers ?s = ld_readers s"
    using n by (simp_all add: started_state_def Let_def)
  have d: "\<forall>c \<in> set (ld_log ?s). \<not> is_define c" using n(3) m(2) by auto
  then have "served_first (ld_log ?s)" using is_define.simps(1) nth_mem unfolding served_first_def by metis
  moreover have "DefineMailbox e a b \<notin> set (ld_log ?s)" for e a b using d by force
  moreover have "filter (defines_for e) (ld_log ?s) = []" for e by (rule no_defines [OF d])
  moreover have "(\<forall>log i. snd (w_rt w log (PoolAllocate i mailbox_size)) \<noteq> 0) \<longrightarrow> ld_mbox ?s \<noteq> 0"
    by (simp add: started_state_def Let_def)
  ultimately show ?thesis using inv n o m unfolding loader_inv_def by simp
qed

lemma inv_ensure: "loader_inv w s \<Longrightarrow> loader_inv w (snd (ensure_runtime w gpu s))"
  using inv_started_state inv_real [of w s] unfolding ensure_runtime_cases by (auto split: option.splits)

lemma ensure_started: "ensure_runtime w gpu s = (True, s') \<Longrightarrow> ld_started s'"
  unfolding ensure_runtime_cases by (auto simp: started_state_def Let_def split: option.splits if_splits)

lemma inv_define:
  assumes "loader_inv w s" "ld_started s" "exe \<notin> ld_exes s"
  shows "loader_inv w (snd (real w (DefineMailbox exe agent (ld_mbox s)) (s\<lparr>ld_exes := insert exe (ld_exes s)\<rparr>)))"
  using assms unfolding loader_inv_def by (auto simp: served_first_snoc)

lemma augment_calls:
  "\<exists>cs. ld_log (augment_executable w exe agent s) = ld_log s @ DefineMailbox exe agent (ld_mbox s) # cs"
  by (auto simp: augment_executable_def real_def Let_def split: prod.splits)

lemma inv_augment:
  assumes "loader_inv w s" "ld_started s" "exe \<notin> ld_exes s"
  shows "loader_inv w (augment_executable w exe agent (s\<lparr>ld_exes := insert exe (ld_exes s)\<rparr>))"
proof -
  let ?s1 = "snd (real w (DefineMailbox exe agent (ld_mbox s)) (s\<lparr>ld_exes := insert exe (ld_exes s)\<rparr>))"
  have i: "loader_inv w ?s1" by (rule inv_define [OF assms])
  have j: "loader_inv w (snd (real w (ReaderCreate lib) ?s1))" for lib by (rule inv_real [OF i]) simp_all
  have k: "loader_inv w (snd (real w (LoadCodeObject exe agent h) (snd (real w (ReaderCreate lib) ?s1))))" for lib h
    by (rule inv_real [OF j]) simp_all
  show ?thesis using j k by (simp add: augment_executable_def Let_def split_beta)
qed

lemma inv_load: "loader_inv w s \<Longrightarrow> loader_inv w (snd (hook_load w exe agent r s))"
proof -
  assume inv: "loader_inv w s"
  obtain ok s1 where e: "ensure_runtime w agent s = (ok, s1)" by (cases "ensure_runtime w agent s")
  have i: "loader_inv w s1" using inv_ensure [OF inv, of agent] e by simp
  have a: "loader_inv w (augment_executable w exe agent (s1\<lparr>ld_exes := insert exe (ld_exes s1)\<rparr>))" if "ok" "exe \<notin> ld_exes s1"
    using inv_augment [OF i _ that(2)] ensure_started [of w agent s s1] e that(1) by simp
  show ?thesis using i a inv by (auto simp: hook_load_def Let_def e intro!: inv_real)
qed

lemma launch_call:
  assumes "hook_launch w func nb db args shm stream s = Some r"
  shows "\<exists>as t. r = real w (LaunchKernel func nb db as shm stream) t
    \<and> (t = s \<or> (\<exists>sz. t = snd (real w (MallocManaged sz) s)) \<or> (\<exists>sz b. t = (snd (real w (MallocManaged sz) s))\<lparr>ld_arg_buf := b\<rparr>))"
proof -
  obtain n where n: "pw_nargs w = Some n" using assms by (cases "pw_nargs w") (simp_all add: hook_launch_def)
  show ?thesis
  proof (cases "args = None \<or> n < 0")
    case True
    then have "r = real w (LaunchKernel func nb db (map_option (map AppArg) args) shm stream) s"
      using assms n by (auto simp: hook_launch_def Let_def split: option.splits)
    then show ?thesis by blast
  next
    case False
    then obtain xs where xs: "args = Some xs" "\<not> n < 0" by auto
    obtain stride where st: "pw_stride w = Some stride"
      using assms n xs by (cases "pw_stride w") (simp_all add: hook_launch_def)
    let ?sz = "launch_waves nb db * of_nat stride"
    obtain rc buf s1 where a: "real w (MallocManaged ?sz) s = ((rc, buf), s1)" by (metis prod.exhaust)
    then have "s1 = snd (real w (MallocManaged ?sz) s)" by simp
    moreover have "\<exists>as. r = real w (LaunchKernel func nb db as shm stream) s1
        \<or> r = real w (LaunchKernel func nb db as shm stream) (s1\<lparr>ld_arg_buf := buf\<rparr>)"
      using assms n xs st a by (simp add: hook_launch_def Let_def split: if_splits) blast+
    ultimately show ?thesis by blast
  qed
qed

lemma inv_launch: "loader_inv w s \<Longrightarrow> hook_launch w func nb db args shm stream s = Some r \<Longrightarrow> loader_inv w (snd r)"
proof -
  assume inv: "loader_inv w s" and h: "hook_launch w func nb db args shm stream s = Some r"
  have m: "loader_inv w (snd (real w (MallocManaged sz) s))" for sz by (rule inv_real [OF inv]) simp_all
  obtain as t where r: "r = real w (LaunchKernel func nb db as shm stream) t" "loader_inv w t"
    using launch_call [OF h] inv m inv_arg_buf by blast
  show ?thesis unfolding r(1) by (rule inv_real [OF r(2)]) simp_all
qed

lemma inv_teardown: "loader_inv w s \<Longrightarrow> loader_inv w (hostcall_teardown w s)"
proof -
  assume inv: "loader_inv w s"
  have r: "loader_inv w (s\<lparr>ld_run := False\<rparr>)" "loader_inv w (s\<lparr>ld_run := False, ld_joinable := False\<rparr>)"
    using inv unfolding loader_inv_def by simp_all
  show ?thesis using inv r(1) inv_real [OF r(2), of JoinService] by (simp add: hostcall_teardown_def Let_def)
qed

lemma loader_inv_step: "loader_inv w s \<Longrightarrow> loader_step w s e = Some s' \<Longrightarrow> loader_inv w s'"
  by (cases e) (auto simp: loader_step_def hook_freeze_def intro!: inv_co_reader inv_load inv_real inv_teardown
      dest: inv_fatbin inv_launch)

interpretation loader: inv_machine "\<lambda>s. s = loader_init" "\<lambda>s e s'. loader_step w s e = Some s'" "loader_inv w" for w
  by unfold_locales (auto simp: inv_init intro: loader_inv_step)


lemma run_reach: "loader.reach w tr s \<Longrightarrow> loader_run w evs s = Some s' \<Longrightarrow> loader.reach w (tr @ evs) s'"
proof (induction evs arbitrary: tr s)
  case (Cons e evs)
  then obtain s1 where s1: "loader_step w s e = Some s1" "loader_run w evs s1 = Some s'" by (auto split: option.splits)
  then show ?case using Cons.IH [OF loader.reach_step [OF Cons.prems(1) s1(1)]] by simp
qed simp

lemma run_inv: "loader_run w evs loader_init = Some s \<Longrightarrow> loader_inv w s"
  using run_reach [OF loader.reach_init [OF refl]] loader.reach_inv by fastforce

lemma run_inv_from: "loader_run w evs s = Some s' \<Longrightarrow> loader_inv w s \<Longrightarrow> loader_inv w s'"
proof (induction evs arbitrary: s)
  case (Cons e evs)
  then obtain s1 where s1: "loader_step w s e = Some s1" "loader_run w evs s1 = Some s'" by (auto split: option.splits)
  show ?case by (rule Cons.IH [OF s1(2) loader_inv_step [OF Cons.prems(2) s1(1)]])
qed simp

lemma run_append: "loader_run w (xs @ ys) s = (case loader_run w xs s of None \<Rightarrow> None | Some s' \<Rightarrow> loader_run w ys s')"
  by (induction xs arbitrary: s) (auto split: option.splits)

section \<open>Properties of the hooks\<close>

text \<open>
  C24: in every history of hook calls the service is started at most once, every executable gets
  the mailbox at most once, always the one mailbox whose ring has been initialised, and only
  after the service that answers it has been started.
\<close>

theorem hooks_augment_once:
  assumes "loader_run w evs loader_init = Some s"
  shows "length (filter is_start (ld_log s)) \<le> 1
    \<and> (\<forall>e. length (filter (defines_for e) (ld_log s)) \<le> 1)
    \<and> (\<forall>i < length (ld_log s). \<forall>e a m. ld_log s ! i = DefineMailbox e a m \<longrightarrow>
        m = ld_mbox s \<and> ld_queue s = Some queue_init \<and> StartService m \<in> set (take i (ld_log s)))"
proof -
  have inv: "loader_inv w s" by (rule run_inv [OF assms])
  have d: "m = ld_mbox s \<and> ld_queue s = Some queue_init" if "i < length (ld_log s)" "ld_log s ! i = DefineMailbox e a m" for i e a m
    using inv_defined [OF inv, of e a m] inv_up [OF inv] nth_mem [OF that(1)] that(2) by simp
  have "served_first (ld_log s)" by (rule inv_up(3) [OF inv])
  then have s: "\<forall>i < length (ld_log s). \<forall>e a m. ld_log s ! i = DefineMailbox e a m \<longrightarrow> StartService m \<in> set (take i (ld_log s))"
    by (simp add: served_first_def)
  have c: "length (filter is_start (ld_log s)) \<le> 1" "length (filter (defines_for e) (ld_log s)) \<le> 1" for e
    using inv_counts(1) [OF inv] inv_counts(2) [OF inv, of e] by simp_all
  show ?thesis using s c d by blast
qed

lemma cfg_keeps [simp]: "ld_readers (snd (cfg w s)) = ld_readers s" "ld_exes (snd (cfg w s)) = ld_exes s"
    "ld_log (snd (cfg w s)) = ld_log s"
  by (simp_all add: cfg_def Let_def split: option.splits)

lemma fatbin_keeps: "hook_register_fatbin w data s = Some r \<Longrightarrow> ld_readers (snd r) = ld_readers s"
  by (drule fatbin_call) auto

lemma ensure_keeps: "ld_readers (snd (ensure_runtime w gpu s)) = ld_readers s"
    "ld_config (snd (ensure_runtime w gpu s)) = ld_config s" "ld_exes (snd (ensure_runtime w gpu s)) = ld_exes s"
  unfolding ensure_runtime_cases by (auto simp: started_state_def Let_def split: option.splits)

lemma augment_keeps: "ld_readers (augment_executable w exe agent s) = ld_readers s"
  by (simp add: augment_executable_def Let_def split_beta)

lemma load_keeps: "ld_readers (snd (hook_load w exe agent r s)) = ld_readers s"
  by (simp add: hook_load_def Let_def split_beta ensure_keeps augment_keeps)

lemma reader_keeps: "ld_readers s \<subseteq> ld_readers (snd (hook_co_reader w data s))"
  by (auto simp: hook_co_reader_def Let_def split_beta)


lemma launch_keeps: "hook_launch w func nb db args shm stream s = Some r \<Longrightarrow> ld_readers (snd r) = ld_readers s"
  by (drule launch_call) auto

lemma step_readers: "loader_step w s e = Some s' \<Longrightarrow> ld_readers s \<subseteq> ld_readers s'"
  using reader_keeps [of s w]
  by (cases e) (auto simp: loader_step_def hook_freeze_def load_keeps hostcall_teardown_def Let_def
      dest!: fatbin_keeps launch_keeps split: if_splits)

lemma run_readers: "loader_run w evs s = Some s' \<Longrightarrow> ld_readers s \<subseteq> ld_readers s'"
proof (induction evs arbitrary: s)
  case (Cons e evs)
  then obtain s1 where s1: "loader_step w s e = Some s1" "loader_run w evs s1 = Some s'" by (auto split: option.splits)
  then show ?case using Cons.IH [OF s1(2)] step_readers [OF s1(1)] by blast
qed simp

lemma reader_detected:
  assumes "loader_inv w s" "cfg_ok (load_config (w_env w) (w_files w))"
    and "sub \<in> set (cfg_subs (load_config (w_env w) (w_files w)))"
    and "hook_co_reader w (sub_inst sub) s = ((0, r), s')"
  shows "r \<in> ld_readers s'"
proof -
  let ?C = "load_config (w_env w) (w_files w)"
  obtain st h s1 where re: "real w (ReaderCreate (sub_inst sub)) s = ((st, h), s1)" by (metis prod.exhaust)
  have i: "loader_inv w s1" using inv_real [OF assms(1), of "ReaderCreate (sub_inst sub)"] re by simp
  obtain s2 where c: "cfg w s1 = (?C, s2)" using cfg_spec [OF i] by (metis prod.collapse)
  have "list_ex (\<lambda>x. sub_inst sub = sub_inst x) (cfg_subs ?C)" using assms(3) by (auto simp: list_ex_iff)
  then show ?thesis using assms(2,4) by (auto simp: hook_co_reader_def re c split: if_splits)
qed

text \<open>The runtime can provide the mailbox: a fine-grained pool of a CPU agent whose allocations succeed.\<close>

definition runtime_ready :: "World \<Rightarrow> bool" where
  "runtime_ready w \<longleftrightarrow> fine_pool w \<noteq> None
     \<and> (\<forall>log i. fst (w_rt w log (PoolAllocate i mailbox_size)) = 0 \<and> snd (w_rt w log (PoolAllocate i mailbox_size)) \<noteq> 0)"

lemma ensure_ready: "runtime_ready w \<Longrightarrow> loader_inv w s \<Longrightarrow> fst (ensure_runtime w gpu s)"
  using inv_up(4) [of w s] by (auto simp: ensure_runtime_cases runtime_ready_def)

lemma instrumented_load_links_parts:
  assumes "loader_run w evs loader_init = Some s0" "cfg_ok (load_config (w_env w) (w_files w))"
    and "sub \<in> set (cfg_subs (load_config (w_env w) (w_files w)))"
    and "hook_co_reader w (sub_inst sub) s0 = ((0, r), s1)" "loader_run w evs' s1 = Some s2"
    and "runtime_ready w" "hook_load w exe agent r s2 = (res, s3)"
  shows "\<exists>pre a. ld_log s3 = pre @ [LoadCodeObject exe agent r]
      \<and> DefineMailbox exe a (ld_mbox s3) \<in> set pre \<and> StartService (ld_mbox s3) \<in> set pre"
    and "exe \<notin> ld_exes s2 \<Longrightarrow> \<forall>log. w_rt w log (ReaderCreate (cfg_lib (load_config (w_env w) (w_files w)))) = (0, lr) \<Longrightarrow>
      \<exists>pre. ld_log s3 = pre @ [DefineMailbox exe agent (ld_mbox s3),
        ReaderCreate (cfg_lib (load_config (w_env w) (w_files w))), LoadCodeObject exe agent lr, LoadCodeObject exe agent r]"
proof -
  let ?C = "load_config (w_env w) (w_files w)"
  have i0: "loader_inv w s0" by (rule run_inv [OF assms(1)])
  have "loader_inv w s1" using inv_co_reader [OF i0, of "sub_inst sub"] assms(4) by simp
  then have i2: "loader_inv w s2" by (rule run_inv_from [OF assms(5)])
  have r: "r \<in> ld_readers s2" using reader_detected [OF i0 assms(2,3,4)] run_readers [OF assms(5)] by blast
  obtain s where e: "ensure_runtime w agent s2 = (True, s)" using ensure_ready [OF assms(6) i2, of agent] by (metis prod.collapse)
  have i: "loader_inv w s" using inv_ensure [OF i2, of agent] e by simp
  have st: "ld_started s" by (rule ensure_started [OF e])
  have keep: "ld_exes s = ld_exes s2" "ld_readers s = ld_readers s2" using ensure_keeps [of w agent s2] e by simp_all
  then have config: "ld_config s = Some ?C" using i r by (auto simp: loader_inv_def)
  let ?aug = "augment_executable w exe agent (s\<lparr>ld_exes := insert exe (ld_exes s)\<rparr>)"
  have s3: "s3 = snd (real w (LoadCodeObject exe agent r) (if exe \<in> ld_exes s2 then s else ?aug))"
    using assms(7) r by (simp add: hook_load_def Let_def e keep split: if_splits)
  have m: "ld_mbox ?aug = ld_mbox s" by (simp add: augment_executable_def Let_def split_beta)
  show "\<exists>pre a. ld_log s3 = pre @ [LoadCodeObject exe agent r]
      \<and> DefineMailbox exe a (ld_mbox s3) \<in> set pre \<and> StartService (ld_mbox s3) \<in> set pre"
  proof (cases "exe \<in> ld_exes s2")
    case True
    then have "length (filter (defines_for exe) (ld_log s)) = 1" using inv_counts(2) [OF i, of exe] keep by simp
    then obtain c where c: "c \<in> set (ld_log s)" "defines_for exe c"
      by (metis filter_False length_0_conv zero_neq_one)
    then obtain a b where ab: "c = DefineMailbox exe a b" unfolding defines_for_iff by blast
    then have "b = ld_mbox s" using inv_defined [OF i] c(1) by blast
    then show ?thesis using True s3 c(1) ab inv_up(2) [OF i st] by auto
  next
    case False
    obtain cs where cs: "ld_log ?aug = ld_log s @ DefineMailbox exe agent (ld_mbox s) # cs"
      using augment_calls [of w exe agent "s\<lparr>ld_exes := insert exe (ld_exes s)\<rparr>"] by auto
    then show ?thesis using False s3 m inv_up(2) [OF i st] by auto
  qed
  show "\<exists>pre. ld_log s3 = pre @ [DefineMailbox exe agent (ld_mbox s3), ReaderCreate (cfg_lib ?C),
      LoadCodeObject exe agent lr, LoadCodeObject exe agent r]"
    if "exe \<notin> ld_exes s2" "\<forall>log. w_rt w log (ReaderCreate (cfg_lib ?C)) = (0, lr)"
  proof -
    have "ld_log ?aug = ld_log s @ [DefineMailbox exe agent (ld_mbox s), ReaderCreate (cfg_lib ?C), LoadCodeObject exe agent lr]"
      using config that(2) by (simp add: augment_executable_def Let_def real_def)
    then show ?thesis using s3 that(1) m by simp
  qed
qed

text \<open>
  C25: a code object reader made from an instrumented code object is recognised whenever its
  executable is loaded later, whatever happened before and in between: the load comes after the
  start of the service and a definition of the mailbox in that executable. A first load links
  the executable completely: the mailbox on this agent, then the hostcall library, then the
  instrumented code.
\<close>

theorem instrumented_load_links:
  assumes "loader_run w evs loader_init = Some s0" "cfg_ok (load_config (w_env w) (w_files w))"
    and "sub \<in> set (cfg_subs (load_config (w_env w) (w_files w)))"
    and "hook_co_reader w (sub_inst sub) s0 = ((0, r), s1)" "loader_run w evs' s1 = Some s2"
    and "runtime_ready w" "hook_load w exe agent r s2 = (res, s3)"
  shows "(\<exists>pre a. ld_log s3 = pre @ [LoadCodeObject exe agent r]
      \<and> DefineMailbox exe a (ld_mbox s3) \<in> set pre \<and> StartService (ld_mbox s3) \<in> set pre) \<and>
    (exe \<notin> ld_exes s2 \<longrightarrow> (\<forall>log. w_rt w log (ReaderCreate (cfg_lib (load_config (w_env w) (w_files w)))) = (0, lr)) \<longrightarrow>
      (\<exists>pre. ld_log s3 = pre @ [DefineMailbox exe agent (ld_mbox s3),
        ReaderCreate (cfg_lib (load_config (w_env w) (w_files w))), LoadCodeObject exe agent lr, LoadCodeObject exe agent r]))"
  by (rule conjI, rule instrumented_load_links_parts(1) [OF assms], rule impI, rule impI, rule instrumented_load_links_parts(2) [OF assms])


text \<open>
  C26: the application's fat binary is exchanged for the instrumented bundle of the first
  substitution whose original is its device code object, and passed on unchanged when there
  is none, when it holds no device code, or when it is no bundle; the rest of the wrapper is kept.
\<close>

theorem fatbin_substituted:
  assumes "loader_run w evs loader_init = Some s" "cfg_ok (load_config (w_env w) (w_files w))"
    and "fw_binary wr = Some p" "bundle_ok p es"
  shows "hook_register_fatbin w (Some wr) s = Some (real w (RegisterFatBinary (Some
     (case device_of es of None \<Rightarrow> wr
      | Some (off, sz) \<Rightarrow>
          (case find (\<lambda>sub. sub_orig sub = take sz (drop off p)) (cfg_subs (load_config (w_env w) (w_files w))) of
             None \<Rightarrow> wr | Some sub \<Rightarrow> wr\<lparr>fw_binary := Some (sub_bundle sub)\<rparr>)))) (snd (cfg w s)))"
proof -
  have c: "cfg w s = (load_config (w_env w) (w_files w), snd (cfg w s))"
    using cfg_spec [OF run_inv [OF assms(1)]] by (metis prod.collapse)
  note b = bundle_device_co_spec [OF assms(4)]
  show ?thesis
  proof (cases "device_of es")
    case None
    then show ?thesis by (subst hook_register_fatbin_def, subst c) (simp add: assms(2,3) b)
  next
    case (Some d)
    obtain off sz where d: "d = (off, sz)" by (cases d)
    have "\<exists>triple. (off, sz, triple) \<in> set es"
    proof -
      have ne: "filter is_device es \<noteq> []" using Some by (auto simp: device_of_def split: list.splits)
      have l: "fst (last (filter is_device es)) = off \<and> fst (snd (last (filter is_device es))) = sz"
        using Some ne by (auto simp: device_of_def d split: list.splits prod.splits)
      show ?thesis using last_in_set [OF ne] l by (metis filter_is_subset prod.collapse subsetD)
    qed
    then have "off + sz \<le> length p" using assms(4) by (auto simp: bundle_ok_def)
    note m = match_orig_spec [OF this]
    show ?thesis by (subst hook_register_fatbin_def, subst c) (simp add: assms(2,3) b Some d m split: option.split)
  qed
qed


section \<open>The per-wave buffer of a launch\<close>

lemma sym_loop_u32: "sym_loop fuel b symoff symsz syment stroff strsz name o' = Some (Some v) \<Longrightarrow> v < 2 ^ 32"
  by (induction fuel arbitrary: o') (auto simp: bind_eq_Some_conv split: if_splits)

lemma sections_from_prop:
  "sections_from f n i = Some (Some v) \<Longrightarrow> (\<And>i v. f i = Some (Some v) \<Longrightarrow> P v) \<Longrightarrow> P v"
  by (induction n arbitrary: i) (auto split: option.splits)

lemma co_read_symbol_u32_bound: "co_read_symbol_u32 file name d = Some v \<Longrightarrow> d < 2 ^ 32 \<Longrightarrow> v < 2 ^ 32"
proof -
  assume a: "co_read_symbol_u32 file name d = Some v" "d < 2 ^ 32"
  have s: "sym_section b shoff shentsize shnum name i = Some (Some x) \<Longrightarrow> x < 2 ^ 32" for b shoff shentsize shnum i x
    by (auto simp: sym_section_def Let_def bind_eq_Some_conv dest: sym_loop_u32 split: if_splits)
  show ?thesis using a s sections_from_prop [where P = "\<lambda>x. x < 2 ^ 32"]
    by (fastforce simp: co_read_symbol_u32_def over_sections_def or_default_def split: option.splits)
qed

lemma unat_u64: "n < 2 ^ 64 \<Longrightarrow> unat (of_nat n :: u64) = n"
  by (simp add: unat_of_nat take_bit_nat_eq_self)

lemma u64_div64: "x < 2 ^ 64 \<Longrightarrow> (of_nat x :: u64) div 64 = of_nat (x div 64)"
proof (rule word_unat_eq_iff [THEN iffD2])
  assume x: "x < 2 ^ 64"
  then have "unat (of_nat x :: u64) = x" "unat (of_nat (x div 64) :: u64) = x div 64"
    using unat_u64 [of x] unat_u64 [of "x div 64"] by simp_all
  then show "unat ((of_nat x :: u64) div 64) = unat (of_nat (x div 64) :: u64)" by (simp only: unat_div) simp
qed

lemma launch_waves_nat:
  assumes "launch_fits cx"
  shows "launch_waves (cx_gridDim cx) (cx_blockDim cx) = of_nat (grid_blocks cx * waves_per_block cx)"
proof -
  let ?B = "block_threads cx"
  have B: "?B + 63 < 2 ^ 32" using assms by (simp add: launch_fits_def)
  have u: "(ucast (dx d) * ucast (dy d) * ucast (dz d) :: u64) = of_nat (unat (dx d) * unat (dy d) * unat (dz d))" for d
    by (simp only: of_nat_mult of_nat_unat)
  have "(of_nat ?B + 63 :: u64) = of_nat (?B + 63)" by simp
  moreover have "(of_nat (?B + 63) :: u64) div 64 = of_nat ((?B + 63) div 64)"
    using B by (intro u64_div64) simp
  ultimately show ?thesis unfolding launch_waves_def Let_def u
    by (simp add: block_threads_def [symmetric] grid_blocks_def [symmetric] waves_per_block_def)
qed

definition slice :: "nat \<Rightarrow> wave_ctx \<Rightarrow> nat set" where
  "slice stride cx = {unat (global_wavefront_id cx) * stride ..< unat (global_wavefront_id cx) * stride + stride}"

lemma launch_gives_every_wave_a_slice_parts:
  assumes "pw_nargs w = Some (int n)" "pw_stride w = Some stride" "n \<le> length xs"
    and "launch_fits cx" "launch_fits cx'" "cx_blockDim cx' = cx_blockDim cx" "cx_gridDim cx' = cx_gridDim cx"
    and "sz = launch_waves (cx_gridDim cx) (cx_blockDim cx) * of_nat stride"
    and "w_rt w (ld_log s) (MallocManaged sz) = (0, buf)" "buf \<noteq> 0"
  shows "map_option (ld_log \<circ> snd) (hook_launch w func (cx_gridDim cx) (cx_blockDim cx) (Some xs) shm stream s) =
      Some (ld_log s @ [MallocManaged sz,
        LaunchKernel func (cx_gridDim cx) (cx_blockDim cx) (Some (map AppArg (take n xs) @ [BufArg buf])) shm stream])"
    and "slice stride cx \<subseteq> {0 ..< unat sz}"
    and "slice stride cx \<inter> slice stride cx' \<noteq> {} \<Longrightarrow>
      linear3 (cx_blockIdx cx) (cx_gridDim cx) = linear3 (cx_blockIdx cx') (cx_gridDim cx') \<and>
      linear3 (cx_threadIdx cx) (cx_blockDim cx) div 64 = linear3 (cx_threadIdx cx') (cx_blockDim cx') div 64"
proof -
  let ?W = "grid_blocks cx * waves_per_block cx" and ?w = "waves_per_block cx"
  have st: "stride < 2 ^ 32"
    by (rule co_read_symbol_u32_bound [of _ _ 4096]) (use assms(2) in \<open>simp_all add: pw_stride_def\<close>)
  have W: "?W < 2 ^ 32" using assms(4) by (simp add: launch_fits_def)
  have "?W * stride < 2 ^ 32 * 2 ^ 32" using mult_strict_mono [OF W st] by simp
  moreover have "sz = of_nat (?W * stride)" by (simp add: assms(8) launch_waves_nat [OF assms(4)])
  ultimately have sz: "unat sz = ?W * stride" using unat_u64 [of "?W * stride"] by simp
  show "map_option (ld_log \<circ> snd) (hook_launch w func (cx_gridDim cx) (cx_blockDim cx) (Some xs) shm stream s) =
      Some (ld_log s @ [MallocManaged sz,
        LaunchKernel func (cx_gridDim cx) (cx_blockDim cx) (Some (map AppArg (take n xs) @ [BufArg buf])) shm stream])"
    using assms(1,2,3,9,10) unfolding hook_launch_def by (simp add: Let_def real_def assms(8) [symmetric])
  have w': "waves_per_block cx' = ?w" by (simp add: waves_per_block_def block_threads_def assms(6))
  note a = wavefront_id_nat [OF assms(4)] and b = wavefront_id_nat [OF assms(5), unfolded w']
  have "unat (global_wavefront_id cx) < Suc (linear3 (cx_blockIdx cx) (cx_gridDim cx)) * ?w"
    using a(1,2) by simp
  also have "\<dots> \<le> ?W" using a(3) by (intro mult_le_mono1) simp
  finally have "Suc (unat (global_wavefront_id cx)) * stride \<le> ?W * stride" by (intro mult_le_mono1) simp
  then show "slice stride cx \<subseteq> {0 ..< unat sz}" unfolding slice_def sz by auto
  assume "slice stride cx \<inter> slice stride cx' \<noteq> {}"
  then have "unat (global_wavefront_id cx) = unat (global_wavefront_id cx')"
  proof (rule contrapos_np)
    assume ne: "unat (global_wavefront_id cx) \<noteq> unat (global_wavefront_id cx')"
    have disj: "{x * stride ..< x * stride + stride} \<inter> {y * stride ..< y * stride + stride} = {}" if "x < y" for x y :: nat
      using mult_le_mono1 [of "Suc x" y stride] that by (simp add: ivl_disj_int)
    consider "unat (global_wavefront_id cx) < unat (global_wavefront_id cx')"
      | "unat (global_wavefront_id cx') < unat (global_wavefront_id cx)" using ne by linarith
    then show "slice stride cx \<inter> slice stride cx' = {}" unfolding slice_def
      by cases (use disj in \<open>blast+\<close>)
  qed
  then show "linear3 (cx_blockIdx cx) (cx_gridDim cx) = linear3 (cx_blockIdx cx') (cx_gridDim cx') \<and>
      linear3 (cx_threadIdx cx) (cx_blockDim cx) div 64 = linear3 (cx_threadIdx cx') (cx_blockDim cx') div 64"
    by (simp only: a(1) b(1) mixed_radix [OF a(2) b(2)])
qed

text \<open>
  C27: when the launch of an instrumented kernel is extended, the kernel gets its own arguments
  followed by the buffer, and the buffer has exactly one slice of \<open>__dyninst_pw_stride\<close> bytes for
  every wave: the slice at the wave's global wavefront id lies in the buffer, and two lanes whose
  slices meet are in the same wave of the same block. No 64-bit product wraps.
\<close>

theorem launch_gives_every_wave_a_slice:
  assumes "pw_nargs w = Some (int n)" "pw_stride w = Some stride" "n \<le> length xs"
    and "launch_fits cx" "launch_fits cx'" "cx_blockDim cx' = cx_blockDim cx" "cx_gridDim cx' = cx_gridDim cx"
    and "sz = launch_waves (cx_gridDim cx) (cx_blockDim cx) * of_nat stride"
    and "w_rt w (ld_log s) (MallocManaged sz) = (0, buf)" "buf \<noteq> 0"
  shows "map_option (ld_log \<circ> snd) (hook_launch w func (cx_gridDim cx) (cx_blockDim cx) (Some xs) shm stream s) =
      Some (ld_log s @ [MallocManaged sz,
        LaunchKernel func (cx_gridDim cx) (cx_blockDim cx) (Some (map AppArg (take n xs) @ [BufArg buf])) shm stream]) \<and>
    slice stride cx \<subseteq> {0 ..< unat sz} \<and>
    (slice stride cx \<inter> slice stride cx' \<noteq> {} \<longrightarrow>
      linear3 (cx_blockIdx cx) (cx_gridDim cx) = linear3 (cx_blockIdx cx') (cx_gridDim cx') \<and>
      linear3 (cx_threadIdx cx) (cx_blockDim cx) div 64 = linear3 (cx_threadIdx cx') (cx_blockDim cx') div 64)"
  by (rule conjI, rule launch_gives_every_wave_a_slice_parts(1) [OF assms], rule conjI, rule launch_gives_every_wave_a_slice_parts(2) [OF assms], rule impI, rule launch_gives_every_wave_a_slice_parts(3) [OF assms])

lemma other_kernels_altered_parts:
  assumes "pw_nargs w = Some (int n)" "pw_stride w = Some stride"
    and "\<forall>log sz. fst (w_rt w log (MallocManaged sz)) = 0 \<and> snd (w_rt w log (MallocManaged sz)) \<noteq> 0"
  shows "n < length xs \<Longrightarrow> \<exists>r buf pre. hook_launch w func nb db (Some xs) shm stream s = Some r
      \<and> ld_log (snd r) = pre @ [LaunchKernel func nb db (Some (map AppArg (take n xs) @ [BufArg buf])) shm stream]"
    and "length xs < n \<Longrightarrow> hook_launch w func nb db (Some xs) shm stream s = None"
proof -
  let ?sz = "launch_waves nb db * of_nat stride"
  obtain buf where m: "w_rt w (ld_log s) (MallocManaged ?sz) = (0, buf)" "buf \<noteq> 0"
    using assms(3) by (metis prod.collapse)
  show "\<exists>r buf pre. hook_launch w func nb db (Some xs) shm stream s = Some r
      \<and> ld_log (snd r) = pre @ [LaunchKernel func nb db (Some (map AppArg (take n xs) @ [BufArg buf])) shm stream]"
    if "n < length xs"
    using that assms(1,2) m unfolding hook_launch_def by (simp add: Let_def real_def)
  show "hook_launch w func nb db (Some xs) shm stream s = None" if "length xs < n"
    using that assms(1,2) m unfolding hook_launch_def by (simp add: Let_def real_def)
qed

text \<open>
  The hook never looks at the kernel that is launched. Once the configured code object has a
  per-wave buffer and \<open>n\<close> explicit arguments, a launch of another kernel with more arguments loses
  all from number \<open>n\<close> on to the buffer, and for one with fewer the hook reads past the argument array;
  one with exactly \<open>n\<close> arguments keeps them all.
\<close>

theorem other_kernels_altered:
  assumes "pw_nargs w = Some (int n)" "pw_stride w = Some stride"
    and "\<forall>log sz. fst (w_rt w log (MallocManaged sz)) = 0 \<and> snd (w_rt w log (MallocManaged sz)) \<noteq> 0"
  shows "(n < length xs \<longrightarrow> (\<exists>r buf pre. hook_launch w func nb db (Some xs) shm stream s = Some r
      \<and> ld_log (snd r) = pre @ [LaunchKernel func nb db (Some (map AppArg (take n xs) @ [BufArg buf])) shm stream])) \<and>
    (length xs < n \<longrightarrow> hook_launch w func nb db (Some xs) shm stream s = None)"
  by (rule conjI, rule impI, rule other_kernels_altered_parts(1) [OF assms], assumption, rule impI, rule other_kernels_altered_parts(2) [OF assms])


section \<open>A concrete world\<close>

text \<open>
  An instrumented code object with the stride symbol (64), two explicit arguments and a hidden
  one; a configuration with one substitution; a runtime in which every call succeeds.
\<close>

definition demo_inst_co :: bytes where
  "demo_inst_co = elf_magic @ [2] @ replicate 35 0 @ [64, 0, 0, 0, 0, 0, 0, 0] @ replicate 10 0 @ [64, 0, 3, 0, 0, 0] @
     [0, 0, 0, 0, 2, 0, 0, 0] @ replicate 16 0 @ [0, 1, 0, 0, 0, 0, 0, 0] @ [48, 0, 0, 0, 0, 0, 0, 0] @
       [1, 0, 0, 0] @ replicate 12 0 @ [24, 0, 0, 0, 0, 0, 0, 0] @
     [0, 0, 0, 0, 3, 0, 0, 0] @ replicate 16 0 @ [48, 1, 0, 0, 0, 0, 0, 0] @ [21, 0, 0, 0, 0, 0, 0, 0] @ replicate 24 0 @
     [0, 0, 0, 0, 7, 0, 0, 0] @ replicate 16 0 @ [69, 1, 0, 0, 0, 0, 0, 0] @ [54, 0, 0, 0, 0, 0, 0, 0] @ replicate 24 0 @
     replicate 24 0 @ [1, 0, 0, 0, 0, 0, 0, 0] @ [64, 0, 0, 0, 0, 0, 0, 0] @ replicate 8 0 @
     [0] @ pw_stride_name @ [0] @ args_bytes demo_args @ [0]"

lemma demo_inst_co_ok:
  "length demo_inst_co = 379" "headers_ok demo_inst_co 64 64 3" "symbols_ok demo_inst_co 64 64 3"
  "elf_symbols demo_inst_co 64 64 3 = [(pw_stride_name, 64)]"
  "note_section demo_inst_co (64 + 2 * 64) 325 54" "take 54 (drop 325 demo_inst_co) = args_bytes demo_args @ [0]"
  "\<forall>j < 2. field 4 demo_inst_co (64 + j * 64 + 4) \<noteq> 7"
proof -
  show len: "length demo_inst_co = 379" by code_simp
  have hd: "take 4 demo_inst_co = elf_magic" "demo_inst_co ! 4 = 2" "field 8 demo_inst_co 0x28 = 64"
    "field 2 demo_inst_co 0x3a = 64" "field 2 demo_inst_co 0x3c = 3" by code_simp+
  have s0: "field 4 demo_inst_co (64 + 4) = 2" "field 8 demo_inst_co (64 + 0x18) = 256" "field 8 demo_inst_co (64 + 0x20) = 48"
    "field 4 demo_inst_co (64 + 0x28) = 1" "field 8 demo_inst_co (64 + 0x38) = 24" by code_simp+
  have s1: "field 4 demo_inst_co (128 + 4) = 3" "field 8 demo_inst_co (128 + 0x18) = 304"
    "field 8 demo_inst_co (128 + 0x20) = 21" "demo_inst_co ! 324 = 0" by code_simp+
  have s2: "field 4 demo_inst_co (192 + 4) = 7" "field 8 demo_inst_co (192 + 0x18) = 325"
    "field 8 demo_inst_co (192 + 0x20) = 54" by code_simp+
  show "headers_ok demo_inst_co 64 64 3" using hd by (simp add: headers_ok_def len)
  have all3: "(\<forall>i < 3. P i) \<longleftrightarrow> P 0 \<and> P (1 :: nat) \<and> P 2" for P by (auto simp: numeral_3_eq_3 less_Suc_eq numeral_2_eq_2)
  show "symbols_ok demo_inst_co 64 64 3"
    unfolding symbols_ok_def all3 using s0 s1 s2 by (simp add: Let_def is_symtab_def len)
  show "elf_symbols demo_inst_co 64 64 3 = [(pw_stride_name, 64)]" by code_simp
  show "note_section demo_inst_co (64 + 2 * 64) 325 54" using s2 by (simp add: note_section_def len)
  show "take 54 (drop 325 demo_inst_co) = args_bytes demo_args @ [0]" by code_simp
  show "\<forall>j < 2. field 4 demo_inst_co (64 + j * 64 + 4) \<noteq> 7" using s0 s1 by (auto simp: less_2_cases_iff)
qed

definition demo_world :: World where
  "demo_world = \<lparr>w_env = demo_environ(''HOSTCALL_INST_CO'' := Some ''i''),
     w_files = demo_files(''i'' := Some \<lparr>file_size = 379, file_data = demo_inst_co\<rparr>),
     w_agents = [\<lparr>agent_id = 1, agent_cpu = False, agent_pools = []\<rparr>,
       \<lparr>agent_id = 2, agent_cpu = True, agent_pools = [\<lparr>pool_id = 10, pool_global = False, pool_fine = True\<rparr>,
          \<lparr>pool_id = 11, pool_global = True, pool_fine = True\<rparr>]\<rparr>],
     w_rt = (\<lambda>log c. case c of PoolAllocate p n \<Rightarrow> (0, 4096) | MallocManaged n \<Rightarrow> (0, 65536)
       | ReaderCreate b \<Rightarrow> (0, if b = [7] then 7 else 8) | _ \<Rightarrow> (0, 0))\<rparr>"

definition demo_sub :: Sub where
  "demo_sub = \<lparr>sub_orig = [1, 2], sub_inst = [3], sub_bundle = [4], sub_tag = ''a''\<rparr>"

lemma demo_config:
  "load_config (w_env demo_world) (w_files demo_world) = \<lparr>cfg_lib = [7], cfg_subs = [demo_sub], cfg_ok = True\<rparr>"
proof -
  let ?fs = "w_files demo_world"
  have e: "w_env demo_world ''HOSTCALL_LIB'' = Some ''lib''" "w_env demo_world ''HOSTCALL_MANIFEST'' = Some ''m''"
    by (simp_all add: demo_world_def demo_environ_def)
  have f: "slurp ?fs ''lib'' [] = (True, [7])" "slurp ?fs ''a'' [] = (True, [1, 2])" "slurp ?fs ''b'' [] = (True, [3])"
      "slurp ?fs ''c'' [] = (True, [4])" "\<exists>x. slurp ?fs ''x'' [] = (False, x)"
    by (simp_all add: demo_world_def demo_files_def slurp_def Let_def)
  obtain m where m: "?fs ''m'' = Some m" "chars (file_data m) = ''a b c'' @ [CHR 0x0A] @ ''a x c'' @ [CHR 0x0A]"
    by (simp add: demo_world_def demo_files_def chars_def char_of_eq_iff)
  have l: "manifest_lines (''a b c'' @ [CHR 0x0A] @ ''a x c'' @ [CHR 0x0A]) = [(''a'', ''b'', ''c''), (''a'', ''x'', ''c'')]"
    by (simp add: manifest_lines.simps scan_token_def isspace_def cstr_def)
  have "fold (\<lambda>(a, b, c). add_sub ?fs a b c) (manifest_lines (chars (file_data m))) [] = [demo_sub]"
    unfolding m(2) l using f by (auto simp: add_sub_def demo_sub_def)
  then show ?thesis using f(1) by (simp add: load_config_def e m(1))
qed

lemma demo_launch: "pw_nargs demo_world = Some (int 2)" "pw_stride demo_world = Some 64"
proof -
  have f: "inst_co demo_world = Some demo_inst_co"
    using demo_inst_co_ok(1) by (simp add: inst_co_def demo_world_def slurp_def Let_def)
  have n0: "0 \<notin> set pw_stride_name" by code_simp
  have s: "co_read_symbol_u32 (Some demo_inst_co) pw_stride_name d = Some 64" for d
    using co_read_symbol_u32_ok [OF demo_inst_co_ok(2,3) n0, of d] by (simp add: demo_inst_co_ok(4))
  have "gap_ok [9]" "gap_ok []" by (simp_all add: gap_ok_def value_kind_key_def)
  moreover have "gap_ok [8, 8]" unfolding gap_ok_def by (auto simp: value_kind_key_def less_Suc_eq)
  ultimately have g: "\<forall>(g, k) \<in> set demo_args. gap_ok g \<and> length k < 32"
    by (simp add: demo_args_def hidden_prefix_def)
  have t: "tail_ok [0]" "demo_args \<noteq> []" by (simp_all add: tail_ok_def demo_args_def)
  have "co_read_explicit_arg_count (Some demo_inst_co) (- 1) = Some 2"
    using co_read_explicit_arg_count_ok [OF demo_inst_co_ok(2) _ demo_inst_co_ok(7,5,6) t(2,1) g, of "- 1"]
    by (simp add: demo_args_def is_hidden_def hidden_prefix_def)
  with s f show "pw_nargs demo_world = Some (int 2)" "pw_stride demo_world = Some 64"
    by (simp_all add: pw_nargs_def pw_stride_def)
qed



lemma demo_rt [simp]:
  "w_rt demo_world log (ReaderCreate b) = (0, if b = [7] then 7 else 8)"
  "w_rt demo_world log (LoadCodeObject e a r) = (0, 0)" "w_rt demo_world log (DefineMailbox e a m) = (0, 0)"
  "w_rt demo_world log (PoolAllocate p n) = (0, 4096)" "w_rt demo_world log (AllowAccess a m) = (0, 0)"
  "w_rt demo_world log (StartService m) = (0, 0)" "w_rt demo_world log JoinService = (0, 0)"
  "w_rt demo_world log (MallocManaged k) = (0, 65536)" "w_rt demo_world log (LaunchKernel f nb db as x y) = (0, 0)"
  by (simp_all add: demo_world_def)

lemma demo_ready: "runtime_ready demo_world"
  by (simp add: runtime_ready_def) (simp add: fine_pool_def demo_world_def)

lemma demo_reader:
  "hook_co_reader demo_world [3] loader_init = ((0, 8), loader_init\<lparr>ld_log := [ReaderCreate [3]],
     ld_config := Some \<lparr>cfg_lib = [7], cfg_subs = [demo_sub], cfg_ok = True\<rparr>, ld_readers := {8}\<rparr>)"
  by (simp add: hook_co_reader_def real_def cfg_def loader_init_def demo_config Let_def) (simp add: demo_sub_def)

definition demo_loaded :: Loader where
  "demo_loaded = snd (hook_load demo_world 21 5 8 (snd (hook_co_reader demo_world [3] loader_init)))"

lemma demo_loaded_exes: "ld_exes demo_loaded = {21}" "ld_started demo_loaded" "ld_mbox demo_loaded = 4096"
  "ld_log demo_loaded = [ReaderCreate [3], PoolAllocate 11 mailbox_size, AllowAccess 5 4096, StartService 4096,
     DefineMailbox 21 5 4096, ReaderCreate [7], LoadCodeObject 21 5 7, LoadCodeObject 21 5 8]"
proof -
  have fg: "fine_pool demo_world = Some \<lparr>pool_id = 11, pool_global = True, pool_fine = True\<rparr>"
    by (simp add: fine_pool_def demo_world_def)
  show "ld_exes demo_loaded = {21}" "ld_started demo_loaded" "ld_mbox demo_loaded = 4096"
    "ld_log demo_loaded = [ReaderCreate [3], PoolAllocate 11 mailbox_size, AllowAccess 5 4096, StartService 4096,
     DefineMailbox 21 5 4096, ReaderCreate [7], LoadCodeObject 21 5 7, LoadCodeObject 21 5 8]"
    unfolding demo_loaded_def demo_reader
    by (simp_all add: hook_load_def ensure_runtime_cases fg started_state_def augment_executable_def real_def
        loader_init_def Let_def)
qed

lemma hooks_augment_once_witness:
  "length (filter (defines_for 21) (ld_log demo_loaded)) \<le> 1 \<and> DefineMailbox 21 5 4096 \<in> set (ld_log demo_loaded)
    \<and> ld_queue demo_loaded = Some queue_init"
proof -
  have r: "loader_run demo_world [EvReader [3], EvLoad 21 5 8] loader_init = Some demo_loaded"
    by (simp add: loader_step_def demo_loaded_def)
  have "ld_log demo_loaded ! 4 = DefineMailbox 21 5 4096" "4 < length (ld_log demo_loaded)" by (simp_all add: demo_loaded_exes)
  then have "ld_queue demo_loaded = Some queue_init" using hooks_augment_once [OF r] by blast
  moreover have "length (filter (defines_for 21) (ld_log demo_loaded)) \<le> 1" using hooks_augment_once [OF r] by blast
  ultimately show ?thesis by (simp add: demo_loaded_exes(4))
qed

lemma instrumented_load_links_witness:
  "\<exists>pre. ld_log demo_loaded = pre @ [DefineMailbox 21 5 4096, ReaderCreate [7], LoadCodeObject 21 5 7, LoadCodeObject 21 5 8]"
proof -
  let ?s1 = "snd (hook_co_reader demo_world [3] loader_init)"
  have a: "loader_run demo_world [] loader_init = Some loader_init" "loader_run demo_world [] ?s1 = Some ?s1"
      "hook_co_reader demo_world (sub_inst demo_sub) loader_init = ((0, 8), ?s1)"
      "hook_load demo_world 21 5 8 ?s1 = (fst (hook_load demo_world 21 5 8 ?s1), demo_loaded)"
    by (simp_all add: demo_loaded_def demo_sub_def demo_reader)
  have c: "cfg_ok (load_config (w_env demo_world) (w_files demo_world))"
      "demo_sub \<in> set (cfg_subs (load_config (w_env demo_world) (w_files demo_world)))"
    by (simp_all add: demo_config)
  have n: "21 \<notin> ld_exes ?s1" by (simp add: demo_reader) (simp add: loader_init_def)
  have l: "\<forall>log. w_rt demo_world log (ReaderCreate (cfg_lib (load_config (w_env demo_world) (w_files demo_world)))) = (0, 7)"
    by (simp add: demo_config)
  note t = instrumented_load_links [OF a(1) c a(3,2) demo_ready a(4)]
  show ?thesis using t [THEN conjunct2, rule_format, OF n, OF l [rule_format]]
    by (simp add: demo_config demo_loaded_exes(3))
qed

definition demo_bundle :: bytes where
  "demo_bundle = bundle_magic @ le_bytes 8 1 @ entry_bytes (62, 2, amdgcn) @ [1, 2]"

lemma fatbin_substituted_witness:
  "map_option (\<lambda>r. last (ld_log (snd r))) (hook_register_fatbin demo_world
      (Some \<lparr>fw_magic = 0x48, fw_version = 1, fw_binary = Some demo_bundle, fw_dummy = 0\<rparr>) loader_init) =
    Some (RegisterFatBinary (Some \<lparr>fw_magic = 0x48, fw_version = 1, fw_binary = Some [4], fw_dummy = 0\<rparr>))"
proof -
  let ?wr = "\<lparr>fw_magic = 0x48, fw_version = 1, fw_binary = Some demo_bundle, fw_dummy = 0\<rparr>"
  have l: "length demo_bundle = 64" by (simp add: demo_bundle_def entry_bytes_def)
  have b: "bundle_ok demo_bundle [(62, 2, amdgcn)]"
    by (simp add: bundle_ok_def l) (simp add: demo_bundle_def starts_with_iff)
  have p: "take 2 (drop 62 demo_bundle) = [1, 2]" by (simp add: demo_bundle_def entry_bytes_def)
  have d: "device_of [(62, 2, amdgcn)] = Some (62, 2)"
    by (simp add: device_of_def is_device_def contains_sub_iff) (metis append_Nil append_Nil2)
  have r: "loader_run demo_world [] loader_init = Some loader_init" by simp
  show ?thesis using fatbin_substituted [OF r, of ?wr demo_bundle "[(62, 2, amdgcn)]"] b p d
    by (simp add: demo_config) (simp add: demo_sub_def)
qed

lemma launch_gives_every_wave_a_slice_witness:
  "slice 64 (demo_ctx 2 5) \<subseteq> {0 ..< 1536} \<and> slice 64 (demo_ctx 2 5) \<inter> slice 64 (demo_ctx 2 64) = {}
    \<and> map_option (ld_log \<circ> snd) (hook_launch demo_world 9 (cx_gridDim (demo_ctx 2 5)) (cx_blockDim (demo_ctx 2 5)) (Some [21, 22]) 0 0 loader_init) =
      Some [MallocManaged 1536, LaunchKernel 9 (cx_gridDim (demo_ctx 2 5)) (cx_blockDim (demo_ctx 2 5))
        (Some [AppArg 21, AppArg 22, BufArg 65536]) 0 0]"
proof -
  have f: "launch_fits (demo_ctx 2 5)" "launch_fits (demo_ctx 2 64)"
    by (simp_all add: launch_fits_def demo_ctx_def in_dims_def block_threads_def grid_blocks_def waves_per_block_def)
  have w: "launch_waves (cx_gridDim (demo_ctx 2 5)) (cx_blockDim (demo_ctx 2 5)) = 24"
    by (simp add: launch_waves_def demo_ctx_def)
  have e: "(1536 :: u64) = launch_waves (cx_gridDim (demo_ctx 2 5)) (cx_blockDim (demo_ctx 2 5)) * of_nat 64" by (simp add: w)
  have l: "2 \<le> length [21, 22 :: nat]" "cx_blockDim (demo_ctx 2 64) = cx_blockDim (demo_ctx 2 5)"
      "cx_gridDim (demo_ctx 2 64) = cx_gridDim (demo_ctx 2 5)" "(65536 :: nat) \<noteq> 0"
    by (simp_all add: demo_ctx_def)
  have m: "w_rt demo_world (ld_log loader_init) (MallocManaged 1536) = (0, 65536)" by simp
  note t = launch_gives_every_wave_a_slice [OF demo_launch l(1) f l(2,3) e m l(4)]
  have "linear3 (cx_threadIdx (demo_ctx 2 5)) (cx_blockDim (demo_ctx 2 5)) div 64
      \<noteq> linear3 (cx_threadIdx (demo_ctx 2 64)) (cx_blockDim (demo_ctx 2 64)) div 64"
    by (simp add: demo_ctx_def linear3_def)
  then have "slice 64 (demo_ctx 2 5) \<inter> slice 64 (demo_ctx 2 64) = {}" using t [THEN conjunct2, THEN conjunct2] by metis
  then show ?thesis using t [THEN conjunct1] t [THEN conjunct2, THEN conjunct1] by (simp add: loader_init_def)
qed

lemma other_kernels_altered_witness:
  "\<forall>nb db. \<exists>r buf pre. hook_launch demo_world 9 nb db (Some [21, 22, 23]) 0 0 loader_init = Some r
      \<and> ld_log (snd r) = pre @ [LaunchKernel 9 nb db (Some [AppArg 21, AppArg 22, BufArg buf]) 0 0]"
  using other_kernels_altered [OF demo_launch, THEN conjunct1, of "[21, 22, 23]" 9 _ _ 0 0 loader_init] by simp

end
