(* ===== verification/Loader_Race.thy ===== *)
theory Loader_Race
  imports Loader_Hooks
begin

text \<open>
  The one operation of the loader hooks (\<open>hostcall_hooks.h\<close>) that runs without the lock:
  \<open>ensure_runtime\<close> called by two application threads at the same time, on the state and the runtime
  of \<open>Loader_Hooks\<close>.
\<close>

section \<open>The steps of one call\<close>

text \<open>
  \<open>hook_load\<close> releases \<open>g_mtx\<close> before it calls \<open>ensure_runtime\<close>, so two application threads can
  run it interleaved. A call is cut at every access to shared state and every call of the runtime:
  the test of \<open>g_svc_started\<close>, the search for the pool, the allocation (the runtime stores the address
  in \<open>g_mbox\<close>), the grant of \<open>g_mbox\<close>, the initialisation of its slots, the store to \<open>g_run\<close>, the
  start of the service thread with its assignment to \<open>g_svc\<close>, and the store to \<open>g_svc_started\<close>.
  Assigning to a \<open>std::thread\<close> that is joinable calls \<open>std::terminate\<close>.
\<close>

datatype phase = AtCheck | AtFind | AtAlloc Pool | AtGrant | AtInit | AtRun | AtThread | AtPublish | Returned bool

text \<open>The shared state is the state of the injector and whether the process was terminated.\<close>

type_synonym shared = "Loader \<times> bool"

fun ensure_phase :: "World \<Rightarrow> nat \<Rightarrow> phase \<Rightarrow> Loader \<Rightarrow> phase \<times> shared" where
  "ensure_phase w gpu AtCheck s = (if ld_started s then Returned (ld_mbox s \<noteq> 0) else AtFind, s, False)"
| "ensure_phase w gpu AtFind s =
     (case hsa_iterate find_cpu (w_agents w) None of None \<Rightarrow> (Returned False, s, False)
      | Some cpu \<Rightarrow> (case hsa_iterate find_fine_grained (agent_pools cpu) None of None \<Rightarrow> (Returned False, s, False)
        | Some fg \<Rightarrow> (AtAlloc fg, s, False)))"
| "ensure_phase w gpu (AtAlloc fg) s =
     (let ((st, m), s) = real w (PoolAllocate (pool_id fg) mailbox_size) s in
      if st \<noteq> 0 then (Returned False, s, False) else (AtGrant, s\<lparr>ld_mbox := m\<rparr>, False))"
| "ensure_phase w gpu AtGrant s = (AtInit, snd (real w (AllowAccess gpu (ld_mbox s)) s), False)"
| "ensure_phase w gpu AtInit s = (AtRun, s\<lparr>ld_queue := Some queue_init\<rparr>, False)"
| "ensure_phase w gpu AtRun s = (AtThread, s\<lparr>ld_run := True\<rparr>, False)"
| "ensure_phase w gpu AtThread s =
     (let s = snd (real w (StartService (ld_mbox s)) s) in
      if ld_joinable s then (AtPublish, s, True) else (AtPublish, s\<lparr>ld_joinable := True\<rparr>, False))"
| "ensure_phase w gpu AtPublish s = (Returned True, s\<lparr>ld_started := True\<rparr>, False)"
| "ensure_phase w gpu (Returned r) s = (Returned r, s, False)"

text \<open>
  A schedule lists the thread (\<open>False\<close> or \<open>True\<close>, with agent \<open>g\<close> or \<open>h\<close>) that takes each step. A
  terminated process stops.
\<close>

fun race :: "World \<Rightarrow> nat \<Rightarrow> nat \<Rightarrow> bool list \<Rightarrow> phase \<times> phase \<Rightarrow> shared \<Rightarrow> (phase \<times> phase) \<times> shared" where
  "race w g h [] pq s = (pq, s)"
| "race w g h (t # ts) (p, q) (s, dead) =
     (if dead then ((p, q), (s, dead))
      else if t then (case ensure_phase w h q s of (q', s') \<Rightarrow> race w g h ts (p, q') s')
      else (case ensure_phase w g p s of (p', s') \<Rightarrow> race w g h ts (p', q) s'))"

definition terminated :: "(phase \<times> phase) \<times> shared \<Rightarrow> bool" where
  "terminated r = snd (snd r)"

definition steps_of :: "bool \<Rightarrow> bool list \<Rightarrow> nat" where
  "steps_of t ts = length (filter (\<lambda>x. x = t) ts)"

text \<open>At some moment both calls have begun and neither has taken its last step, the eighth.\<close>

definition overlap :: "bool list \<Rightarrow> bool" where
  "overlap ts \<longleftrightarrow> (\<exists>i \<le> length ts. steps_of False (take i ts) \<in> {1..7} \<and> steps_of True (take i ts) \<in> {1..7})"

text \<open>The two calls one after the other, the thread \<open>first\<close> first.\<close>

definition in_turn :: "World \<Rightarrow> nat \<Rightarrow> nat \<Rightarrow> bool \<Rightarrow> Loader \<Rightarrow> (phase \<times> phase) \<times> shared" where
  "in_turn w g h first s =
     (if first then (let (y, s) = ensure_runtime w h s; (x, s) = ensure_runtime w g s in ((Returned x, Returned y), (s, False)))
      else (let (x, s) = ensure_runtime w g s; (y, s) = ensure_runtime w h s in ((Returned x, Returned y), (s, False))))"

text \<open>A runtime that gives every caller a mailbox, and one that gives none: no CPU agent, no fine-grained pool, or no memory.\<close>

definition grants :: "World \<Rightarrow> bool" where
  "grants w \<longleftrightarrow> fine_pool w \<noteq> None \<and> (\<forall>log i. fst (w_rt w log (PoolAllocate i mailbox_size)) = 0)"

definition refuses :: "World \<Rightarrow> bool" where
  "refuses w \<longleftrightarrow> fine_pool w = None \<or> (\<forall>log i. fst (w_rt w log (PoolAllocate i mailbox_size)) \<noteq> 0)"

lemma at_find:
  "ensure_phase w gpu AtFind s = (case fine_pool w of None \<Rightarrow> Returned False | Some fg \<Rightarrow> AtAlloc fg, s, False)"
  by (simp add: iterate_find iterate_pool fine_pool_def split: option.splits)

lemma at_alloc:
  "ensure_phase w gpu (AtAlloc fg) s =
     (if fst (w_rt w (ld_log s) (PoolAllocate (pool_id fg) mailbox_size)) \<noteq> 0
      then (Returned False, s\<lparr>ld_log := ld_log s @ [PoolAllocate (pool_id fg) mailbox_size]\<rparr>, False)
      else (AtGrant, s\<lparr>ld_log := ld_log s @ [PoolAllocate (pool_id fg) mailbox_size],
             ld_mbox := snd (w_rt w (ld_log s) (PoolAllocate (pool_id fg) mailbox_size))\<rparr>, False))"
  by (simp add: real_def split_beta)

declare ensure_phase.simps(2,3) [simp del]
declare at_find [simp] at_alloc [simp]

section \<open>One thread alone\<close>

lemma race_dead: "race w g h ts pq (s, True) = (pq, (s, True))"
  by (cases ts; cases pq) simp_all

lemma race_append: "race w g h (us @ ts) pq s = (case race w g h us pq s of (pq', s') \<Rightarrow> race w g h ts pq' s')"
proof (induction us arbitrary: pq s)
  case (Cons t us)
  obtain p q l d where e: "pq = (p, q)" "s = (l, d)" by (cases pq; cases s)
  show ?case using Cons by (cases d; cases t) (simp_all add: e race_dead split: prod.splits)
qed simp

text \<open>Eight steps alone are \<open>ensure_runtime\<close>.\<close>

lemma alone:
  assumes "\<not> ld_started s" "\<not> ld_joinable s"
  shows "race w g h (replicate 8 False) (AtCheck, q) (s, False) =
      (case ensure_runtime w g s of (x, s') \<Rightarrow> ((Returned x, q), (s', False)))"
    and "race w g h (replicate 8 True) (p, AtCheck) (s, False) =
      (case ensure_runtime w h s of (x, s') \<Rightarrow> ((p, Returned x), (s', False)))"
  using assms
  by (simp_all add: ensure_runtime_cases numeral_nat real_def started_state_def Let_def split: option.splits prod.splits)

lemma race_idle:
  assumes "if t then \<exists>r. q = Returned r else \<exists>r. p = Returned r"
  shows "race w g h (replicate k t) (p, q) (s, False) = ((p, q), (s, False))"
  using assms by (induction k) (auto split: if_splits)

lemma alone_long:
  assumes "\<not> ld_started s" "\<not> ld_joinable s" "8 \<le> k"
  shows "race w g h (replicate k False) (AtCheck, q) (s, False) =
      (case ensure_runtime w g s of (x, s') \<Rightarrow> ((Returned x, q), (s', False)))"
    and "race w g h (replicate k True) (p, AtCheck) (s, False) =
      (case ensure_runtime w h s of (x, s') \<Rightarrow> ((p, Returned x), (s', False)))"
proof -
  have k: "replicate k t = replicate 8 t @ replicate (k - 8) t" for t :: bool
    using assms(3) by (simp add: replicate_add [symmetric])
  show "race w g h (replicate k False) (AtCheck, q) (s, False) =
      (case ensure_runtime w g s of (x, s') \<Rightarrow> ((Returned x, q), (s', False)))"
    unfolding k race_append alone(1) [OF assms(1,2)] by (simp add: race_idle split: prod.splits)
  show "race w g h (replicate k True) (p, AtCheck) (s, False) =
      (case ensure_runtime w h s of (x, s') \<Rightarrow> ((p, Returned x), (s', False)))"
    unfolding k race_append alone(2) [OF assms(1,2)] by (simp add: race_idle split: prod.splits)
qed

section \<open>Two calls that have both passed the test\<close>

text \<open>The steps a call that found no service has left up to and with the start of its own.\<close>

fun to_thread :: "phase \<Rightarrow> nat" where
  "to_thread AtFind = 6" | "to_thread (AtAlloc fg) = 5" | "to_thread AtGrant = 4" | "to_thread AtInit = 3"
| "to_thread AtRun = 2" | "to_thread AtThread = 1" | "to_thread p = 0"

fun under_way :: "phase \<Rightarrow> bool" where
  "under_way AtCheck = False" | "under_way (Returned r) = r" | "under_way p = True"

text \<open>A step of such a call: one step nearer, and the last one makes the service joinable or aborts.\<close>

lemma under_way_fst:
  "grants w \<Longrightarrow> under_way p \<Longrightarrow>
    under_way (fst (ensure_phase w g p s)) \<and> to_thread (fst (ensure_phase w g p s)) = to_thread p - 1"
  by (cases p) (auto simp: grants_def real_def Let_def)

lemma under_way_snd:
  "under_way p \<Longrightarrow> snd (snd (ensure_phase w g p s)) \<longleftrightarrow> to_thread p = 1 \<and> ld_joinable s"
  "under_way p \<Longrightarrow> ld_joinable (fst (snd (ensure_phase w g p s))) \<longleftrightarrow> ld_joinable s \<or> to_thread p = 1"
  "under_way p \<Longrightarrow> 0 < to_thread p \<Longrightarrow> ld_started (fst (snd (ensure_phase w g p s))) = ld_started s"
  by (cases p; simp add: real_def Let_def)+

lemma under_way_step:
  assumes "grants w" "under_way p" "ensure_phase w g p s = (p', (s', d))"
  shows "under_way p'" "to_thread p' = to_thread p - 1" "d \<longleftrightarrow> to_thread p = 1 \<and> ld_joinable s"
    "ld_joinable s' \<longleftrightarrow> ld_joinable s \<or> to_thread p = 1" "0 < to_thread p \<Longrightarrow> \<not> ld_started s \<Longrightarrow> \<not> ld_started s'"
  using under_way_fst [OF assms(1,2), of g s] under_way_snd [OF assms(2), of w g s] by (simp_all add: assms(3))

lemma steps_simps [simp]:
  "steps_of t [] = 0" "steps_of t (x # xs) = (if x = t then Suc (steps_of t xs) else steps_of t xs)"
  "steps_of t (xs @ ys) = steps_of t xs + steps_of t ys" "steps_of t (replicate k x) = (if x = t then k else 0)"
  by (simp_all add: steps_of_def)

lemma both_under_way:
  assumes "grants w"
  shows "under_way p \<Longrightarrow> under_way q \<Longrightarrow> ld_joinable s \<longleftrightarrow> to_thread p = 0 \<or> to_thread q = 0 \<Longrightarrow>
    to_thread p \<noteq> 0 \<or> to_thread q \<noteq> 0 \<Longrightarrow> to_thread p \<le> steps_of False ts \<Longrightarrow> to_thread q \<le> steps_of True ts \<Longrightarrow>
    terminated (race w g h ts (p, q) (s, False))"
proof (induction ts arbitrary: p q s)
  case (Cons t ts)
  show ?case
  proof (cases t)
    case True
    obtain q' s' d where e: "ensure_phase w h q s = (q', (s', d))" by (cases "ensure_phase w h q s") auto
    note u = under_way_step [OF assms Cons.prems(2) e]
    show ?thesis
    proof (cases d)
      case True
      then show ?thesis using \<open>t\<close> e by (simp add: race_dead terminated_def)
    next
      case False
      then show ?thesis using Cons.IH [of p q' s'] Cons.prems u \<open>t\<close> e by auto
    qed
  next
    case False
    obtain p' s' d where e: "ensure_phase w g p s = (p', (s', d))" by (cases "ensure_phase w g p s") auto
    note u = under_way_step [OF assms Cons.prems(1) e]
    show ?thesis
    proof (cases d)
      case True
      then show ?thesis using \<open>\<not> t\<close> e by (simp add: race_dead terminated_def)
    next
      case False
      then show ?thesis using Cons.IH [of p' q s'] Cons.prems u \<open>\<not> t\<close> e by auto
    qed
  qed
qed auto

lemma replicate_snoc: "replicate (Suc (Suc k)) t = replicate (Suc k) t @ [t]"
  using replicate_append_same [of "Suc k" t] by simp

text \<open>A call alone is under way from its first step to its seventh, and the service is not yet announced.\<close>

lemma under_way_alone:
  assumes "grants w" "\<not> ld_started s" "\<not> ld_joinable s"
  shows "Suc k \<le> 7 \<Longrightarrow> \<exists>p s'. race w g h (replicate (Suc k) False) (AtCheck, q) (s, False) = ((p, q), (s', False))
      \<and> under_way p \<and> to_thread p = 6 - k \<and> (ld_joinable s' \<longleftrightarrow> to_thread p = 0) \<and> \<not> ld_started s'"
    and "Suc k \<le> 7 \<Longrightarrow> \<exists>p s'. race w g h (replicate (Suc k) True) (r, AtCheck) (s, False) = ((r, p), (s', False))
      \<and> under_way p \<and> to_thread p = 6 - k \<and> (ld_joinable s' \<longleftrightarrow> to_thread p = 0) \<and> \<not> ld_started s'"
proof -
  show "Suc k \<le> 7 \<Longrightarrow> \<exists>p s'. race w g h (replicate (Suc k) False) (AtCheck, q) (s, False) = ((p, q), (s', False))
      \<and> under_way p \<and> to_thread p = 6 - k \<and> (ld_joinable s' \<longleftrightarrow> to_thread p = 0) \<and> \<not> ld_started s'"
  proof (induction k)
    case (Suc k)
    then obtain p l where r: "race w g h (replicate (Suc k) False) (AtCheck, q) (s, False) = ((p, q), (l, False))"
        "under_way p" "to_thread p = 6 - k" "ld_joinable l \<longleftrightarrow> to_thread p = 0" "\<not> ld_started l" by auto
    obtain p' s' d where e: "ensure_phase w g p l = (p', (s', d))" by (cases "ensure_phase w g p l") auto
    have "race w g h (replicate (Suc (Suc k)) False) (AtCheck, q) (s, False) = ((p', q), (s', d))"
      using r(1) e unfolding replicate_snoc race_append by (simp del: replicate.simps add: e)
    then show ?case using under_way_step [OF assms(1) r(2) e] r Suc.prems by auto
  qed (use assms(2,3) in simp)
  show "Suc k \<le> 7 \<Longrightarrow> \<exists>p s'. race w g h (replicate (Suc k) True) (r, AtCheck) (s, False) = ((r, p), (s', False))
      \<and> under_way p \<and> to_thread p = 6 - k \<and> (ld_joinable s' \<longleftrightarrow> to_thread p = 0) \<and> \<not> ld_started s'"
  proof (induction k)
    case (Suc k)
    then obtain p l where r: "race w g h (replicate (Suc k) True) (r, AtCheck) (s, False) = ((r, p), (l, False))"
        "under_way p" "to_thread p = 6 - k" "ld_joinable l \<longleftrightarrow> to_thread p = 0" "\<not> ld_started l" by auto
    obtain p' s' d where e: "ensure_phase w h p l = (p', (s', d))" by (cases "ensure_phase w h p l") auto
    have "race w g h (replicate (Suc (Suc k)) True) (r, AtCheck) (s, False) = ((r, p'), (s', d))"
      using r(1) e unfolding replicate_snoc race_append by (simp del: replicate.simps add: e)
    then show ?case using under_way_step [OF assms(1) r(2) e] r Suc.prems by auto
  qed (use assms(2,3) in simp)
qed

section \<open>Two calls that get no mailbox\<close>

fun giving_up :: "World \<Rightarrow> phase \<Rightarrow> bool" where
  "giving_up w AtCheck = True" | "giving_up w AtFind = True" | "giving_up w (AtAlloc fg) = (fine_pool w = Some fg)"
| "giving_up w (Returned r) = (\<not> r)" | "giving_up w p = False"

fun to_refusal :: "phase \<Rightarrow> nat" where
  "to_refusal AtCheck = 3" | "to_refusal AtFind = 2" | "to_refusal (AtAlloc fg) = 1" | "to_refusal p = 0"

text \<open>The allocations that are still tried: one per call that has not returned, when there is a pool.\<close>

definition tries :: "World \<Rightarrow> nat \<Rightarrow> effect list" where
  "tries w n = (case fine_pool w of None \<Rightarrow> [] | Some fg \<Rightarrow> replicate n (PoolAllocate (pool_id fg) mailbox_size))"

definition to_try :: "phase \<Rightarrow> nat" where
  "to_try p = (case p of Returned r \<Rightarrow> 0 | _ \<Rightarrow> 1)"

lemma tries_simps [simp]: "tries w 0 = []" "tries w m @ tries w n = tries w (m + n)"
  by (simp_all add: tries_def replicate_add split: option.splits)

lemma giving_up_step:
  assumes "refuses w" "giving_up w p" "\<not> ld_started s"
  shows "\<exists>p' n. ensure_phase w g p s = (p', (s\<lparr>ld_log := ld_log s @ tries w n\<rparr>, False)) \<and> giving_up w p' \<and>
    to_refusal p' \<le> to_refusal p - 1 \<and> tries w n @ tries w (to_try p') = tries w (to_try p)"
proof (cases p)
  case AtCheck
  then show ?thesis using assms by (intro exI [of _ AtFind] exI [of _ "0 :: nat"]) (simp add: to_try_def)
next
  case AtFind
  then show ?thesis using assms
    by (cases "fine_pool w") (auto simp: to_try_def tries_def intro: exI [of _ "0 :: nat"])
next
  case (AtAlloc fg)
  then show ?thesis using assms
    by (intro exI [of _ "Returned False"] exI [of _ "1 :: nat"]) (auto simp: to_try_def tries_def refuses_def)
next
  case (Returned r)
  then show ?thesis using assms by (intro exI [of _ "Returned False"] exI [of _ "0 :: nat"]) (simp add: to_try_def)
qed (use assms in simp_all)

lemma given_up: "giving_up w p \<Longrightarrow> to_refusal p \<le> 0 \<Longrightarrow> p = Returned False"
  by (cases p) simp_all

lemma race_refused:
  assumes "refuses w"
  shows "giving_up w p \<Longrightarrow> giving_up w q \<Longrightarrow> \<not> ld_started s \<Longrightarrow> to_refusal p \<le> steps_of False ts \<Longrightarrow> to_refusal q \<le> steps_of True ts \<Longrightarrow>
    race w g h ts (p, q) (s, False) =
      ((Returned False, Returned False), (s\<lparr>ld_log := ld_log s @ tries w (to_try p + to_try q)\<rparr>, False))"
proof (induction ts arbitrary: p q s)
  case Nil
  then have "p = Returned False" "q = Returned False" using given_up [of w p] given_up [of w q] by simp_all
  then show ?case by (simp add: to_try_def)
next
  case (Cons t ts)
  show ?case
  proof (cases t)
    case True
    obtain q' n where e: "ensure_phase w h q s = (q', (s\<lparr>ld_log := ld_log s @ tries w n\<rparr>, False))" "giving_up w q'"
        "to_refusal q' \<le> to_refusal q - 1" "tries w n @ tries w (to_try q') = tries w (to_try q)"
      using giving_up_step [OF assms Cons.prems(2,3), of h] by blast
    have "tries w (n + (to_try p + to_try q')) = tries w (to_try p + to_try q)"
      using e(4) by (metis add.commute add.left_commute tries_simps(2))
    then show ?thesis using Cons.IH [of p q' "s\<lparr>ld_log := ld_log s @ tries w n\<rparr>"] Cons.prems e \<open>t\<close> by simp
  next
    case False
    obtain p' n where e: "ensure_phase w g p s = (p', (s\<lparr>ld_log := ld_log s @ tries w n\<rparr>, False))" "giving_up w p'"
        "to_refusal p' \<le> to_refusal p - 1" "tries w n @ tries w (to_try p') = tries w (to_try p)"
      using giving_up_step [OF assms Cons.prems(1,3), of g] by blast
    have "tries w (n + (to_try p' + to_try q)) = tries w (to_try p + to_try q)"
      using e(4) by (metis add.assoc tries_simps(2))
    then show ?thesis using Cons.IH [of p' q "s\<lparr>ld_log := ld_log s @ tries w n\<rparr>"] Cons.prems e \<open>\<not> t\<close> by simp
  qed
qed

lemma in_turn_refused:
  assumes "refuses w" "\<not> ld_started s"
  shows "in_turn w g h first s = ((Returned False, Returned False), (s\<lparr>ld_log := ld_log s @ tries w 2\<rparr>, False))"
proof (cases "fine_pool w")
  case None
  then show ?thesis using assms(2) by (simp add: in_turn_def ensure_runtime_cases tries_def)
next
  case (Some fg)
  then have "fst (w_rt w log (PoolAllocate i mailbox_size)) \<noteq> 0" for log i using assms(1) by (simp add: refuses_def)
  then have "ensure_runtime w a l = (False, l\<lparr>ld_log := ld_log l @ [PoolAllocate (pool_id fg) mailbox_size]\<rparr>)" if "\<not> ld_started l" for a l
    using that Some by (simp add: ensure_runtime_cases real_def)
  then show ?thesis using assms(2) Some by (simp add: in_turn_def tries_def numeral_2_eq_2)
qed

section \<open>The race\<close>

lemma first_block:
  assumes "steps_of False ts \<noteq> 0" "steps_of True ts \<noteq> 0"
  shows "\<exists>k rest. ts = replicate (Suc k) (hd ts) @ (\<not> hd ts) # rest"
proof -
  obtain t us where ts: "ts = t # us" using assms(1) by (cases ts) auto
  let ?b = "takeWhile (\<lambda>x. x = t) us" and ?r = "dropWhile (\<lambda>x. x = t) us"
  have b: "?b = replicate (length ?b) t" by (rule replicate_eqI) (auto dest: set_takeWhileD)
  have "?r \<noteq> []"
  proof
    assume "?r = []"
    then have "\<forall>x \<in> set us. x = t" by simp
    then have "steps_of (\<not> t) ts = 0" by (auto simp: ts steps_of_def filter_empty_conv)
    then show False using assms by (cases t) simp_all
  qed
  then obtain x rest where r: "?r = x # rest" by (cases ?r) auto
  have "x = (\<not> t)" using hd_dropWhile [OF \<open>?r \<noteq> []\<close>] r by auto
  moreover have "us = ?b @ ?r" by simp
  ultimately have "ts = replicate (Suc (length ?b)) (hd ts) @ (\<not> hd ts) # rest" using ts b r by simp
  then show ?thesis by blast
qed

lemma overlap_block: "overlap (replicate (Suc k) t @ (\<not> t) # rest) \<longleftrightarrow> Suc k \<le> 7"
proof
  assume "overlap (replicate (Suc k) t @ (\<not> t) # rest)"
  then obtain i where i: "steps_of False (take i (replicate (Suc k) t @ (\<not> t) # rest)) \<in> {1..7}"
      "steps_of True (take i (replicate (Suc k) t @ (\<not> t) # rest)) \<in> {1..7}" by (auto simp: overlap_def)
  show "Suc k \<le> 7"
  proof (cases "i \<le> Suc k")
    case True
    then have "take i (replicate (Suc k) t @ (\<not> t) # rest) = replicate i t" by (simp del: replicate.simps add: min_def)
    then show ?thesis using i by (cases t) simp_all
  next
    case False
    then obtain m where "i = Suc k + m" "0 < m" by (metis less_imp_add_positive not_le)
    then show ?thesis using i by (cases t) (auto simp del: replicate.simps)
  qed
next
  assume "Suc k \<le> 7"
  then show "overlap (replicate (Suc k) t @ (\<not> t) # rest)"
    unfolding overlap_def by (intro exI [of _ "Suc (Suc k)"]) (cases t; simp del: replicate.simps)
qed

lemma race_apart:
  assumes "\<not> ld_started s" "\<not> ld_joinable s" "grants w" "8 \<le> k"
  shows "race w g h (replicate k t @ (\<not> t) # rest) (AtCheck, AtCheck) (s, False) = in_turn w g h t s"
proof -
  obtain fg where fg: "fine_pool w = Some fg" "\<And>log i. fst (w_rt w log (PoolAllocate i mailbox_size)) = 0"
    using assms(3) by (auto simp: grants_def)
  have e: "ensure_runtime w a s = (True, started_state w fg a s)" for a
    using assms(1) fg by (simp add: ensure_runtime_cases)
  have st: "ld_started (started_state w fg a s)" for a by (simp add: started_state_def Let_def)
  then have e2: "ensure_runtime w b (started_state w fg a s) = (ld_mbox (started_state w fg a s) \<noteq> 0, started_state w fg a s)" for a b
    by (simp add: ensure_runtime_cases)
  have i: "race w g h ts (Returned x, Returned y) (l, False) = ((Returned x, Returned y), (l, False))" for ts x y l
    by (induction ts) auto
  show ?thesis using alone_long [OF assms(1,2,4), of w g h AtCheck] st
    by (cases t) (simp_all add: race_append e e2 i in_turn_def)
qed

lemma race_together:
  assumes "\<not> ld_started s" "\<not> ld_joinable s" "grants w" "Suc k \<le> 7"
    and "8 \<le> steps_of False (replicate (Suc k) t @ (\<not> t) # rest)" "8 \<le> steps_of True (replicate (Suc k) t @ (\<not> t) # rest)"
  shows "terminated (race w g h (replicate (Suc k) t @ (\<not> t) # rest) (AtCheck, AtCheck) (s, False))"
proof (cases t)
  case True
  obtain p s' where r: "race w g h (replicate (Suc k) True) (AtCheck, AtCheck) (s, False) = ((AtCheck, p), (s', False))"
      "under_way p" "to_thread p = 6 - k" "ld_joinable s' \<longleftrightarrow> to_thread p = 0" "\<not> ld_started s'"
    using under_way_alone(2) [OF assms(3,1,2,4), where g = g and h = h and r = AtCheck] by (elim exE conjE) (rule that)
  have "terminated (race w g h rest (AtFind, p) (s', False))"
    using r assms(4-6) True by (intro both_under_way [OF assms(3)]) (auto simp del: replicate.simps)
  then show ?thesis using True r(1,5) by (simp add: race_append del: replicate.simps)
next
  case False
  obtain p s' where r: "race w g h (replicate (Suc k) False) (AtCheck, AtCheck) (s, False) = ((p, AtCheck), (s', False))"
      "under_way p" "to_thread p = 6 - k" "ld_joinable s' \<longleftrightarrow> to_thread p = 0" "\<not> ld_started s'"
    using under_way_alone(1) [OF assms(3,1,2,4), where g = g and h = h and q = AtCheck] by (elim exE conjE) (rule that)
  have "terminated (race w g h rest (p, AtFind) (s', False))"
    using r assms(4-6) False by (intro both_under_way [OF assms(3)]) (auto simp del: replicate.simps)
  then show ?thesis using False r(1,5) by (simp add: race_append del: replicate.simps)
qed

text \<open>
  C31: two calls of \<open>ensure_runtime\<close> before the service has started, in any interleaving in which both
  can finish. When the runtime gives mailboxes, the interleavings in which both calls have begun and
  neither is over terminate the process; every other one, and every one at all when the calls get no
  mailbox and return their error, gives exactly the results and the state of the two calls one after
  the other.
\<close>

theorem overlapping_first_loads_abort:
  fixes w :: World and g h :: nat
  assumes "\<not> ld_started s" "\<not> ld_joinable s" "8 \<le> steps_of False ts" "8 \<le> steps_of True ts"
  defines "r \<equiv> race w g h ts (AtCheck, AtCheck) (s, False)"
  shows "(grants w \<and> overlap ts \<longrightarrow> terminated r)
    \<and> (grants w \<and> \<not> overlap ts \<or> refuses w \<longrightarrow> r = in_turn w g h (hd ts) s \<and> \<not> terminated r)"
proof -
  obtain k rest where ts: "ts = replicate (Suc k) (hd ts) @ (\<not> hd ts) # rest"
    using first_block [of ts] assms(3,4) by auto
  have nt: "\<not> terminated (in_turn w g h t s)" for t
    by (simp add: in_turn_def terminated_def Let_def split: prod.splits)
  have 1: "terminated r" if "grants w" "overlap ts"
  proof -
    have "Suc k \<le> 7" using that(2) overlap_block [of k "hd ts" rest] ts by simp
    then show ?thesis using race_together [OF assms(1,2) that(1), of k "hd ts" rest g h, folded ts] assms(3,4) by (simp add: r_def)
  qed
  have 2: "r = in_turn w g h (hd ts) s" if "grants w" "\<not> overlap ts"
  proof -
    have "8 \<le> Suc k" using that(2) overlap_block [of k "hd ts" rest] ts by simp
    then show ?thesis using race_apart [OF assms(1,2) that(1), of "Suc k" g h "hd ts" rest, folded ts] by (simp add: r_def)
  qed
  have 3: "r = in_turn w g h (hd ts) s" if "refuses w"
    using race_refused [OF that, of AtCheck AtCheck s ts g h] assms(1,3,4) in_turn_refused [OF that assms(1)]
    by (simp add: r_def to_try_def numeral_2_eq_2)
  show ?thesis using 1 2 3 nt by auto
qed

text \<open>
  The calls in lockstep, then one after the other; and in lockstep without a fine-grained pool.
\<close>

lemma overlapping_first_loads_abort_witness:
  "terminated (race demo_world 1 1 (concat (replicate 8 [False, True])) (AtCheck, AtCheck) (loader_init, False))
    \<and> race demo_world 1 1 (replicate 8 True @ replicate 8 False) (AtCheck, AtCheck) (loader_init, False) = in_turn demo_world 1 1 True loader_init
    \<and> race (demo_world\<lparr>w_agents := []\<rparr>) 1 1 (concat (replicate 8 [False, True])) (AtCheck, AtCheck) (loader_init, False)
        = ((Returned False, Returned False), (loader_init, False))"
proof -
  have s: "\<not> ld_started loader_init" "\<not> ld_joinable loader_init" by (simp_all add: loader_init_def)
  have g: "grants demo_world" by (simp add: grants_def) (simp add: fine_pool_def demo_world_def)
  have f: "refuses (demo_world\<lparr>w_agents := []\<rparr>)" by (simp add: refuses_def fine_pool_def)
  have i: "in_turn (demo_world\<lparr>w_agents := []\<rparr>) 1 1 x loader_init = ((Returned False, Returned False), (loader_init, False))" for x
    using in_turn_refused [OF f s(1)] by (simp add: tries_def fine_pool_def)
  have c: "8 \<le> steps_of False (concat (replicate 8 [False, True]))" "8 \<le> steps_of True (concat (replicate 8 [False, True]))"
    "8 \<le> steps_of False (replicate 8 True @ replicate 8 False)" "8 \<le> steps_of True (replicate 8 True @ replicate 8 False)"
    by code_simp+
  have o: "overlap (concat (replicate 8 [False, True]))"
    unfolding overlap_def by (rule exI [of _ 2]) code_simp
  have n: "\<not> overlap (replicate 8 True @ replicate 8 False)"
    using overlap_block [of 7 True "replicate 7 False"] by (simp add: numeral_nat)
  show ?thesis
    using overlapping_first_loads_abort [OF s c(1,2), of demo_world 1 1] overlapping_first_loads_abort [OF s c(3,4), of demo_world 1 1]
      overlapping_first_loads_abort [OF s c(1,2), of "demo_world\<lparr>w_agents := []\<rparr>" 1 1] g f o n i by simp
qed

end
