(* ===== verification/Injectors.thy ===== *)
theory Injectors
  imports Co_Elf
begin

text \<open>
  The two front ends of the loader hooks: \<open>audit.cpp\<close> (\<open>LD_AUDIT\<close>), which resolves the real
  functions by walking the dynamic symbol table of the application's own libraries, and
  \<open>preload.cpp\<close> (\<open>LD_PRELOAD\<close>), whose exported symbols shadow the real ones. The memory of the
  process is a parameter, a byte for every address; a link map is the record of what the
  dynamic linker says of a loaded object, its dynamic section the list of entries before
  \<open>DT_NULL\<close>.
\<close>

section \<open>Loaded objects\<close>

type_synonym memory = "nat \<Rightarrow> u8"

definition word_at :: "memory \<Rightarrow> nat \<Rightarrow> nat \<Rightarrow> nat" where
  "word_at mem n a = le_val (map mem [a ..< a + n])"

fun str_at :: "memory \<Rightarrow> nat \<Rightarrow> bytes \<Rightarrow> bool" where
  "str_at mem a [] = (mem a = 0)"
| "str_at mem a (c # cs) = (mem a = c \<and> str_at mem (Suc a) cs)"

record link_map =
  l_addr :: nat
  l_name :: string
  l_ld :: "(nat \<times> nat) list option"

definition DT_HASH :: nat where "DT_HASH = 4"
definition DT_STRTAB :: nat where "DT_STRTAB = 5"
definition DT_SYMTAB :: nat where "DT_SYMTAB = 6"
definition DT_GNU_HASH :: nat where "DT_GNU_HASH = 0x6ffffef5"

definition abs_addr :: "link_map \<Rightarrow> nat \<Rightarrow> nat" where
  "abs_addr m p = (if p < l_addr m then add64 p (l_addr m) else p)"

text \<open>The last entry of a tag, its address made absolute.\<close>

definition dyn_entry :: "link_map \<Rightarrow> nat \<Rightarrow> nat option" where
  "dyn_entry m tag = (case l_ld m of None \<Rightarrow> None
     | Some ds \<Rightarrow> (case map_option (abs_addr m) (map_of (rev ds) tag) of
         Some p \<Rightarrow> (if p = 0 then None else Some p) | None \<Rightarrow> None))"

section \<open>The number of symbols\<close>

fun max_bucket :: "memory \<Rightarrow> nat \<Rightarrow> nat \<Rightarrow> nat \<Rightarrow> nat" where
  "max_bucket mem b 0 acc = acc"
| "max_bucket mem b (Suc n) acc =
     max_bucket mem (b + 4) n (if word_at mem 4 b > acc then word_at mem 4 b else acc)"

text \<open>\<open>while (!(chain[last - symbias] & 1)) last++\<close>, on 32-bit indices; it ends when it finds a set bit.\<close>

partial_function (option) chain_end :: "memory \<Rightarrow> nat \<Rightarrow> u32 \<Rightarrow> u32 \<Rightarrow> u32 option" where
  [code]: "chain_end mem chain bias k =
     (if odd (word_at mem 4 (chain + 4 * unat (k - bias))) then Some k else chain_end mem chain bias (k + 1))"

definition gnu_count :: "memory \<Rightarrow> nat \<Rightarrow> nat option option" where
  "gnu_count mem gnu =
     (let nbuckets = word_at mem 4 gnu; symbias = word_at mem 4 (gnu + 4); bloom_size = word_at mem 4 (gnu + 8);
          buckets = gnu + 16 + 8 * bloom_size; chain = buckets + 4 * nbuckets;
          top = max_bucket mem buckets nbuckets 0
      in if top < symbias then Some None
         else (case chain_end mem chain (of_nat symbias) (of_nat top) of None \<Rightarrow> None
           | Some k \<Rightarrow> Some (Some (unat (k + 1)))))"

definition symbol_count :: "memory \<Rightarrow> link_map \<Rightarrow> nat option option" where
  "symbol_count mem m = (case dyn_entry m DT_HASH of
       Some hash \<Rightarrow> Some (Some (word_at mem 4 (hash + 4)))
     | None \<Rightarrow> (case dyn_entry m DT_GNU_HASH of None \<Rightarrow> Some None | Some gnu \<Rightarrow> gnu_count mem gnu))"

section \<open>Symbol lookup\<close>

definition sym_matches :: "memory \<Rightarrow> nat \<Rightarrow> nat \<Rightarrow> bytes \<Rightarrow> nat \<Rightarrow> bool" where
  "sym_matches mem strtab symtab name i =
     (word_at mem 4 (symtab + 24 * i) \<noteq> 0 \<and> word_at mem 8 (symtab + 24 * i + 8) \<noteq> 0
      \<and> str_at mem (strtab + word_at mem 4 (symtab + 24 * i)) name)"

text \<open>\<open>None\<close>: the walk does not end; \<open>Some None\<close>: the null pointer.\<close>

definition elf_dynsym :: "memory \<Rightarrow> link_map option \<Rightarrow> bytes \<Rightarrow> nat option option" where
  "elf_dynsym mem lm name = (case lm of None \<Rightarrow> Some None
     | Some m \<Rightarrow> (case (dyn_entry m DT_STRTAB, dyn_entry m DT_SYMTAB) of
         (Some strtab, Some symtab) \<Rightarrow> (case symbol_count mem m of None \<Rightarrow> None | Some None \<Rightarrow> Some None
           | Some (Some n) \<Rightarrow> Some (map_option (\<lambda>i. abs_addr m (word_at mem 8 (symtab + 24 * i + 8)))
               (find (sym_matches mem strtab symtab name) [0 ..< n])))
       | _ \<Rightarrow> Some None))"

section \<open>The audit interface\<close>

record Audit =
  g_hsa_map :: "link_map option"
  g_hip_map :: "link_map option"

definition audit_init :: Audit where
  "audit_init = \<lparr>g_hsa_map = None, g_hip_map = None\<rparr>"

definition la_objopen :: "link_map \<Rightarrow> Audit \<Rightarrow> Audit" where
  "la_objopen m s =
     (let s = (if contains_sub ''libhsa-runtime64'' (l_name m) then s\<lparr>g_hsa_map := Some m\<rparr> else s)
      in if contains_sub ''libamdhip64'' (l_name m) then s\<lparr>g_hip_map := Some m\<rparr> else s)"

definition real_sym :: "memory \<Rightarrow> Audit \<Rightarrow> bytes \<Rightarrow> nat option option" where
  "real_sym mem s name = (case elf_dynsym mem (g_hsa_map s) name of None \<Rightarrow> None
     | Some (Some p) \<Rightarrow> (if p \<noteq> 0 then Some (Some p) else elf_dynsym mem (g_hip_map s) name)
     | Some None \<Rightarrow> elf_dynsym mem (g_hip_map s) name)"

definition la_version :: "nat \<Rightarrow> nat \<Rightarrow> nat" where
  "la_version lav_current v = (if v \<le> lav_current then v else lav_current)"

datatype hook = HookRegisterFatbin | HookCoReader | HookLoad | HookFreeze | HookLaunch

definition la_symbind64 :: "string \<Rightarrow> nat \<Rightarrow> hook + nat" where
  "la_symbind64 name st_value =
     (if name = ''__hipRegisterFatBinary'' then Inl HookRegisterFatbin
      else if name = ''hsa_code_object_reader_create_from_memory'' then Inl HookCoReader
      else if name = ''hsa_executable_load_agent_code_object'' then Inl HookLoad
      else if name = ''hsa_executable_freeze'' then Inl HookFreeze
      else if name = ''hipLaunchKernel'' then Inl HookLaunch
      else Inr st_value)"

text \<open>The symbols \<open>preload.so\<close> exports, with the hook each forwards to.\<close>

definition preload_exports :: "(string \<times> hook) list" where
  "preload_exports =
     [(''__hipRegisterFatBinary'', HookRegisterFatbin),
      (''hsa_code_object_reader_create_from_memory'', HookCoReader),
      (''hsa_executable_load_agent_code_object'', HookLoad),
      (''hsa_executable_freeze'', HookFreeze),
      (''hipLaunchKernel'', HookLaunch)]"

lemma front_ends_agree:
  "la_symbind64 name v = (case map_of preload_exports name of Some h \<Rightarrow> Inl h | None \<Rightarrow> Inr v)"
  by (simp add: la_symbind64_def preload_exports_def)

section \<open>GNU hash tables\<close>

text \<open>
  A table as the linker writes it: the hashed symbols from \<open>bias\<close> on lie in runs, one per
  non-empty bucket; a bucket holds the number of its first symbol or 0, and the chain words have
  their low bit set at the ends of the runs.
\<close>

fun run_starts :: "nat \<Rightarrow> nat list \<Rightarrow> nat list" where
  "run_starts b [] = []"
| "run_starts b (r # rs) = b # run_starts (b + r) rs"

definition run_ends :: "nat \<Rightarrow> nat list \<Rightarrow> nat set" where
  "run_ends b rs = (\<lambda>i. b + sum_list (take (Suc i) rs) - 1) ` {..< length rs}"

definition gnu_ok :: "memory \<Rightarrow> nat \<Rightarrow> nat \<Rightarrow> nat list \<Rightarrow> bool" where
  "gnu_ok mem gnu n runs \<longleftrightarrow>
     (let nbuckets = word_at mem 4 gnu; bias = word_at mem 4 (gnu + 4);
          buckets = gnu + 16 + 8 * word_at mem 4 (gnu + 8); chain = buckets + 4 * nbuckets
      in 0 < bias \<and> n = bias + sum_list runs \<and> n < 2 ^ 32 \<and> 0 \<notin> set runs
       \<and> set (map (\<lambda>i. word_at mem 4 (buckets + 4 * i)) [0 ..< nbuckets]) - {0} = set (run_starts bias runs)
       \<and> (\<forall>k. bias \<le> k \<and> k < n \<longrightarrow> odd (word_at mem 4 (chain + 4 * (k - bias))) = (k \<in> run_ends bias runs)))"


lemma Max_insert_max: "finite A \<Longrightarrow> Max (insert (max a b) A) = Max (insert a (insert b A))" for a b :: nat
  by (cases "A = {}") (simp_all add: max.assoc)

lemma max_bucket_spec:
  "max_bucket mem b n acc = Max (insert acc (set (map (\<lambda>i. word_at mem 4 (b + 4 * i)) [0 ..< n])))"
proof (induction n arbitrary: b acc)
  case (Suc n)
  let ?f = "\<lambda>b i. word_at mem 4 (b + 4 * i)"
  have s: "set (map (?f b) [0 ..< Suc n]) = insert (word_at mem 4 b) (set (map (?f (b + 4)) [0 ..< n]))"
  proof -
    have "[0 ..< Suc n] = 0 # map Suc [0 ..< n]" by (simp add: upt_conv_Cons map_Suc_upt del: upt_Suc)
    then show ?thesis by (simp add: comp_def algebra_simps image_image)
  qed
  have a: "(if acc < w then w else acc) = max acc w" for w :: nat by simp
  show ?case unfolding s by (simp add: Suc.IH a insert_commute max.left_commute max.commute Max_insert_max)
qed simp

lemma run_starts_last: "runs \<noteq> [] \<Longrightarrow> last (run_starts b runs) = b + sum_list (butlast runs)"
  by (induction b runs rule: run_starts.induct) (auto simp: neq_Nil_conv)

lemma run_starts_le: "x \<in> set (run_starts b runs) \<Longrightarrow> runs \<noteq> [] \<Longrightarrow> b \<le> x \<and> x \<le> b + sum_list (butlast runs)"
proof (induction b runs rule: run_starts.induct)
  case (2 b r rs)
  then show ?case by (cases "rs = []") auto
qed simp

lemma run_starts_Max:
  assumes "runs \<noteq> []"
  shows "Max (set (run_starts b runs)) = b + sum_list (butlast runs)"
proof (rule Max_eqI)
  have "run_starts b runs \<noteq> []" using assms by (cases runs) auto
  then show "b + sum_list (butlast runs) \<in> set (run_starts b runs)"
    using run_starts_last [OF assms, of b] last_in_set by metis
qed (use run_starts_le [OF _ assms] in auto)

lemma unat_u32_diff: "b \<le> a \<Longrightarrow> a < 2 ^ 32 \<Longrightarrow> unat (of_nat a - of_nat b :: u32) = a - b" for a b :: nat
proof -
  assume a: "b \<le> a" "a < 2 ^ 32"
  have "(of_nat (a - b) :: u32) = of_nat a - of_nat b" by (rule of_nat_diff [OF a(1)])
  moreover have "unat (of_nat (a - b) :: u32) = a - b"
    using a(2) by (simp only: unat_of_nat) (simp add: take_bit_nat_eq_self)
  ultimately show ?thesis by simp
qed

lemma chain_end_spec:
  assumes "bias \<le> a" "a \<le> e" "e < 2 ^ 32"
    and "\<forall>k. a \<le> k \<and> k < e \<longrightarrow> even (word_at mem 4 (chain + 4 * (k - bias)))"
    and "odd (word_at mem 4 (chain + 4 * (e - bias)))"
  shows "chain_end mem chain (of_nat bias) (of_nat a) = Some (of_nat e)"
  using assms
proof (induction "e - a" arbitrary: a)
  case 0
  then have "a = e" by simp
  moreover have "unat (of_nat e - of_nat bias :: u32) = e - bias"
    using 0 by (intro unat_u32_diff) auto
  ultimately show ?case using 0 by (subst chain_end.simps) simp
next
  case (Suc d)
  have u: "unat (of_nat a - of_nat bias :: u32) = a - bias"
    using Suc.prems Suc.hyps(2) by (intro unat_u32_diff) auto
  have "chain_end mem chain (of_nat bias) (of_nat (Suc a)) = Some (of_nat e)"
    using Suc.prems Suc.hyps(2) by (intro Suc.hyps(1)) auto
  moreover have "even (word_at mem 4 (chain + 4 * (a - bias)))" using Suc.prems(4) Suc.hyps(2) by auto
  ultimately show ?case by (subst chain_end.simps) (simp add: u add.commute)
qed

lemma run_ends_last_run:
  assumes "runs \<noteq> []" "0 \<notin> set runs" "b + sum_list (butlast runs) \<le> k" "k < b + sum_list runs" "0 < b"
  shows "k \<in> run_ends b runs \<longleftrightarrow> k = b + sum_list runs - 1"
proof
  assume "k \<in> run_ends b runs"
  then obtain i where i: "i < length runs" "k = b + sum_list (take (Suc i) runs) - 1" by (auto simp: run_ends_def)
  show "k = b + sum_list runs - 1"
  proof (cases "Suc i = length runs")
    case False
    then have "take (Suc i) runs = take (Suc i) (butlast runs)" using i(1) by (simp add: take_butlast)
    then have "sum_list (take (Suc i) runs) \<le> sum_list (butlast runs)"
      by (metis append_take_drop_id le_add1 sum_list_append)
    then show ?thesis using i assms(3,5) by linarith
  qed (use i in simp)
next
  assume "k = b + sum_list runs - 1"
  then have "k = b + sum_list (take (Suc (length runs - 1)) runs) - 1" "length runs - 1 < length runs" using assms(1) by simp_all
  then show "k \<in> run_ends b runs" unfolding run_ends_def by blast
qed

lemma gnu_count_spec:
  assumes "gnu_ok mem gnu n runs" "runs \<noteq> []"
  shows "gnu_count mem gnu = Some (Some n)"
proof -
  let ?nb = "word_at mem 4 gnu" and ?bias = "word_at mem 4 (gnu + 4)"
  let ?buckets = "gnu + 16 + 8 * word_at mem 4 (gnu + 8)"
  let ?chain = "?buckets + 4 * ?nb" and ?B = "set (map (\<lambda>i. word_at mem 4 (gnu + 16 + 8 * word_at mem 4 (gnu + 8) + 4 * i)) [0 ..< word_at mem 4 gnu])"
  have ok: "0 < ?bias" "n = ?bias + sum_list runs" "n < 2 ^ 32" "0 \<notin> set runs" "?B - {0} = set (run_starts ?bias runs)"
    "\<And>k. ?bias \<le> k \<Longrightarrow> k < n \<Longrightarrow> odd (word_at mem 4 (?chain + 4 * (k - ?bias))) = (k \<in> run_ends ?bias runs)"
    using assms(1) unfolding gnu_ok_def Let_def by auto
  let ?top = "?bias + sum_list (butlast runs)"
  have "insert 0 ?B = insert 0 (set (run_starts ?bias runs))" using ok(5) by auto
  moreover have "set (run_starts ?bias runs) \<noteq> {}" using assms(2) by (cases runs) auto
  ultimately have top: "max_bucket mem ?buckets ?nb 0 = ?top"
    unfolding max_bucket_spec using run_starts_Max [OF assms(2), of ?bias] by simp
  have sum: "sum_list runs = sum_list (butlast runs) + last runs"
    by (subst append_butlast_last_id [OF assms(2), symmetric], subst sum_list.append) simp
  have "0 < last runs" using ok(4) last_in_set [OF assms(2)] gr0I by metis
  then have lt: "?top \<le> n - 1" "n - 1 < 2 ^ 32" "n - 1 < n" using ok(2,3) sum by linarith+
  have e1: "\<forall>k. ?top \<le> k \<and> k < n - 1 \<longrightarrow> even (word_at mem 4 (?chain + 4 * (k - ?bias)))"
  proof (intro allI impI)
    fix k assume k: "?top \<le> k \<and> k < n - 1"
    then have b: "?bias \<le> k" "k < n" using lt by auto
    have "k \<notin> run_ends ?bias runs" using run_ends_last_run [OF assms(2) ok(4), of ?bias k] k b ok(1,2) by auto
    then show "even (word_at mem 4 (?chain + 4 * (k - ?bias)))" using ok(6) [OF b] by blast
  qed
  have e2: "odd (word_at mem 4 (?chain + 4 * (n - 1 - ?bias)))"
  proof -
    have b: "?bias \<le> n - 1" "n - 1 < n" using lt by auto
    have "n - 1 \<in> run_ends ?bias runs"
      using run_ends_last_run [OF assms(2) ok(4), of ?bias "n - 1"] lt ok(1,2) by auto
    then show ?thesis using ok(6) [OF b] by blast
  qed
  have "chain_end mem ?chain (of_nat ?bias) (of_nat ?top) = Some (of_nat (n - 1))"
    by (rule chain_end_spec [OF _ lt(1,2) e1 e2]) simp
  moreover have "unat (of_nat (n - 1) + 1 :: u32) = n"
  proof -
    have "(of_nat (n - 1) + 1 :: u32) = of_nat n" using ok(1,2) by (simp add: of_nat_diff)
    then show ?thesis using ok(3) by (simp add: unat_of_nat take_bit_nat_eq_self)
  qed
  ultimately show ?thesis by (simp add: gnu_count_def Let_def top del: of_nat_add)
qed

section \<open>The lookup is the one the dynamic linker would make\<close>

text \<open>
  The dynamic section of an object with \<open>n\<close> symbols: the string and symbol tables and one of
  the hash tables, the SysV table with \<open>nchain = n\<close> or a GNU table of at least one hashed symbol.
\<close>

definition dyn_ok :: "memory \<Rightarrow> link_map \<Rightarrow> nat \<Rightarrow> nat \<Rightarrow> nat \<Rightarrow> bool" where
  "dyn_ok mem m strtab symtab n \<longleftrightarrow>
     dyn_entry m DT_STRTAB = Some strtab \<and> dyn_entry m DT_SYMTAB = Some symtab \<and>
     (case dyn_entry m DT_HASH of Some hash \<Rightarrow> word_at mem 4 (hash + 4) = n
      | None \<Rightarrow> \<exists>gnu runs. dyn_entry m DT_GNU_HASH = Some gnu \<and> runs \<noteq> [] \<and> gnu_ok mem gnu n runs)"

text \<open>
  C32: the audit library finds the number of dynamic symbols of every well-formed object, through
  the SysV table or by walking the GNU table, and the walk ends; so \<open>elf_dynsym\<close> returns the
  run-time address of the first defined symbol of the name, and no address exactly when
  the object defines no such symbol.
\<close>

theorem elf_dynsym_correct:
  assumes "dyn_ok mem m strtab symtab n"
  shows "elf_dynsym mem (Some m) name = Some (map_option (\<lambda>i. abs_addr m (word_at mem 8 (symtab + 24 * i + 8)))
      (find (sym_matches mem strtab symtab name) [0 ..< n])) \<and>
    (elf_dynsym mem (Some m) name = Some None \<longleftrightarrow> (\<forall>i < n. \<not> sym_matches mem strtab symtab name i))"
proof -
  have "symbol_count mem m = Some (Some n)"
    using assms gnu_count_spec [of mem _ n] by (auto simp: dyn_ok_def symbol_count_def split: option.splits)
  then have e: "elf_dynsym mem (Some m) name = Some (map_option (\<lambda>i. abs_addr m (word_at mem 8 (symtab + 24 * i + 8)))
      (find (sym_matches mem strtab symtab name) [0 ..< n]))"
    using assms by (simp add: dyn_ok_def elf_dynsym_def)
  then show ?thesis by (auto simp: find_None_iff)
qed

text \<open>
  A library at base 1000 with one hashed symbol, number 1, called \<open>f\<close>: the GNU table at 2000,
  the strings at 2100 and the symbols at 2200.
\<close>

definition demo_mem :: memory where
  "demo_mem a = (case map_of [(2000, 1), (2004, 1), (2016, 1), (2020, 1), (2101, 102), (2224, 1), (2232, 77)] a of
     None \<Rightarrow> 0 | Some b \<Rightarrow> b)"

definition demo_lib :: link_map where
  "demo_lib = \<lparr>l_addr = 1000, l_name = ''/opt/rocm/lib/libhsa-runtime64.so.1'',
     l_ld = Some [(DT_GNU_HASH, 1000 + 1000), (DT_STRTAB, 2100), (DT_SYMTAB, 2200)]\<rparr>"

lemma demo_lib_ok: "dyn_ok demo_mem demo_lib 2100 2200 2"
proof -
  have w: "word_at demo_mem 4 2000 = 1" "word_at demo_mem 4 2004 = 1" "word_at demo_mem 4 2008 = 0"
    "word_at demo_mem 4 2016 = 1" "word_at demo_mem 4 2020 = 1"
    by (simp_all add: word_at_def demo_mem_def upt_conv_Cons)
  have "k = 1" if "1 \<le> k" "k < (2 :: nat)" for k using that by simp
  moreover have "run_ends 1 [1] = {1}" by (simp add: run_ends_def lessThan_Suc)
  ultimately have "gnu_ok demo_mem 2000 2 [1]" unfolding gnu_ok_def Let_def by (auto simp: w)
  then show ?thesis
    by (auto simp: dyn_ok_def dyn_entry_def demo_lib_def abs_addr_def DT_HASH_def DT_GNU_HASH_def DT_STRTAB_def DT_SYMTAB_def
        intro!: exI [of _ "[1]"])
qed

theorem elf_dynsym_correct_witness:
  "elf_dynsym demo_mem (Some demo_lib) [102] = Some (Some 1077) \<and> elf_dynsym demo_mem (Some demo_lib) [103] = Some None"
  using elf_dynsym_correct [OF demo_lib_ok, of "[102]"] elf_dynsym_correct [OF demo_lib_ok, of "[103]"]
  by (simp add: sym_matches_def word_at_def demo_mem_def upt_conv_Cons abs_addr_def demo_lib_def add64_def)

end
