(* ===== verification/Launchers.thy ===== *)
theory Launchers
  imports Loader_Hooks "HOL-Library.Signed_Division" "HOL-Library.Sublist"
begin

text \<open>
  The two raw HSA launchers, \<open>launcher.cpp\<close> (one dimension) and \<open>launcher_nd.cpp\<close> (two or
  three): the discovery of agents and pools, the sizes, the kernel argument segment, the dispatch
  packet, and the order of the runtime calls. The HSA runtime is a parameter that answers every
  call, given the calls before it, with a status and a value; a run is the list of the calls and
  host stores it makes, with the exit code, or \<open>None\<close> where the C++ program is undefined.
\<close>

section \<open>Discovery\<close>

datatype device_type = DeviceCpu | DeviceGpu | DeviceDsp

record HsaPool =
  hp_id :: nat
  hp_global :: bool
  hp_fine :: bool
  hp_alloc_allowed :: bool

record HsaAgent =
  ha_id :: nat
  ha_type :: device_type
  ha_name :: string
  ha_pools :: "HsaPool list"

definition find_gpu :: "HsaAgent \<Rightarrow> HsaAgent option \<Rightarrow> bool \<times> HsaAgent option" where
  "find_gpu a s =
     (if ha_type a \<noteq> DeviceGpu then (False, s)
      else if contains_sub ''gfx9'' (ha_name a) then (True, Some a) else (False, s))"

definition find_cpu_agent :: "HsaAgent \<Rightarrow> HsaAgent option \<Rightarrow> bool \<times> HsaAgent option" where
  "find_cpu_agent a s = (if ha_type a = DeviceCpu then (True, Some a) else (False, s))"

definition find_fine_pool :: "HsaPool \<Rightarrow> HsaPool option \<Rightarrow> bool \<times> HsaPool option" where
  "find_fine_pool p s =
     (if \<not> hp_global p then (False, s) else if hp_fine p then (True, Some p) else (False, s))"

definition find_coarse_grained :: "HsaPool \<Rightarrow> HsaPool option \<Rightarrow> bool \<times> HsaPool option" where
  "find_coarse_grained p s =
     (if \<not> hp_global p then (False, s)
      else if hp_fine p then (False, s)
      else if \<not> hp_alloc_allowed p then (False, s)
      else (True, Some p))"

section \<open>The environment\<close>

definition digit_val :: "nat \<Rightarrow> char \<Rightarrow> nat option" where
  "digit_val base c =
     (let x = of_char c;
          d = (if 48 \<le> x \<and> x \<le> 57 then x - 48 else if 97 \<le> x \<and> x \<le> 122 then x - 87
               else if 65 \<le> x \<and> x \<le> 90 then x - 55 else 99)
      in if d < base then Some d else None)"

fun digits_val :: "nat \<Rightarrow> string \<Rightarrow> nat \<Rightarrow> nat" where
  "digits_val base [] acc = acc"
| "digits_val base (c # cs) acc =
     (case digit_val base c of None \<Rightarrow> acc | Some d \<Rightarrow> digits_val base cs (base * acc + d))"

definition signed_text :: "string \<Rightarrow> bool \<times> string" where
  "signed_text s = (case dropWhile isspace s of [] \<Rightarrow> (False, [])
     | c # cs \<Rightarrow> if c = CHR ''-'' then (True, cs) else if c = CHR ''+'' then (False, cs) else (False, c # cs))"

definition atoi :: "string \<Rightarrow> int" where
  "atoi s = (case signed_text s of (neg, t) \<Rightarrow>
     (if neg then - int (digits_val 10 t 0) else int (digits_val 10 t 0)))"

text \<open>\<open>strtoul(e, nullptr, 0)\<close>: the base is read off the prefix.\<close>

definition strtoul0 :: "string \<Rightarrow> nat" where
  "strtoul0 s = (case signed_text s of (neg, t) \<Rightarrow>
     (let v = (case t of c # x # h # r \<Rightarrow>
                 (if c = CHR ''0'' \<and> (x = CHR ''x'' \<or> x = CHR ''X'') \<and> digit_val 16 h \<noteq> None then digits_val 16 (h # r) 0
                  else digits_val (if c = CHR ''0'' then 8 else 10) t 0)
               | c # r \<Rightarrow> digits_val (if c = CHR ''0'' then 8 else 10) t 0 | [] \<Rightarrow> 0)
      in if 2 ^ 64 \<le> v then 2 ^ 64 - 1 else if neg then (2 ^ 64 - v) mod 2 ^ 64 else v))"

definition envu :: "environ \<Rightarrow> string \<Rightarrow> u32 \<Rightarrow> u32" where
  "envu env k dflt = (case env k of None \<Rightarrow> dflt | Some e \<Rightarrow> of_nat (strtoul0 e))"

definition argv :: "string list \<Rightarrow> nat \<Rightarrow> string \<Rightarrow> string" where
  "argv args i dflt = (if i < length args then args ! i else dflt)"

section \<open>Calls\<close>

datatype host_data = Zeros nat | HostBytes bytes | MailboxData HostcallQueue | Floats "int list"
datatype symbol_info = KernelObject | KernargSize | PrivateSize | GroupSize
datatype fence_scope = FenceSystem
datatype packet_type = KernelDispatch

record Packet =
  pk_type :: packet_type
  pk_barrier :: bool
  pk_acquire :: fence_scope
  pk_release :: fence_scope
  pk_setup_dims :: u16
  pk_workgroup :: "u16 \<times> u16 \<times> u16"
  pk_grid :: "u32 \<times> u32 \<times> u32"
  pk_private :: u32
  pk_group :: u32
  pk_kernel :: nat
  pk_kernarg :: nat
  pk_signal :: nat

datatype call =
    HsaInit | Allocate nat nat | Grant nat nat | Store nat host_data
  | CreateExecutable | DefineGlobal nat nat string nat
  | OpenFile string | ReaderFromFile nat | LoadAgentCode nat nat nat | CloseFile nat | FreezeExecutable nat
  | FindSymbol nat string nat | SymbolInfo nat symbol_info
  | CreateQueue nat nat | CreateSignal | RunService nat
  | LoadWriteIndex nat | QueueSize nat | WritePacket nat nat Packet | StoreWriteIndex nat nat | RingDoorbell nat nat
  | WaitSignal nat | StopService
  | DestroySignal nat | DestroyQueue nat | DestroyExecutable nat | ShutDown

type_synonym runtime = "call list \<Rightarrow> call \<Rightarrow> nat \<times> nat"
type_synonym outcome = "nat option \<times> call list"

text \<open>\<open>HSA_CHECK\<close> exits with 1 unless the status is success; other calls and stores go on.\<close>

definition hsa_check :: "runtime \<Rightarrow> call \<Rightarrow> (nat \<Rightarrow> call list \<Rightarrow> outcome) \<Rightarrow> call list \<Rightarrow> outcome" where
  "hsa_check rt c k log = (case rt log c of (st, v) \<Rightarrow> if st = 0 then k v (log @ [c]) else (Some 1, log @ [c]))"

definition hsa :: "runtime \<Rightarrow> call \<Rightarrow> (nat \<Rightarrow> call list \<Rightarrow> outcome) \<Rightarrow> call list \<Rightarrow> outcome" where
  "hsa rt c k log = k (snd (rt log c)) (log @ [c])"

definition fail_1 :: "call list \<Rightarrow> outcome" where
  "fail_1 log = (Some 1, log)"

definition undefined_run :: "call list \<Rightarrow> outcome" where
  "undefined_run log = (None, log)"

section \<open>Parts that the two launchers share\<close>

definition find_devices ::
    "HsaAgent list \<Rightarrow> (HsaAgent \<Rightarrow> HsaAgent \<Rightarrow> HsaPool \<Rightarrow> call list \<Rightarrow> outcome) \<Rightarrow> call list \<Rightarrow> outcome" where
  "find_devices agents k =
     (case (hsa_iterate find_gpu agents None, hsa_iterate find_cpu_agent agents None) of
        (Some gpu, Some cpu) \<Rightarrow>
          (case hsa_iterate find_fine_pool (ha_pools cpu) None of None \<Rightarrow> fail_1 | Some fg \<Rightarrow> k gpu cpu fg)
      | _ \<Rightarrow> fail_1)"

definition make_mailbox :: "runtime \<Rightarrow> nat \<Rightarrow> nat \<Rightarrow> (nat \<Rightarrow> call list \<Rightarrow> outcome) \<Rightarrow> call list \<Rightarrow> outcome" where
  "make_mailbox rt fg gpu k =
     hsa_check rt (Allocate fg mailbox_size) (\<lambda>mbox. hsa_check rt (Grant gpu mbox) (\<lambda>_.
       hsa rt (Store mbox (MailboxData queue_init)) (\<lambda>_. k mbox)))"

text \<open>The lambda \<open>load\<close>; \<open>open\<close> and \<open>close\<close> are calls of the operating system.\<close>

definition load_file :: "runtime \<Rightarrow> nat \<Rightarrow> nat \<Rightarrow> string \<Rightarrow> (call list \<Rightarrow> outcome) \<Rightarrow> call list \<Rightarrow> outcome" where
  "load_file rt exe gpu path k =
     hsa_check rt (OpenFile path) (\<lambda>fd. hsa_check rt (ReaderFromFile fd) (\<lambda>r.
       hsa_check rt (LoadAgentCode exe gpu r) (\<lambda>_. hsa rt (CloseFile fd) (\<lambda>_. k))))"

definition link_program ::
    "runtime \<Rightarrow> nat \<Rightarrow> nat \<Rightarrow> string \<Rightarrow> string \<Rightarrow> (nat \<Rightarrow> call list \<Rightarrow> outcome) \<Rightarrow> call list \<Rightarrow> outcome" where
  "link_program rt gpu mbox instlib mutatee k =
     hsa_check rt CreateExecutable (\<lambda>exe. hsa_check rt (DefineGlobal exe gpu ''mailbox'' mbox) (\<lambda>_.
       load_file rt exe gpu instlib (load_file rt exe gpu mutatee
         (hsa_check rt (FreezeExecutable exe) (\<lambda>_. k exe)))))"

definition kernel_info ::
    "runtime \<Rightarrow> nat \<Rightarrow> string \<Rightarrow> nat \<Rightarrow> (nat \<Rightarrow> u32 \<Rightarrow> u32 \<Rightarrow> u32 \<Rightarrow> call list \<Rightarrow> outcome) \<Rightarrow> call list \<Rightarrow> outcome" where
  "kernel_info rt exe kd_name gpu k =
     hsa_check rt (FindSymbol exe kd_name gpu) (\<lambda>sym. hsa_check rt (SymbolInfo sym KernelObject) (\<lambda>kobj.
       hsa_check rt (SymbolInfo sym KernargSize) (\<lambda>ksize. hsa_check rt (SymbolInfo sym PrivateSize) (\<lambda>psize.
         hsa_check rt (SymbolInfo sym GroupSize) (\<lambda>gsize. k kobj (of_nat ksize) (of_nat psize) (of_nat gsize))))))"

definition data_buffers ::
    "runtime \<Rightarrow> nat \<Rightarrow> nat \<Rightarrow> u64 \<Rightarrow> nat \<Rightarrow> (nat \<Rightarrow> nat \<Rightarrow> nat \<Rightarrow> call list \<Rightarrow> outcome) \<Rightarrow> call list \<Rightarrow> outcome" where
  "data_buffers rt fg gpu sz n k =
     hsa_check rt (Allocate fg (unat sz)) (\<lambda>A. hsa_check rt (Allocate fg (unat sz)) (\<lambda>B.
       hsa_check rt (Allocate fg (unat sz)) (\<lambda>C. hsa_check rt (Grant gpu A) (\<lambda>_. hsa_check rt (Grant gpu B) (\<lambda>_.
         hsa_check rt (Grant gpu C) (\<lambda>_. hsa rt (Store A (Floats (map int [0 ..< n]))) (\<lambda>_.
           hsa rt (Store B (Floats (map (\<lambda>i. int (2 * i mod 2 ^ 32)) [0 ..< n]))) (\<lambda>_.
             hsa rt (Store C (Floats (replicate n 0))) (\<lambda>_. k A B C)))))))))"

definition wave_buffer :: "runtime \<Rightarrow> nat \<Rightarrow> nat \<Rightarrow> u64 \<Rightarrow> (nat \<Rightarrow> call list \<Rightarrow> outcome) \<Rightarrow> call list \<Rightarrow> outcome" where
  "wave_buffer rt fg gpu sz k =
     hsa_check rt (Allocate fg (unat sz)) (\<lambda>buf. hsa_check rt (Grant gpu buf) (\<lambda>_.
       hsa rt (Store buf (Zeros (unat sz))) (\<lambda>_. k buf)))"

definition kernarg_size :: "u32 \<Rightarrow> u32" where
  "kernarg_size ksize = (if ksize < 64 then 64 else ksize)"

text \<open>A store into the segment is undefined outside of it.\<close>

definition poke :: "nat \<Rightarrow> bytes \<Rightarrow> bytes \<Rightarrow> bytes option" where
  "poke off v b = (if off + length v \<le> length b then Some (write_at off v b) else None)"

definition ring_slot :: "nat \<Rightarrow> nat \<Rightarrow> nat" where
  "ring_slot idx qsize = unat ((of_nat idx :: u64) AND ucast (of_nat qsize - 1 :: u32))"

definition dispatch_wait ::
    "runtime \<Rightarrow> nat \<Rightarrow> nat \<Rightarrow> (nat \<Rightarrow> Packet) \<Rightarrow> (nat \<Rightarrow> nat \<Rightarrow> call list \<Rightarrow> outcome) \<Rightarrow> call list \<Rightarrow> outcome" where
  "dispatch_wait rt gpu mbox pk k =
     hsa_check rt (CreateQueue gpu 256) (\<lambda>queue. hsa_check rt CreateSignal (\<lambda>done_sig.
       hsa rt (RunService mbox) (\<lambda>_. hsa rt (LoadWriteIndex queue) (\<lambda>idx. hsa rt (QueueSize queue) (\<lambda>qsize.
         hsa rt (WritePacket queue (ring_slot idx qsize) (pk done_sig)) (\<lambda>_.
           hsa rt (StoreWriteIndex queue (idx + 1)) (\<lambda>_. hsa rt (RingDoorbell queue idx) (\<lambda>_.
             hsa rt (WaitSignal done_sig) (\<lambda>_. hsa rt StopService (\<lambda>_. k queue done_sig))))))))))"

definition shut_down :: "runtime \<Rightarrow> nat \<Rightarrow> nat \<Rightarrow> nat \<Rightarrow> nat \<Rightarrow> call list \<Rightarrow> outcome" where
  "shut_down rt queue done_sig exe errors =
     hsa rt (DestroySignal done_sig) (\<lambda>_. hsa rt (DestroyQueue queue) (\<lambda>_.
       hsa rt (DestroyExecutable exe) (\<lambda>_. hsa rt ShutDown (\<lambda>_ log.
         (Some (if errors \<noteq> 0 then 1 else 0), log)))))"

section \<open>The one-dimensional launcher\<close>

definition launcher_waves :: "i32 \<Rightarrow> u32" where
  "launcher_waves N = word_of_int ((sint N + 63) sdiv 64)"

definition launcher_wg :: "i32 \<Rightarrow> string option \<Rightarrow> u32" where
  "launcher_wg N e =
     (let wg = (if sint N < 1024 then N else 1024);
          wg = (case e of None \<Rightarrow> wg
                | Some v \<Rightarrow> (let v = word_of_int (atoi v) in if v \<noteq> 0 then v else wg))
      in if wg > 1024 then 1024 else wg)"

text \<open>The division by a workgroup size of 0 is undefined.\<close>

definition launcher_blocks :: "i32 \<Rightarrow> u32 \<Rightarrow> u32 option" where
  "launcher_blocks N wg = (if wg = 0 then None else Some ((N + wg - 1) div wg))"

definition launcher_kernargs :: "u32 \<Rightarrow> nat \<Rightarrow> nat \<Rightarrow> nat \<Rightarrow> i32 \<Rightarrow> u32 \<Rightarrow> u32 \<Rightarrow> nat \<Rightarrow> bytes option" where
  "launcher_kernargs ksize A B C N n_blocks wg instbuf = do {
     let ka_sz = kernarg_size ksize;
     k \<leftarrow> poke 0 (le_bytes 8 C) (replicate (unat ka_sz) 0);
     k \<leftarrow> poke 8 (le_bytes 8 A) k;
     k \<leftarrow> poke 16 (le_bytes 8 B) k;
     k \<leftarrow> poke 24 (le_bytes 4 (unat N)) k;
     k \<leftarrow> (if ka_sz \<ge> 52 then do {
             k \<leftarrow> poke 32 (le_bytes 4 (unat n_blocks)) k;
             k \<leftarrow> poke 44 (le_bytes 2 (unat wg)) k;
             poke 50 (le_bytes 2 (unat (N mod wg))) k }
           else Some k);
     if ksize \<ge> 8 then poke (unat (ksize - 8)) (le_bytes 8 instbuf) k else Some k }"

definition launcher_packet :: "i32 \<Rightarrow> u32 \<Rightarrow> u32 \<Rightarrow> u32 \<Rightarrow> nat \<Rightarrow> nat \<Rightarrow> nat \<Rightarrow> Packet" where
  "launcher_packet N wg psize gsize kobj kernargs done_sig =
     \<lparr>pk_type = KernelDispatch, pk_barrier = True, pk_acquire = FenceSystem, pk_release = FenceSystem,
      pk_setup_dims = 1, pk_workgroup = (ucast wg, 1, 1), pk_grid = (N, 1, 1),
      pk_private = psize, pk_group = gsize, pk_kernel = kobj, pk_kernarg = kernargs, pk_signal = done_sig\<rparr>"

text \<open>The dump reads four words of every slice; a read past the buffer is undefined.\<close>

fun slices_written :: "bytes \<Rightarrow> nat \<Rightarrow> nat \<Rightarrow> nat \<Rightarrow> nat option" where
  "slices_written buf stride w 0 = Some 0"
| "slices_written buf stride w (Suc n) = do {
     let off = 4 * (w * stride div 4);
     a \<leftarrow> rd 4 buf off;
     b \<leftarrow> rd 4 buf (off + 4);
     c \<leftarrow> rd 4 buf (off + 8);
     d \<leftarrow> rd 4 buf (off + 12);
     r \<leftarrow> slices_written buf stride (Suc w) n;
     Some ((if a \<noteq> 0 \<or> b \<noteq> 0 \<or> c \<noteq> 0 \<or> d \<noteq> 0 then 1 else 0) + r) }"

definition count_errors :: "(nat \<Rightarrow> bool) \<Rightarrow> nat \<Rightarrow> nat" where
  "count_errors mismatch n = length (filter mismatch [0 ..< n])"

text \<open>
  \<open>final\<close> is what the host finds in memory after the kernel: the per-wave buffer, and for
  which elements \<open>C[i] != A[i] + B[i]\<close>.
\<close>

definition launcher_dispatch ::
    "runtime \<Rightarrow> environ \<Rightarrow> bytes option \<Rightarrow> (call list \<Rightarrow> bytes \<times> (nat \<Rightarrow> bool)) \<Rightarrow> nat \<Rightarrow> nat \<Rightarrow> i32 \<Rightarrow> nat \<Rightarrow> nat
      \<Rightarrow> nat \<Rightarrow> u32 \<Rightarrow> u32 \<Rightarrow> u32 \<Rightarrow> call list \<Rightarrow> outcome" where
  "launcher_dispatch rt env co final fg gpu N mbox exe kobj ksize psize gsize =
     data_buffers rt fg gpu (scast N * 4) (nat (sint N)) (\<lambda>A B C.
       (case co_read_symbol_u32 co pw_stride_name 4096 of None \<Rightarrow> undefined_run
        | Some stride \<Rightarrow>
            wave_buffer rt fg gpu (ucast (launcher_waves N) * of_nat stride) (\<lambda>instbuf.
              (let wg = launcher_wg N (env ''HOSTCALL_WG'') in
               (case launcher_blocks N wg of None \<Rightarrow> undefined_run
                | Some n_blocks \<Rightarrow>
                    hsa_check rt (Allocate fg (unat (kernarg_size ksize))) (\<lambda>kernargs.
                      hsa_check rt (Grant gpu kernargs) (\<lambda>_.
                        (case launcher_kernargs ksize A B C N n_blocks wg instbuf of None \<Rightarrow> undefined_run
                         | Some ka \<Rightarrow> hsa rt (Store kernargs (HostBytes ka)) (\<lambda>_.
                             dispatch_wait rt gpu mbox (launcher_packet N wg psize gsize kobj kernargs) (\<lambda>queue done_sig log.
                               (case slices_written (fst (final log)) stride 0 (unat (launcher_waves N)) of
                                  None \<Rightarrow> (None, log)
                                | Some _ \<Rightarrow> shut_down rt queue done_sig exe
                                    (count_errors (snd (final log)) (nat (sint N))) log))))))))))) "

definition launcher_main ::
    "runtime \<Rightarrow> HsaAgent list \<Rightarrow> environ \<Rightarrow> (string \<Rightarrow> bytes option) \<Rightarrow> (call list \<Rightarrow> bytes \<times> (nat \<Rightarrow> bool))
      \<Rightarrow> string list \<Rightarrow> call list \<Rightarrow> outcome" where
  "launcher_main rt agents env fs final args =
     (let mutatee = argv args 1 ''vectoradd.inst.co''; instlib = argv args 2 ''hostcall_lib.aliased.elf'';
          kd_name = argv args 3 ''_Z9vectoraddPfPKfS1_i.kd'';
          N = (case env ''HOSTCALL_N'' of None \<Rightarrow> 64 | Some e \<Rightarrow> word_of_int (atoi e)) in
      hsa_check rt HsaInit (\<lambda>_. find_devices agents (\<lambda>gpu cpu fg.
        (case hsa_iterate find_coarse_grained (ha_pools gpu) None of None \<Rightarrow> fail_1 | Some cg \<Rightarrow>
           make_mailbox rt (hp_id fg) (ha_id gpu) (\<lambda>mbox.
             link_program rt (ha_id gpu) mbox instlib mutatee (\<lambda>exe.
               kernel_info rt exe kd_name (ha_id gpu) (\<lambda>kobj ksize psize gsize.
                 launcher_dispatch rt env (fs mutatee) final (hp_id fg) (ha_id gpu) N mbox exe kobj ksize psize gsize)))))))"

section \<open>The two- and three-dimensional launcher\<close>

record Nd =
  nd_block :: dim3
  nd_grid :: dim3
  nd_ndim :: u32

definition nd_dims :: "environ \<Rightarrow> Nd" where
  "nd_dims env =
     \<lparr>nd_block = \<lparr>dx = envu env ''BX'' 8, dy = envu env ''BY'' 8, dz = envu env ''BZ'' 4\<rparr>,
      nd_grid = \<lparr>dx = envu env ''GX'' 2, dy = envu env ''GY'' 2, dz = envu env ''GZ'' 2\<rparr>,
      nd_ndim = envu env ''NDIM'' 3\<rparr>"

definition nd_threads :: "Nd \<Rightarrow> u32 \<times> u32 \<times> u32" where
  "nd_threads d = (dx (nd_block d) * dx (nd_grid d), dy (nd_block d) * dy (nd_grid d), dz (nd_block d) * dz (nd_grid d))"

definition nd_total :: "Nd \<Rightarrow> u32" where
  "nd_total d = (case nd_threads d of (wx, wy, wz) \<Rightarrow> wx * wy * wz)"

definition nd_waves :: "Nd \<Rightarrow> u32" where
  "nd_waves d =
     (let threadsPerBlk = dx (nd_block d) * dy (nd_block d) * dz (nd_block d);
          wpb = (threadsPerBlk + 63) div 64;
          n_blocks = dx (nd_grid d) * dy (nd_grid d) * dz (nd_grid d)
      in n_blocks * wpb)"

definition nd_explicit_args :: "nat \<Rightarrow> nat \<Rightarrow> nat \<Rightarrow> Nd \<Rightarrow> bytes \<Rightarrow> bytes option" where
  "nd_explicit_args A B C d k = do {
     let (wx, wy, wz) = nd_threads d;
     k \<leftarrow> poke 0 (le_bytes 8 C) k;
     k \<leftarrow> poke 8 (le_bytes 8 A) k;
     k \<leftarrow> poke 16 (le_bytes 8 B) k;
     k \<leftarrow> poke 24 (le_bytes 4 (unat wx)) k;
     k \<leftarrow> poke 28 (le_bytes 4 (unat wy)) k;
     if nd_ndim d = 3 then poke 32 (le_bytes 4 (unat wz)) k else Some k }"

definition nd_hidden_args :: "Nd \<Rightarrow> nat \<Rightarrow> nat \<Rightarrow> bytes \<Rightarrow> bytes option" where
  "nd_hidden_args d off_bc off_gs k = do {
     k \<leftarrow> poke off_bc (le_bytes 4 (unat (dx (nd_grid d)))) k;
     k \<leftarrow> poke (off_bc + 4) (le_bytes 4 (unat (dy (nd_grid d)))) k;
     k \<leftarrow> poke (off_bc + 8) (le_bytes 4 (unat (dz (nd_grid d)))) k;
     k \<leftarrow> poke off_gs (le_bytes 2 (unat (dx (nd_block d)))) k;
     k \<leftarrow> poke (off_gs + 2) (le_bytes 2 (unat (dy (nd_block d)))) k;
     poke (off_gs + 4) (le_bytes 2 (unat (dz (nd_block d)))) k }"

definition nd_kernargs :: "u32 \<Rightarrow> nat \<Rightarrow> nat \<Rightarrow> nat \<Rightarrow> Nd \<Rightarrow> nat \<Rightarrow> nat \<Rightarrow> nat \<Rightarrow> bytes option" where
  "nd_kernargs ksize A B C d off_bc off_gs instbuf = do {
     k \<leftarrow> nd_explicit_args A B C d (replicate (unat (kernarg_size ksize)) 0);
     k \<leftarrow> nd_hidden_args d off_bc off_gs k;
     if ksize \<ge> 8 then poke (unat (ksize - 8)) (le_bytes 8 instbuf) k else Some k }"

definition nd_packet :: "Nd \<Rightarrow> u32 \<Rightarrow> u32 \<Rightarrow> nat \<Rightarrow> nat \<Rightarrow> nat \<Rightarrow> Packet" where
  "nd_packet d psize gsize kobj kernargs done_sig =
     \<lparr>pk_type = KernelDispatch, pk_barrier = True, pk_acquire = FenceSystem, pk_release = FenceSystem,
      pk_setup_dims = ucast (nd_ndim d),
      pk_workgroup = (ucast (dx (nd_block d)), ucast (dy (nd_block d)), ucast (dz (nd_block d))),
      pk_grid = nd_threads d,
      pk_private = psize, pk_group = gsize, pk_kernel = kobj, pk_kernarg = kernargs, pk_signal = done_sig\<rparr>"

text \<open>\<open>pw[0]||pw[1]||pw[2]||pw[3]\<close> reads a word only when the ones before it are 0.\<close>

fun any_word :: "bytes \<Rightarrow> nat list \<Rightarrow> bool option" where
  "any_word buf [] = Some False"
| "any_word buf (off # offs) = do { v \<leftarrow> rd 4 buf off; if v \<noteq> 0 then Some True else any_word buf offs }"

fun nd_slices_written :: "bytes \<Rightarrow> nat \<Rightarrow> nat \<Rightarrow> nat \<Rightarrow> nat option" where
  "nd_slices_written buf stride w 0 = Some 0"
| "nd_slices_written buf stride w (Suc n) = do {
     a \<leftarrow> any_word buf [w * stride, w * stride + 4, w * stride + 8, w * stride + 12];
     r \<leftarrow> nd_slices_written buf stride (Suc w) n;
     Some ((if a then 1 else 0) + r) }"

definition nd_dispatch ::
    "runtime \<Rightarrow> bytes option \<Rightarrow> (call list \<Rightarrow> bytes \<times> (nat \<Rightarrow> bool)) \<Rightarrow> nat \<Rightarrow> nat \<Rightarrow> Nd \<Rightarrow> nat \<Rightarrow> nat \<Rightarrow> nat \<Rightarrow> nat
      \<Rightarrow> nat \<Rightarrow> u32 \<Rightarrow> u32 \<Rightarrow> u32 \<Rightarrow> call list \<Rightarrow> outcome" where
  "nd_dispatch rt co final fg gpu d off_bc off_gs mbox exe kobj ksize psize gsize =
     data_buffers rt fg gpu (ucast (nd_total d) * 4) (unat (nd_total d)) (\<lambda>A B C.
       (case co_read_symbol_u32 co pw_stride_name 4096 of None \<Rightarrow> undefined_run
        | Some stride \<Rightarrow>
            wave_buffer rt fg gpu (ucast (nd_waves d) * of_nat stride) (\<lambda>instbuf.
              hsa_check rt (Allocate fg (unat (kernarg_size ksize))) (\<lambda>ka.
                hsa_check rt (Grant gpu ka) (\<lambda>_.
                  (case nd_kernargs ksize A B C d off_bc off_gs instbuf of None \<Rightarrow> undefined_run
                   | Some k \<Rightarrow> hsa rt (Store ka (HostBytes k)) (\<lambda>_.
                       dispatch_wait rt gpu mbox (nd_packet d psize gsize kobj ka) (\<lambda>queue done_sig log.
                         (case nd_slices_written (fst (final log)) stride 0 (unat (nd_waves d)) of
                            None \<Rightarrow> (None, log)
                          | Some _ \<Rightarrow> shut_down rt queue done_sig exe
                              (count_errors (snd (final log)) (unat (nd_total d))) log)))))))))"

definition block_count_name :: bytes where
  "block_count_name = map (\<lambda>c. of_nat (of_char c)) ''hidden_block_count_x''"

definition group_size_name :: bytes where
  "group_size_name = map (\<lambda>c. of_nat (of_char c)) ''hidden_group_size_x''"

definition nd_main ::
    "runtime \<Rightarrow> HsaAgent list \<Rightarrow> environ \<Rightarrow> (string \<Rightarrow> bytes option) \<Rightarrow> (call list \<Rightarrow> bytes \<times> (nat \<Rightarrow> bool))
      \<Rightarrow> string list \<Rightarrow> call list \<Rightarrow> outcome" where
  "nd_main rt agents env fs final args =
     (let mutatee = argv args 1 ''vectoradd3d.inst.synced.co''; instlib = argv args 2 ''combined.aliased.elf'';
          kd_name = argv args 3 ''_Z11vectoradd3dPfPKfS1_iii.kd''; d = nd_dims env in
      (case (co_read_kernarg_offset (fs mutatee) block_count_name 0xffffffff,
             co_read_kernarg_offset (fs mutatee) group_size_name 0xffffffff) of
         (Some off_bc, Some off_gs) \<Rightarrow>
           (if off_bc = 0xffffffff \<or> off_gs = 0xffffffff then fail_1
            else hsa_check rt HsaInit (\<lambda>_. find_devices agents (\<lambda>gpu cpu fg.
              make_mailbox rt (hp_id fg) (ha_id gpu) (\<lambda>mbox.
                link_program rt (ha_id gpu) mbox instlib mutatee (\<lambda>exe.
                  kernel_info rt exe kd_name (ha_id gpu) (\<lambda>kobj ksize psize gsize.
                    nd_dispatch rt (fs mutatee) final (hp_id fg) (ha_id gpu) d off_bc off_gs mbox exe kobj ksize psize gsize))))))
       | _ \<Rightarrow> undefined_run))"


section \<open>The order of the calls\<close>

text \<open>
  How the values of the calls fit together: what has to have happened before a call, whatever else
  did. How often and in which order the calls come, as the two loads before the freeze, is the script's
  matter at the end of the theory.
\<close>

fun needs :: "call \<Rightarrow> call set \<Rightarrow> bool" where
  "needs (LoadAgentCode exe gpu r) S = (\<exists>m. DefineGlobal exe gpu ''mailbox'' m \<in> S)"
| "needs (FreezeExecutable exe) S =
     (\<exists>gpu m r. DefineGlobal exe gpu ''mailbox'' m \<in> S \<and> LoadAgentCode exe gpu r \<in> S)"
| "needs (RunService m) S = (Store m (MailboxData queue_init) \<in> S)"
| "needs (WritePacket q i pk) S =
     (\<exists>exe gpu m ka. DefineGlobal exe gpu ''mailbox'' m \<in> S \<and> FreezeExecutable exe \<in> S \<and> RunService m \<in> S
        \<and> Grant gpu (pk_kernarg pk) \<in> S \<and> Store (pk_kernarg pk) (HostBytes ka) \<in> S)"
| "needs StopService S = (\<exists>sig. WaitSignal sig \<in> S)"
| "needs (WaitSignal sig) S = (\<exists>q i. RingDoorbell q i \<in> S)"
| "needs (RingDoorbell q i) S = (\<exists>slot pk. WritePacket q slot pk \<in> S)"
| "needs _ S = True"

definition log_ok :: "call list \<Rightarrow> bool" where
  "log_ok log \<longleftrightarrow> (\<forall>pre c post. log = pre @ c # post \<longrightarrow> needs c (set pre))"

lemma log_ok_Nil [simp]: "log_ok []"
  by (simp add: log_ok_def)

lemma log_ok_snoc [simp]: "log_ok (log @ [c]) \<longleftrightarrow> log_ok log \<and> needs c (set log)"
proof
  assume a: "log_ok (log @ [c])"
  have "needs c' (set pre)" if "log = pre @ c' # post" for pre c' post
    using a [unfolded log_ok_def, rule_format, of pre c' "post @ [c]"] that by simp
  then show "log_ok log \<and> needs c (set log)" using a [unfolded log_ok_def, rule_format, of log c "[]"] by (simp add: log_ok_def)
next
  assume "log_ok log \<and> needs c (set log)"
  then show "log_ok (log @ [c])" unfolding log_ok_def by (auto simp: append_eq_append_conv2 append_eq_Cons_conv Cons_eq_append_conv)
qed

lemma needs_mono: "needs c S \<Longrightarrow> S \<subseteq> T \<Longrightarrow> needs c T"
  by (cases "(c, S)" rule: needs.cases) (simp_all, blast+)

named_theorems safe_rules

text \<open>
  The contract between a runtime and its clients: what a call requires of the calls before it, where
  a requirement once met stays met. A program that makes the calls through \<open>hsa\<close> and \<open>hsa_check\<close> is
  \<open>safe S\<close> if it keeps the order after every log that holds the calls of \<open>S\<close>.
\<close>

locale call_protocol =
  fixes req :: "call \<Rightarrow> call set \<Rightarrow> bool" and ok :: "call list \<Rightarrow> bool"
  assumes mono: "req c S \<Longrightarrow> S \<subseteq> T \<Longrightarrow> req c T"
    and ok_snoc: "ok (log @ [c]) \<longleftrightarrow> ok log \<and> req c (set log)"
begin

definition safe :: "call set \<Rightarrow> (call list \<Rightarrow> outcome) \<Rightarrow> bool" where
  "safe S m \<longleftrightarrow> (\<forall>log. ok log \<longrightarrow> S \<subseteq> set log \<longrightarrow> ok (snd (m log)))"

lemma safe_hsa [safe_rules]:
  assumes "req c S" "\<And>v. safe (insert c S) (k v)"
  shows "safe S (hsa rt c k)"
  unfolding safe_def hsa_def
proof (intro allI impI)
  fix log assume l: "ok log" "S \<subseteq> set log"
  then have "ok (log @ [c])" using mono [OF assms(1)] ok_snoc by simp
  then show "ok (snd (k (snd (rt log c)) (log @ [c])))"
    using l(2) assms(2) [of "snd (rt log c)", unfolded safe_def, rule_format, of "log @ [c]"] by auto
qed

lemma safe_hsa_check [safe_rules]:
  assumes "req c S" "\<And>v. safe (insert c S) (k v)"
  shows "safe S (hsa_check rt c k)"
  unfolding safe_def
proof (intro allI impI)
  fix log assume l: "ok log" "S \<subseteq> set log"
  then have "ok (log @ [c])" using mono [OF assms(1)] ok_snoc by simp
  moreover have "ok (snd (hsa rt c k log))" using safe_hsa [OF assms, where rt = rt] l by (simp add: safe_def)
  ultimately show "ok (snd (hsa_check rt c k log))" by (cases "rt log c") (simp add: hsa_check_def hsa_def)
qed

lemma safe_stop [safe_rules]: "safe S fail_1" "safe S undefined_run" "safe S (Pair r)"
  by (simp_all add: safe_def fail_1_def undefined_run_def)

lemma safe_find_devices [safe_rules]:
  "(\<And>gpu cpu fg. safe S (k gpu cpu fg)) \<Longrightarrow> safe S (find_devices agents k)"
  by (auto simp: find_devices_def safe_stop split: option.splits)

lemma safe_option [safe_rules]:
  "safe S m \<Longrightarrow> (\<And>x. safe S (f x)) \<Longrightarrow> safe S (case a of None \<Rightarrow> m | Some x \<Rightarrow> f x)"
  by (simp split: option.splits)

lemma safe_shut_down:
  assumes "\<And>c S. c \<in> {DestroySignal sig, DestroyQueue queue, DestroyExecutable exe, ShutDown} \<Longrightarrow> req c S"
  shows "safe S (shut_down rt queue sig exe errors)"
  unfolding shut_down_def by (intro safe_rules assms) simp_all

lemma safe_report [safe_rules]:
  assumes "\<And>c S. c \<in> {DestroySignal sig, DestroyQueue queue, DestroyExecutable exe, ShutDown} \<Longrightarrow> req c S"
  shows "safe S (\<lambda>log. case f log of None \<Rightarrow> (None, log) | Some y \<Rightarrow> shut_down rt queue sig exe (g log) log)"
  using safe_shut_down [OF assms] by (auto simp: safe_def split: option.splits)

lemma safe_pair [safe_rules]:
  "safe S m \<Longrightarrow> (\<And>x y. safe S (f x y)) \<Longrightarrow> safe S (case (a, b) of (Some x, Some y) \<Rightarrow> f x y | _ \<Rightarrow> m)"
  by (simp split: option.splits)

lemma safe_if [safe_rules]: "safe S m \<Longrightarrow> safe S n \<Longrightarrow> safe S (if b then m else n)"
  by simp

end

interpretation launch: call_protocol needs log_ok
  by unfold_locales (rule needs_mono, simp_all)

lemmas launcher_parts = make_mailbox_def load_file_def link_program_def kernel_info_def data_buffers_def
  wave_buffer_def dispatch_wait_def

lemma needs_intros:
  "DefineGlobal exe gpu ''mailbox'' m \<in> S \<Longrightarrow> needs (LoadAgentCode exe gpu r) S"
  "DefineGlobal exe gpu ''mailbox'' m \<in> S \<Longrightarrow> LoadAgentCode exe gpu r \<in> S \<Longrightarrow> needs (FreezeExecutable exe) S"
  "Store m (MailboxData queue_init) \<in> S \<Longrightarrow> needs (RunService m) S"
  "DefineGlobal exe gpu ''mailbox'' m \<in> S \<Longrightarrow> FreezeExecutable exe \<in> S \<Longrightarrow> RunService m \<in> S
    \<Longrightarrow> Grant gpu a \<in> S \<Longrightarrow> Store a (HostBytes ka) \<in> S \<Longrightarrow> needs (WritePacket q i (launcher_packet N wg p g kobj a sig)) S"
  "DefineGlobal exe gpu ''mailbox'' m \<in> S \<Longrightarrow> FreezeExecutable exe \<in> S \<Longrightarrow> RunService m \<in> S
    \<Longrightarrow> Grant gpu a \<in> S \<Longrightarrow> Store a (HostBytes ka) \<in> S \<Longrightarrow> needs (WritePacket q i (nd_packet d p g kobj a sig)) S"
  "WaitSignal sig \<in> S \<Longrightarrow> needs StopService S"
  "RingDoorbell q i \<in> S \<Longrightarrow> needs (WaitSignal sig) S"
  "WritePacket q slot pk \<in> S \<Longrightarrow> needs (RingDoorbell q i) S"
  by (auto simp: launcher_packet_def nd_packet_def)

lemma launcher_safe: "launch.safe {} (launcher_main rt agents env fs final args)"
  unfolding launcher_main_def launcher_dispatch_def launcher_parts Let_def
proof (intro safe_rules needs_intros)
qed (rule insertI1 | rule insertI2 | simp only: needs.simps | fastforce)+

lemma nd_safe: "launch.safe {} (nd_main rt agents env fs final args)"
  unfolding nd_main_def nd_dispatch_def launcher_parts Let_def
proof (intro safe_rules needs_intros)
qed (rule insertI1 | rule insertI2 | simp only: needs.simps | fastforce)+

section \<open>The argument segment\<close>

lemma poke_fits [simp]: "off + length v \<le> length b \<Longrightarrow> poke off v b = Some (write_at off v b)"
  by (simp add: poke_def)

lemma field_write_same [text_simps]:
  "off + n \<le> length b \<Longrightarrow> x < 256 ^ n \<Longrightarrow> field n (write_at off (le_bytes n x) b) off = x"
  using write_at_read [of off "le_bytes n x" b] by (simp add: field_def le_val_bytes)

lemma nth_write_at_other:
  "off + length v \<le> length b \<Longrightarrow> i < off \<or> off + length v \<le> i \<Longrightarrow> i < length b \<Longrightarrow> write_at off v b ! i = b ! i"
  by (auto simp: write_at_def nth_append)

lemma field_write_other [text_simps]:
  assumes "o' + n \<le> off \<or> off + length v \<le> o'" "off + length v \<le> length b"
  shows "field n (write_at off v b) o' = field n b o'"
proof -
  have "take n (drop o' (write_at off v b)) = take n (drop o' b)"
  proof (rule nth_equalityI)
    fix i assume "i < length (take n (drop o' (write_at off v b)))"
    then have i: "i < n" "o' + i < length b" using assms(2) by auto
    then have "write_at off v b ! (o' + i) = b ! (o' + i)"
      using assms(1) by (intro nth_write_at_other [OF assms(2)]) auto
    then show "take n (drop o' (write_at off v b)) ! i = take n (drop o' b) ! i"
      using i assms(2) by simp
  qed (use assms(2) in simp)
  then show ?thesis by (simp add: field_def)
qed

text \<open>
  What a kernel reads of the launch: the COV5 implicit arguments hold the three block counts from
  the offset of \<open>hidden_block_count_x\<close> and the three group sizes from that of \<open>hidden_group_size_x\<close>.
\<close>

definition hidden_dims :: "bytes \<Rightarrow> nat \<Rightarrow> nat \<Rightarrow> dim3 \<times> dim3" where
  "hidden_dims ka bc gs =
     (\<lparr>dx = of_nat (field 4 ka bc), dy = of_nat (field 4 ka (bc + 4)), dz = of_nat (field 4 ka (bc + 8))\<rparr>,
      \<lparr>dx = of_nat (field 2 ka gs), dy = of_nat (field 2 ka (gs + 2)), dz = of_nat (field 2 ka (gs + 4))\<rparr>)"

lemma le_val_zeros: "le_val (replicate n 0) = 0"
  by (induction n) simp_all

lemma field_zeros [simp]: "field n (replicate m 0) off = 0"
  by (auto simp: field_def le_val_zeros take_replicate drop_replicate)

lemma u32_less_numeral: "unat (x :: u32) < 256 ^ 4"
  using unsigned_less [of x] by simp

lemma launcher_kernargs_layout:
  assumes "60 \<le> unat ksize" "wg \<le> 1024" "C < 2 ^ 64" "A < 2 ^ 64" "B < 2 ^ 64" "instbuf < 2 ^ 64"
  shows "\<exists>ka. launcher_kernargs ksize A B C N nb wg instbuf = Some ka \<and> length ka = max 64 (unat ksize)
    \<and> field 8 ka 0 = C \<and> field 8 ka 8 = A \<and> field 8 ka 16 = B \<and> field 4 ka 24 = unat N
    \<and> hidden_dims ka 32 44 = (\<lparr>dx = nb, dy = 0, dz = 0\<rparr>, \<lparr>dx = wg, dy = 0, dz = 0\<rparr>)
    \<and> field 8 ka (unat ksize - 8) = instbuf"
proof -
  let ?L = "max 64 (unat ksize)"
  have L: "unat (kernarg_size ksize) = ?L" "52 \<le> kernarg_size ksize" "8 \<le> ksize" "unat (ksize - 8) = unat ksize - 8"
    using assms(1) by (auto simp: kernarg_size_def word_less_nat_alt word_le_nat_alt max_def unat_sub)
  have wg: "unat wg < 256 ^ 2" using assms(2) by (simp add: word_le_nat_alt)
  let ?k = "write_at 24 (le_bytes 4 (unat N)) (write_at 16 (le_bytes 8 B) (write_at 8 (le_bytes 8 A)
    (write_at 0 (le_bytes 8 C) (replicate ?L 0))))"
  let ?h = "write_at 50 (le_bytes 2 (unat (N mod wg))) (write_at 44 (le_bytes 2 (unat wg)) (write_at 32 (le_bytes 4 (unat nb)) ?k))"
  let ?ka = "write_at (unat ksize - 8) (le_bytes 8 instbuf) ?h"
  have "launcher_kernargs ksize A B C N nb wg instbuf = Some ?ka"
    unfolding launcher_kernargs_def Let_def L(1,4) using L(2,3) assms(1) by (simp add: le_max_iff_disj)
  moreover have "length ?ka = ?L" using assms(1) by (simp add: le_max_iff_disj)
  moreover have "field 8 ?ka 0 = C" "field 8 ?ka 8 = A" "field 8 ?ka 16 = B" "field 4 ?ka 24 = unat N"
    using assms u32_less_numeral [of N] by (simp_all add: text_simps le_max_iff_disj)
  moreover have "hidden_dims ?ka 32 44 = (\<lparr>dx = nb, dy = 0, dz = 0\<rparr>, \<lparr>dx = wg, dy = 0, dz = 0\<rparr>)"
    using assms u32_less_numeral [of nb] wg by (simp add: hidden_dims_def text_simps le_max_iff_disj)
  moreover have "field 8 ?ka (unat ksize - 8) = instbuf"
    using assms by (simp add: text_simps le_max_iff_disj)
  ultimately show ?thesis by blast
qed


text \<open>
  C34: \<open>launcher.cpp\<close> fills in the block count and the group size of the first dimension only; the
  other two stay 0, and a probe that multiplies the three group sizes gets no waves per block: its
  global wavefront id is the number of the wave in its block, whatever the block. So the waves of
  different blocks share one slice of the per-wave buffer.
\<close>

theorem launcher_waves_share_slices:
  assumes "launcher_kernargs ksize A B C N nb wg instbuf = Some ka" "60 \<le> unat ksize" "wg \<le> 1024"
    and "C < 2 ^ 64" "A < 2 ^ 64" "B < 2 ^ 64" "instbuf < 2 ^ 64"
    and "hidden_dims ka 32 44 = (cx_gridDim cx, cx_blockDim cx)"
    and "cx_threadIdx cx = \<lparr>dx = t, dy = 0, dz = 0\<rparr>" "cx_blockIdx cx = \<lparr>dx = b, dy = 0, dz = 0\<rparr>"
  shows "dx (cx_gridDim cx) = nb \<and> dx (cx_blockDim cx) = wg \<and> global_wavefront_id cx = t div 64 \<and>
    slice stride (cx\<lparr>cx_blockIdx := \<lparr>dx = b', dy = 0, dz = 0\<rparr>\<rparr>) = slice stride cx"
proof -
  have h: "cx_gridDim cx = \<lparr>dx = nb, dy = 0, dz = 0\<rparr>" "cx_blockDim cx = \<lparr>dx = wg, dy = 0, dz = 0\<rparr>"
    using launcher_kernargs_layout [OF assms(2-7), of N nb] assms(1,8) by auto
  have "(63 :: u32) div 64 = 0" by simp
  then have "global_wavefront_id (cx\<lparr>cx_blockIdx := \<lparr>dx = b'', dy = 0, dz = 0\<rparr>\<rparr>) = t div 64" for b''
    using assms(9) h by (simp add: global_wavefront_id_def)
  moreover have "global_wavefront_id cx = t div 64" using assms(9,10) h by (simp add: global_wavefront_id_def)
  ultimately show ?thesis using h by (simp add: slice_def)
qed

definition demo_kernargs :: bytes where
  "demo_kernargs = the (launcher_kernargs 72 4096 8192 12288 256 4 64 65536)"

definition demo_wave :: wave_ctx where
  "demo_wave = \<lparr>cx_exec = - 1, cx_lane = 0, cx_blockDim = snd (hidden_dims demo_kernargs 32 44), cx_blockIdx = \<lparr>dx = 0, dy = 0, dz = 0\<rparr>,
     cx_gridDim = fst (hidden_dims demo_kernargs 32 44), cx_threadIdx = \<lparr>dx = 5, dy = 0, dz = 0\<rparr>\<rparr>"

theorem launcher_waves_share_slices_witness:
  "dx (cx_gridDim demo_wave) = 4 \<and>
   slice 64 (demo_wave\<lparr>cx_blockIdx := \<lparr>dx = 3, dy = 0, dz = 0\<rparr>\<rparr>) = slice 64 demo_wave"
proof -
  have k: "launcher_kernargs 72 4096 8192 12288 256 4 64 65536 = Some demo_kernargs"
    using launcher_kernargs_layout [of 72 64 12288 4096 8192 65536 256 4] by (auto simp: demo_kernargs_def)
  show ?thesis
    using launcher_waves_share_slices [OF k, of demo_wave 5 0 64 3] by (simp add: demo_wave_def)
qed

lemma nd_explicit_defined: "64 \<le> length k \<Longrightarrow> \<exists>k'. nd_explicit_args A B C d k = Some k' \<and> length k' = length k"
  by (cases "nd_threads d", cases "nd_ndim d = 3") (simp_all add: nd_explicit_args_def)

lemma nd_explicit_layout:
  assumes "64 \<le> length k" "C < 2 ^ 64" "A < 2 ^ 64" "B < 2 ^ 64"
  shows "\<exists>k'. nd_explicit_args A B C d k = Some k' \<and> length k' = length k
    \<and> field 8 k' 0 = C \<and> field 8 k' 8 = A \<and> field 8 k' 16 = B
    \<and> (case nd_threads d of (wx, wy, wz) \<Rightarrow>
        field 4 k' 24 = unat wx \<and> field 4 k' 28 = unat wy \<and> (nd_ndim d = 3 \<longrightarrow> field 4 k' 32 = unat wz))"
proof (cases "nd_threads d")
  case (fields wx wy wz)
  show ?thesis unfolding nd_explicit_args_def fields
    using assms u32_less_numeral [of wx] u32_less_numeral [of wy] u32_less_numeral [of wz]
    by (cases "nd_ndim d = 3") (simp_all add: text_simps)
qed

lemma nd_hidden_layout:
  assumes "bc + 12 \<le> gs" "gs + 6 \<le> length k"
    and "dx (nd_block d) < 65536" "dy (nd_block d) < 65536" "dz (nd_block d) < 65536"
  shows "\<exists>k'. nd_hidden_args d bc gs k = Some k' \<and> length k' = length k
    \<and> hidden_dims k' bc gs = (nd_grid d, nd_block d) \<and> (\<forall>o' n. o' + n \<le> bc \<longrightarrow> field n k' o' = field n k o')"
proof -
  have s: "unat (dx (nd_block d)) < 256 ^ 2" "unat (dy (nd_block d)) < 256 ^ 2" "unat (dz (nd_block d)) < 256 ^ 2"
    using assms(3-5) by (simp_all add: word_less_nat_alt)
  show ?thesis
    unfolding nd_hidden_args_def hidden_dims_def using assms(1,2) u32_less_numeral s
    by (simp add: text_simps)
qed

lemma slice_bound:
  assumes "launch_fits cx" "stride < 2 ^ 32"
  shows "slice stride cx \<subseteq> {0 ..< grid_blocks cx * waves_per_block cx * stride}"
proof -
  note a = wavefront_id_nat [OF assms(1)]
  have "unat (global_wavefront_id cx) < Suc (linear3 (cx_blockIdx cx) (cx_gridDim cx)) * waves_per_block cx"
    using a(1,2) by simp
  also have "\<dots> \<le> grid_blocks cx * waves_per_block cx" using a(3) by (intro mult_le_mono1) simp
  finally have "Suc (unat (global_wavefront_id cx)) * stride \<le> grid_blocks cx * waves_per_block cx * stride"
    by (intro mult_le_mono1) simp
  then show ?thesis unfolding slice_def by auto
qed

lemma unat_u32: "n < 2 ^ 32 \<Longrightarrow> unat (of_nat n :: u32) = n"
  by (simp add: unat_of_nat take_bit_nat_eq_self)

lemma u32_div64: "x < 2 ^ 32 \<Longrightarrow> (of_nat x :: u32) div 64 = of_nat (x div 64)"
proof (rule word_unat_eq_iff [THEN iffD2])
  assume x: "x < 2 ^ 32"
  then have "unat (of_nat x :: u32) = x" "unat (of_nat (x div 64) :: u32) = x div 64"
    using unat_u32 [of x] unat_u32 [of "x div 64"] by simp_all
  then show "unat ((of_nat x :: u32) div 64) = unat (of_nat (x div 64) :: u32)" by (simp only: unat_div) simp
qed

lemma nd_slice_bound:
  assumes "cx_gridDim cx = nd_grid d" "cx_blockDim cx = nd_block d" "launch_fits cx" "stride < 2 ^ 32"
  shows "slice stride cx \<subseteq> {0 ..< unat (ucast (nd_waves d) * of_nat stride :: u64)}"
proof -
  let ?W = "grid_blocks cx * waves_per_block cx"
  have B: "block_threads cx + 63 < 2 ^ 32" and W: "?W < 2 ^ 32" using assms(3) by (simp_all add: launch_fits_def)
  have u: "dx e * dy e * dz e = (of_nat (unat (dx e) * unat (dy e) * unat (dz e)) :: u32)" for e
    by (simp only: of_nat_mult of_nat_unat ucast_id)
  have "(of_nat (block_threads cx) + 63 :: u32) = of_nat (block_threads cx + 63)" by simp
  moreover have "(of_nat (block_threads cx + 63) :: u32) div 64 = of_nat (waves_per_block cx)"
    unfolding waves_per_block_def using B by (intro u32_div64)
  ultimately have w: "(of_nat (block_threads cx) + 63 :: u32) div 64 = of_nat (waves_per_block cx)" by simp
  have "nd_waves d = of_nat ?W"
    unfolding nd_waves_def Let_def u
    by (simp only: assms(1,2) [symmetric] block_threads_def [symmetric] grid_blocks_def [symmetric] w of_nat_mult)
  then have "unat (nd_waves d) = ?W" using W by (simp add: unat_of_nat take_bit_nat_eq_self del: of_nat_mult)
  moreover have "(ucast (nd_waves d) :: u64) = of_nat (unat (nd_waves d))" by simp
  ultimately have "(ucast (nd_waves d) * of_nat stride :: u64) = of_nat (?W * stride)"
    by (simp only: of_nat_mult)
  moreover have "?W * stride < 2 ^ 64" using mult_strict_mono [OF W assms(4)] by simp
  ultimately have "unat (ucast (nd_waves d) * of_nat stride :: u64) = ?W * stride"
    using unat_u64 [of "?W * stride"] by metis
  then show ?thesis using slice_bound [OF assms(3,4)] by simp
qed

lemma hidden_dims_write:
  "bc + 12 \<le> off \<Longrightarrow> gs + 6 \<le> off \<Longrightarrow> off + length v \<le> length k \<Longrightarrow> hidden_dims (write_at off v k) bc gs = hidden_dims k bc gs"
  by (simp add: hidden_dims_def text_simps)

text \<open>
  C35: \<open>launcher_nd.cpp\<close> fills in all dimensions: when the metadata places the hidden arguments
  after the explicit ones and before the appended pointer, the kernel reads back its three array
  pointers and the width, the height and, in three dimensions, the depth of the arrays, the grid and
  the block of the launch and the buffer, and every wave of the launch finds its slice inside the
  \<open>n_waves * STRIDE\<close> bytes.
\<close>

theorem nd_launch_layout:
  assumes "36 \<le> bc" "bc + 12 \<le> gs" "gs + 14 \<le> unat ksize"
    and "C < 2 ^ 64" "A < 2 ^ 64" "B < 2 ^ 64" "instbuf < 2 ^ 64" "stride < 2 ^ 32"
    and "dx (nd_block d) < 65536" "dy (nd_block d) < 65536" "dz (nd_block d) < 65536"
  shows "\<exists>ka. nd_kernargs ksize A B C d bc gs instbuf = Some ka
    \<and> field 8 ka 0 = C \<and> field 8 ka 8 = A \<and> field 8 ka 16 = B
    \<and> field 4 ka 24 = unat (dx (nd_block d) * dx (nd_grid d)) \<and> field 4 ka 28 = unat (dy (nd_block d) * dy (nd_grid d))
    \<and> (nd_ndim d = 3 \<longrightarrow> field 4 ka 32 = unat (dz (nd_block d) * dz (nd_grid d)))
    \<and> hidden_dims ka bc gs = (nd_grid d, nd_block d) \<and> field 8 ka (unat ksize - 8) = instbuf
    \<and> (\<forall>cx. (cx_gridDim cx, cx_blockDim cx) = hidden_dims ka bc gs \<and> launch_fits cx \<longrightarrow>
        slice stride cx \<subseteq> {0 ..< unat (ucast (nd_waves d) * of_nat stride :: u64)})"
proof -
  have L: "unat (kernarg_size ksize) = max 64 (unat ksize)" "8 \<le> ksize" "unat (ksize - 8) = unat ksize - 8"
    using assms(3) by (auto simp: kernarg_size_def word_less_nat_alt word_le_nat_alt max_def unat_sub)
  let ?z = "replicate (unat (kernarg_size ksize)) (0 :: u8)"
  obtain k where k: "nd_explicit_args A B C d ?z = Some k" "length k = max 64 (unat ksize)"
      "field 8 k 0 = C" "field 8 k 8 = A" "field 8 k 16 = B"
      "field 4 k 24 = unat (dx (nd_block d) * dx (nd_grid d))" "field 4 k 28 = unat (dy (nd_block d) * dy (nd_grid d))"
      "nd_ndim d = 3 \<longrightarrow> field 4 k 32 = unat (dz (nd_block d) * dz (nd_grid d))"
    using nd_explicit_layout [OF _ assms(4-6), of ?z d] L(1) by (auto simp: nd_threads_def)
  have "gs + 6 \<le> length k" using k(2) assms(3) by simp
  then obtain k' where k': "nd_hidden_args d bc gs k = Some k'" "length k' = length k"
      "hidden_dims k' bc gs = (nd_grid d, nd_block d)" "\<forall>o' n. o' + n \<le> bc \<longrightarrow> field n k' o' = field n k o'"
    using nd_hidden_layout [OF assms(2) _ assms(9-11)] by blast
  let ?ka = "write_at (unat ksize - 8) (le_bytes 8 instbuf) k'"
  have fit: "unat ksize - 8 + 8 \<le> length k'" using k(2) k'(2) assms(3) by simp
  have ka: "nd_kernargs ksize A B C d bc gs instbuf = Some ?ka"
    unfolding nd_kernargs_def k(1) using k'(1) L(2,3) fit by simp
  have f: "field 8 ?ka 0 = C" "field 8 ?ka 8 = A" "field 8 ?ka 16 = B"
    "field 4 ?ka 24 = unat (dx (nd_block d) * dx (nd_grid d))" "field 4 ?ka 28 = unat (dy (nd_block d) * dy (nd_grid d))"
    "nd_ndim d = 3 \<longrightarrow> field 4 ?ka 32 = unat (dz (nd_block d) * dz (nd_grid d))"
    using k(3-8) k'(4) assms(1-3) fit by (simp_all add: text_simps)
  have h: "hidden_dims ?ka bc gs = (nd_grid d, nd_block d)"
    using hidden_dims_write [of bc "unat ksize - 8" gs "le_bytes 8 instbuf" k'] k'(3) fit assms(2,3) by simp
  have p: "field 8 ?ka (unat ksize - 8) = instbuf"
    using field_write_same [OF fit] assms(7) by simp
  have "slice stride cx \<subseteq> {0 ..< unat (ucast (nd_waves d) * of_nat stride :: u64)}"
    if "(cx_gridDim cx, cx_blockDim cx) = hidden_dims ?ka bc gs \<and> launch_fits cx" for cx
    using that h nd_slice_bound [OF _ _ _ assms(8), of cx d] by simp
  then have "\<forall>cx. (cx_gridDim cx, cx_blockDim cx) = hidden_dims ?ka bc gs \<and> launch_fits cx \<longrightarrow>
      slice stride cx \<subseteq> {0 ..< unat (ucast (nd_waves d) * of_nat stride :: u64)}" by blast
  with ka f h p show ?thesis by (intro exI [of _ ?ka] conjI)
qed


lemma nd_launch_layout_witness:
  "\<exists>ka. nd_kernargs 96 4096 8192 12288 (nd_dims (\<lambda>v. None)) 40 52 65536 = Some ka
    \<and> map (field 4 ka) [24, 28, 32] = [16, 16, 8] \<and> hidden_dims ka 40 52 = (\<lparr>dx = 2, dy = 2, dz = 2\<rparr>, \<lparr>dx = 8, dy = 8, dz = 4\<rparr>) \<and> field 8 ka 88 = 65536"
proof -
  let ?d = "nd_dims (\<lambda>v. None)"
  have d: "nd_grid ?d = \<lparr>dx = 2, dy = 2, dz = 2\<rparr>" "nd_block ?d = \<lparr>dx = 8, dy = 8, dz = 4\<rparr>" "nd_ndim ?d = 3"
    by (simp_all add: nd_dims_def envu_def)
  show ?thesis
    using nd_launch_layout [of 40 52 96 12288 4096 8192 65536 64 ?d] by (auto simp: d)
qed

lemma nd_hidden_None:
  "nd_hidden_args d bc gs k = None \<longleftrightarrow> length k < bc + 12 \<or> length k < gs + 6"
proof (cases "bc + 12 \<le> length k \<and> gs + 6 \<le> length k")
  case True
  then show ?thesis by (simp add: nd_hidden_args_def)
next
  case False
  then consider "\<not> bc + 12 \<le> length k" | "bc + 12 \<le> length k" "\<not> gs + 6 \<le> length k" by blast
  then show ?thesis by cases (auto simp: nd_hidden_args_def poke_def bind_eq_None_conv split: if_splits)
qed

text \<open>
  \<open>launcher_nd.cpp\<close> never compares the offsets it read from the metadata with the size of the
  segment: exactly when a hidden argument ends past \<open>max 64 ksize\<close> bytes, the stores of the block
  counts or of the group sizes leave the allocation.
\<close>

theorem nd_offsets_unchecked:
  "nd_kernargs ksize A B C d bc gs instbuf = None \<longleftrightarrow>
     max 64 (unat ksize) < bc + 12 \<or> max 64 (unat ksize) < gs + 6"
proof -
  have L: "unat (kernarg_size ksize) = max 64 (unat ksize)"
    by (auto simp: kernarg_size_def word_less_nat_alt max_def)
  let ?z = "replicate (unat (kernarg_size ksize)) (0 :: u8)"
  obtain k where k: "nd_explicit_args A B C d ?z = Some k" "length k = max 64 (unat ksize)"
    using nd_explicit_defined [of ?z A B C d] L by auto
  show ?thesis
  proof (cases "nd_hidden_args d bc gs k")
    case None
    then show ?thesis using nd_hidden_None [of d bc gs k] k by (simp add: nd_kernargs_def)
  next
    case (Some k')
    then have "length k' = length k" by (auto simp: nd_hidden_args_def bind_eq_Some_conv poke_def split: if_splits)
    moreover have "8 \<le> ksize \<Longrightarrow> unat (ksize - 8) + 8 = unat ksize"
      by (simp add: word_le_nat_alt unat_sub)
    ultimately show ?thesis using nd_hidden_None [of d bc gs k] k Some by (auto simp: nd_kernargs_def)
  qed
qed

section \<open>The whole sequence of the calls\<close>

text \<open>A call without the handles and values that the runtime and the arguments determine.\<close>

datatype tag =
    TInit | TAllocate | TGrant | TStore | TMailbox | TCreateExecutable | TDefine string
  | TOpen string | TReader | TLoad | TClose | TFreeze | TSymbol string | TInfo symbol_info
  | TQueue | TSignal | TService | TWriteIndex | TQueueSize | TPacket | TStoreIndex | TDoorbell | TWait | TStopService
  | TDestroySignal | TDestroyQueue | TDestroyExecutable | TShutDown

fun tag_of :: "call \<Rightarrow> tag" where
  "tag_of HsaInit = TInit"
| "tag_of (Allocate p n) = TAllocate"
| "tag_of (Grant g a) = TGrant"
| "tag_of (Store a d) = (case d of MailboxData q \<Rightarrow> TMailbox | _ \<Rightarrow> TStore)"
| "tag_of CreateExecutable = TCreateExecutable"
| "tag_of (DefineGlobal e g s a) = TDefine s"
| "tag_of (OpenFile p) = TOpen p"
| "tag_of (ReaderFromFile f) = TReader"
| "tag_of (LoadAgentCode e g r) = TLoad"
| "tag_of (CloseFile f) = TClose"
| "tag_of (FreezeExecutable e) = TFreeze"
| "tag_of (FindSymbol e s g) = TSymbol s"
| "tag_of (SymbolInfo s i) = TInfo i"
| "tag_of (CreateQueue g n) = TQueue"
| "tag_of CreateSignal = TSignal"
| "tag_of (RunService m) = TService"
| "tag_of (LoadWriteIndex q) = TWriteIndex"
| "tag_of (QueueSize q) = TQueueSize"
| "tag_of (WritePacket q i p) = TPacket"
| "tag_of (StoreWriteIndex q i) = TStoreIndex"
| "tag_of (RingDoorbell q i) = TDoorbell"
| "tag_of (WaitSignal s) = TWait"
| "tag_of StopService = TStopService"
| "tag_of (DestroySignal s) = TDestroySignal"
| "tag_of (DestroyQueue q) = TDestroyQueue"
| "tag_of (DestroyExecutable e) = TDestroyExecutable"
| "tag_of ShutDown = TShutDown"

text \<open>The calls of a run that goes to its end, with the names of the two files and of the kernel.\<close>

definition launch_script :: "string \<Rightarrow> string \<Rightarrow> string \<Rightarrow> tag list" where
  "launch_script instlib mutatee kd =
     [TInit, TAllocate, TGrant, TMailbox, TCreateExecutable, TDefine ''mailbox'',
      TOpen instlib, TReader, TLoad, TClose, TOpen mutatee, TReader, TLoad, TClose, TFreeze,
      TSymbol kd, TInfo KernelObject, TInfo KernargSize, TInfo PrivateSize, TInfo GroupSize,
      TAllocate, TAllocate, TAllocate, TGrant, TGrant, TGrant, TStore, TStore, TStore,
      TAllocate, TGrant, TStore, TAllocate, TGrant, TStore,
      TQueue, TSignal, TService, TWriteIndex, TQueueSize, TPacket, TStoreIndex, TDoorbell, TWait, TStopService,
      TDestroySignal, TDestroyQueue, TDestroyExecutable, TShutDown]"

text \<open>A program follows a script: its calls are a first part of it, all of it when it returns 0.\<close>

definition follows :: "tag list \<Rightarrow> (call list \<Rightarrow> outcome) \<Rightarrow> bool" where
  "follows ts m \<longleftrightarrow> (\<forall>log. \<exists>calls. snd (m log) = log @ calls \<and> prefix (map tag_of calls) ts \<and>
     (fst (m log) = Some 0 \<longrightarrow> map tag_of calls = ts))"

named_theorems follow_rules

lemma follows_hsa [follow_rules]:
  assumes "tag_of c = t" "\<And>v. follows ts (k v)"
  shows "follows (t # ts) (hsa rt c k)"
  unfolding follows_def
proof
  fix log
  obtain calls where "snd (k (snd (rt log c)) (log @ [c])) = (log @ [c]) @ calls" "prefix (map tag_of calls) ts"
      "fst (k (snd (rt log c)) (log @ [c])) = Some 0 \<longrightarrow> map tag_of calls = ts"
    using assms(2) unfolding follows_def by blast
  then show "\<exists>calls. snd (hsa rt c k log) = log @ calls \<and> prefix (map tag_of calls) (t # ts) \<and>
      (fst (hsa rt c k log) = Some 0 \<longrightarrow> map tag_of calls = t # ts)"
    using assms(1) by (intro exI [of _ "c # calls"]) (simp add: hsa_def)
qed

lemma follows_hsa_check [follow_rules]:
  assumes "tag_of c = t" "\<And>v. follows ts (k v)"
  shows "follows (t # ts) (hsa_check rt c k)"
  unfolding follows_def
proof
  fix log
  show "\<exists>calls. snd (hsa_check rt c k log) = log @ calls \<and> prefix (map tag_of calls) (t # ts) \<and>
      (fst (hsa_check rt c k log) = Some 0 \<longrightarrow> map tag_of calls = t # ts)"
  proof (cases "fst (rt log c) = 0")
    case True
    then have "hsa_check rt c k log = hsa rt c k log" by (simp add: hsa_check_def hsa_def split_beta)
    then show ?thesis using follows_hsa [OF assms, where rt = rt] by (simp add: follows_def)
  next
    case False
    then show ?thesis using assms(1) by (intro exI [of _ "[c]"]) (simp add: hsa_check_def split_beta)
  qed
qed

lemma follows_stop [follow_rules]: "follows ts fail_1" "follows ts undefined_run"
  by (simp_all add: follows_def fail_1_def undefined_run_def)

lemma follows_find_devices [follow_rules]:
  "(\<And>gpu cpu fg. follows ts (k gpu cpu fg)) \<Longrightarrow> follows ts (find_devices agents k)"
  by (auto simp: find_devices_def follows_stop split: option.splits)

lemma follows_option [follow_rules]:
  "follows ts m \<Longrightarrow> (\<And>x. follows ts (f x)) \<Longrightarrow> follows ts (case a of None \<Rightarrow> m | Some x \<Rightarrow> f x)"
  by (simp split: option.splits)

lemma follows_shut_down: "follows [TDestroySignal, TDestroyQueue, TDestroyExecutable, TShutDown] (shut_down rt q sig exe errors)"
proof -
  have "follows [] (\<lambda>log. (r, log))" for r by (simp add: follows_def)
  then show ?thesis unfolding shut_down_def by (intro follow_rules) simp_all
qed

lemma follows_report [follow_rules]:
  "follows [TDestroySignal, TDestroyQueue, TDestroyExecutable, TShutDown]
     (\<lambda>log. case f log of None \<Rightarrow> (None, log) | Some y \<Rightarrow> shut_down rt q sig exe (g log) log)"
  unfolding follows_def
proof
  fix log
  show "\<exists>calls. snd (case f log of None \<Rightarrow> (None, log) | Some y \<Rightarrow> shut_down rt q sig exe (g log) log) = log @ calls \<and>
      prefix (map tag_of calls) [TDestroySignal, TDestroyQueue, TDestroyExecutable, TShutDown] \<and>
      (fst (case f log of None \<Rightarrow> (None, log) | Some y \<Rightarrow> shut_down rt q sig exe (g log) log) = Some 0 \<longrightarrow>
        map tag_of calls = [TDestroySignal, TDestroyQueue, TDestroyExecutable, TShutDown])"
    using follows_shut_down [of rt q sig exe "g log"] unfolding follows_def by (cases "f log") auto
qed

lemma follows_pair [follow_rules]:
  "follows ts m \<Longrightarrow> (\<And>x y. follows ts (f x y)) \<Longrightarrow> follows ts (case (a, b) of (Some x, Some y) \<Rightarrow> f x y | _ \<Rightarrow> m)"
  by (simp split: option.splits)

lemma follows_if [follow_rules]: "follows ts m \<Longrightarrow> follows ts n \<Longrightarrow> follows ts (if b then m else n)"
  by simp

lemma followsD: "follows ts m \<Longrightarrow> prefix (map tag_of (snd (m []))) ts \<and> (fst (m []) = Some 0 \<longrightarrow> map tag_of (snd (m [])) = ts)"
  unfolding follows_def by (drule spec [of _ "[]"]) auto

lemma safeD: "launch.safe {} m \<Longrightarrow> log_ok (snd (m []))"
  unfolding launch.safe_def by (drule spec [of _ "[]"]) simp

lemma launcher_follows:
  "follows (launch_script (argv args 2 ''hostcall_lib.aliased.elf'') (argv args 1 ''vectoradd.inst.co'')
     (argv args 3 ''_Z9vectoraddPfPKfS1_i.kd'')) (launcher_main rt agents env fs final args)"
  unfolding launcher_main_def launcher_dispatch_def launcher_parts Let_def launch_script_def
  by (intro follow_rules) simp_all

lemma nd_follows:
  "follows (launch_script (argv args 2 ''combined.aliased.elf'') (argv args 1 ''vectoradd3d.inst.synced.co'')
     (argv args 3 ''_Z11vectoradd3dPfPKfS1_iii.kd'')) (nd_main rt agents env fs final args)"
  unfolding nd_main_def nd_dispatch_def launcher_parts Let_def launch_script_def
  by (intro follow_rules) simp_all

text \<open>
  C33: both launchers make the calls of one script, in its order, whatever the runtime answers and
  wherever they give up, and all of them when they return 0: the mailbox is defined, the hostcall
  library and then the kernel's code object are loaded, and only then is the executable frozen.
  The values fit together: code is loaded into an executable whose mailbox is defined for the same
  agent, the service starts on the initialised mailbox, and the packet is written only for a frozen
  executable with the service running on its mailbox and its arguments stored and granted to the
  same agent; the service stops only after the wait for the kernel.
\<close>

theorem launchers_keep_order:
  fixes rt :: runtime and args :: "string list"
  defines "script \<equiv> launch_script (argv args 2 ''hostcall_lib.aliased.elf'') (argv args 1 ''vectoradd.inst.co'')
      (argv args 3 ''_Z9vectoraddPfPKfS1_i.kd'')"
    and "nd_script \<equiv> launch_script (argv args 2 ''combined.aliased.elf'') (argv args 1 ''vectoradd3d.inst.synced.co'')
      (argv args 3 ''_Z11vectoradd3dPfPKfS1_iii.kd'')"
  shows "(case launcher_main rt agents env fs final args [] of (code, calls) \<Rightarrow>
      log_ok calls \<and> prefix (map tag_of calls) script \<and> (code = Some 0 \<longrightarrow> map tag_of calls = script)) \<and>
    (case nd_main rt agents env fs final args [] of (code, calls) \<Rightarrow>
      log_ok calls \<and> prefix (map tag_of calls) nd_script \<and> (code = Some 0 \<longrightarrow> map tag_of calls = nd_script))"
  unfolding script_def nd_script_def split_beta
  by (intro conjI safeD [OF launcher_safe] safeD [OF nd_safe] followsD [OF launcher_follows] followsD [OF nd_follows]
      followsD [OF launcher_follows, THEN conjunct1] followsD [OF nd_follows, THEN conjunct1]
      followsD [OF launcher_follows, THEN conjunct2] followsD [OF nd_follows, THEN conjunct2])

text \<open>A grid of 0 elements divides by the workgroup size 0, unless \<open>HOSTCALL_WG\<close> sets one.\<close>

lemma empty_grid_divides_by_zero:
  "launcher_blocks 0 (launcher_wg 0 None) = None" "atoi ''none'' = 0"
  by (simp_all add: launcher_blocks_def launcher_wg_def atoi_def signed_text_def isspace_def digit_val_def Let_def)

text \<open>The coarse-grained pool has to exist, and is then not used.\<close>

lemma coarse_pool_required:
  "hsa_iterate find_coarse_grained ps None = find (\<lambda>p. hp_global p \<and> \<not> hp_fine p \<and> hp_alloc_allowed p) ps"
  by (induction ps) (simp_all add: find_coarse_grained_def)

lemma gpu_is_first_gfx9:
  "hsa_iterate find_gpu as None = find (\<lambda>a. ha_type a = DeviceGpu \<and> contains_sub ''gfx9'' (ha_name a)) as"
  by (induction as) (simp_all add: find_gpu_def)


text \<open>A run to the end: one element, a runtime in which every call succeeds.\<close>

lemma launcher_runs:
  "fst (launcher_main (\<lambda>log c. (0, 72))
     [\<lparr>ha_id = 1, ha_type = DeviceGpu, ha_name = ''gfx908'', ha_pools = [\<lparr>hp_id = 3, hp_global = True, hp_fine = False, hp_alloc_allowed = True\<rparr>]\<rparr>,
      \<lparr>ha_id = 2, ha_type = DeviceCpu, ha_name = '''', ha_pools = [\<lparr>hp_id = 4, hp_global = True, hp_fine = True, hp_alloc_allowed = True\<rparr>]\<rparr>]
     (\<lambda>v. if v = ''HOSTCALL_N'' then Some ''1'' else None) (\<lambda>p. None) (\<lambda>log. (replicate 4096 0, \<lambda>i. False)) [] []) = Some 0"
proof -
  have a: "atoi ''1'' = 1" by (simp add: atoi_def signed_text_def isspace_def digit_val_def Let_def)
  have f: "contains_sub ''gfx9'' ''gfx908''" by simp
  have w: "launcher_waves 1 = 1" by (simp add: launcher_waves_def)
  have g: "launcher_wg 1 None = 1" by (simp add: launcher_wg_def)
  have b: "launcher_blocks 1 1 = Some 1" by (simp add: launcher_blocks_def)
  have s: "co_read_symbol_u32 None pw_stride_name 4096 = Some 4096" by (simp add: co_read_symbol_u32_def over_sections_def)
  have z: "slices_written (replicate 4096 0) 4096 0 (Suc 0) = Some 0" by (simp add: rd_def le_val_zeros)
  show ?thesis
    unfolding launcher_main_def launcher_dispatch_def launcher_parts shut_down_def find_devices_def
    by (simp add: hsa_check_def hsa_def find_gpu_def find_cpu_agent_def find_fine_pool_def find_coarse_grained_def
        a f w g b s z argv_def launcher_kernargs_def kernarg_size_def Let_def count_errors_def rd_def)
qed

text \<open>The same run makes every call of the script, under the names that stand in for absent arguments.\<close>

lemma launchers_keep_order_witness:
  "map tag_of (snd (launcher_main (\<lambda>log c. (0, 72))
     [\<lparr>ha_id = 1, ha_type = DeviceGpu, ha_name = ''gfx908'', ha_pools = [\<lparr>hp_id = 3, hp_global = True, hp_fine = False, hp_alloc_allowed = True\<rparr>]\<rparr>,
      \<lparr>ha_id = 2, ha_type = DeviceCpu, ha_name = '''', ha_pools = [\<lparr>hp_id = 4, hp_global = True, hp_fine = True, hp_alloc_allowed = True\<rparr>]\<rparr>]
     (\<lambda>v. if v = ''HOSTCALL_N'' then Some ''1'' else None) (\<lambda>p. None) (\<lambda>log. (replicate 4096 0, \<lambda>i. False)) [] [])) =
   launch_script ''hostcall_lib.aliased.elf'' ''vectoradd.inst.co'' ''_Z9vectoraddPfPKfS1_i.kd''"
  using launchers_keep_order [where rt = "\<lambda>log c. (0, 72)" and env = "\<lambda>v. if v = ''HOSTCALL_N'' then Some ''1'' else None"
      and fs = "\<lambda>p. None" and final = "\<lambda>log. (replicate 4096 0, \<lambda>i. False)" and args = "[]"]
    launcher_runs
  by (simp add: split_beta argv_def)

end
