(* ===== verification/Insn.thy ===== *)
theory Insn
  imports Prelude
begin

text \<open>
  The instructions the analyses of \<open>analysis/cfrecovery\<close> look at. Dyninst decodes them; an
  instruction is the record of what the code observes of it: the opcode identity
  (\<open>getOperation().getID()\<close>), the mnemonic (\<open>getOperation().format()\<close>), the whole text
  (\<open>format()\<close>), the operands with their roles, and the read and write sets. A machine
  register is the record of its identity (compared with the named registers of the two
  architectures), its class, its number and its names. Then the helpers of \<open>structure.C\<close>
  (lines 107 to 328 and 428 to 443) on one instruction.
\<close>

section \<open>Observations of the decoder\<close>

datatype arch = GFX908 | GFX940 | OtherArch

datatype opname = S_AND_SAVEEXEC_B64 | S_OR_SAVEEXEC_B64 | S_XOR_SAVEEXEC_B64 | S_ANDN2_SAVEEXEC_B64
  | S_ORN2_SAVEEXEC_B64 | S_NAND_SAVEEXEC_B64 | S_NOR_SAVEEXEC_B64 | S_XNOR_SAVEEXEC_B64
  | S_OR_B64 | S_MOV_B64 | S_XOR_B64 | S_ANDN2_B64 | S_AND_B64 | V_CNDMASK_B32
  | S_SWAPPC_B64 | S_SETPC_B64 | S_CBRANCH_SCC0 | S_CBRANCH_SCC1 | S_CBRANCH_EXECZ | S_CBRANCH_EXECNZ
  | V_READFIRSTLANE_B32 | V_READLANE_B32 | OtherOp nat

type_synonym entryID = "arch \<times> opname"

definition CFR_IS :: "entryID \<Rightarrow> opname \<Rightarrow> bool" where
  "CFR_IS i n = (i = (GFX908, n) \<or> i = (GFX940, n))"

datatype reg_id = EXEC_LO arch | EXEC_HI arch | VCC_LO arch | VCC_HI arch | SRC_SCC arch | OtherReg nat

datatype reg_class = SgprClass arch | VgprClass arch | OtherClass nat

record MachRegister =
  rg_id :: reg_id
  rg_class :: reg_class
  rg_val :: nat
  rg_name :: string
  rg_format :: string

record Operand =
  op_format :: string
  isRead :: bool
  isWritten :: bool
  op_eval :: "int option"
  op_reads :: "MachRegister list"
  op_writes :: "MachRegister list"

record Instruction =
  in_id :: entryID
  in_mnemonic :: string
  in_format :: string
  in_ops :: "Operand list"
  in_reads :: "MachRegister list"
  in_writes :: "MachRegister list"

section \<open>Registers\<close>

definition toupper :: "char \<Rightarrow> char" where
  "toupper c = (let n = of_char c :: nat in if 97 \<le> n \<and> n \<le> 122 then char_of (n - 32) else c)"

definition regKey :: "MachRegister \<Rightarrow> string" where
  "regKey r = map toupper (rg_name r)"

definition isScalarReg :: "MachRegister \<Rightarrow> bool" where
  "isScalarReg r = (rg_class r = SgprClass GFX908 \<or> rg_class r = SgprClass GFX940)"

definition isDataReg :: "MachRegister \<Rightarrow> bool" where
  "isDataReg r =
     (if rg_class r \<notin> {SgprClass GFX908, VgprClass GFX908, SgprClass GFX940, VgprClass GFX940} then False
      else if rg_id r \<in> {EXEC_LO GFX908, EXEC_HI GFX908, VCC_LO GFX908, VCC_HI GFX908} then False
      else if rg_id r \<in> {EXEC_LO GFX940, EXEC_HI GFX940, VCC_LO GFX940, VCC_HI GFX940} then False
      else rg_name r \<noteq> ''scc'')"

definition dataRegs :: "MachRegister list \<Rightarrow> MachRegister list" where
  "dataRegs rs = sort_key rg_val (filter isDataReg rs)"

definition writesReg :: "Instruction \<Rightarrow> reg_id \<Rightarrow> bool" where
  "writesReg i r = (\<exists>w \<in> set (in_writes i). rg_id w = r)"

definition writesExec :: "Instruction \<Rightarrow> bool" where
  "writesExec i = (writesReg i (EXEC_LO GFX908) \<or> writesReg i (EXEC_HI GFX908)
     \<or> writesReg i (EXEC_LO GFX940) \<or> writesReg i (EXEC_HI GFX940))"

definition isSelfFlip :: "Instruction \<Rightarrow> bool" where
  "isSelfFlip i = (2 \<le> length (in_ops i) \<and> op_format (in_ops i ! 0) = op_format (in_ops i ! 1))"

section \<open>Branches, broadcasts and calls by opcode\<close>

definition isSccBranch :: "Instruction \<Rightarrow> bool" where
  "isSccBranch i = (CFR_IS (in_id i) S_CBRANCH_SCC0 \<or> CFR_IS (in_id i) S_CBRANCH_SCC1)"

definition sccBranchTakenWhenTrue :: "Instruction \<Rightarrow> bool" where
  "sccBranchTakenWhenTrue i = CFR_IS (in_id i) S_CBRANCH_SCC1"

definition isExecBranch :: "Instruction \<Rightarrow> bool" where
  "isExecBranch i = (CFR_IS (in_id i) S_CBRANCH_EXECNZ \<or> CFR_IS (in_id i) S_CBRANCH_EXECZ)"

definition execBranchTakenWhenLanesRemain :: "Instruction \<Rightarrow> bool" where
  "execBranchTakenWhenLanesRemain i = CFR_IS (in_id i) S_CBRANCH_EXECNZ"

definition isReadfirstlane :: "Instruction \<Rightarrow> bool" where
  "isReadfirstlane i = (CFR_IS (in_id i) V_READFIRSTLANE_B32 \<or> CFR_IS (in_id i) V_READLANE_B32)"

definition isCallInsn :: "Instruction \<Rightarrow> bool" where
  "isCallInsn i = (CFR_IS (in_id i) S_SWAPPC_B64 \<or> CFR_IS (in_id i) S_SETPC_B64)"

section \<open>Induction updates\<close>

text \<open>A 32-bit constant above \<open>0x7fffffff\<close> is read as a signed one.\<close>

definition signed32 :: "int \<Rightarrow> int" where
  "signed32 v = (if v > 0x7fffffff \<and> v \<le> 0xffffffff then v - 0x100000000 else v)"

fun induction_scan :: "string \<Rightarrow> Operand list \<Rightarrow> bool \<Rightarrow> string option \<Rightarrow> bool \<times> string option" where
  "induction_scan dst [] readsSelf imm = (readsSelf, imm)"
| "induction_scan dst (x # xs) readsSelf imm =
     (if \<not> isRead x then induction_scan dst xs readsSelf imm
      else case op_eval x of Some v \<Rightarrow> induction_scan dst xs readsSelf (Some (dec_int (signed32 v)))
        | None \<Rightarrow> induction_scan dst xs (readsSelf \<or> op_format x = dst) imm)"

definition isBasicInductionUpdate :: "Instruction \<Rightarrow> (string \<times> string) option" where
  "isBasicInductionUpdate i =
     (if \<not> contains_sub ''ADD'' (in_mnemonic i) then None
      else if length (in_ops i) < 2 \<or> \<not> isWritten (in_ops i ! 0) then None
      else let dst = op_format (in_ops i ! 0) in
        if dst = '''' then None
        else (case induction_scan dst (drop 1 (in_ops i)) False None of
            (True, Some imm) \<Rightarrow> Some (dst, imm) | _ \<Rightarrow> None))"

section \<open>Roles of the EXEC-mask operations\<close>

datatype MaskOp = MNone | Open | Close | Else | Reroute | Narrow | Select | Call | Compare

definition is_compare :: "string \<Rightarrow> bool" where
  "is_compare m = (starts_with ''V_CMP'' m \<or> starts_with ''S_CMP'' m)"

definition by_mnemonic :: "Instruction \<Rightarrow> MaskOp" where
  "by_mnemonic i = (if is_compare (in_mnemonic i) then Compare else MNone)"

definition on_arch :: "entryID \<Rightarrow> bool" where
  "on_arch e = (fst e = GFX908 \<or> fst e = GFX940)"

definition classify :: "Instruction \<Rightarrow> MaskOp" where
  "classify i = (if \<not> on_arch (in_id i) then by_mnemonic i else
     (case snd (in_id i) of
        S_AND_SAVEEXEC_B64 \<Rightarrow> Open
      | S_OR_SAVEEXEC_B64 \<Rightarrow> Else | S_XOR_SAVEEXEC_B64 \<Rightarrow> Else | S_ORN2_SAVEEXEC_B64 \<Rightarrow> Else
      | S_NAND_SAVEEXEC_B64 \<Rightarrow> Else | S_NOR_SAVEEXEC_B64 \<Rightarrow> Else | S_XNOR_SAVEEXEC_B64 \<Rightarrow> Else
      | S_ANDN2_SAVEEXEC_B64 \<Rightarrow> (if isSelfFlip i then Else else Reroute)
      | S_OR_B64 \<Rightarrow> (if writesExec i then Close else MNone)
      | S_MOV_B64 \<Rightarrow> (if writesExec i then Close else MNone)
      | S_XOR_B64 \<Rightarrow> (if writesExec i then Else else MNone)
      | S_ANDN2_B64 \<Rightarrow> (if writesExec i then Else else MNone)
      | S_AND_B64 \<Rightarrow> (if writesExec i then Narrow else MNone)
      | V_CNDMASK_B32 \<Rightarrow> Select
      | S_SWAPPC_B64 \<Rightarrow> Call
      | _ \<Rightarrow> by_mnemonic i))"

section \<open>Conditions\<close>

text \<open>The fields \<open>std::getline\<close> cuts at \<open>sep\<close>: an empty field after the last separator is dropped.\<close>

function getline_fields :: "char \<Rightarrow> string \<Rightarrow> string list" where
  "getline_fields sep s = (if s = [] then []
     else takeWhile (\<lambda>c. c \<noteq> sep) s # getline_fields sep (drop 1 (dropWhile (\<lambda>c. c \<noteq> sep) s)))"
  by pat_completeness auto
termination
proof (relation "measure (\<lambda>(sep, s). length s)")
  fix sep :: char and s :: string
  assume "s \<noteq> []"
  then show "((sep, drop 1 (dropWhile (\<lambda>c. c \<noteq> sep) s)), sep, s) \<in> measure (\<lambda>(sep, s). length s)"
    using length_dropWhile_le [of "\<lambda>c. c \<noteq> sep" s] by (cases s) auto
qed simp

declare getline_fields.simps [simp del]

definition cmpOp :: "string \<Rightarrow> string" where
  "cmpOp mnemonic =
     (let parts = getline_fields CHR ''_'' mnemonic;
          cond = (if 2 < length parts then parts ! 2 else ''?'') in
      if cond = ''LT'' then ''<''
      else if cond = ''GT'' then ''>''
      else if cond = ''LE'' \<or> cond = ''NGT'' then ''<=''
      else if cond = ''GE'' \<or> cond = ''NLT'' then ''>=''
      else if cond = ''EQ'' then ''==''
      else if cond = ''NE'' \<or> cond = ''LG'' \<or> cond = ''NEQ'' then ''!=''
      else ''.'' @ cond @ ''.'')"

definition maskReads :: "Instruction \<Rightarrow> reg_id list" where
  "maskReads i = filter (\<lambda>r. r \<notin> {EXEC_LO GFX908, EXEC_HI GFX908, EXEC_LO GFX940, EXEC_HI GFX940}) (map rg_id (in_reads i))"

definition definesAny :: "Instruction \<Rightarrow> reg_id list \<Rightarrow> bool" where
  "definesAny i regs = (\<exists>w \<in> set (in_writes i). rg_id w \<in> set regs)"

definition definesName :: "Instruction \<Rightarrow> string \<Rightarrow> bool" where
  "definesName i name = (\<exists>w \<in> set (in_writes i). rg_format w = name)"

text \<open>Source operands: read, not written, and not a flag register.\<close>

definition sources_without :: "string list \<Rightarrow> Instruction \<Rightarrow> string list" where
  "sources_without flags i =
     filter (\<lambda>s. s \<notin> set flags) (map op_format (filter (\<lambda>x. isRead x \<and> \<not> isWritten x) (in_ops i)))"

definition readOperands :: "Instruction \<Rightarrow> string list" where
  "readOperands i = sources_without [''EXEC'', ''EXEC_LO'', ''EXEC_HI'', ''SCC'', ''VCC'', ''[VCC_LO,VCC_HI]''] i"

definition infix_compare :: "string list \<Rightarrow> string \<Rightarrow> string" where
  "infix_compare src mnemonic = ''('' @ src ! 0 @ '' '' @ cmpOp mnemonic @ '' '' @ src ! 1 @ '')''"

definition formatCompare :: "Instruction \<Rightarrow> string" where
  "formatCompare i = (let src = sources_without [''EXEC'', ''SCC'', ''VCC'', ''[VCC_LO,VCC_HI]''] i in
     if 2 \<le> length src then infix_compare src (in_mnemonic i) else in_mnemonic i)"

end
