(* ===== verification/Classify.thy ===== *)
theory Classify
  imports Insn
begin

text \<open>
  The other copies of the classification: \<open>analysis/cfrecovery/classify.h\<close> with the predicates
  the block splitting uses, the earlier \<open>classify.C\<close> with the condition mask it prints, and
  the predicate of \<open>simt_if_instrument.C\<close>. The properties relate the copies to each other and
  to the EXEC write set.
\<close>

section \<open>classify.h\<close>

definition isGeneralWriteExec :: "Instruction \<Rightarrow> bool" where
  "isGeneralWriteExec i = (writesReg i (EXEC_LO GFX908) \<or> writesReg i (EXEC_HI GFX908)
     \<or> writesReg i (EXEC_LO GFX940) \<or> writesReg i (EXEC_HI GFX940))"

definition saveexec_family :: "opname list" where
  "saveexec_family = [S_AND_SAVEEXEC_B64, S_OR_SAVEEXEC_B64, S_XOR_SAVEEXEC_B64, S_ANDN2_SAVEEXEC_B64,
     S_ORN2_SAVEEXEC_B64, S_NAND_SAVEEXEC_B64, S_NOR_SAVEEXEC_B64, S_XNOR_SAVEEXEC_B64]"

definition isModifyExecMask :: "Instruction \<Rightarrow> bool" where
  "isModifyExecMask i = list_ex (CFR_IS (in_id i)) saveexec_family"

definition isExecSplitPoint :: "Instruction \<Rightarrow> bool" where
  "isExecSplitPoint i =
     (if CFR_IS (in_id i) S_MOV_B64 \<and> isGeneralWriteExec i then False
      else isModifyExecMask i \<or> isGeneralWriteExec i)"

definition cfr_isSelfFlip :: "Instruction \<Rightarrow> bool" where
  "cfr_isSelfFlip i = (length (in_ops i) \<ge> 2 \<and> op_format (in_ops i ! 0) = op_format (in_ops i ! 1))"

definition cfr_classify :: "Instruction \<Rightarrow> MaskOp" where
  "cfr_classify i = (let e = in_id i in
     if CFR_IS e S_AND_SAVEEXEC_B64 then Open
     else if list_ex (CFR_IS e) [S_OR_SAVEEXEC_B64, S_XOR_SAVEEXEC_B64, S_ORN2_SAVEEXEC_B64,
         S_NAND_SAVEEXEC_B64, S_NOR_SAVEEXEC_B64, S_XNOR_SAVEEXEC_B64] then Else
     else if CFR_IS e S_ANDN2_SAVEEXEC_B64 then (if cfr_isSelfFlip i then Else else Reroute)
     else if CFR_IS e S_OR_B64 \<or> CFR_IS e S_MOV_B64 then (if isGeneralWriteExec i then Close else MNone)
     else if CFR_IS e S_XOR_B64 \<or> CFR_IS e S_ANDN2_B64 then (if isGeneralWriteExec i then Else else MNone)
     else if CFR_IS e S_AND_B64 then (if isGeneralWriteExec i then Narrow else MNone)
     else if CFR_IS e V_CNDMASK_B32 then Select
     else if CFR_IS e S_SWAPPC_B64 then Call
     else if starts_with ''V_CMP'' (in_mnemonic i) \<or> starts_with ''S_CMP'' (in_mnemonic i) then Compare
     else MNone)"

section \<open>classify.C\<close>

definition old_writesExec :: "Instruction \<Rightarrow> bool" where
  "old_writesExec i = (writesReg i (EXEC_LO GFX908) \<or> writesReg i (EXEC_HI GFX908))"

definition old_classify :: "Instruction \<Rightarrow> MaskOp" where
  "old_classify i = (let e = in_id i in
     if e = (GFX908, S_AND_SAVEEXEC_B64) \<or> e = (GFX908, S_OR_SAVEEXEC_B64) then Open
     else if e = (GFX908, S_ANDN2_SAVEEXEC_B64) \<or> e = (GFX908, S_XOR_SAVEEXEC_B64) then Else
     else if e = (GFX908, S_OR_B64) \<or> e = (GFX908, S_MOV_B64) then (if old_writesExec i then Close else MNone)
     else if e = (GFX908, S_XOR_B64) \<or> e = (GFX908, S_ANDN2_B64) then (if old_writesExec i then Else else MNone)
     else if e = (GFX908, V_CNDMASK_B32) then Select
     else if e = (GFX908, S_SWAPPC_B64) then Call
     else if starts_with ''V_CMP'' (in_mnemonic i) then Compare else MNone)"

fun mask_scan :: "Operand list \<Rightarrow> string" where
  "mask_scan [] = ''?''"
| "mask_scan (x # xs) =
     (if \<not> isRead x \<or> isWritten x then mask_scan xs
      else if op_format x \<in> {''EXEC'', ''EXEC_LO'', ''EXEC_HI'', ''SCC''} then mask_scan xs
      else op_format x)"

definition readMaskOperand :: "Instruction \<Rightarrow> string" where
  "readMaskOperand i = mask_scan (in_ops i)"

section \<open>simt_if_instrument.C\<close>

definition isSaveExec :: "Instruction \<Rightarrow> bool" where
  "isSaveExec i = list_ex (CFR_IS (in_id i)) [S_AND_SAVEEXEC_B64, S_OR_SAVEEXEC_B64, S_XOR_SAVEEXEC_B64,
     S_ANDN2_SAVEEXEC_B64, S_ORN2_SAVEEXEC_B64, S_NAND_SAVEEXEC_B64, S_NOR_SAVEEXEC_B64, S_XNOR_SAVEEXEC_B64]"

section \<open>The copies agree\<close>

lemma CFR_IS_arch: "CFR_IS (a, m) n \<longleftrightarrow> on_arch (a, m) \<and> m = n"
  by (auto simp: CFR_IS_def on_arch_def)

lemma writes_exec_copies: "isGeneralWriteExec i = writesExec i"
  by (simp add: isGeneralWriteExec_def writesExec_def)

lemma self_flip_copies: "cfr_isSelfFlip i = isSelfFlip i"
  by (simp add: cfr_isSelfFlip_def isSelfFlip_def)

lemmas copies = writes_exec_copies self_flip_copies

lemma cfr_classify_eq: "cfr_classify i = classify i"
proof (cases "in_id i")
  case (Pair a m)
  show ?thesis
    by (cases m) (simp_all add: Pair cfr_classify_def classify_def CFR_IS_arch copies by_mnemonic_def is_compare_def Let_def)
qed

text \<open>An instruction of one architecture names the registers of that architecture only.\<close>

definition pure908 :: "Instruction \<Rightarrow> bool" where
  "pure908 i = (fst (in_id i) = GFX908 \<and> \<not> writesReg i (EXEC_LO GFX940) \<and> \<not> writesReg i (EXEC_HI GFX940))"

text \<open>The roles \<open>classify.C\<close> has, and the opcodes it does not know or reads differently.\<close>

definition old_role :: "Instruction \<Rightarrow> MaskOp" where
  "old_role i =
     (if classify i = Narrow \<or> (classify i = Else \<and> snd (in_id i) \<in> {S_ORN2_SAVEEXEC_B64, S_NAND_SAVEEXEC_B64, S_NOR_SAVEEXEC_B64, S_XNOR_SAVEEXEC_B64})
        \<or> (classify i = Compare \<and> \<not> starts_with ''V_CMP'' (in_mnemonic i)) then MNone
      else if snd (in_id i) = S_OR_SAVEEXEC_B64 then Open
      else if classify i = Reroute then Else
      else classify i)"

lemma old_writesExec_pure: "pure908 i \<Longrightarrow> old_writesExec i = writesExec i"
  by (simp add: old_writesExec_def writesExec_def pure908_def)

text \<open>The mnemonic of a named opcode is its name, so it is no compare.\<close>

definition mnemonic_ok :: "Instruction \<Rightarrow> bool" where
  "mnemonic_ok i = (is_compare (in_mnemonic i) \<longrightarrow> (\<exists>n. snd (in_id i) = OtherOp n))"

lemma old_classify_role: "pure908 i \<Longrightarrow> mnemonic_ok i \<Longrightarrow> old_classify i = old_role i"
proof -
  assume pure: "pure908 i" and ok: "mnemonic_ok i"
  obtain m where m: "in_id i = (GFX908, m)" using pure by (cases "in_id i") (auto simp: pure908_def)
  show ?thesis
  proof (cases "\<exists>n. m = OtherOp n")
    case True
    then show ?thesis
      by (auto simp: m old_classify_def old_role_def classify_def on_arch_def by_mnemonic_def is_compare_def split: if_splits)
  next
    case False
    then have "\<not> starts_with ''V_CMP'' (in_mnemonic i)" "\<not> is_compare (in_mnemonic i)"
      using ok m by (auto simp: mnemonic_ok_def is_compare_def)
    then show ?thesis using False old_writesExec_pure [OF pure]
      by (cases m) (simp_all add: m old_classify_def old_role_def classify_def on_arch_def by_mnemonic_def)
  qed
qed

section \<open>Properties\<close>

text \<open>
  C22: the copies of the classification agree: \<open>structure.C\<close> and \<open>classify.h\<close> give every
  instruction the same role, the mutator's saveexec test is \<open>isModifyExecMask\<close>; \<open>classify.C\<close>
  agrees on a gfx908 instruction exactly when it is no EXEC narrowing, no fused saveexec, no
  reroute, no \<open>s_or_saveexec\<close> (which it takes for the opening of an if) and no scalar compare.
\<close>
theorem classify_copies_agree:
  assumes "pure908 i" "mnemonic_ok i"
  shows "cfr_classify j = classify j \<and> isSaveExec j = isModifyExecMask j
    \<and> (old_classify i = classify i \<longleftrightarrow>
        classify i \<noteq> Narrow \<and> classify i \<noteq> Reroute
        \<and> snd (in_id i) \<notin> {S_OR_SAVEEXEC_B64, S_ORN2_SAVEEXEC_B64, S_NAND_SAVEEXEC_B64, S_NOR_SAVEEXEC_B64, S_XNOR_SAVEEXEC_B64}
        \<and> (classify i = Compare \<longrightarrow> starts_with ''V_CMP'' (in_mnemonic i)))
    \<and> (snd (in_id i) = S_OR_SAVEEXEC_B64 \<longrightarrow> old_classify i = Open \<and> classify i = Else)"
proof -
  obtain m where m: "in_id i = (GFX908, m)" using assms(1) by (cases "in_id i") (auto simp: pure908_def)
  have roles: "m \<in> {S_OR_SAVEEXEC_B64, S_ORN2_SAVEEXEC_B64, S_NAND_SAVEEXEC_B64, S_NOR_SAVEEXEC_B64, S_XNOR_SAVEEXEC_B64} \<Longrightarrow> classify i = Else"
    by (auto simp: m classify_def on_arch_def)
  have "isSaveExec j = isModifyExecMask j" by (simp add: isSaveExec_def isModifyExecMask_def saveexec_family_def)
  moreover have "(old_role i = classify i \<longleftrightarrow>
        classify i \<noteq> Narrow \<and> classify i \<noteq> Reroute
        \<and> m \<notin> {S_OR_SAVEEXEC_B64, S_ORN2_SAVEEXEC_B64, S_NAND_SAVEEXEC_B64, S_NOR_SAVEEXEC_B64, S_XNOR_SAVEEXEC_B64}
        \<and> (classify i = Compare \<longrightarrow> starts_with ''V_CMP'' (in_mnemonic i)))"
    using roles unfolding old_role_def m by (cases "classify i") auto
  moreover have "m = S_OR_SAVEEXEC_B64 \<Longrightarrow> old_role i = Open \<and> classify i = Else"
    using roles by (simp add: old_role_def m)
  ultimately show ?thesis
    by (simp add: cfr_classify_eq old_classify_role [OF assms] m)
qed

definition demo_operand :: "string \<Rightarrow> bool \<Rightarrow> bool \<Rightarrow> Operand" where
  "demo_operand s r w = \<lparr>op_format = s, isRead = r, isWritten = w, op_eval = None, op_reads = [], op_writes = []\<rparr>"

definition demo_exec :: MachRegister where
  "demo_exec = \<lparr>rg_id = EXEC_LO GFX908, rg_class = SgprClass GFX908, rg_val = 126, rg_name = ''exec_lo'', rg_format = ''EXEC_LO''\<rparr>"

definition demo_or_saveexec :: Instruction where
  "demo_or_saveexec = \<lparr>in_id = (GFX908, S_OR_SAVEEXEC_B64), in_mnemonic = ''S_OR_SAVEEXEC_B64'', in_format = ''S_OR_SAVEEXEC_B64 [S0,S1], [S0,S1]'',
     in_ops = [demo_operand ''[S0,S1]'' False True, demo_operand ''[S0,S1]'' True False], in_reads = [demo_exec], in_writes = [demo_exec]\<rparr>"

lemma demo_or_saveexec_ok: "pure908 demo_or_saveexec" "mnemonic_ok demo_or_saveexec"
  by (simp_all add: pure908_def mnemonic_ok_def demo_or_saveexec_def is_compare_def writesReg_def demo_exec_def)

lemma classify_copies_agree_witness:
  "old_classify demo_or_saveexec = Open \<and> classify demo_or_saveexec = Else"
  using classify_copies_agree [OF demo_or_saveexec_ok, of demo_or_saveexec] by (simp add: demo_or_saveexec_def)

text \<open>
  The block splitting and the roles fit: an instruction with a role on EXEC (open, else,
  reroute, close, narrow) starts a block of its own, except \<open>s_mov_b64 exec\<close>, which closes
  regions but is never split off; every other split point (an unnamed EXEC writer) gets no EXEC
  role, and an architecture that is neither gfx908 nor gfx940 gets no role but the compares.
\<close>
theorem exec_roles_are_split_points:
  shows "(isExecSplitPoint i \<longleftrightarrow> (classify i \<in> {Open, Else, Reroute, Narrow} \<or> (classify i = Close \<and> snd (in_id i) = S_OR_B64))
      \<or> (isGeneralWriteExec i \<and> classify i \<notin> {Open, Else, Reroute, Close, Narrow}))
    \<and> (classify i = Close \<longrightarrow> isGeneralWriteExec i)
    \<and> (\<not> on_arch (in_id i) \<longrightarrow> classify i \<in> {Compare, MNone})"
proof (cases "in_id i")
  case (Pair a m)
  show ?thesis
    by (cases m; cases "on_arch (a, m)"; cases "writesExec i")
      (simp_all add: Pair isExecSplitPoint_def isModifyExecMask_def saveexec_family_def CFR_IS_arch copies
        classify_def by_mnemonic_def)
qed

lemma exec_roles_are_split_points_witness:
  "isExecSplitPoint demo_or_saveexec \<and> \<not> isExecSplitPoint (demo_or_saveexec \<lparr>in_id := (GFX908, S_MOV_B64)\<rparr>)"
  using exec_roles_are_split_points [of demo_or_saveexec]
    exec_roles_are_split_points [of "demo_or_saveexec \<lparr>in_id := (GFX908, S_MOV_B64)\<rparr>"]
  by (simp add: demo_or_saveexec_def demo_exec_def classify_def on_arch_def writesExec_def isGeneralWriteExec_def writesReg_def)

end
