(* ===== verification/Flow_Graph.thy ===== *)
theory Flow_Graph
  imports Insn
begin

text \<open>
  The control-flow graph as the analyses see it, the order in which \<open>structure.C\<close> visits the
  blocks (\<open>reversePostOrder\<close>) and its backward searches for reaching definitions. ParseAPI
  builds the graph: a function is the record of its blocks (a block pointer is an index into
  \<open>fn_all\<close>, a null pointer is \<open>None\<close>), its entry, the blocks that belong to it, its immediate
  post-dominators and its loops.
\<close>

section \<open>The graph\<close>

datatype EdgeType = COND_TAKEN | COND_NOT_TAKEN | DIRECT | FALLTHROUGH | CALL_FT | INDIRECT | CALL | RET | OtherEdge

type_synonym edge = "EdgeType \<times> nat option"

record Block =
  blk_start :: nat
  blk_end :: nat
  blk_insns :: "(nat \<times> Instruction) list"
  blk_sources :: "edge list"
  blk_targets :: "edge list"

record LoopInfo =
  loop_entries :: "nat list"
  loop_blocks :: "nat list"

record Function =
  fn_name :: string
  fn_addr :: nat
  fn_all :: "Block list"
  fn_blocks :: "nat list"
  fn_entry :: nat
  fn_ipdom :: "nat \<Rightarrow> nat option"
  fn_loops :: "LoopInfo list"

definition null_block :: Block where
  "null_block = \<lparr>blk_start = 0, blk_end = 0, blk_insns = [], blk_sources = [], blk_targets = []\<rparr>"

definition deref :: "Function \<Rightarrow> nat \<Rightarrow> Block" where
  "deref f b = (if b < length (fn_all f) then fn_all f ! b else null_block)"

fun intraEdge :: "EdgeType \<Rightarrow> bool" where
  "intraEdge COND_TAKEN = True"
| "intraEdge COND_NOT_TAKEN = True"
| "intraEdge DIRECT = True"
| "intraEdge FALLTHROUGH = True"
| "intraEdge CALL_FT = True"
| "intraEdge INDIRECT = True"
| "intraEdge CALL = False"
| "intraEdge RET = False"
| "intraEdge OtherEdge = False"

text \<open>The ends of the edges that stay in the function, in their order.\<close>

fun intra_ends :: "edge list \<Rightarrow> nat list" where
  "intra_ends [] = []"
| "intra_ends ((t, Some b) # es) = (if intraEdge t then b # intra_ends es else intra_ends es)"
| "intra_ends ((t, None) # es) = intra_ends es"

section \<open>Reverse post-order\<close>

definition rpo_succs :: "Function \<Rightarrow> nat \<Rightarrow> nat list" where
  "rpo_succs f b = filter (\<lambda>t. t \<in> set (fn_blocks f)) (intra_ends (blk_targets (deref f b)))"

text \<open>
  The work stack has its top first: the unseen targets are pushed in the order of the edges,
  abv the marker that emits the block when they are done.
\<close>

function rpo_loop :: "Function \<Rightarrow> (nat \<times> bool) list \<Rightarrow> nat list \<Rightarrow> nat list \<Rightarrow> nat list" where
  "rpo_loop f [] seen post = rev post"
| "rpo_loop f ((b, expanded) # work) seen post =
     (if expanded then rpo_loop f work seen (post @ [b])
      else if b \<in> set seen then rpo_loop f work seen post
      else rpo_loop f
        (rev (map (\<lambda>t. (t, False)) (filter (\<lambda>t. t \<notin> set (b # seen)) (rpo_succs f b))) @ (b, True) # work)
        (b # seen) post)"
  by pat_completeness auto
termination
proof (relation "measures [\<lambda>(f, work, seen, post). card ((set (fn_blocks f) \<union> fst ` set work) - set seen),
    \<lambda>(f, work, seen, post). length work]")
  fix f :: Function and b :: nat and expanded :: bool and work :: "(nat \<times> bool) list" and seen post :: "nat list"
  assume "\<not> expanded" and "b \<notin> set seen"
  let ?ts = "filter (\<lambda>t. t \<notin> set (b # seen)) (rpo_succs f b)"
  let ?new = "rev (map (\<lambda>t. (t, False)) ?ts) @ (b, True) # work"
  have "set (fn_blocks f) \<union> fst ` set ?new - set (b # seen)
      \<subset> set (fn_blocks f) \<union> fst ` set ((b, expanded) # work) - set seen"
    using \<open>b \<notin> set seen\<close> by (auto simp: rpo_succs_def image_Un)
  then have "card (set (fn_blocks f) \<union> fst ` set ?new - set (b # seen))
      < card (set (fn_blocks f) \<union> fst ` set ((b, expanded) # work) - set seen)"
    by (rule psubset_card_mono [rotated]) simp
  then show "((f, ?new, b # seen, post), f, (b, expanded) # work, seen, post)
      \<in> measures [\<lambda>(f, work, seen, post). card ((set (fn_blocks f) \<union> fst ` set work) - set seen),
        \<lambda>(f, work, seen, post). length work]" by simp
next
  fix f :: Function and b :: nat and expanded :: bool and work :: "(nat \<times> bool) list" and seen post :: "nat list"
  have sub: "set (fn_blocks f) \<union> fst ` set work - set seen
      \<subseteq> set (fn_blocks f) \<union> fst ` set ((b, expanded) # work) - set seen" by auto
  have "card (set (fn_blocks f) \<union> fst ` set work - set seen)
      \<le> card (set (fn_blocks f) \<union> fst ` set ((b, expanded) # work) - set seen)"
    by (rule card_mono [OF _ sub]) simp
  then show "((f, work, seen, post @ [b]), f, (b, expanded) # work, seen, post)
      \<in> measures [\<lambda>(f, work, seen, post). card ((set (fn_blocks f) \<union> fst ` set work) - set seen),
        \<lambda>(f, work, seen, post). length work]"
    and "((f, work, seen, post), f, (b, expanded) # work, seen, post)
      \<in> measures [\<lambda>(f, work, seen, post). card ((set (fn_blocks f) \<union> fst ` set work) - set seen),
        \<lambda>(f, work, seen, post). length work]" by auto
qed simp

declare rpo_loop.simps [simp del]

definition reversePostOrder :: "Function \<Rightarrow> nat list" where
  "reversePostOrder f = rpo_loop f [(fn_entry f, False)] [] []"

section \<open>Backward searches\<close>

text \<open>
  \<open>reachingCond\<close>, \<open>reachingDefInsn\<close> and \<open>reachingDefByName\<close> are one search: the last instruction
  of the block before the address that is a definition; else the same in each predecessor, whole
  blocks now, as long as blocks are not visited and not kept out of (\<open>avoid\<close>, the blocks of a
  loop). A result that does not count (\<open>ok\<close>, an empty text for \<open>reachingCond\<close>) stops the
  search of this block but not of the remaining edges of its callers.
\<close>

definition last_def :: "Function \<Rightarrow> (Instruction \<Rightarrow> bool) \<Rightarrow> nat \<Rightarrow> nat \<Rightarrow> (nat \<times> Instruction) option" where
  "last_def f isdef b before = find (\<lambda>(a, i). a < before \<and> isdef i) (rev (blk_insns (deref f b)))"

function search :: "Function \<Rightarrow> (Instruction \<Rightarrow> bool) \<Rightarrow> (nat \<times> Instruction \<Rightarrow> bool) \<Rightarrow> nat list \<Rightarrow> nat \<Rightarrow> nat \<Rightarrow> nat list
      \<Rightarrow> (nat \<times> Instruction) option \<times> nat list"
  and search_edges :: "Function \<Rightarrow> (Instruction \<Rightarrow> bool) \<Rightarrow> (nat \<times> Instruction \<Rightarrow> bool) \<Rightarrow> nat list \<Rightarrow> nat list \<Rightarrow> nat list
      \<Rightarrow> (nat \<times> Instruction) option \<times> nat list" where
  "search f isdef ok avoid b before vis =
     (if length (fn_all f) \<le> b \<or> b \<in> set vis \<or> b \<in> set avoid then (None, vis)
      else case last_def f isdef b before of
          Some d \<Rightarrow> (if ok d then Some d else None, b # vis)
        | None \<Rightarrow> search_edges f isdef ok avoid (intra_ends (blk_sources (deref f b))) (b # vis))"
| "search_edges f isdef ok avoid [] vis = (None, vis)"
| "search_edges f isdef ok avoid (p # ps) vis =
     (case search f isdef ok avoid p (blk_end (deref f p)) vis of
        (Some d, v) \<Rightarrow> (Some d, v)
      | (None, v) \<Rightarrow> search_edges f isdef ok avoid ps v)"
  by pat_completeness auto

lemma search_dom_visited:
  "search_search_edges_dom (Inl (f, isdef, ok, avoid, b, before, vis)) \<Longrightarrow>
    search f isdef ok avoid b before vis = (r, v) \<Longrightarrow> set vis \<subseteq> set v"
  "search_search_edges_dom (Inr (f, isdef, ok, avoid, ps, vis)) \<Longrightarrow>
    search_edges f isdef ok avoid ps vis = (r, v) \<Longrightarrow> set vis \<subseteq> set v"
proof (induction f isdef ok avoid b before vis and f isdef ok avoid ps vis arbitrary: r v and r v
    rule: search_search_edges.pinduct)
  case (1 f isdef ok avoid b before vis)
  show ?case
  proof (cases "length (fn_all f) \<le> b \<or> b \<in> set vis \<or> b \<in> set avoid \<or> last_def f isdef b before \<noteq> None")
    case True
    then show ?thesis using 1(3) by (auto simp: search.psimps [OF 1(1)] split: if_splits)
  next
    case False
    then have n: "last_def f isdef b before = None" by blast
    with False have "search_edges f isdef ok avoid (intra_ends (blk_sources (deref f b))) (b # vis) = (r, v)"
      using 1(3) by (cases "last_def f isdef b before") (simp_all add: search.psimps [OF 1(1)])
    from 1(2) [OF _ n this] False show ?thesis by simp
  qed
next
  case (3 f isdef ok avoid p ps vis)
  obtain r' v' where s: "search f isdef ok avoid p (blk_end (deref f p)) vis = (r', v')" by fastforce
  have "set vis \<subseteq> set v'" by (rule 3(2) [OF s])
  moreover have "r' = None \<Longrightarrow> set v' \<subseteq> set v" using 3(3) [OF s [symmetric]] 3(4) s
    by (auto simp: search_edges.psimps(2) [OF 3(1)])
  ultimately show ?case using 3(4) s by (cases r') (auto simp: search_edges.psimps(2) [OF 3(1)])
qed (auto simp: search_edges.psimps(1))

definition unvisited :: "Function \<Rightarrow> nat list \<Rightarrow> nat" where
  "unvisited f vis = card ({..<length (fn_all f)} - set vis)"

lemma unvisited_Cons: "b < length (fn_all f) \<Longrightarrow> b \<notin> set vis \<Longrightarrow> unvisited f (b # vis) < unvisited f vis"
  unfolding unvisited_def by (rule psubset_card_mono) auto

lemma unvisited_mono: "set vis \<subseteq> set v \<Longrightarrow> unvisited f v \<le> unvisited f vis"
  unfolding unvisited_def by (rule card_mono) auto

lemma search_dom_all: "All search_search_edges_dom"
  apply (relation "measures [\<lambda>x. case x of Inl (f, isdef, ok, avoid, b, before, vis) \<Rightarrow> unvisited f vis
      | Inr (f, isdef, ok, avoid, ps, vis) \<Rightarrow> unvisited f vis,
    \<lambda>x. case x of Inl _ \<Rightarrow> 0 | Inr (f, isdef, ok, avoid, ps, vis) \<Rightarrow> Suc (length ps)]")
             apply (auto simp: unvisited_Cons)
  subgoal premises prems for f isdef ok avoid p vis y
    using unvisited_mono [OF search_dom_visited(1) [OF prems(2) prems(1) [symmetric]], of f] prems(3) by simp
  done

termination search
  by (rule search_dom_all)

declare search.simps [simp del]

lemmas search_visited = search_dom_visited [OF search_dom_all [THEN spec]]

section \<open>The reverse post-order visits blocks before their successors\<close>

definition flow :: "Function \<Rightarrow> (nat \<times> nat) set" where
  "flow f = {(b, t). t \<in> set (rpo_succs f b)}"

text \<open>
  Below each marker \<open>(b, True)\<close> of the stack: everything above it is reachable from \<open>b\<close>, and the
  successors of \<open>b\<close> are seen or above it.
\<close>

fun work_ok :: "Function \<Rightarrow> nat set \<Rightarrow> nat set \<Rightarrow> (nat \<times> bool) list \<Rightarrow> bool" where
  "work_ok f seen abv [] = True"
| "work_ok f seen abv ((b, m) # w) =
     ((m \<longrightarrow> set (rpo_succs f b) \<subseteq> seen \<union> abv \<and> abv \<subseteq> (flow f)\<^sup>* `` {b})
      \<and> work_ok f seen (insert b abv) w)"

lemma work_ok_mono:
  "work_ok f seen abv w \<Longrightarrow> seen \<union> abv \<subseteq> seen' \<union> abv' \<Longrightarrow> abv' \<subseteq> (flow f)\<^sup>* `` abv \<Longrightarrow> work_ok f seen' abv' w"
proof (induction w arbitrary: abv abv')
  case (Cons x w)
  obtain b m where x: "x = (b, m)" by (cases x)
  have "work_ok f seen' (insert b abv') w"
    by (rule Cons.IH [of "insert b abv"]) (use Cons.prems in \<open>auto simp: x\<close>)
  moreover have "m \<Longrightarrow> abv' \<subseteq> (flow f)\<^sup>* `` {b}"
  proof -
    assume m
    then have "abv \<subseteq> (flow f)\<^sup>* `` {b}" using Cons.prems(1) by (simp add: x)
    with Cons.prems(3) show ?thesis by (blast intro: rtrancl_trans)
  qed
  ultimately show ?case using Cons.prems(1,2) by (auto simp: x)
qed simp

lemma work_ok_pending: "work_ok f seen abv (map (\<lambda>t. (t, False)) ts @ w) \<longleftrightarrow> work_ok f seen (set ts \<union> abv) w"
  by (induction ts arbitrary: abv) (auto simp: insert_commute)

lemma work_ok_reach: "work_ok f seen abv w \<Longrightarrow> (t, True) \<in> set w \<Longrightarrow> a \<in> abv \<Longrightarrow> (t, a) \<in> (flow f)\<^sup>*"
  by (induction f seen abv w rule: work_ok.induct) auto

definition post_ok :: "Function \<Rightarrow> nat list \<Rightarrow> bool" where
  "post_ok f post \<longleftrightarrow> (\<forall>i < length post. \<forall>t \<in> set (rpo_succs f (post ! i)).
     t \<in> set (take i post) \<or> (t, post ! i) \<in> (flow f)\<^sup>*)"

lemma post_ok_snoc:
  "post_ok f post \<Longrightarrow> (\<And>t. t \<in> set (rpo_succs f b) \<Longrightarrow> t \<in> set post \<or> (t, b) \<in> (flow f)\<^sup>*) \<Longrightarrow> post_ok f (post @ [b])"
  by (auto simp: post_ok_def nth_append less_Suc_eq)

definition markers :: "(nat \<times> bool) list \<Rightarrow> nat list" where
  "markers w = map fst (filter snd w)"

definition rpo_inv :: "Function \<Rightarrow> (nat \<times> bool) list \<Rightarrow> nat list \<Rightarrow> nat list \<Rightarrow> bool" where
  "rpo_inv f work seen post \<longleftrightarrow>
     distinct (post @ markers work) \<and> set seen \<subseteq> set post \<union> set (markers work)
     \<and> set post \<union> set (markers work) \<subseteq> set seen
     \<and> fst ` set work \<union> set seen \<subseteq> (flow f)\<^sup>* `` {fn_entry f} \<and> fn_entry f \<in> fst ` set work \<union> set seen
     \<and> work_ok f (set seen) {} work \<and> (\<forall>b \<in> set post. set (rpo_succs f b) \<subseteq> set seen) \<and> post_ok f post
     \<and> (work = [] \<longrightarrow> post \<noteq> [] \<and> last post = fn_entry f)
     \<and> (work \<noteq> [] \<longrightarrow> fst (last work) = fn_entry f \<and> (snd (last work) \<or> seen = [] \<and> tl work = []))"

lemma markers_simps [simp]: "markers [] = []" "markers ((b, m) # w) = (if m then b # markers w else markers w)"
  "markers (map (\<lambda>t. (t, False)) ts @ w) = markers w"
  by (auto simp: markers_def)

lemma in_markers: "t \<in> set (markers w) \<longleftrightarrow> (t, True) \<in> set w"
  by (force simp: markers_def)

lemma rpo_inv_emit:
  assumes "rpo_inv f ((b, True) # w) seen post"
  shows "rpo_inv f w seen (post @ [b])"
proof -
  from assms have succs: "set (rpo_succs f b) \<subseteq> set seen" and ok: "work_ok f (set seen) {b} w"
    and seen: "set seen \<subseteq> set post \<union> insert b (set (markers w))" "b \<in> set seen"
    by (auto simp: rpo_inv_def)
  have "post_ok f (post @ [b])"
  proof (rule post_ok_snoc)
    show "post_ok f post" using assms by (simp add: rpo_inv_def)
    fix t assume "t \<in> set (rpo_succs f b)"
    then consider "t \<in> set post" | "t = b" | "(t, True) \<in> set w"
      using succs seen by (auto simp: in_markers)
    then show "t \<in> set post \<or> (t, b) \<in> (flow f)\<^sup>*"
      by cases (auto intro: work_ok_reach [OF ok])
  qed
  moreover have "work_ok f (set seen) {} w" by (rule work_ok_mono [OF ok]) (use seen in auto)
  ultimately show ?thesis using assms succs by (auto simp: rpo_inv_def split: if_splits)
qed

lemma rpo_inv_skip:
  assumes "rpo_inv f ((b, False) # w) seen post" and "b \<in> set seen"
  shows "rpo_inv f w seen post"
proof -
  have ok: "work_ok f (set seen) {b} w" using assms(1) by (simp add: rpo_inv_def)
  have "work_ok f (set seen) {} w" by (rule work_ok_mono [OF ok]) (use assms(2) in auto)
  then show ?thesis using assms by (auto simp: rpo_inv_def split: if_splits)
qed

lemma rpo_inv_expand:
  assumes "rpo_inv f ((b, False) # w) seen post" and "b \<notin> set seen"
  defines "ts \<equiv> filter (\<lambda>t. t \<notin> set (b # seen)) (rpo_succs f b)"
  shows "rpo_inv f (rev (map (\<lambda>t. (t, False)) ts) @ (b, True) # w) (b # seen) post"
proof -
  have rv: "rev (map (\<lambda>t. (t, False)) ts) = map (\<lambda>t. (t, False)) (rev ts)" by (simp add: rev_map)
  have ok: "work_ok f (set seen) {b} w" using assms(1) by (simp add: rpo_inv_def)
  have edge: "(b, t) \<in> flow f" if "t \<in> set ts" for t using that by (simp add: ts_def flow_def)
  have b: "(fn_entry f, b) \<in> (flow f)\<^sup>*" using assms(1) by (simp add: rpo_inv_def)
  have "work_ok f (set (b # seen)) (insert b (set ts)) w"
    by (rule work_ok_mono [OF ok]) (use edge in auto)
  moreover have "set (rpo_succs f b) \<subseteq> insert b (set seen) \<union> set ts" by (auto simp: ts_def)
  moreover have "set ts \<subseteq> (flow f)\<^sup>* `` {b}" using edge by auto
  moreover have "set ts \<subseteq> (flow f)\<^sup>* `` {fn_entry f}" using edge b by (auto intro: rtrancl.rtrancl_into_rtrancl)
  ultimately have wk: "work_ok f (set (b # seen)) {} (rev (map (\<lambda>t. (t, False)) ts) @ (b, True) # w)"
    and reach: "set ts \<subseteq> (flow f)\<^sup>* `` {fn_entry f}"
    unfolding rv by (simp_all add: work_ok_pending)
  have succs: "\<forall>x \<in> set post. set (rpo_succs f x) \<subseteq> set (b # seen)" using assms(1) by (auto simp: rpo_inv_def)
  have bm: "b \<notin> set post" "b \<notin> set (markers w)" using assms(1,2) by (auto simp: rpo_inv_def)
  show ?thesis unfolding rpo_inv_def
    using assms(1) wk succs reach bm unfolding rpo_inv_def rv by (auto simp: image_Un image_image split: if_splits)
qed

lemma rpo_loop_inv:
  "rpo_inv f work seen post \<Longrightarrow> \<exists>post' seen'. rpo_loop f work seen post = rev post' \<and> rpo_inv f [] seen' post'"
proof (induction f work seen post rule: rpo_loop.induct)
  case (1 f seen post)
  then show ?case by (auto simp: rpo_loop.simps)
next
  case (2 f b expanded w seen post)
  note step = rpo_loop.simps(2) [of f b expanded w seen post]
  consider "expanded" | "\<not> expanded" "b \<in> set seen" | "\<not> expanded" "b \<notin> set seen" by blast
  then show ?case
  proof cases
    case 1
    then show ?thesis using 2(1) [OF 1 rpo_inv_emit] 2(4) step by simp
  next
    case 2
    then show ?thesis using "2.IH"(2) [OF 2 rpo_inv_skip [OF _ 2(2)]] "2.prems" step by simp
  next
    case 3
    then show ?thesis using "2.IH"(3) [OF 3 rpo_inv_expand [OF _ 3(2)]] "2.prems" step by simp
  qed
qed

lemma rpo_final: "\<exists>post seen. reversePostOrder f = rev post \<and> rpo_inv f [] seen post"
  unfolding reversePostOrder_def by (rule rpo_loop_inv) (simp add: rpo_inv_def post_ok_def)

text \<open>The visited blocks are the reachable ones.\<close>

lemma rpo_inv_final:
  assumes "rpo_inv f [] seen post"
  shows "distinct post" "fn_entry f \<in> set post" "set post \<subseteq> (flow f)\<^sup>* `` {fn_entry f}" "post_ok f post"
    "last post = fn_entry f" "post \<noteq> []" "b \<in> set post \<Longrightarrow> t \<in> set (rpo_succs f b) \<Longrightarrow> t \<in> set post"
proof -
  note i = assms [unfolded rpo_inv_def markers_simps append_Nil2 list.set Un_empty_right image_empty Un_empty_left]
  show "distinct post" "fn_entry f \<in> set post" "set post \<subseteq> (flow f)\<^sup>* `` {fn_entry f}" "post_ok f post"
    "last post = fn_entry f" "post \<noteq> []" "b \<in> set post \<Longrightarrow> t \<in> set (rpo_succs f b) \<Longrightarrow> t \<in> set post"
    using i by blast+
qed

lemma rpo_set: "set (reversePostOrder f) = (flow f)\<^sup>* `` {fn_entry f}"
proof -
  obtain post seen where p: "reversePostOrder f = rev post" "rpo_inv f [] seen post" using rpo_final by blast
  have "x \<in> set post" if "(fn_entry f, x) \<in> (flow f)\<^sup>*" for x
    using that
  proof (induction rule: rtrancl_induct)
    case (step y z)
    then show ?case using rpo_inv_final(7) [OF p(2)] by (simp add: flow_def)
  qed (rule rpo_inv_final(2) [OF p(2)])
  then have "(flow f)\<^sup>* `` {fn_entry f} \<subseteq> set post" by blast
  with rpo_inv_final(3) [OF p(2)] p(1) show ?thesis by simp
qed

lemma rpo_order:
  assumes "reversePostOrder f = xs @ t # ys @ b # zs" and "t \<in> set (rpo_succs f b)"
  shows "(t, b) \<in> (flow f)\<^sup>*"
proof -
  obtain post seen where p: "reversePostOrder f = rev post" "rpo_inv f [] seen post" using rpo_final by blast
  then have post: "post = rev zs @ b # rev ys @ t # rev xs" using assms(1)
    by (metis append.assoc append_Cons append_Nil rev_append rev_rev_ident rev_singleton_conv rev.simps(2))
  have d: "distinct post" "post_ok f post" using p(2) by (simp_all add: rpo_inv_def)
  let ?i = "length zs"
  have "?i < length post" "post ! ?i = b" "take ?i post = rev zs" by (simp_all add: post nth_append)
  moreover have "t \<notin> set (rev zs)" using d(1) by (auto simp: post)
  ultimately show ?thesis using d(2) assms(2) unfolding post_ok_def by metis
qed

section \<open>What the backward searches find\<close>

text \<open>
  \<open>reaches\<close>: \<open>d\<close> is a definition that reaches the address \<open>before\<close> of block \<open>b\<close> along the
  edges backward without passing another definition.
\<close>

inductive reaches :: "Function \<Rightarrow> (Instruction \<Rightarrow> bool) \<Rightarrow> nat set \<Rightarrow> nat \<Rightarrow> nat \<Rightarrow> nat \<times> Instruction \<Rightarrow> bool"
  for f isdef avoid where
  here: "last_def f isdef b before = Some d \<Longrightarrow> b < length (fn_all f) \<Longrightarrow> b \<notin> avoid \<Longrightarrow> reaches f isdef avoid b before d"
| pred: "last_def f isdef b before = None \<Longrightarrow> b < length (fn_all f) \<Longrightarrow> b \<notin> avoid \<Longrightarrow>
    p \<in> set (intra_ends (blk_sources (deref f b))) \<Longrightarrow> reaches f isdef avoid p (blk_end (deref f p)) d \<Longrightarrow>
    reaches f isdef avoid b before d"

inductive_cases reachesE: "reaches f isdef avoid b before d"

lemma search_sound:
  "search f isdef ok avoid b before vis = (Some d, v) \<Longrightarrow> reaches f isdef (set avoid) b before d \<and> ok d"
  "search_edges f isdef ok avoid ps vis = (Some d, v) \<Longrightarrow>
    \<exists>p \<in> set ps. reaches f isdef (set avoid) p (blk_end (deref f p)) d \<and> ok d"
proof (induction f isdef ok avoid b before vis and f isdef ok avoid ps vis arbitrary: v and v
    rule: search_search_edges.induct)
  case (1 f isdef ok avoid b before vis)
  note step = search.simps [of f isdef ok avoid b before vis]
  have ne: "b < length (fn_all f)" "b \<notin> set vis" "b \<notin> set avoid" using 1(2) by (auto simp: step split: if_splits)
  show ?case
  proof (cases "last_def f isdef b before")
    case None
    then show ?thesis using 1 ne by (auto simp: step intro: reaches.pred)
  next
    case (Some d')
    then show ?thesis using 1(2) ne by (auto simp: step intro: reaches.here split: if_splits)
  qed
next
  case (3 f isdef ok avoid p ps vis)
  obtain r v' where s: "search f isdef ok avoid p (blk_end (deref f p)) vis = (r, v')" by fastforce
  show ?case
  proof (cases r)
    case None
    then show ?thesis using 3(2) [OF s [symmetric]] 3(3) s by auto
  next
    case (Some d')
    then show ?thesis using 3(1,3) s by auto
  qed
qed auto

text \<open>A definition that reaches a use without coming back through the block of the use.\<close>

definition reaches_straight :: "Function \<Rightarrow> (Instruction \<Rightarrow> bool) \<Rightarrow> nat set \<Rightarrow> nat \<Rightarrow> nat \<Rightarrow> nat \<times> Instruction \<Rightarrow> bool" where
  "reaches_straight f isdef avoid b before d \<longleftrightarrow> last_def f isdef b before = Some d \<or>
     last_def f isdef b before = None \<and>
     (\<exists>p \<in> set (intra_ends (blk_sources (deref f b))). reaches f isdef (insert b avoid) p (blk_end (deref f p)) d)"

lemma reaches_less: "reaches f isdef A b before d \<Longrightarrow> B \<subseteq> A \<Longrightarrow> reaches f isdef B b before d"
  by (induction rule: reaches.induct) (blast intro: reaches.intros)+

lemma search_straight:
  "search f isdef ok avoid b before vis = (Some d, v) \<Longrightarrow>
    reaches_straight f isdef (set vis \<union> set avoid) b before d \<and> b < length (fn_all f) \<and> b \<notin> set vis \<union> set avoid"
  "search_edges f isdef ok avoid ps vis = (Some d, v) \<Longrightarrow>
    \<exists>p \<in> set ps. reaches f isdef (set vis \<union> set avoid) p (blk_end (deref f p)) d"
proof (induction f isdef ok avoid b before vis and f isdef ok avoid ps vis arbitrary: v and v
    rule: search_search_edges.induct)
  case (1 f isdef ok avoid b before vis)
  note step = search.simps [of f isdef ok avoid b before vis]
  have ne: "\<not> (length (fn_all f) \<le> b \<or> b \<in> set vis \<or> b \<in> set avoid)" using 1(2) by (auto simp: step)
  show ?case
  proof (cases "last_def f isdef b before")
    case None
    with 1(2) ne have "search_edges f isdef ok avoid (intra_ends (blk_sources (deref f b))) (b # vis) = (Some d, v)"
      by (simp add: step)
    from 1(1) [OF ne None this] ne None show ?thesis by (simp add: reaches_straight_def)
  next
    case (Some d')
    then show ?thesis using 1(2) ne by (auto simp: step reaches_straight_def split: if_splits)
  qed
next
  case (3 f isdef ok avoid p ps vis)
  obtain r v' where s: "search f isdef ok avoid p (blk_end (deref f p)) vis = (r, v')" by fastforce
  show ?case
  proof (cases r)
    case None
    with 3(3) s have "search_edges f isdef ok avoid ps v' = (Some d, v)" by simp
    from 3(2) [OF s [symmetric] None this] obtain q where
      "q \<in> set ps" "reaches f isdef (set v' \<union> set avoid) q (blk_end (deref f q)) d" by blast
    moreover have "set vis \<subseteq> set v'" by (rule search_visited(1) [OF s])
    ultimately show ?thesis using reaches_less [of f isdef "set v' \<union> set avoid" q _ d "set vis \<union> set avoid"] by auto
  next
    case (Some d')
    with 3(3) s have s': "search f isdef ok avoid p (blk_end (deref f p)) vis = (Some d, v')" by simp
    let ?A = "set vis \<union> set avoid"
    from 3(1) [OF s'] have st: "reaches_straight f isdef ?A p (blk_end (deref f p)) d"
      and ok: "p < length (fn_all f)" "p \<notin> ?A" by blast+
    have "reaches f isdef ?A p (blk_end (deref f p)) d"
      using st ok reaches_less [of f isdef "insert p ?A" _ _ d ?A]
      unfolding reaches_straight_def by (blast intro: reaches.intros)
    then show ?thesis by auto
  qed
qed auto

definition covered :: "Function \<Rightarrow> nat list \<Rightarrow> nat list \<Rightarrow> nat \<Rightarrow> bool" where
  "covered f avoid v p = (p \<in> set v \<or> p \<in> set avoid \<or> length (fn_all f) \<le> p)"

definition no_def_closed :: "Function \<Rightarrow> (Instruction \<Rightarrow> bool) \<Rightarrow> nat list \<Rightarrow> nat set \<Rightarrow> nat list \<Rightarrow> bool" where
  "no_def_closed f isdef avoid S v = (\<forall>x \<in> S. last_def f isdef x (blk_end (deref f x)) = None
     \<and> (\<forall>p \<in> set (intra_ends (blk_sources (deref f x))). covered f avoid v p))"

lemma no_def_closed_mono: "no_def_closed f isdef avoid S v \<Longrightarrow> set v \<subseteq> set v' \<Longrightarrow> no_def_closed f isdef avoid S v'"
  by (fastforce simp: no_def_closed_def covered_def)

lemma no_def_closed_Un: "no_def_closed f isdef avoid (S \<union> T) v \<longleftrightarrow> no_def_closed f isdef avoid S v \<and> no_def_closed f isdef avoid T v"
  by (auto simp: no_def_closed_def)

lemma covered_mono: "covered f avoid v p \<Longrightarrow> set v \<subseteq> set v' \<Longrightarrow> covered f avoid v' p"
  by (auto simp: covered_def)

lemma no_def_closed_subset: "no_def_closed f isdef avoid S v \<Longrightarrow> T \<subseteq> S \<Longrightarrow> no_def_closed f isdef avoid T v"
  by (auto simp: no_def_closed_def)

lemma search_none:
  "search f isdef ok avoid b before vis = (None, v) \<Longrightarrow> ok = (\<lambda>_. True) \<Longrightarrow>
    covered f avoid v b \<and> no_def_closed f isdef avoid (set v - set vis - {b}) v
    \<and> (\<not> covered f avoid vis b \<longrightarrow> last_def f isdef b before = None
        \<and> (\<forall>p \<in> set (intra_ends (blk_sources (deref f b))). covered f avoid v p))"
  "search_edges f isdef ok avoid ps vis = (None, v) \<Longrightarrow> ok = (\<lambda>_. True) \<Longrightarrow>
    (\<forall>p \<in> set ps. covered f avoid v p) \<and> no_def_closed f isdef avoid (set v - set vis) v"
proof (induction f isdef ok avoid b before vis and f isdef ok avoid ps vis arbitrary: v and v
    rule: search_search_edges.induct)
  case (1 f isdef ok avoid b before vis)
  note step = search.simps [of f isdef ok avoid b before vis]
  show ?case
  proof (cases "covered f avoid vis b")
    case True
    then have "v = vis" using 1(2) by (auto simp: step covered_def split: if_splits)
    with True show ?thesis by (simp add: no_def_closed_def)
  next
    case False
    then have nd: "last_def f isdef b before = None" using 1(2) [unfolded step] 1(3)
      by (auto simp: covered_def split: option.splits)
    with False 1(2) have e: "search_edges f isdef ok avoid (intra_ends (blk_sources (deref f b))) (b # vis) = (None, v)"
      by (simp add: step covered_def)
    have ih: "(\<forall>p \<in> set (intra_ends (blk_sources (deref f b))). covered f avoid v p)
        \<and> no_def_closed f isdef avoid (set v - set (b # vis)) v"
      using 1(1) [OF _ nd e 1(3)] False by (simp add: covered_def)
    have "set v - set vis - {b} = set v - set (b # vis)" by auto
    moreover have "b \<in> set v" using search_visited(2) [OF e] by simp
    ultimately show ?thesis using ih nd by (simp add: covered_def)
  qed
next
  case (2 f isdef ok avoid vis)
  then show ?case by (simp add: no_def_closed_def)
next
  case (3 f isdef ok avoid p ps vis)
  obtain r v' where s: "search f isdef ok avoid p (blk_end (deref f p)) vis = (r, v')" by fastforce
  have r: "r = None" and e: "search_edges f isdef ok avoid ps v' = (None, v)" using 3(3) s by (cases r; simp)+
  have i1: "covered f avoid v' p \<and> no_def_closed f isdef avoid (set v' - set vis - {p}) v'
      \<and> (\<not> covered f avoid vis p \<longrightarrow> last_def f isdef p (blk_end (deref f p)) = None
          \<and> (\<forall>q \<in> set (intra_ends (blk_sources (deref f p))). covered f avoid v' q))"
    by (rule 3(1) [OF s [unfolded r] 3(4)])
  have i2: "(\<forall>q \<in> set ps. covered f avoid v q) \<and> no_def_closed f isdef avoid (set v - set v') v"
    using 3(2) [OF s [symmetric] r e 3(4)] .
  have sub: "set v' \<subseteq> set v" by (rule search_visited(2) [OF e])
  have "no_def_closed f isdef avoid (set v' - set vis) v'"
    using i1 s [unfolded r] by (cases "p \<in> set v' - set vis")
      (auto simp: no_def_closed_def covered_def search.simps [of f isdef ok avoid p] split: if_splits)
  then have "no_def_closed f isdef avoid (set v' - set vis) v" by (rule no_def_closed_mono [OF _ sub])
  with i2 have "no_def_closed f isdef avoid ((set v' - set vis) \<union> (set v - set v')) v" by (simp add: no_def_closed_Un)
  then have "no_def_closed f isdef avoid (set v - set vis) v" by (rule no_def_closed_subset) auto
  moreover have "covered f avoid v p" using i1 covered_mono [OF _ sub] by blast
  ultimately show ?case using i2 by simp
qed

lemma closed_no_reach:
  assumes "no_def_closed f isdef avoid (set v - {b}) v"
  shows "reaches f isdef (insert b (set avoid)) x before d \<Longrightarrow> before = blk_end (deref f x) \<Longrightarrow> covered f avoid v x \<Longrightarrow> False"
proof (induction rule: reaches.induct)
  case (here x before d)
  then have "x \<in> set v - {b}" by (auto simp: covered_def)
  then show ?case using assms here by (auto simp: no_def_closed_def)
next
  case (pred x before p d)
  then have "x \<in> set v - {b}" by (auto simp: covered_def)
  then have "covered f avoid v p" using assms pred.hyps(4) by (auto simp: no_def_closed_def)
  then show ?case using pred.IH by blast
qed

definition find_def :: "Function \<Rightarrow> (Instruction \<Rightarrow> bool) \<Rightarrow> nat list \<Rightarrow> nat \<Rightarrow> nat \<Rightarrow> (nat \<times> Instruction) option" where
  "find_def f isdef avoid b before = fst (search f isdef (\<lambda>d. True) avoid b before [])"

text \<open>The searches by register identity and by register name, outside a loop when one is given.\<close>

definition reachingDefInsn :: "Function \<Rightarrow> reg_id list \<Rightarrow> nat \<Rightarrow> nat \<Rightarrow> LoopInfo option \<Rightarrow> (nat \<times> Instruction) option" where
  "reachingDefInsn f regs b before stayOutOf =
     find_def f (\<lambda>i. definesAny i regs) (case stayOutOf of None \<Rightarrow> [] | Some l \<Rightarrow> loop_blocks l) b before"

definition reachingDefByName :: "Function \<Rightarrow> string \<Rightarrow> nat \<Rightarrow> nat \<Rightarrow> LoopInfo option \<Rightarrow> (nat \<times> Instruction) option" where
  "reachingDefByName f name b before stayOutOf =
     find_def f (\<lambda>i. definesName i name) (case stayOutOf of None \<Rightarrow> [] | Some l \<Rightarrow> loop_blocks l) b before"

section \<open>Properties\<close>

text \<open>
  C18: \<open>reversePostOrder\<close> lists every block of the function that is reachable from the entry by
  intraprocedural edges exactly once, the entry first, and each block before its successors,
  except along a back edge (to a block from which the edge's source is reachable).
\<close>
theorem rpo_correct:
  "distinct (reversePostOrder f) \<and> set (reversePostOrder f) = (flow f)\<^sup>* `` {fn_entry f}
    \<and> hd (reversePostOrder f) = fn_entry f
    \<and> (\<forall>xs t ys b zs. reversePostOrder f = xs @ t # ys @ b # zs \<and> (b, t) \<in> flow f \<longrightarrow> (t, b) \<in> (flow f)\<^sup>*)"
proof -
  obtain post seen where p: "reversePostOrder f = rev post" "rpo_inv f [] seen post" using rpo_final by blast
  have "hd (rev post) = fn_entry f" using rpo_inv_final(5,6) [OF p(2)] by (simp add: hd_rev)
  then show ?thesis using rpo_inv_final(1) [OF p(2)] p(1) rpo_set [of f] rpo_order [of f]
    by (auto simp: flow_def)
qed

definition demo_block :: "nat \<Rightarrow> (nat \<times> Instruction) list \<Rightarrow> nat list \<Rightarrow> nat list \<Rightarrow> Block" where
  "demo_block a is src trg = \<lparr>blk_start = a, blk_end = a + 16, blk_insns = is,
     blk_sources = map (\<lambda>b. (DIRECT, Some b)) src, blk_targets = map (\<lambda>b. (COND_TAKEN, Some b)) trg\<rparr>"

definition demo_insn :: "string \<Rightarrow> nat \<Rightarrow> Instruction" where
  "demo_insn m r = \<lparr>in_id = (GFX908, OtherOp 0), in_mnemonic = m, in_format = m, in_ops = [], in_reads = [],
     in_writes = [\<lparr>rg_id = OtherReg r, rg_class = SgprClass GFX908, rg_val = r, rg_name = ''s'', rg_format = ''S''\<rparr>]\<rparr>"

text \<open>A diamond \<open>0 \<rightarrow> 1, 2 \<rightarrow> 3\<close> whose block 1 ends in a back edge to itself.\<close>

definition demo_fn :: Function where
  "demo_fn = \<lparr>fn_name = ''vadd'', fn_addr = 0, fn_all = [demo_block 0 [(0, demo_insn ''S_MOV_B32'' 4)] [] [1, 2],
     demo_block 16 [] [0, 1] [1, 3], demo_block 32 [(32, demo_insn ''S_ADD_U32'' 5)] [0] [3], demo_block 48 [] [1, 2] []],
     fn_blocks = [0, 1, 2, 3], fn_entry = 0, fn_ipdom = (\<lambda>b. if b = 0 then Some 3 else None), fn_loops = []\<rparr>"

lemma demo_rpo: "reversePostOrder demo_fn = [0, 1, 2, 3]"
  by (simp add: reversePostOrder_def rpo_loop.simps rpo_succs_def deref_def demo_fn_def demo_block_def)

lemma rpo_correct_witness: "set (reversePostOrder demo_fn) = {0, 1, 2, 3} \<and> (0, 2) \<in> (flow demo_fn)\<^sup>*"
proof -
  have "2 \<in> set (reversePostOrder demo_fn)" by (simp add: demo_rpo)
  then have "(0, 2) \<in> (flow demo_fn)\<^sup>*" using rpo_correct [of demo_fn] by (simp add: demo_fn_def)
  then show ?thesis by (auto simp add: demo_rpo)
qed

text \<open>
  C19: the backward search for the definition that a use sees returns a definition exactly when one
  reaches the use along predecessor edges that stay out of \<open>avoid\<close> and do not come back through the
  block of the use, with no other definition in between; what it returns is such a definition. A
  definition that reaches the use only around a loop through its own block, as in a loop of one
  block, is not found.
\<close>
theorem reaching_def_correct:
  assumes "b < length (fn_all f)" "b \<notin> set avoid"
  shows "((\<exists>d. find_def f isdef avoid b before = Some d) \<longleftrightarrow> (\<exists>d. reaches_straight f isdef (set avoid) b before d)) \<and>
    (\<forall>d. find_def f isdef avoid b before = Some d \<longrightarrow>
      reaches_straight f isdef (set avoid) b before d \<and> reaches f isdef (set avoid) b before d)"
proof -
  obtain r v where s: "search f isdef (\<lambda>d. True) avoid b before [] = (r, v)" by fastforce
  have fd: "find_def f isdef avoid b before = r" by (simp add: find_def_def s)
  show ?thesis
  proof (cases r)
    case (Some d)
    then show ?thesis
      using search_straight(1) [OF s [unfolded Some]] search_sound(1) [OF s [unfolded Some]] fd
      by (auto simp del: split_paired_Ex split_paired_All)
  next
    case None
    have n: "no_def_closed f isdef avoid (set v - {b}) v" and c: "last_def f isdef b before = None"
      "\<forall>p \<in> set (intra_ends (blk_sources (deref f b))). covered f avoid v p"
      using search_none(1) [OF s [unfolded None] refl] assms by (simp_all add: covered_def)
    show ?thesis using fd None c closed_no_reach [OF n _ refl] by (auto simp: reaches_straight_def)
  qed
qed

lemma reaching_def_correct_witness:
  "reaches_straight demo_fn (\<lambda>i. definesAny i [OtherReg 4]) {} 3 64 (0, demo_insn ''S_MOV_B32'' 4)
    \<and> (\<forall>d. \<not> reaches_straight demo_fn (\<lambda>i. definesAny i [OtherReg 6]) {} 3 64 d)"
proof -
  have f: "find_def demo_fn (\<lambda>i. definesAny i [OtherReg 4]) [] 3 64 = Some (0, demo_insn ''S_MOV_B32'' 4)"
    by (simp add: find_def_def search.simps last_def_def deref_def demo_fn_def demo_block_def demo_insn_def definesAny_def)
  have n: "find_def demo_fn (\<lambda>i. definesAny i [OtherReg 6]) [] 3 64 = None"
    by (simp add: find_def_def search.simps last_def_def deref_def demo_fn_def demo_block_def demo_insn_def definesAny_def)
  have l: "3 < length (fn_all demo_fn)" by (simp add: demo_fn_def)
  show ?thesis
    using reaching_def_correct [OF l, of "[]" "\<lambda>i. definesAny i [OtherReg 4]" 64] f
      reaching_def_correct [OF l, of "[]" "\<lambda>i. definesAny i [OtherReg 6]" 64] n by (simp del: split_paired_Ex split_paired_All)
qed

end
