(* ===== verification/Printf.thy ===== *)
theory Printf
  imports Prelude
begin

text \<open>
  What the printing programs use of \<open>printf\<close>: hexadecimal numbers (\<open>%lx\<close>), padding on the right
  (\<open>%-6lx\<close>, \<open>%-11s\<close>) and indentation. A program's output is the list of its lines.
\<close>

definition hex_digit :: "nat \<Rightarrow> char" where
  "hex_digit d = (if d < 10 then char_of (48 + d) else char_of (87 + d))"

fun hex :: "nat \<Rightarrow> string" where
  "hex n = (if n < 16 then [hex_digit n] else hex (n div 16) @ [hex_digit (n mod 16)])"

declare hex.simps [simp del]

definition hex0x :: "nat \<Rightarrow> string" where
  "hex0x n = ''0x'' @ hex n"

definition pad_right :: "nat \<Rightarrow> string \<Rightarrow> string" where
  "pad_right n s = s @ replicate (n - length s) CHR '' ''"

definition spaces :: "nat \<Rightarrow> string" where
  "spaces n = replicate n CHR '' ''"

definition join_with :: "string \<Rightarrow> string list \<Rightarrow> string" where
  "join_with sep xs = (case xs of [] \<Rightarrow> '''' | y # ys \<Rightarrow> y @ concat (map (\<lambda>s. sep @ s) ys))"

fun unhex_acc :: "nat \<Rightarrow> string \<Rightarrow> nat" where
  "unhex_acc a [] = a"
| "unhex_acc a (c # cs) = unhex_acc (16 * a + (let d = of_char c in if d < 58 then d - 48 else d - 87)) cs"

lemma unhex_acc_append: "unhex_acc a (xs @ ys) = unhex_acc (unhex_acc a xs) ys"
  by (induction xs arbitrary: a) auto

lemma of_char_hex_digit: "d < 16 \<Longrightarrow> (let c = of_char (hex_digit d) in if c < 58 then c - 48 else c - 87) = d"
  by (simp add: hex_digit_def of_char_of take_bit_eq_mod Let_def)

lemma unhex_hex: "unhex_acc 0 (hex n) = n"
proof (induction n rule: hex.induct)
  case (1 n)
  show ?case
  proof (cases "n < 16")
    case True
    then show ?thesis using of_char_hex_digit [of n] by (simp add: hex.simps [of n])
  next
    case False
    then show ?thesis using 1 of_char_hex_digit [of "n mod 16"]
      by (simp add: hex.simps [of n] unhex_acc_append)
  qed
qed

lemma hex_inj: "hex a = hex b \<Longrightarrow> a = b"
  by (metis unhex_hex)

end
