(* ===== verification/Simt_Graph.thy ===== *)
theory Simt_Graph
  imports Classify Flow_Graph Printf
begin

text \<open>
  The two graph programs, \<open>simtcfg.C\<close>, the typed SIMT overlay (roles of blocks, types of edges,
  the \<open>SimtIf\<close> constructs), and \<open>cfgraph.C\<close>, the Graphviz dump with divergence roles; and the
  listing of \<open>classify.C\<close>. The output is the list of the printed lines.
\<close>

section \<open>Roles and edge types (simtcfg.C)\<close>

datatype Role = Plain | Condition | MaskFlip | Reconverge | NarrowRole

definition roleName :: "Role \<Rightarrow> string" where
  "roleName r = (case r of Condition \<Rightarrow> ''CONDITION'' | MaskFlip \<Rightarrow> ''MASKFLIP'' | Reconverge \<Rightarrow> ''RECONVERGE''
     | NarrowRole \<Rightarrow> ''NARROW(&&)'' | Plain \<Rightarrow> ''plain'')"

definition role_of_op :: "MaskOp \<Rightarrow> Role" where
  "role_of_op m = (case m of Open \<Rightarrow> Condition | Else \<Rightarrow> MaskFlip | Reroute \<Rightarrow> MaskFlip | Close \<Rightarrow> Reconverge
     | Narrow \<Rightarrow> NarrowRole | _ \<Rightarrow> Plain)"

definition blockRole :: "Block \<Rightarrow> Role" where
  "blockRole b = (case map_of (blk_insns b) (blk_start b) of None \<Rightarrow> Plain | Some i \<Rightarrow> role_of_op (cfr_classify i))"

definition endsInExecz :: "Block \<Rightarrow> bool" where
  "endsInExecz b = (blk_insns b \<noteq> [] \<and> CFR_IS (in_id (snd (last (blk_insns b)))) S_CBRANCH_EXECZ)"

datatype ET = IfTrue | IfFalse | ThenExit | ElseEnter | ElseSkip | ElseExit | ReconvergeEdge | Fall | OtherET

definition etName :: "ET \<Rightarrow> string" where
  "etName t = (case t of IfTrue \<Rightarrow> ''IF_TRUE'' | IfFalse \<Rightarrow> ''IF_FALSE'' | ThenExit \<Rightarrow> ''THEN_EXIT'' | ElseEnter \<Rightarrow> ''ELSE_ENTER''
     | ElseSkip \<Rightarrow> ''ELSE_SKIP'' | ElseExit \<Rightarrow> ''ELSE_EXIT'' | ReconvergeEdge \<Rightarrow> ''RECONVERGE'' | Fall \<Rightarrow> ''fall'' | OtherET \<Rightarrow> ''other'')"

definition typeEdge :: "Block \<Rightarrow> Role \<Rightarrow> EdgeType \<Rightarrow> Role \<Rightarrow> ET" where
  "typeEdge src rs t rd =
     (if rs = Condition then
        (if endsInExecz src then (if t = COND_TAKEN then IfFalse else IfTrue)
         else if rd = Reconverge \<or> rd = MaskFlip then IfFalse else IfTrue)
      else if rs = MaskFlip then (if rd = Reconverge then ElseSkip else ElseEnter)
      else if rd = Reconverge then ThenExit
      else if t = FALLTHROUGH then Fall else OtherET)"

section \<open>SimtIf\<close>

record SimtIf =
  si_condition :: nat
  si_maskflip :: "nat option"
  si_reconverge :: "nat option"
  si_true :: "nat option"
  si_false :: "nat option"

text \<open>The last edge of each type wins.\<close>

definition arm :: "Function \<Rightarrow> nat \<Rightarrow> ET \<Rightarrow> nat option" where
  "arm f c et = fold (\<lambda>(t, trg) r. case trg of None \<Rightarrow> r
     | Some b \<Rightarrow> if typeEdge (deref f c) Condition t (blockRole (deref f b)) = et then Some b else r) (blk_targets (deref f c)) None"

definition fall_next :: "Block \<Rightarrow> nat option" where
  "fall_next b = (case find (\<lambda>(t, trg). t = FALLTHROUGH \<and> trg \<noteq> None) (blk_targets b) of
     Some (t, Some n) \<Rightarrow> Some n | _ \<Rightarrow> None)"

function reconverge_walk :: "Function \<Rightarrow> nat option \<Rightarrow> nat list \<Rightarrow> nat option" where
  "reconverge_walk f None seen = None"
| "reconverge_walk f (Some pd) seen =
     (if length (fn_all f) \<le> pd \<or> pd \<in> set seen then None
      else if blockRole (deref f pd) = Reconverge then Some pd
      else reconverge_walk f (fall_next (deref f pd)) (pd # seen))"
  by pat_completeness auto
termination
  by (relation "measure (\<lambda>(f, pd, seen). unvisited f seen)") (auto intro: unvisited_Cons)

definition buildSimtIf :: "Function \<Rightarrow> nat \<Rightarrow> SimtIf" where
  "buildSimtIf f c =
     (let false_arm = arm f c IfFalse in
      \<lparr>si_condition = c,
       si_maskflip = (case false_arm of Some b \<Rightarrow> if blockRole (deref f b) = MaskFlip then Some b else None | None \<Rightarrow> None),
       si_reconverge = reconverge_walk f (fn_ipdom f c) [],
       si_true = arm f c IfTrue, si_false = false_arm\<rparr>)"

section \<open>The report of simtcfg.C\<close>

definition ordered_blocks :: "Function \<Rightarrow> nat list" where
  "ordered_blocks f =
     (let m = map_of (rev (map (\<lambda>b. (blk_start (deref f b), b)) (fn_blocks f))) in
      map (\<lambda>a. the (m a)) (sort (remdups (map (\<lambda>b. blk_start (deref f b)) (fn_blocks f)))))"

definition any_exec :: "Function \<Rightarrow> bool" where
  "any_exec f = list_ex (\<lambda>b. case blk_insns (deref f b) of [] \<Rightarrow> False | (a, i) # _ \<Rightarrow> isExecSplitPoint i) (fn_blocks f)"

definition opt_start :: "Function \<Rightarrow> nat option \<Rightarrow> string \<Rightarrow> string" where
  "opt_start f b dflt = (case b of None \<Rightarrow> dflt | Some x \<Rightarrow> hex0x (blk_start (deref f x)))"

definition typed_block_line :: "Function \<Rightarrow> nat \<Rightarrow> string" where
  "typed_block_line f b =
     (let x = deref f b; r = blockRole x in
      ''    0x'' @ pad_right 6 (hex (blk_start x)) @ ''  '' @ pad_right 11 (roleName r) @ '' ->''
      @ concat (map (\<lambda>(t, trg). case trg of None \<Rightarrow> ''''
          | Some n \<Rightarrow> ''  '' @ hex0x (blk_start (deref f n)) @ ''['' @ etName (typeEdge x r t (blockRole (deref f n))) @ '']'') (blk_targets x)))"

definition simt_if_line :: "Function \<Rightarrow> nat \<Rightarrow> SimtIf \<Rightarrow> string" where
  "simt_if_line f k s =
     ''    SimtIf #'' @ dec k @ ''  condition@'' @ hex0x (blk_start (deref f (si_condition s)))
      @ ''  IF_TRUE->'' @ opt_start f (si_true s) ''0x0'' @ ''  IF_FALSE->'' @ opt_start f (si_false s) ''0x0''
      @ ''  maskflip@'' @ opt_start f (si_maskflip s) ''none'' @ ''  reconverge@'' @ opt_start f (si_reconverge s) ''?''"

definition simt_text :: "Function \<Rightarrow> string list" where
  "simt_text f =
     (let bs = ordered_blocks f; cs = filter (\<lambda>b. blockRole (deref f b) = Condition) bs in
      ['''', ''========== '' @ fn_name f @ '' =========='', ''  --- typed blocks + edges ---'']
      @ map (typed_block_line f) bs @ [''  --- SimtIf constructs ---'']
      @ map (\<lambda>(k, c). simt_if_line f k (buildSimtIf f c)) (enumerate 0 cs))"

definition dq :: string where
  "dq = [CHR 0x22]"

definition esc_n :: string where
  "esc_n = [CHR 0x5C, CHR ''n'']"

definition quoted :: "string \<Rightarrow> string" where
  "quoted s = dq @ s @ dq"

definition role_shape :: "Role \<Rightarrow> string" where
  "role_shape r = (case r of Condition \<Rightarrow> ''triangle'' | Reconverge \<Rightarrow> ''invtriangle'' | MaskFlip \<Rightarrow> ''trapezium''
     | NarrowRole \<Rightarrow> ''house'' | Plain \<Rightarrow> ''box'')"

definition et_color :: "ET \<Rightarrow> string" where
  "et_color t = (case t of IfTrue \<Rightarrow> ''darkgreen'' | IfFalse \<Rightarrow> ''red'' | ElseEnter \<Rightarrow> ''blue'' | ThenExit \<Rightarrow> ''gray40'' | _ \<Rightarrow> ''black'')"

definition simt_dot :: "Function \<Rightarrow> string list" where
  "simt_dot f =
     (let bs = ordered_blocks f in
      [''  subgraph '' @ quoted (''cluster_'' @ hex (fn_addr f)) @ '' { label='' @ quoted (fn_name f) @ '';'']
      @ map (\<lambda>b. let x = deref f b; r = blockRole x in
          ''    '' @ quoted (hex (blk_start x)) @ '' [shape='' @ role_shape r @ '',label='' @ quoted (hex0x (blk_start x) @ esc_n @ roleName r) @ ''];'') bs
      @ [''  }'']
      @ concat (map (\<lambda>b. let x = deref f b; rs = blockRole x in
          concat (map (\<lambda>(t, trg). case trg of None \<Rightarrow> []
            | Some n \<Rightarrow> (let et = typeEdge x rs t (blockRole (deref f n)) in
                [''  '' @ quoted (hex (blk_start x)) @ '' -> '' @ quoted (hex (blk_start (deref f n)))
                  @ '' [color='' @ et_color et @ '',label='' @ quoted (etName et) @ ''];''])) (blk_targets x))) bs))"

definition simtcfg_main :: "bool \<Rightarrow> string \<Rightarrow> Function list \<Rightarrow> string list" where
  "simtcfg_main dot want fs =
     (if dot then [''digraph SIMTCFG {'', ''  node [fontname='' @ quoted ''monospace'' @ '',fontsize=10];''] else [])
     @ concat (map (\<lambda>f. if (want \<noteq> '''' \<and> \<not> contains_sub want (fn_name f)) \<or> \<not> any_exec f then []
         else if dot then simt_dot f else simt_text f) fs)
     @ (if dot then [''}''] else [])"

section \<open>cfgraph.C\<close>

datatype CgRole = CgPlain | Diverge | Converge | CgElse | CgNarrow

definition has_op :: "Block \<Rightarrow> MaskOp list \<Rightarrow> bool" where
  "has_op b ms = list_ex (\<lambda>(a, i). cfr_classify i \<in> set ms) (blk_insns b)"

definition cg_blockRole :: "Block \<Rightarrow> CgRole" where
  "cg_blockRole b =
     (if has_op b [Open] then Diverge
      else if has_op b [Close] then Converge
      else if has_op b [Else, Reroute] then CgElse
      else if has_op b [Narrow] then CgNarrow else CgPlain)"

definition nodeStyle :: "CgRole \<Rightarrow> string" where
  "nodeStyle r = (case r of
      Diverge \<Rightarrow> ''shape=triangle,    style=filled, fillcolor='' @ quoted ''#ffd28a''
    | Converge \<Rightarrow> ''shape=invtriangle, style=filled, fillcolor='' @ quoted ''#a9d6ff''
    | CgElse \<Rightarrow> ''shape=trapezium,   style=filled, fillcolor='' @ quoted ''#e8e0ff''
    | CgNarrow \<Rightarrow> ''shape=house,       style=filled, fillcolor='' @ quoted ''#fff0b3''
    | CgPlain \<Rightarrow> ''shape=box'')"

definition roleTag :: "CgRole \<Rightarrow> string" where
  "roleTag r = (case r of Diverge \<Rightarrow> ''diverge'' | Converge \<Rightarrow> ''reconverge'' | CgElse \<Rightarrow> ''else'' | CgNarrow \<Rightarrow> ''&&'' | CgPlain \<Rightarrow> '''')"

definition edgeStyle :: "EdgeType \<Rightarrow> string" where
  "edgeStyle t = (case t of
      COND_TAKEN \<Rightarrow> ''color=darkgreen, label='' @ quoted ''T''
    | COND_NOT_TAKEN \<Rightarrow> ''color=red, label='' @ quoted ''F''
    | FALLTHROUGH \<Rightarrow> ''color=gray40''
    | CALL \<Rightarrow> ''color=blue, style=dashed, label='' @ quoted ''call''
    | RET \<Rightarrow> ''color=blue, style=dotted''
    | INDIRECT \<Rightarrow> ''color=purple, style=dashed''
    | _ \<Rightarrow> ''color=black'')"

text \<open>The blocks of a function, the first one at each start address.\<close>

fun dedup_starts :: "Function \<Rightarrow> nat list \<Rightarrow> nat list \<Rightarrow> nat list" where
  "dedup_starts f [] seen = []"
| "dedup_starts f (b # bs) seen =
     (if blk_start (deref f b) \<in> set seen then dedup_starts f bs seen
      else b # dedup_starts f bs (blk_start (deref f b) # seen))"

definition cg_node :: "Function \<Rightarrow> nat \<Rightarrow> string" where
  "cg_node f b =
     (let x = deref f b; r = cg_blockRole x; tag = roleTag r in
      ''    '' @ quoted (hex (blk_start x)) @ '' ['' @ nodeStyle r @ '', label=''
      @ quoted (hex0x (blk_start x) @ (if tag \<noteq> '''' then esc_n @ tag else '''')) @ ''];'')"

definition cg_edges :: "Function \<Rightarrow> nat \<Rightarrow> string list" where
  "cg_edges f b =
     (let x = deref f b in
      concat (map (\<lambda>(t, trg). case trg of None \<Rightarrow> []
        | Some n \<Rightarrow> [''  '' @ quoted (hex (blk_start x)) @ '' -> '' @ quoted (hex (blk_start (deref f n))) @ '' ['' @ edgeStyle t @ ''];'']) (blk_targets x))
      @ (if cg_blockRole x = Diverge then (case fn_ipdom f b of None \<Rightarrow> []
          | Some p \<Rightarrow> [''  '' @ quoted (hex (blk_start x)) @ '' -> '' @ quoted (hex (blk_start (deref f p)))
              @ '' [style=dashed, color=orange, constraint=false, label='' @ quoted ''reconv'' @ ''];'']) else []))"

definition cg_legend :: "string list" where
  "cg_legend =
     [''digraph CFG {'', ''  graph [rankdir=TB];'', ''  node  [fontname='' @ quoted ''monospace'' @ '', fontsize=10];'',
      ''  edge  [fontname='' @ quoted ''monospace'' @ '', fontsize=9];'', ''  subgraph cluster_legend {'',
      ''    label='' @ quoted ''legend'' @ ''; color=gray80; fontsize=9;'',
      ''    L0 ['' @ nodeStyle Diverge @ '', label='' @ quoted (''diverge'' @ esc_n @ ''(saveexec)'') @ ''];'',
      ''    L1 ['' @ nodeStyle Converge @ '', label='' @ quoted (''reconverge'' @ esc_n @ ''(or exec)'') @ ''];'',
      ''    L2 ['' @ nodeStyle CgElse @ '', label='' @ quoted ''else'' @ ''];'',
      ''    L3 ['' @ nodeStyle CgNarrow @ '', label='' @ quoted ''&&'' @ ''];'',
      ''    L0 -> L1 [style=invis]; L1 -> L2 [style=invis]; L2 -> L3 [style=invis];'', ''  }'']"

definition cg_function :: "Function \<Rightarrow> string list" where
  "cg_function f =
     (let bs = dedup_starts f (fn_blocks f) [] in
      [''  subgraph '' @ quoted (''cluster_'' @ hex (fn_addr f)) @ '' {'', ''    label='' @ quoted (fn_name f) @ '';'', ''    color=gray70;'']
      @ map (cg_node f) bs @ [''  }''] @ concat (map (cg_edges f) bs))"

definition cfgraph_main :: "string \<Rightarrow> Function list \<Rightarrow> string list" where
  "cfgraph_main want fs =
     cg_legend
     @ concat (map (\<lambda>f. if (want \<noteq> '''' \<and> \<not> contains_sub want (fn_name f))
          \<or> (want = '''' \<and> \<not> list_ex (\<lambda>b. cg_blockRole (deref f b) = Diverge) (fn_blocks f)) then []
        else cg_function f) fs)
     @ [''}'']"

section \<open>classify.C\<close>

text \<open>The instructions of all blocks by address; the first block that has an address provides it.\<close>

definition all_insns :: "Function \<Rightarrow> (nat \<times> Instruction) list" where
  "all_insns f =
     (let xs = concat (map (\<lambda>b. blk_insns (deref f b)) (fn_blocks f)) in
      map (\<lambda>a. (a, the (map_of xs a))) (sort (remdups (map fst xs))))"

definition old_name :: "MaskOp \<Rightarrow> string" where
  "old_name m = (case m of Open \<Rightarrow> ''OPEN '' | Close \<Rightarrow> ''CLOSE'' | Else \<Rightarrow> ''ELSE '' | Select \<Rightarrow> ''SELECT''
     | Call \<Rightarrow> ''CALL '' | Compare \<Rightarrow> ''CMP  '' | _ \<Rightarrow> [CHR 0xC2, CHR 0xB7] @ ''    '')"

definition old_line :: "nat \<times> Instruction \<Rightarrow> string" where
  "old_line = (\<lambda>(a, i). ''  0x'' @ pad_right 6 (hex a) @ '' '' @ old_name (old_classify i) @ ''  '' @ in_format i
     @ (if old_classify i = Open then ''        [cond mask = '' @ readMaskOperand i @ '']'' else ''''))"

definition classify_fn :: "Function \<Rightarrow> string list" where
  "classify_fn f =
     (let ms = filter (\<lambda>(a, i). old_classify i \<noteq> MNone) (all_insns f) in
      if ms = [] then [] else ['''', ''=== '' @ fn_name f @ '' ==='' ] @ map old_line ms)"

definition classify_main :: "string \<Rightarrow> Function list \<Rightarrow> string list" where
  "classify_main want fs = concat (map classify_fn (filter (\<lambda>f. want = '''' \<or> contains_sub want (fn_name f)) fs))"

section \<open>Properties\<close>

lemma role_op_inverse:
  "role_of_op m = Condition \<longleftrightarrow> m = Open" "role_of_op m = Reconverge \<longleftrightarrow> m = Close"
  "role_of_op m = MaskFlip \<longleftrightarrow> m = Else \<or> m = Reroute" "role_of_op m = NarrowRole \<longleftrightarrow> m = Narrow"
  by (cases m; simp add: role_of_op_def)+

fun cg_of_role :: "Role \<Rightarrow> CgRole" where
  "cg_of_role Condition = Diverge" | "cg_of_role Reconverge = Converge" | "cg_of_role MaskFlip = CgElse"
| "cg_of_role NarrowRole = CgNarrow" | "cg_of_role Plain = CgPlain"

text \<open>A block after the EXEC split: only its first instruction has a role on EXEC.\<close>

definition exec_split :: "Block \<Rightarrow> bool" where
  "exec_split b = (case blk_insns b of [] \<Rightarrow> True
     | (a, i) # rest \<Rightarrow> a = blk_start b \<and> (\<forall>(a', i') \<in> set rest. role_of_op (cfr_classify i') = Plain))"

text \<open>
  On a graph whose blocks are split at the EXEC writers the two programs see the same
  structure: the role \<open>cfgraph.C\<close> takes from all instructions of a block is the role \<open>simtcfg.C\<close>
  takes from its head.
\<close>
theorem roles_agree_on_split_blocks:
  assumes "exec_split b"
  shows "cg_blockRole b = cg_of_role (blockRole b)"
proof (cases "blk_insns b")
  case Nil
  then show ?thesis by (simp add: cg_blockRole_def has_op_def blockRole_def)
next
  case (Cons ai rest)
  obtain a i where ai: "ai = (a, i)" by (cases ai)
  have rest: "\<not> list_ex (\<lambda>(a, i). cfr_classify i \<in> set ms) rest" if "set ms \<subseteq> {Open, Close, Else, Reroute, Narrow}" for ms
    using assms that unfolding exec_split_def Cons ai list_ex_iff by (fastforce simp: role_of_op_def split: MaskOp.splits)
  have "has_op b ms \<longleftrightarrow> cfr_classify i \<in> set ms" if "set ms \<subseteq> {Open, Close, Else, Reroute, Narrow}" for ms
    using rest [OF that] by (simp add: has_op_def Cons ai)
  moreover have "blockRole b = role_of_op (cfr_classify i)" using assms by (simp add: blockRole_def exec_split_def Cons ai)
  ultimately show ?thesis by (cases "cfr_classify i") (simp_all add: cg_blockRole_def role_of_op_def)
qed

definition demo_flip_block :: Block where
  "demo_flip_block = \<lparr>blk_start = 32, blk_end = 48, blk_insns = [(32, demo_or_saveexec), (36, demo_insn ''S_ADD_U32'' 5)],
     blk_sources = [], blk_targets = [(FALLTHROUGH, Some 2)]\<rparr>"

lemma roles_agree_on_split_blocks_witness: "cg_blockRole demo_flip_block = CgElse"
proof -
  have c: "cfr_classify demo_or_saveexec = Else" "cfr_classify (demo_insn ''S_ADD_U32'' 5) = MNone"
    by (simp_all add: cfr_classify_eq) (simp_all add: classify_def on_arch_def demo_or_saveexec_def demo_insn_def by_mnemonic_def is_compare_def)
  then have "exec_split demo_flip_block" "blockRole demo_flip_block = MaskFlip"
    by (simp_all add: exec_split_def demo_flip_block_def blockRole_def role_of_op_def)
  then show ?thesis using roles_agree_on_split_blocks by simp
qed

text \<open>The chain of fall-through blocks from the post-dominator.\<close>

fun fall_chain :: "Function \<Rightarrow> nat option \<Rightarrow> nat \<Rightarrow> nat option" where
  "fall_chain f pd 0 = pd"
| "fall_chain f pd (Suc n) = (case fall_chain f pd n of None \<Rightarrow> None | Some b \<Rightarrow> fall_next (deref f b))"

lemma fall_chain_shift: "fall_chain f (fall_next (deref f b)) n = fall_chain f (Some b) (Suc n)"
  by (induction n) auto

lemma walk_some:
  "reconverge_walk f pd seen = Some r \<Longrightarrow> blockRole (deref f r) = Reconverge
    \<and> (\<exists>n. fall_chain f pd n = Some r \<and> (\<forall>m < n. \<forall>b. fall_chain f pd m = Some b \<longrightarrow> blockRole (deref f b) \<noteq> Reconverge))"
proof (induction f pd seen rule: reconverge_walk.induct)
  case (2 f pd seen)
  show ?case
  proof (cases "blockRole (deref f pd) = Reconverge")
    case True
    then show ?thesis using 2(2) by (auto split: if_splits intro: exI [of _ 0])
  next
    case False
    then obtain n where n: "blockRole (deref f r) = Reconverge" "fall_chain f (fall_next (deref f pd)) n = Some r"
        "\<forall>m < n. \<forall>b. fall_chain f (fall_next (deref f pd)) m = Some b \<longrightarrow> blockRole (deref f b) \<noteq> Reconverge"
      using 2 by (auto split: if_splits)
    have "blockRole (deref f b) \<noteq> Reconverge" if "m < Suc n" "fall_chain f (Some pd) m = Some b" for m b
      using that n(3) False by (cases m) (simp, metis fall_chain_shift Suc_less_eq)
    then show ?thesis using n(1,2) unfolding fall_chain_shift by blast
  qed
qed simp

lemma null_role: "length (fn_all f) \<le> b \<Longrightarrow> blockRole (deref f b) = Plain \<and> fall_next (deref f b) = None"
  by (simp add: deref_def null_block_def blockRole_def fall_next_def)

definition fall_closed :: "Function \<Rightarrow> nat set \<Rightarrow> bool" where
  "fall_closed f S = (\<forall>s \<in> S. blockRole (deref f s) \<noteq> Reconverge
     \<and> (case fall_next (deref f s) of None \<Rightarrow> True | Some n \<Rightarrow> n \<in> S \<or> length (fn_all f) \<le> n))"

lemma walk_none:
  "reconverge_walk f pd seen = None \<Longrightarrow>
    (\<forall>s \<in> set seen. blockRole (deref f s) \<noteq> Reconverge \<and> (case fall_next (deref f s) of None \<Rightarrow> True
        | Some n \<Rightarrow> n \<in> set seen \<or> length (fn_all f) \<le> n \<or> pd = Some n)) \<Longrightarrow>
    \<exists>S. fall_closed f S \<and> set seen \<subseteq> S \<and> (case pd of None \<Rightarrow> True | Some b \<Rightarrow> b \<in> S \<or> length (fn_all f) \<le> b)"
proof (induction f pd seen rule: reconverge_walk.induct)
  case (1 f seen)
  then show ?case by (intro exI [of _ "set seen"]) (auto simp: fall_closed_def split: option.splits)
next
  case (2 f pd seen)
  show ?case
  proof (cases "length (fn_all f) \<le> pd \<or> pd \<in> set seen")
    case True
    then show ?thesis using 2(3) by (intro exI [of _ "set seen"]) (fastforce simp: fall_closed_def split: option.splits)
  next
    case False
    then have r: "blockRole (deref f pd) \<noteq> Reconverge" and w: "reconverge_walk f (fall_next (deref f pd)) (pd # seen) = None"
      using 2(2) by (auto split: if_splits)
    have "\<forall>s \<in> set (pd # seen). blockRole (deref f s) \<noteq> Reconverge \<and> (case fall_next (deref f s) of None \<Rightarrow> True
        | Some n \<Rightarrow> n \<in> set (pd # seen) \<or> length (fn_all f) \<le> n \<or> fall_next (deref f pd) = Some n)"
      using 2(3) r by (auto split: option.splits)
    from 2(1) [OF False r w this] show ?thesis by auto
  qed
qed

lemma closed_chain:
  assumes "fall_closed f S" "case pd of None \<Rightarrow> True | Some b \<Rightarrow> b \<in> S \<or> length (fn_all f) \<le> b"
  shows "fall_chain f pd n = Some b \<Longrightarrow> (b \<in> S \<or> length (fn_all f) \<le> b) \<and> blockRole (deref f b) \<noteq> Reconverge"
proof (induction n arbitrary: b)
  case 0
  then show ?case using assms null_role [of f b] by (auto simp: fall_closed_def)
next
  case (Suc n)
  then obtain c where c: "fall_chain f pd n = Some c" "fall_next (deref f c) = Some b" by (auto split: option.splits)
  then have "c \<in> S" using Suc.IH [OF c(1)] null_role [of f c] by auto
  then have "b \<in> S \<or> length (fn_all f) \<le> b" using assms(1) c(2) by (auto simp: fall_closed_def)
  then show ?case using assms(1) null_role [of f b] by (auto simp: fall_closed_def)
qed

text \<open>
  \<open>buildSimtIf\<close> names the first reconverge block on the fall-through chain from the immediate
  post-dominator of the condition, and none exactly when the chain has none; the walk stops on
  cyclic chains as well.
\<close>
theorem reconverge_is_first_on_chain:
  "case si_reconverge (buildSimtIf f c) of
     Some r \<Rightarrow> blockRole (deref f r) = Reconverge
       \<and> (\<exists>n. fall_chain f (fn_ipdom f c) n = Some r
            \<and> (\<forall>m < n. \<forall>b. fall_chain f (fn_ipdom f c) m = Some b \<longrightarrow> blockRole (deref f b) \<noteq> Reconverge))
   | None \<Rightarrow> (\<forall>n b. fall_chain f (fn_ipdom f c) n = Some b \<longrightarrow> blockRole (deref f b) \<noteq> Reconverge)"
proof (cases "reconverge_walk f (fn_ipdom f c) []")
  case None
  then obtain S where "fall_closed f S" "case fn_ipdom f c of None \<Rightarrow> True | Some b \<Rightarrow> b \<in> S \<or> length (fn_all f) \<le> b"
    using walk_none [OF None] by auto
  then show ?thesis using closed_chain [of f S "fn_ipdom f c"] None by (simp add: buildSimtIf_def Let_def)
next
  case (Some r)
  then show ?thesis using walk_some [OF Some] by (simp add: buildSimtIf_def Let_def)
qed


text \<open>A condition block 0 whose post-dominator 1 is an empty else, followed by the reconvergence 2.\<close>

definition demo_close :: Instruction where
  "demo_close = \<lparr>in_id = (GFX908, S_OR_B64), in_mnemonic = ''S_OR_B64'', in_format = ''S_OR_B64 EXEC, EXEC, [S0,S1]'',
     in_ops = [demo_operand ''EXEC'' False True], in_reads = [demo_exec], in_writes = [demo_exec]\<rparr>"

definition demo_simt_fn :: Function where
  "demo_simt_fn = \<lparr>fn_name = ''k'', fn_addr = 0,
     fn_all = [\<lparr>blk_start = 0, blk_end = 32, blk_insns = [], blk_sources = [], blk_targets = []\<rparr>, demo_flip_block,
       \<lparr>blk_start = 48, blk_end = 52, blk_insns = [(48, demo_close)], blk_sources = [], blk_targets = []\<rparr>],
     fn_blocks = [0, 1, 2], fn_entry = 0, fn_ipdom = (\<lambda>b. if b = 0 then Some 1 else None), fn_loops = []\<rparr>"

definition demo_no_ipdom_fn :: Function where
  "demo_no_ipdom_fn = demo_simt_fn \<lparr>fn_ipdom := (\<lambda>b. None)\<rparr>"

lemma reconverge_is_first_on_chain_witness:
  "si_reconverge (buildSimtIf demo_simt_fn 0) = Some 2 \<and> blockRole (deref demo_simt_fn 2) = Reconverge
    \<and> si_reconverge (buildSimtIf demo_no_ipdom_fn 0) = None"
proof -
  have r: "cfr_classify demo_or_saveexec = Else" "cfr_classify demo_close = Close"
    by (simp_all add: cfr_classify_eq)
      (simp_all add: classify_def on_arch_def demo_or_saveexec_def demo_close_def writesExec_def writesReg_def demo_exec_def)
  have n: "fall_next demo_flip_block = Some 2" by (simp add: fall_next_def demo_flip_block_def)
  have b: "deref demo_simt_fn 1 = demo_flip_block" "blockRole demo_flip_block = MaskFlip"
      "blockRole (deref demo_simt_fn 2) = Reconverge" "length (fn_all demo_simt_fn) = 3"
    using r by (simp_all add: deref_def demo_simt_fn_def blockRole_def role_of_op_def)
      (simp_all add: demo_flip_block_def role_of_op_def r)
  have w: "si_reconverge (buildSimtIf demo_simt_fn 0) = Some 2"
    using b n by (simp add: buildSimtIf_def Let_def) (simp add: demo_simt_fn_def)
  have "si_reconverge (buildSimtIf demo_no_ipdom_fn 0) = None"
    by (simp add: buildSimtIf_def Let_def demo_no_ipdom_fn_def)
  then show ?thesis using w reconverge_is_first_on_chain [of demo_simt_fn 0] by simp
qed

end
