(* ===== verification/Mutators.thy ===== *)
theory Mutators
  imports Launchers Simt_Graph
begin

text \<open>
  The mutators of \<open>instrumentation/mutators\<close>: what each program asks Dyninst to declare and to
  insert. Dyninst is a parameter, the record \<open>Image\<close>: whether the binary opens and the library
  loads, the functions it finds, a function's blocks with their instructions, the points it
  offers, which insertions it accepts, and whether the file is written. A run gives the exit code
  and the plan: the per-wave variables in the order of their declaration, with their sizes, and the
  accepted insertions in order. Messages are left out.
\<close>

section \<open>Dyninst\<close>

record ImageBlock =
  ib_start :: nat
  ib_insns :: "(Instruction \<times> nat) list option"
  ib_entry_point :: bool

record Kernel =
  kn_cfg :: "ImageBlock list option"
  kn_all_blocks :: bool
  kn_entry :: bool
  kn_exit :: bool
  kn_point :: "nat \<Rightarrow> bool"

datatype snippet =
    VarAddress nat | VarValue nat | CaptureReturn nat | ConstExpr i32 | Times snippet snippet
  | GpuExecMask | GpuHwWaveId

datatype location = AtEntry | AtExit | AtBlock nat | AtInsn nat

record Insertion =
  is_kernel :: string
  is_point :: location
  is_callee :: string
  is_args :: "snippet list"

record Image =
  im_opens :: bool
  im_loads :: bool
  im_fun :: "string \<Rightarrow> Kernel option"
  im_accepts :: "Insertion \<Rightarrow> bool"
  im_writes :: bool

record Plan =
  pl_vars :: "u32 list"
  pl_calls :: "Insertion list"
  pl_written :: bool

definition no_plan :: Plan where
  "no_plan = \<lparr>pl_vars = [], pl_calls = [], pl_written = False\<rparr>"

definition insertSnippet :: "Image \<Rightarrow> Insertion \<Rightarrow> Plan \<Rightarrow> bool \<times> Plan" where
  "insertSnippet im i p = (if im_accepts im i then (True, p\<lparr>pl_calls := pl_calls p @ [i]\<rparr>) else (False, p))"

text \<open>A call inserted when the kernel has the point; nobody looks at the result.\<close>

definition insert_at :: "Image \<Rightarrow> bool \<Rightarrow> Insertion \<Rightarrow> Plan \<Rightarrow> Plan" where
  "insert_at im has_point i p = (if has_point then snd (insertSnippet im i p) else p)"

definition write_file :: "Image \<Rightarrow> Plan \<Rightarrow> nat \<times> Plan" where
  "write_file im p = (if im_writes im then (0, p\<lparr>pl_written := True\<rparr>) else (1, p))"

definition mutate ::
    "Image \<Rightarrow> string list \<Rightarrow> nat \<Rightarrow> string list \<Rightarrow> string \<Rightarrow> (Kernel \<Rightarrow> nat \<times> Plan) \<Rightarrow> nat \<times> Plan" where
  "mutate im args least needed kernelName body =
     (if length args < least then (1, no_plan)
      else if \<not> im_opens im \<or> \<not> im_loads im then (1, no_plan)
      else (case im_fun im kernelName of None \<Rightarrow> (1, no_plan)
        | Some kfn \<Rightarrow> if list_ex (\<lambda>f. im_fun im f = None) needed then (1, no_plan) else body kfn))"

definition by_address :: "ImageBlock list \<Rightarrow> ImageBlock list" where
  "by_address bs = sort_key ib_start bs"

section \<open>Block counting\<close>

definition bb_count_vars :: "nat \<Rightarrow> u32 list" where
  "bb_count_vars nbb = [of_nat nbb * 4, 64, of_nat nbb * 20 + 16]"

fun count_blocks :: "Image \<Rightarrow> string \<Rightarrow> string \<Rightarrow> (nat \<Rightarrow> snippet list) \<Rightarrow> ImageBlock list \<Rightarrow> nat \<Rightarrow> Plan \<Rightarrow> Plan" where
  "count_blocks im kfn inc args [] k p = p"
| "count_blocks im kfn inc args (b # bs) k p =
     count_blocks im kfn inc args bs (Suc k)
       (insert_at im (ib_entry_point b) \<lparr>is_kernel = kfn, is_point = AtBlock (ib_start b), is_callee = inc, is_args = args k\<rparr> p)"

definition bb_count_instrument :: "Image \<Rightarrow> string list \<Rightarrow> nat \<times> Plan" where
  "bb_count_instrument im args =
     (let kernelName = argv args 3 ''_Z4vaddPfPKfS1_i'' in
      mutate im args 3 [''bb_inc'', ''bb_flush_pw''] kernelName (\<lambda>kfn.
        (case kn_cfg kfn of None \<Rightarrow> (1, no_plan)
         | Some bbs \<Rightarrow>
             (let v = by_address bbs; nbb = length v;
                  p = count_blocks im kernelName ''bb_inc'' (\<lambda>k. [VarAddress 0, ConstExpr (of_nat k)]) v 0
                        (no_plan\<lparr>pl_vars := bb_count_vars nbb\<rparr>);
                  p = insert_at im (kn_exit kfn) \<lparr>is_kernel = kernelName, is_point = AtExit, is_callee = ''bb_flush_pw'',
                        is_args = [VarAddress 0, VarAddress 1, VarAddress 2, ConstExpr (of_nat nbb)]\<rparr> p
              in write_file im p))))"

definition bb_count_multivar_instrument :: "Image \<Rightarrow> string list \<Rightarrow> nat \<times> Plan" where
  "bb_count_multivar_instrument im args =
     (let kernelName = argv args 3 ''_Z6bbdemoPiPKii'' in
      mutate im args 3 [''bb_inc_one'', ''bb_flush_pw''] kernelName (\<lambda>kfn.
        (case kn_cfg kfn of None \<Rightarrow> (1, no_plan)
         | Some bbs \<Rightarrow>
             (let v = by_address bbs; nbb = length v;
                  p = count_blocks im kernelName ''bb_inc_one'' (\<lambda>k. [VarAddress k]) v 0
                        (no_plan\<lparr>pl_vars := replicate nbb 4 @ [64, of_nat nbb * 20 + 16]\<rparr>);
                  p = insert_at im (0 < nbb \<and> kn_exit kfn) \<lparr>is_kernel = kernelName, is_point = AtExit, is_callee = ''bb_flush_pw'',
                        is_args = [VarAddress 0, VarAddress nbb, VarAddress (Suc nbb), ConstExpr (of_nat nbb)]\<rparr> p
              in write_file im p))))"

text \<open>The SIMT-IF heads; without any, the program succeeds and writes no file.\<close>

definition condBlocks :: "ImageBlock list \<Rightarrow> ImageBlock list" where
  "condBlocks blocks = filter (\<lambda>bb. case ib_insns bb of Some (i # is) \<Rightarrow> isSaveExec (fst i) | _ \<Rightarrow> False) blocks"

definition simt_if_instrument :: "Image \<Rightarrow> string list \<Rightarrow> nat \<times> Plan" where
  "simt_if_instrument im args =
     (let kernelName = argv args 3 ''_Z4vaddPfPKfS1_i'' in
      mutate im args 3 [''bb_inc'', ''bb_flush_pw''] kernelName (\<lambda>kfn.
        (case kn_cfg kfn of None \<Rightarrow> (1, no_plan)
         | Some bbs \<Rightarrow>
             (let cs = condBlocks (by_address bbs); nIf = length cs in
              if nIf = 0 then (0, no_plan)
              else
                (let p = count_blocks im kernelName ''bb_inc'' (\<lambda>k. [VarAddress 0, ConstExpr (of_nat k)]) cs 0
                           (no_plan\<lparr>pl_vars := [of_nat nIf * 4, 64, of_nat nIf * 24 + 16]\<rparr>);
                     p = insert_at im (kn_exit kfn) \<lparr>is_kernel = kernelName, is_point = AtExit, is_callee = ''bb_flush_pw'',
                           is_args = [VarAddress 0, VarAddress 1, VarAddress 2, ConstExpr (of_nat nIf)]\<rparr> p
                 in write_file im p)))))"

section \<open>Every fourth instruction\<close>

text \<open>
  The selection of sites: \<open>considered\<close> counts the instructions looked at, \<open>done\<close> the calls inserted;
  \<open>call n\<close> is the call for the site after \<open>n\<close> insertions.
\<close>

fun block_sites :: "Image \<Rightarrow> Kernel \<Rightarrow> nat \<Rightarrow> (nat \<Rightarrow> nat \<Rightarrow> Insertion) \<Rightarrow> (Instruction \<times> nat) list \<Rightarrow> nat \<times> nat \<times> Plan \<Rightarrow> nat \<times> nat \<times> Plan" where
  "block_sites im kn most call [] s = s"
| "block_sites im kn most call (ia # ias) (considered, d, p) =
     (if most \<le> d then (considered, d, p)
      else if considered mod 4 \<noteq> 0 then block_sites im kn most call ias (Suc considered, d, p)
      else if \<not> kn_point kn (snd ia) then block_sites im kn most call ias (Suc considered, d, p)
      else (case insertSnippet im (call d (snd ia)) p of (ok, p') \<Rightarrow>
        block_sites im kn most call ias (Suc considered, (if ok then Suc d else d), p')))"

fun all_sites :: "Image \<Rightarrow> Kernel \<Rightarrow> nat \<Rightarrow> (nat \<Rightarrow> nat \<Rightarrow> Insertion) \<Rightarrow> ImageBlock list \<Rightarrow> nat \<times> nat \<times> Plan \<Rightarrow> nat \<times> nat \<times> Plan" where
  "all_sites im kn most call [] s = s"
| "all_sites im kn most call (b # bs) s =
     all_sites im kn most call bs (case ib_insns b of None \<Rightarrow> s | Some ias \<Rightarrow> block_sites im kn most call ias s)"

definition site_calls :: "Image \<Rightarrow> Kernel \<Rightarrow> nat \<Rightarrow> (nat \<Rightarrow> nat \<Rightarrow> Insertion) \<Rightarrow> Plan \<Rightarrow> Plan" where
  "site_calls im kn most call p = (case kn_cfg kn of None \<Rightarrow> p
     | Some bs \<Rightarrow> if kn_all_blocks kn then snd (snd (all_sites im kn most call (by_address bs) (0, 0, p))) else p)"

definition minimal_instrument :: "Image \<Rightarrow> string list \<Rightarrow> nat \<times> Plan" where
  "minimal_instrument im args =
     (let kernelName = argv args 3 ''_Z9vectoraddPfPKfS1_i'' in
      mutate im args 3 [''hc_open'', ''hc_close'', ''hc_write_id''] kernelName (\<lambda>kfn.
        (let p = insert_at im (kn_entry kfn) \<lparr>is_kernel = kernelName, is_point = AtEntry, is_callee = ''hc_open'', is_args = []\<rparr> no_plan;
             p = insert_at im (kn_exit kfn) \<lparr>is_kernel = kernelName, is_point = AtExit, is_callee = ''hc_close'', is_args = []\<rparr> p
         in write_file im (site_calls im kfn 4
              (\<lambda>n a. \<lparr>is_kernel = kernelName, is_point = AtInsn a, is_callee = ''hc_write_id'', is_args = [GpuExecMask]\<rparr>) p))))"

definition capture_return_instrument :: "Image \<Rightarrow> string list \<Rightarrow> nat \<times> Plan" where
  "capture_return_instrument im args =
     (let kernelName = argv args 3 ''_Z9vectoraddPfPKfS1_i'' in
      mutate im args 3 [''pw_openfile'', ''pw_writeln''] kernelName (\<lambda>kfn.
        (let p = insert_at im (kn_entry kfn) \<lparr>is_kernel = kernelName, is_point = AtEntry, is_callee = ''pw_openfile'',
                   is_args = [CaptureReturn 0]\<rparr> (no_plan\<lparr>pl_vars := [8]\<rparr>)
         in write_file im (site_calls im kfn 4
              (\<lambda>n a. \<lparr>is_kernel = kernelName, is_point = AtInsn a, is_callee = ''pw_writeln'', is_args = [VarValue 0]\<rparr>) p))))"

text \<open>The test harness picks the hook and the argument by environment variables.\<close>

definition test_hook :: "environ \<Rightarrow> string" where
  "test_hook env =
     (if env ''HC_FTID'' \<noteq> None then ''hc_write_ftid'' else if env ''HC_THREADIDX'' \<noteq> None then ''hc_write_tid''
      else if env ''HC_BLOCKDIM'' \<noteq> None then ''hc_write_bdim'' else if env ''HC_BLOCKIDX'' \<noteq> None then ''hc_write_bid''
      else if env ''HC_NONLEAF'' \<noteq> None then ''hc_write_nl'' else ''hc_write_id'')"

definition test_needed :: "environ \<Rightarrow> string list" where
  "test_needed env = [''hc_open'', ''hc_write'', ''hc_write_id'', ''hc_close'']
     @ concat (map (\<lambda>(v, f). if env v \<noteq> None then [f] else [])
         [(''HC_NONLEAF'', ''hc_write_nl''), (''HC_BLOCKIDX'', ''hc_write_bid''), (''HC_BLOCKDIM'', ''hc_write_bdim''),
          (''HC_THREADIDX'', ''hc_write_tid''), (''HC_FTID'', ''hc_write_ftid'')])"

definition test_arg :: "environ \<Rightarrow> nat \<Rightarrow> snippet" where
  "test_arg env site =
     (if env ''HC_HWID'' \<noteq> None then GpuHwWaveId else if env ''HC_EXEC'' \<noteq> None then GpuExecMask
      else if env ''HC_ARG_EXPR'' \<noteq> None then Times (ConstExpr (of_nat site)) (ConstExpr 100) else ConstExpr (of_nat site))"

definition test_amdgpu_instrument :: "Image \<Rightarrow> environ \<Rightarrow> string list \<Rightarrow> nat \<times> Plan" where
  "test_amdgpu_instrument im env args =
     (let kernelName = argv args 3 ''_Z9vectoraddPfPKfS1_i'' in
      mutate im args 3 (test_needed env) kernelName (\<lambda>kfn.
        (let p = insert_at im (kn_entry kfn) \<lparr>is_kernel = kernelName, is_point = AtEntry, is_callee = ''hc_open'', is_args = []\<rparr> no_plan;
             p = insert_at im (kn_exit kfn) \<lparr>is_kernel = kernelName, is_point = AtExit, is_callee = ''hc_close'', is_args = []\<rparr> p
         in write_file im (site_calls im kfn 8
              (\<lambda>n a. \<lparr>is_kernel = kernelName, is_point = AtInsn a, is_callee = test_hook env, is_args = [test_arg env n]\<rparr>) p))))"

section \<open>Brackets and per-wave variables\<close>

definition multivar_instrument :: "Image \<Rightarrow> string list \<Rightarrow> nat \<times> Plan" where
  "multivar_instrument im args =
     (let kernelName = argv args 3 ''_Z9vectoraddPfPKfS1_i'' in
      mutate im args 3 [''pw_mark2''] kernelName (\<lambda>kfn.
        write_file im (insert_at im (kn_exit kfn) \<lparr>is_kernel = kernelName, is_point = AtExit, is_callee = ''pw_mark2'',
          is_args = [VarAddress 0, VarAddress 1]\<rparr> (no_plan\<lparr>pl_vars := [4, 4]\<rparr>))))"

definition preload_perwave_instrument :: "Image \<Rightarrow> string list \<Rightarrow> nat \<times> Plan" where
  "preload_perwave_instrument im args =
     (let kernelName = argv args 3 ''_Z9vectoraddPfPKfS1_i'' in
      mutate im args 3 [''pw_open'', ''pw_flush''] kernelName (\<lambda>kfn.
        (let p = insert_at im (kn_entry kfn) \<lparr>is_kernel = kernelName, is_point = AtEntry, is_callee = ''pw_open'',
                   is_args = [VarAddress 0, VarAddress 1, VarAddress 2, VarAddress 3]\<rparr> (no_plan\<lparr>pl_vars := [8, 4, 4, 64, 128]\<rparr>);
             p = insert_at im (kn_exit kfn) \<lparr>is_kernel = kernelName, is_point = AtExit, is_callee = ''pw_flush'',
                   is_args = [VarAddress 0, VarAddress 1, VarAddress 2, VarAddress 4]\<rparr> p
         in write_file im p)))"

definition real_write_instrument :: "Image \<Rightarrow> string list \<Rightarrow> nat \<times> Plan" where
  "real_write_instrument im args =
     (let kernelName = argv args 3 ''_Z9vectoraddPfPKfS1_i''; probeName = argv args 5 ''real_write'';
          nbytes = (if 6 < length args then atoi (args ! 6) else 2000) in
      mutate im args 3 [probeName] kernelName (\<lambda>kfn.
        write_file im (insert_at im (kn_exit kfn) \<lparr>is_kernel = kernelName, is_point = AtExit, is_callee = probeName,
          is_args = [VarAddress 0, VarAddress 1, ConstExpr (of_int nbytes)]\<rparr>
          (no_plan\<lparr>pl_vars := [64, of_int (max 0 nbytes)]\<rparr>))))"

definition bracket_kernel :: "Image \<Rightarrow> string \<Rightarrow> Kernel \<Rightarrow> i32 \<Rightarrow> Plan \<Rightarrow> Plan" where
  "bracket_kernel im name kfn idc p =
     (let p = insert_at im (kn_entry kfn) \<lparr>is_kernel = name, is_point = AtEntry, is_callee = ''hc_open'', is_args = []\<rparr> p;
          p = insert_at im (kn_entry kfn) \<lparr>is_kernel = name, is_point = AtEntry, is_callee = ''hc_write_id'', is_args = [ConstExpr idc]\<rparr> p
      in insert_at im (kn_exit kfn) \<lparr>is_kernel = name, is_point = AtExit, is_callee = ''hc_close'', is_args = []\<rparr> p)"

fun bracket_kernels :: "Image \<Rightarrow> string list \<Rightarrow> i32 \<Rightarrow> Plan \<Rightarrow> bool \<times> Plan" where
  "bracket_kernels im [] idc p = (True, p)"
| "bracket_kernels im (k # ks) idc p =
     (case im_fun im k of None \<Rightarrow> (False, p)
      | Some kfn \<Rightarrow> bracket_kernels im ks (idc + 1) (bracket_kernel im k kfn idc p))"

definition multikernel_instrument :: "Image \<Rightarrow> environ \<Rightarrow> string list \<Rightarrow> nat \<times> Plan" where
  "multikernel_instrument im env args =
     (if length args < 5 then (1, no_plan)
      else if \<not> im_opens im \<or> \<not> im_loads im then (1, no_plan)
      else if list_ex (\<lambda>f. im_fun im f = None) [''hc_open'', ''hc_write_id'', ''hc_close''] then (1, no_plan)
      else (let baseId = (case env ''DYNINST_ID_BASE'' of None \<Rightarrow> 0 | Some e \<Rightarrow> atoi e) in
        (case bracket_kernels im (drop 4 args) (of_int baseId) no_plan of
           (False, p) \<Rightarrow> (1, p) | (True, p) \<Rightarrow> write_file im p)))"

text \<open>The sites whose text names a mnemonic, in address order.\<close>

definition text_sites :: "string \<Rightarrow> Kernel \<Rightarrow> nat list" where
  "text_sites m kfn = (case kn_cfg kfn of None \<Rightarrow> []
     | Some bs \<Rightarrow> if \<not> kn_all_blocks kfn then []
         else concat (map (\<lambda>b. case ib_insns b of None \<Rightarrow> []
           | Some ias \<Rightarrow> map snd (filter (\<lambda>ia. contains_sub m (in_format (fst ia))) ias)) (by_address bs)))"

definition getpc_reloc_instrument :: "Image \<Rightarrow> environ \<Rightarrow> string list \<Rightarrow> nat \<times> Plan" where
  "getpc_reloc_instrument im env args =
     (let kernelName = argv args 3 '''' in
      mutate im args 5 [''hc_open'', ''hc_write_id'', ''hc_close''] kernelName (\<lambda>kfn.
        (let p = bracket_kernel im kernelName kfn 0 no_plan;
             p = (case text_sites ''GETPC'' kfn of [] \<Rightarrow> p
                  | a # _ \<Rightarrow> insert_at im (env ''GETPC_PROBE_AT_SITE'' \<noteq> None \<and> kn_point kfn a)
                      \<lparr>is_kernel = kernelName, is_point = AtInsn a, is_callee = ''hc_write_id'', is_args = [ConstExpr 1]\<rparr> p)
         in write_file im p)))"


section \<open>The sites of the instruction mutators\<close>

lemma block_sites_done: "most \<le> d \<Longrightarrow> block_sites im kn most call xs (c, d, p) = (c, d, p)"
  by (cases xs) simp_all

lemma block_sites_append:
  "block_sites im kn most call (xs @ ys) s = block_sites im kn most call ys (block_sites im kn most call xs s)"
proof (induction xs arbitrary: s)
  case (Cons x xs)
  then show ?case by (cases s) (simp add: block_sites_done split: prod.splits)
qed simp

definition all_insns_of :: "ImageBlock list \<Rightarrow> (Instruction \<times> nat) list" where
  "all_insns_of bs = concat (map (\<lambda>b. case ib_insns b of None \<Rightarrow> [] | Some ias \<Rightarrow> ias) bs)"

lemma all_sites_concat: "all_sites im kn most call bs s = block_sites im kn most call (all_insns_of bs) s"
  by (induction bs arbitrary: s) (simp_all add: all_insns_of_def block_sites_append split: option.splits)

definition fourths :: "nat \<Rightarrow> nat list \<Rightarrow> nat list" where
  "fourths c as = map snd (filter (\<lambda>ia. fst ia mod 4 = 0) (enumerate c as))"

lemma fourths_simps [simp]:
  "fourths c [] = []" "fourths c (a # as) = (if c mod 4 = 0 then a # fourths (Suc c) as else fourths (Suc c) as)"
  by (simp_all add: fourths_def)

lemma block_sites_calls:
  assumes "\<And>n a. im_accepts im (call n a) = acc a"
  shows "snd (snd (block_sites im kn most call ias (c, d, p))) = p\<lparr>pl_calls := pl_calls p @
      map (\<lambda>(n, a). call n a) (enumerate d (take (most - d) (filter (\<lambda>a. kn_point kn a \<and> acc a) (fourths c (map snd ias)))))\<rparr>"
proof (induction ias arbitrary: c d p)
  case (Cons ia ias)
  show ?case
  proof (cases "most \<le> d")
    case True
    then show ?thesis by (simp add: block_sites_done)
  next
    case False
    then have m: "most - d = Suc (most - Suc d)" by simp
    show ?thesis using False by (simp add: Cons.IH insertSnippet_def assms m)
  qed
qed simp

text \<open>
  C36: the mutators that sample instructions instrument the first \<open>most\<close> instrumentable ones among
  every fourth instruction of the kernel, in address order over the blocks that decode, numbered
  as they are inserted: the loop with its counters and early exits is this selection.
\<close>

theorem site_selection:
  assumes "\<And>n a. im_accepts im (call n a) = acc a" "kn_cfg kn = Some bs" "kn_all_blocks kn"
  shows "site_calls im kn most call p = p\<lparr>pl_calls := pl_calls p @
      map (\<lambda>(n, a). call n a) (enumerate 0 (take most
        (filter (\<lambda>a. kn_point kn a \<and> acc a) (fourths 0 (map snd (all_insns_of (by_address bs)))))))\<rparr>"
  using block_sites_calls [where acc = acc and d = 0, OF assms(1)] assms(2,3)
  by (simp add: site_calls_def all_sites_concat)

section \<open>Running the block counter\<close>

text \<open>
  The run of an instrumented kernel on one wave. The per-wave variables are counters or text; a call
  has the meaning of its callee on the variables its arguments name: \<open>bb_inc\<close> is called by the whole
  wave on an array of counters, \<open>bb_flush_pw\<close> reads counters and writes two different texts. \<open>h\<close> is
  what the wave's \<open>gpu_fopen\<close> returns, \<open>a\<close> the address of each variable. Any other callee, or
  variables of another kind or number, have no meaning here.
\<close>

datatype pw_buf = Counters "u32 list" | Text string

definition pw_var :: "pw_buf list \<Rightarrow> nat \<Rightarrow> pw_buf option" where
  "pw_var vs x = (if x < length vs then Some (vs ! x) else None)"

definition bb_probe ::
    "wave_ctx \<Rightarrow> i64 \<Rightarrow> (nat \<Rightarrow> i64) \<Rightarrow> Insertion \<Rightarrow> pw_buf list \<Rightarrow> (pw_buf list \<times> request list) option" where
  "bb_probe cx h a i vs =
     (if is_callee i = ''bb_inc'' then
        (case is_args i of
           [VarAddress x, ConstExpr k] \<Rightarrow> (case pw_var vs x of
               Some (Counters counts) \<Rightarrow>
                 map_option (\<lambda>counts'. (vs[x := Counters counts'], [])) (wave_call (cx_exec cx) (\<lambda>l. bb_inc (with_lane cx l) k) counts)
             | _ \<Rightarrow> None)
         | _ \<Rightarrow> None)
      else if is_callee i = ''bb_flush_pw'' then
        (case is_args i of
           [VarAddress x, VarAddress y, VarAddress z, ConstExpr n] \<Rightarrow> (case (pw_var vs x, pw_var vs y, pw_var vs z) of
               (Some (Counters counts), Some (Text fname), Some (Text report)) \<Rightarrow>
                 if y = z then None
                 else map_option (\<lambda>(nm, t, rs). (vs[y := Text nm, z := Text t], rs)) (bb_flush_pw cx h (a z) counts fname report n)
             | _ \<Rightarrow> None)
         | _ \<Rightarrow> None)
      else None)"

fun bb_probes ::
    "wave_ctx \<Rightarrow> i64 \<Rightarrow> (nat \<Rightarrow> i64) \<Rightarrow> Insertion list \<Rightarrow> pw_buf list \<Rightarrow> (pw_buf list \<times> request list) option" where
  "bb_probes cx h a [] vs = Some (vs, [])"
| "bb_probes cx h a (i # is) vs =
     (case bb_probe cx h a i vs of None \<Rightarrow> None
      | Some (vs', r) \<Rightarrow> map_option (\<lambda>(vs'', r'). (vs'', r @ r')) (bb_probes cx h a is vs'))"

text \<open>Passing a location executes the calls inserted there, in the order of their insertion.\<close>

fun run_points ::
    "wave_ctx \<Rightarrow> i64 \<Rightarrow> (nat \<Rightarrow> i64) \<Rightarrow> Insertion list \<Rightarrow> location list \<Rightarrow> pw_buf list \<Rightarrow> (pw_buf list \<times> request list) option" where
  "run_points cx h a calls [] vs = Some (vs, [])"
| "run_points cx h a calls (l # ls) vs =
     (case bb_probes cx h a (filter (\<lambda>i. is_point i = l) calls) vs of None \<Rightarrow> None
      | Some (vs', r) \<Rightarrow> map_option (\<lambda>(vs'', r'). (vs'', r @ r')) (run_points cx h a calls ls vs'))"

fun at_insn :: "location \<Rightarrow> bool" where
  "at_insn (AtInsn n) = True" | "at_insn l = False"

text \<open>
  The declared variables: counters, zeroed, and two texts. A wave passes the entry, the blocks of its
  path and the exit; calls inserted at single instructions have no place in such a run.
\<close>

definition bb_vars :: "Plan \<Rightarrow> pw_buf list" where
  "bb_vars p = (case pl_vars p of
     [n, f, r] \<Rightarrow> [Counters (replicate (unat n div 4) 0), Text (replicate (unat f) NUL), Text (replicate (unat r) NUL)]
   | _ \<Rightarrow> [])"

definition bb_wave ::
    "wave_ctx \<Rightarrow> i64 \<Rightarrow> (nat \<Rightarrow> i64) \<Rightarrow> Plan \<Rightarrow> nat list \<Rightarrow> (pw_buf list \<times> request list) option" where
  "bb_wave cx h a p path =
     (if list_ex (\<lambda>i. at_insn (is_point i)) (pl_calls p) then None
      else run_points cx h a (pl_calls p) (AtEntry # map AtBlock path @ [AtExit]) (bb_vars p))"

lemma count_blocks_calls:
  assumes "\<And>i. im_accepts im i" "\<forall>b \<in> set bs. ib_entry_point b"
  shows "count_blocks im kfn inc args bs k p = p\<lparr>pl_calls := pl_calls p @
    map (\<lambda>(j, b). \<lparr>is_kernel = kfn, is_point = AtBlock (ib_start b), is_callee = inc, is_args = args j\<rparr>) (enumerate k bs)\<rparr>"
  using assms(2) by (induction bs arbitrary: k p) (simp_all add: insert_at_def insertSnippet_def assms(1))

lemma filter_unique:
  assumes "distinct (map f xs)" "i < length xs"
  shows "filter (\<lambda>(j, x). f x = f (xs ! i)) (enumerate k xs) = [(k + i, xs ! i)]"
  using assms
proof (induction xs arbitrary: i k)
  case (Cons x xs)
  show ?case
  proof (cases i)
    case 0
    have "filter (\<lambda>(j, y). f y = f x) (enumerate (Suc k) xs) = []"
      using Cons.prems(1) by (force simp: filter_empty_conv enumerate_eq_zip image_iff dest: set_zip_rightD)
    then show ?thesis using 0 by simp
  next
    case (Suc i')
    then have "f x \<noteq> f (xs ! i')" using Cons.prems by (auto simp: image_iff)
    then show ?thesis using Suc Cons.IH [of i' "Suc k"] Cons.prems by simp
  qed
qed simp


text \<open>What the probes of a block counter do along a path.\<close>

definition block_call :: "string \<Rightarrow> nat \<times> ImageBlock \<Rightarrow> Insertion" where
  "block_call kernelName jb = \<lparr>is_kernel = kernelName, is_point = AtBlock (ib_start (snd jb)), is_callee = ''bb_inc'',
     is_args = [VarAddress 0, ConstExpr (of_nat (fst jb))]\<rparr>"

lemma calls_at_block:
  assumes "distinct (map ib_start v)" "j < length v" "\<forall>i \<in> set rest. is_point i = AtExit"
  shows "filter (\<lambda>i. is_point i = AtBlock (ib_start (v ! j))) (map (block_call kn) (enumerate 0 v) @ rest) = [block_call kn (j, v ! j)]"
proof -
  have r: "filter (\<lambda>i. is_point i = AtBlock x) rest = []" for x using assms(3) by (auto simp: filter_empty_conv)
  have "filter (\<lambda>jb. ib_start (snd jb) = ib_start (v ! j)) (enumerate 0 v) = [(j, v ! j)]"
    using filter_unique [OF assms(1,2), of 0] by (simp add: case_prod_beta')
  then show ?thesis by (simp add: filter_map comp_def r block_call_def)
qed

lemma run_path_counts:
  fixes kn :: string
  assumes "cx_exec cx \<noteq> 0" "distinct (map ib_start v)" "\<forall>i \<in> set rest. is_point i = AtExit"
    and "length v \<le> 2 ^ 31" "length counts = length v" "set path \<subseteq> ib_start ` set v"
  defines "calls \<equiv> map (block_call kn) (enumerate 0 v) @ rest"
  shows "\<exists>counts'. run_points cx h a calls (map AtBlock path @ ls) (Counters counts # vs) = run_points cx h a calls ls (Counters counts' # vs)
    \<and> length counts' = length v \<and> (\<forall>k < length v. counts' ! k = counts ! k + of_nat (count_list path (ib_start (v ! k))))"
  using assms(5,6)
proof (induction path arbitrary: counts)
  case Nil
  then show ?case by (intro exI [of _ counts]) simp
next
  case (Cons b path)
  then obtain j where j: "j < length v" "b = ib_start (v ! j)" by (auto simp: in_set_conv_nth)
  have u: "unat (of_nat j :: i32) = j" using j(1) assms(4) by (intro unat_u32) simp
  let ?c = "counts[j := counts ! j + 1]"
  have c: "wave_call (cx_exec cx) (\<lambda>l. bb_inc (with_lane cx l) (of_nat j)) counts = Some ?c"
    using bb_inc_wave [OF assms(1), of "of_nat j" counts] u j(1) Cons.prems(1) by simp
  have l: "length ?c = length v" using Cons.prems(1) by simp
  obtain c' where c': "run_points cx h a calls (map AtBlock path @ ls) (Counters ?c # vs) = run_points cx h a calls ls (Counters c' # vs)"
      "length c' = length v" "\<forall>k < length v. c' ! k = ?c ! k + of_nat (count_list path (ib_start (v ! k)))"
    using Cons.IH [OF l] Cons.prems(2) by auto
  have "filter (\<lambda>i. is_point i = AtBlock b) calls = [block_call kn (j, v ! j)]"
    unfolding calls_def j(2) by (rule calls_at_block [OF assms(2) j(1) assms(3)])
  then have "run_points cx h a calls (map AtBlock (b # path) @ ls) (Counters counts # vs) =
      map_option (\<lambda>(vs'', r'). (vs'', [] @ r')) (run_points cx h a calls (map AtBlock path @ ls) (Counters ?c # vs))"
    using c by (simp add: block_call_def bb_probe_def pw_var_def)
  then have "run_points cx h a calls (map AtBlock (b # path) @ ls) (Counters counts # vs) = run_points cx h a calls ls (Counters c' # vs)"
    unfolding c'(1) by (simp add: option.map_id id_def [symmetric] del: run_points.simps)
  moreover have "c' ! k = counts ! k + of_nat (count_list (b # path) (ib_start (v ! k)))" if k: "k < length v" for k
  proof -
    have "b = ib_start (v ! k) \<longleftrightarrow> j = k"
      using assms(2) j k by (auto simp: distinct_conv_nth)
    then show ?thesis using c'(3) k Cons.prems(1) by (auto simp: nth_list_update)
  qed
  ultimately show ?case using c'(2) by blast
qed

text \<open>The plan of \<open>bb_count_instrument\<close> when every insertion is accepted.\<close>

definition flush_call :: "string \<Rightarrow> nat \<Rightarrow> Insertion" where
  "flush_call kernelName n = \<lparr>is_kernel = kernelName, is_point = AtExit, is_callee = ''bb_flush_pw'',
     is_args = [VarAddress 0, VarAddress 1, VarAddress 2, ConstExpr (of_nat n)]\<rparr>"

lemma bb_count_plan:
  assumes "3 \<le> length args" "im_opens im" "im_loads im" "\<And>i. im_accepts im i"
    and "im_fun im ''bb_inc'' \<noteq> None" "im_fun im ''bb_flush_pw'' \<noteq> None"
    and "im_fun im (argv args 3 ''_Z4vaddPfPKfS1_i'') = Some kn" "kn_cfg kn = Some bbs"
    and "\<forall>b \<in> set bbs. ib_entry_point b"
  defines "name \<equiv> argv args 3 ''_Z4vaddPfPKfS1_i''"
  shows "bb_count_instrument im args = (if im_writes im then 0 else 1,
    \<lparr>pl_vars = bb_count_vars (length bbs),
     pl_calls = map (block_call name) (enumerate 0 (by_address bbs)) @ (if kn_exit kn then [flush_call name (length bbs)] else []),
     pl_written = im_writes im\<rparr>)"
proof -
  let ?v = "by_address bbs" and ?n = "length bbs"
  have v: "length ?v = ?n" "set ?v = set bbs" by (simp_all add: by_address_def)
  have cc: "(\<lambda>(j, b). \<lparr>is_kernel = name, is_point = AtBlock (ib_start b), is_callee = ''bb_inc'', is_args = [VarAddress 0, ConstExpr (of_nat j)]\<rparr>)
      = block_call name" by (simp add: fun_eq_iff block_call_def)
  have "count_blocks im name ''bb_inc'' (\<lambda>k. [VarAddress 0, ConstExpr (of_nat k)]) ?v 0 (no_plan\<lparr>pl_vars := bb_count_vars ?n\<rparr>)
      = \<lparr>pl_vars = bb_count_vars ?n, pl_calls = map (block_call name) (enumerate 0 ?v), pl_written = False\<rparr>"
    using assms(9) v(2) by (subst count_blocks_calls) (simp_all add: assms(4) no_plan_def cc)
  then show ?thesis
    using assms(1-8) v(1)
    by (auto simp: bb_count_instrument_def mutate_def Let_def insert_at_def insertSnippet_def write_file_def flush_call_def name_def)
qed

lemma bb_count_vars_sizes: "n \<le> 10000 \<Longrightarrow> map unat (bb_count_vars n) = [4 * n, 64, 20 * n + 16]"
  using unat_u32 [of "4 * n"] unat_u32 [of "20 * n + 16"] by (simp add: bb_count_vars_def mult.commute)

section \<open>Concrete kernels\<close>

definition demo_sites :: Kernel where
  "demo_sites = \<lparr>kn_cfg = Some [\<lparr>ib_start = 16, ib_insns = Some (map (\<lambda>a. (demo_insn ''S_NOP'' 0, a)) [16, 20, 24]), ib_entry_point = True\<rparr>,
       \<lparr>ib_start = 0, ib_insns = Some (map (\<lambda>a. (demo_insn ''S_NOP'' 0, a)) [0, 4, 8]), ib_entry_point = True\<rparr>],
     kn_all_blocks = True, kn_entry = True, kn_exit = True, kn_point = (\<lambda>a. True)\<rparr>"

definition demo_image :: Image where
  "demo_image = \<lparr>im_opens = True, im_loads = True, im_fun = (\<lambda>f. Some demo_sites), im_accepts = (\<lambda>i. True), im_writes = True\<rparr>"

theorem site_selection_witness:
  "map is_point (pl_calls (site_calls demo_image demo_sites 4
     (\<lambda>n a. \<lparr>is_kernel = ''k'', is_point = AtInsn a, is_callee = ''hc_write_id'', is_args = [GpuExecMask]\<rparr>) no_plan)) = [AtInsn 0, AtInsn 20]"
proof -
  have a: "im_accepts demo_image \<lparr>is_kernel = ''k'', is_point = AtInsn a, is_callee = ''hc_write_id'', is_args = [GpuExecMask]\<rparr> = True" for n a :: nat
    by (simp add: demo_image_def)
  have k: "kn_all_blocks demo_sites" "kn_cfg demo_sites = Some (the (kn_cfg demo_sites))" by (simp_all add: demo_sites_def)
  have "map snd (all_insns_of (by_address (the (kn_cfg demo_sites)))) = [0, 4, 8, 16, 20, 24]"
    by (simp add: demo_sites_def by_address_def all_insns_of_def)
  moreover have "kn_point demo_sites = (\<lambda>a. True)" by (simp add: demo_sites_def)
  ultimately show ?thesis
    by (subst site_selection [where acc = "\<lambda>a. True", OF a k(2,1)]) (simp add: no_plan_def)
qed

section \<open>The SIMT-IF mutator\<close>

text \<open>Without a \<open>saveexec\<close> head the program reports success and writes no output.\<close>

lemma simt_if_nothing_written:
  assumes "3 \<le> length args" "im_opens im" "im_loads im" "im_fun im ''bb_inc'' \<noteq> None" "im_fun im ''bb_flush_pw'' \<noteq> None"
    and "im_fun im (argv args 3 ''_Z4vaddPfPKfS1_i'') = Some kn" "kn_cfg kn = Some bbs" "condBlocks (by_address bbs) = []"
  shows "simt_if_instrument im args = (0, no_plan)"
  using assms by (auto simp: simt_if_instrument_def mutate_def)

text \<open>
  Its numbers are not those of \<open>simtcfg.C\<close>: it counts every \<open>saveexec\<close> head, also the flips to the
  else side, which \<open>simtcfg.C\<close> does not number.
\<close>

lemma simt_if_counts_flips:
  "condBlocks [\<lparr>ib_start = 4, ib_insns = Some [(demo_or_saveexec, 4)], ib_entry_point = True\<rparr>] \<noteq> []
    \<and> role_of_op (cfr_classify demo_or_saveexec) = MaskFlip"
proof -
  have "isSaveExec demo_or_saveexec" by (simp add: isSaveExec_def demo_or_saveexec_def CFR_IS_def)
  moreover have "cfr_classify demo_or_saveexec = Else"
    by (simp add: cfr_classify_eq) (simp add: classify_def on_arch_def demo_or_saveexec_def)
  ultimately show ?thesis by (simp add: condBlocks_def role_of_op_def)
qed

text \<open>24 bytes per line are enough for every kernel of up to ten million heads.\<close>

lemma simt_report_fits:
  assumes "n \<le> 10 ^ 7"
  shows "length (bb_report counts n) \<le> 24 * n"
proof -
  have "length (bb_line counts k) \<le> 24" if "k < n" for k
  proof -
    have "length (dec k) \<le> 7" using that assms by (intro length_dec_le) simp_all
    then show ?thesis using length_dec_u32 [of "counts ! k"] by (simp add: bb_line_def)
  qed
  then have "sum_list (map (length \<circ> bb_line counts) [0..<n]) \<le> sum_list (map (\<lambda>k. 24) [0..<n])"
    by (intro sum_list_mono) simp
  then show ?thesis by (simp add: bb_report_def length_concat sum_list_triv)
qed

end
