(* ===== verification/Trace_Files.thy ===== *)
theory Trace_Files
  imports Mailbox_Properties Mutators
begin

text \<open>
  From the mutator to the disk: what the trace files hold after a launch. The probes that
  \<open>preload_perwave_instrument.C\<close> and \<open>bb_count_instrument.C\<close> insert make every wave open a file
  of its own and write one text to it; the mailbox interleaves these calls in any order. The
  theory follows one file through the service log, shows that the calls of other waves leave it
  alone, and composes the mutators, the probes, the ring protocol and the service loop.
\<close>

section \<open>One file, seen through the service\<close>

text \<open>The table entry of a path, its contents, and the stream the entry names.\<close>

definition file_view :: "service \<Rightarrow> string \<Rightarrow> u64 \<times> string option \<times> stream option" where
  "file_view v p = (let f = lookup0 (sv_files v) p
     in (f, disk (sv_io v) p, if f = 0 then None else streams (sv_io v) f))"

lemma view_open_other:
  assumes s: "service_slot s v = Some (s', v')" and op: "slot_opcode s = HC_OP_FOPEN"
    and ok: "service_ok v" and q: "q \<noteq> cstr (slot_path s)"
  shows "file_view v' q = file_view v q"
proof -
  let ?p = "cstr (slot_path s)"
  from service_slot_effect [OF s] op have e: "fopen_effect s v s' v'"
    by (auto simp: write_effect_def quiet_effect_def)
  then have o: "fopen_once io_fopen (sv_files v) ?p (cstr (slot_mode s)) (sv_io v) =
      (slot_handle s', sv_files v', sv_io v')" by (simp add: fopen_effect_def)
  have l: "lookup0 (sv_files v') q = lookup0 (sv_files v) q"
    using stdio.once_lookup [OF o, of q] q by simp
  from fopen_effect_io [OF e] consider "sv_io v' = sv_io v"
    | "io_fopen ?p (cstr (slot_mode s)) (sv_io v) = (slot_handle s', sv_io v')" by blast
  then show ?thesis
  proof cases
    case 1
    with l show ?thesis by (simp add: file_view_def Let_def)
  next
    case 2
    from io_fopen_cases [OF 2] show ?thesis
    proof
      assume o: "opened ?p (cstr (slot_mode s)) (slot_handle s') (sv_io v) (sv_io v')"
      have t: "stdio.table_ok (sv_files v) (sv_io v)" and i: "io_ok (sv_io v)"
        using ok by (simp_all add: service_ok_def stdio.table_ok_def)
      have "lookup0 (sv_files v) q \<noteq> slot_handle s'" if "lookup0 (sv_files v) q \<noteq> 0"
        using opened_ok [OF o i] t that by (auto simp: stdio.table_ok_def)
      with l o q show ?thesis by (auto simp: file_view_def opened_def Let_def)
    qed (use l in \<open>simp add: file_view_def Let_def\<close>)
  qed
qed

lemma view_open_first:
  assumes s: "service_slot s v = Some (s', v')" and op: "slot_opcode s = HC_OP_FOPEN"
    and m: "cstr (slot_mode s) = ''w''" and z: "lookup0 (sv_files v) (cstr (slot_path s)) = 0"
    and ok: "service_ok v"
  shows "file_view v' (cstr (slot_path s)) =
    (if slot_handle s' = 0 then (0, disk (sv_io v) (cstr (slot_path s)), None)
     else (slot_handle s', Some [], Some (new_stream (cstr (slot_path s)) ''w'')))"
proof -
  let ?p = "cstr (slot_path s)"
  from service_slot_effect [OF s] op have e: "fopen_effect s v s' v'"
    by (auto simp: write_effect_def quiet_effect_def)
  then have l: "lookup0 (sv_files v') ?p = slot_handle s'"
    using fopen_service [OF s op ok] by simp
  have o: "io_fopen ?p ''w'' (sv_io v) = (slot_handle s', sv_io v')"
    using fopen_effect_io [OF e] z m by simp
  from io_fopen_cases [OF o] show ?thesis
  proof
    assume "slot_handle s' = 0 \<and> sv_io v' = sv_io v"
    with l show ?thesis by (simp add: file_view_def Let_def)
  next
    assume d: "opened ?p ''w'' (slot_handle s') (sv_io v) (sv_io v')"
    have "slot_handle s' \<noteq> 0" using opened_ok [OF d] ok by (simp add: service_ok_def stdio.table_ok_def)
    with l d show ?thesis by (simp add: file_view_def opened_def Let_def)
  qed
qed

text \<open>The service of a write by address, as one equation.\<close>

lemma service_fwrite_ptr:
  assumes "service_slot s v = Some (s', v')" "slot_opcode s = HC_OP_FWRITE_PTR"
    "slot_bufptr s \<noteq> 0" "slot_handle s = f"
  shows "if f = 0 then sv_io v' = sv_io v \<and> sv_files v' = sv_files v \<and> slot_retval s' = - 1
    else \<exists>n d. devmem_read (sv_io v) (slot_bufptr s) (slot_size s) = Some d \<and>
      io_fwrite d f (sv_io v) = Some (n, sv_io v') \<and> sv_files v' = sv_files v \<and> slot_retval s' = of_nat n"
  using assms by (auto simp: service_slot_def Let_def hc_ops split: if_splits option.splits)

lemma io_fwrite_frame:
  assumes "io_fwrite d f w = Some (n, w')" "streams w f = Some st"
  shows "p \<noteq> st_path st \<Longrightarrow> disk w' p = disk w p" "g \<noteq> f \<Longrightarrow> streams w' g = streams w g"
  using assms by (auto simp: io_fwrite_def Let_def split: if_splits)

lemma io_fwrite_new:
  assumes "io_fwrite d f w = Some (n, w')" "streams w f = Some (new_stream p ''w'')" "disk w p = Some []"
  shows "n = length d" "disk w' p = Some d"
  using assms by (auto simp: io_fwrite_def new_stream_def)

lemma view_write_other:
  assumes s: "service_slot s v = Some (s', v')" and op: "slot_opcode s = HC_OP_FWRITE_PTR"
    and b: "slot_bufptr s \<noteq> 0" and ok: "service_ok v"
    and h: "slot_handle s = 0 \<or> lookup0 (sv_files v) q \<noteq> slot_handle s"
  shows "file_view v' q = file_view v q"
proof (cases "slot_handle s = 0")
  case True
  with service_fwrite_ptr [OF s op b refl] show ?thesis by (simp add: file_view_def Let_def)
next
  case False
  with service_fwrite_ptr [OF s op b refl] obtain n d where
    w: "io_fwrite d (slot_handle s) (sv_io v) = Some (n, sv_io v')" "sv_files v' = sv_files v" by auto
  then obtain st where st: "streams (sv_io v) (slot_handle s) = Some st"
    by (auto simp: io_fwrite_def split: option.splits)
  have "lookup0 (sv_files v) (st_path st) = slot_handle s" using ok st by (auto simp: service_ok_def)
  with h False have "st_path st \<noteq> q" by auto
  with io_fwrite_frame [OF w(1) st] w(2) h False show ?thesis
    by (simp add: file_view_def Let_def)
qed

lemma view_write_own:
  assumes s: "service_slot s v = Some (s', v')" and op: "slot_opcode s = HC_OP_FWRITE_PTR"
    and b: "slot_bufptr s \<noteq> 0" and f: "slot_handle s \<noteq> 0"
    and vw: "file_view v p = (slot_handle s, Some [], Some (new_stream p ''w''))"
    and d: "devmem_read (sv_io v) (slot_bufptr s) (slot_size s) = Some d"
  shows "fst (file_view v' p) = slot_handle s \<and> fst (snd (file_view v' p)) = Some d \<and>
    slot_retval s' = of_nat (length d)"
proof -
  from service_fwrite_ptr [OF s op b refl] f d obtain n where
    w: "io_fwrite d (slot_handle s) (sv_io v) = Some (n, sv_io v')" "sv_files v' = sv_files v"
      "slot_retval s' = of_nat n" by auto
  have "streams (sv_io v) (slot_handle s) = Some (new_stream p ''w'')" "disk (sv_io v) p = Some []"
    "lookup0 (sv_files v) p = slot_handle s"
    using vw f by (auto simp: file_view_def Let_def)
  with io_fwrite_new [OF w(1), of p] w show ?thesis by (simp add: file_view_def Let_def)
qed

section \<open>The service log of waves that each write their own file\<close>

text \<open>
  What a wave has made of its file after \<open>k\<close> served calls: nothing; opened (or the open
  failed and the file is as it was); written.
\<close>

definition file_stage :: "io \<Rightarrow> string \<Rightarrow> i64 \<Rightarrow> string \<Rightarrow> nat \<Rightarrow> u64 \<times> string option \<times> stream option \<Rightarrow> bool" where
  "file_stage w0 p h d k vw \<longleftrightarrow>
     (if k = 0 then fst vw = 0 \<and> fst (snd vw) = disk w0 p
      else if k = 1 then vw = (if h = 0 then (0, disk w0 p, None) else (h, Some [], Some (new_stream p ''w'')))
      else fst vw = h \<and> fst (snd vw) = (if h = 0 then disk w0 p else Some d))"

definition jobs_inv ::
    "nat \<Rightarrow> (nat \<Rightarrow> string) \<Rightarrow> (nat \<Rightarrow> i64) \<Rightarrow> (nat \<Rightarrow> string) \<Rightarrow> io \<Rightarrow> (nat \<Rightarrow> nat) \<Rightarrow> service \<Rightarrow> bool" where
  "jobs_inv W p h d w0 k v \<longleftrightarrow> service_ok v \<and> devmem (sv_io v) = devmem w0 \<and>
     (\<forall>w < W. file_stage w0 (p w) (h w) (d w) (k w) (file_view v (p w))) \<and>
     (\<forall>q. q \<notin> p ` {..<W} \<longrightarrow> file_stage w0 q 0 [] 0 (file_view v q))"

lemma jobs_invI:
  assumes "service_ok v" "devmem (sv_io v) = devmem w0"
    and "\<And>w. w < W \<Longrightarrow> file_stage w0 (p w) (h w) (d w) (k w) (file_view v (p w))"
    and "\<And>q. q \<notin> p ` {..<W} \<Longrightarrow> file_stage w0 q 0 [] 0 (file_view v q)"
  shows "jobs_inv W p h d w0 k v"
  using assms by (simp add: jobs_inv_def)

lemma jobs_invD:
  assumes "jobs_inv W p h d w0 k v"
  shows "service_ok v" "devmem (sv_io v) = devmem w0"
    and "w < W \<Longrightarrow> file_stage w0 (p w) (h w) (d w) (k w) (file_view v (p w))"
    and "q \<notin> p ` {..<W} \<Longrightarrow> file_stage w0 q 0 [] 0 (file_view v q)"
  using assms by (simp_all add: jobs_inv_def)

lemma jobs_init:
  assumes "io_ok w0" "io_live w0 = {}"
  shows "jobs_inv W p h d w0 (\<lambda>w. 0) (service_init w0)"
  using service_init_ok [OF assms]
  by (simp add: jobs_inv_def file_stage_def file_view_def service_init_def lookup0_def Let_def)

text \<open>Only the views of the serving wave's path change, so the stages of the others stand.\<close>

lemma jobs_update:
  assumes i: "jobs_inv W p h d w0 k v" and ok: "service_ok v'" "devmem (sv_io v') = devmem (sv_io v)"
    and inj: "inj_on p {..<W}" and w: "w < W"
    and fr: "\<And>q. q \<noteq> p w \<Longrightarrow> file_view v' q = file_view v q"
    and own: "file_stage w0 (p w) (h w) (d w) m (file_view v' (p w))"
  shows "jobs_inv W p h d w0 (k(w := m)) v'"
proof (rule jobs_invI)
  show "service_ok v'" "devmem (sv_io v') = devmem w0" using ok jobs_invD(2) [OF i] by simp_all
  fix x assume x: "x < W"
  show "file_stage w0 (p x) (h x) (d x) ((k(w := m)) x) (file_view v' (p x))"
  proof (cases "x = w")
    case False
    with inj x w have "p x \<noteq> p w" by (auto dest: inj_onD)
    with fr jobs_invD(3) [OF i x] False show ?thesis by simp
  qed (use own in simp)
next
  fix q assume q: "q \<notin> p ` {..<W}"
  with w have "q \<noteq> p w" by auto
  with fr jobs_invD(4) [OF i q] show "file_stage w0 q 0 [] 0 (file_view v' q)" by simp
qed

lemma jobs_open:
  assumes i: "jobs_inv W p h d w0 k v" and inj: "inj_on p {..<W}" and w: "w < W" "k w = 0"
    and s: "service_slot s v = Some (s', v')" "slot_opcode s = HC_OP_FOPEN"
      "cstr (slot_path s) = p w" "cstr (slot_mode s) = ''w''" "slot_handle s' = h w"
  shows "jobs_inv W p h d w0 (k(w := 1)) v'"
proof (rule jobs_update [OF i service_slot_ok [OF s(1)] service_slot_context(1) [OF s(1)] inj w(1)])
  show ok: "service_ok v" by (rule jobs_invD(1) [OF i])
  show "file_view v' q = file_view v q" if "q \<noteq> p w" for q
    using view_open_other [OF s(1,2) ok] that s(3) by simp
  have "file_stage w0 (p w) (h w) (d w) 0 (file_view v (p w))" using jobs_invD(3) [OF i w(1)] w(2) by simp
  then have "lookup0 (sv_files v) (p w) = 0" "disk (sv_io v) (p w) = disk w0 (p w)"
    by (simp_all add: file_stage_def file_view_def Let_def)
  with view_open_first [OF s(1,2,4) _ ok] s(3,5)
  show "file_stage w0 (p w) (h w) (d w) 1 (file_view v' (p w))" by (simp add: file_stage_def)
qed

lemma jobs_write:
  assumes i: "jobs_inv W p h d w0 k v" and inj: "inj_on p {..<W}" and w: "w < W" "k w = 1"
    and s: "service_slot s v = Some (s', v')" "slot_opcode s = HC_OP_FWRITE_PTR"
      "slot_bufptr s \<noteq> 0" "slot_handle s = h w"
    and dm: "devmem_read w0 (slot_bufptr s) (slot_size s) = Some (d w)"
  shows "jobs_inv W p h d w0 (k(w := 2)) v' \<and> slot_retval s' = (if h w = 0 then - 1 else of_nat (length (d w)))"
proof -
  have ok: "service_ok v" by (rule jobs_invD(1) [OF i])
  have st: "file_view v (p w) = (if h w = 0 then (0, disk w0 (p w), None) else (h w, Some [], Some (new_stream (p w) ''w'')))"
    using jobs_invD(3) [OF i w(1)] w(2) by (simp add: file_stage_def)
  have rd: "devmem_read (sv_io v) (slot_bufptr s) (slot_size s) = Some (d w)"
    using dm jobs_invD(2) [OF i] by (simp add: devmem_read_def split: if_splits)
  have own: "file_stage w0 (p w) (h w) (d w) 2 (file_view v' (p w)) \<and>
      slot_retval s' = (if h w = 0 then - 1 else of_nat (length (d w)))"
  proof (cases "h w = 0")
    case True
    with st service_fwrite_ptr [OF s(1,2,3) refl] s(4) show ?thesis
      by (simp add: file_stage_def file_view_def Let_def)
  next
    case False
    with st s(4) have "file_view v (p w) = (slot_handle s, Some [], Some (new_stream (p w) ''w''))" by simp
    from view_write_own [OF s(1,2,3) _ this rd] False s(4) show ?thesis by (simp add: file_stage_def)
  qed
  have "file_view v' q = file_view v q" if "q \<noteq> p w" for q
  proof (rule view_write_other [OF s(1,2,3) ok], rule disjCI)
    assume "\<not> lookup0 (sv_files v) q \<noteq> slot_handle s"
    then have "lookup0 (sv_files v) q = h w" using s(4) by simp
    moreover have "lookup0 (sv_files v) (p w) = h w" using st by (auto simp: file_view_def Let_def split: if_splits)
    moreover have "\<And>n m. lookup0 (sv_files v) n \<noteq> 0 \<Longrightarrow> lookup0 (sv_files v) n = lookup0 (sv_files v) m \<Longrightarrow> n = m"
      using ok by (simp add: service_ok_def stdio.table_ok_def)
    ultimately show "slot_handle s = 0" using that s(4) by metis
  qed
  from jobs_update [OF i service_slot_ok [OF s(1) ok] service_slot_context(1) [OF s(1)] inj w(1) this] own
  show ?thesis by blast
qed

text \<open>The calls of one wave: open its file for writing, write \<open>n\<close> bytes from the address \<open>a\<close>.\<close>

definition open_write :: "string \<Rightarrow> i64 \<Rightarrow> i64 \<Rightarrow> nat \<Rightarrow> request list" where
  "open_write nm h a n = [Gpu_fopen (Some (mem_of nm)) (Some (mem_of ''w'')), Gpu_fwrite h a (of_nat n)]"

lemma published_open:
  assumes "published (Gpu_fopen (Some f) (Some (mem_of ''w''))) s"
  shows "slot_opcode s = HC_OP_FOPEN" "cstr (slot_path s) = cstr_mem (HC_PATH_SIZE - 1) f"
    "cstr (slot_mode s) = ''w''"
proof -
  from assms obtain s0 where s0: "slot_wf s0" "s = (submit (Gpu_fopen (Some f) (Some (mem_of ''w''))) s0)\<lparr>slot_status := 1\<rparr>"
    by (auto simp: published_def)
  from s0 submit_path [OF s0(1)] show "slot_opcode s = HC_OP_FOPEN" "cstr (slot_path s) = cstr_mem (HC_PATH_SIZE - 1) f"
    by simp_all
  from s0 show "cstr (slot_mode s) = ''w''"
    by (simp add: submit_def marshal_str_spec slot_wf_def HC_MODE_SIZE_def cstr_write_string)
      (simp add: cstr_mem_def mem_of_def upt_rec)
qed

lemma published_write:
  assumes "published (Gpu_fwrite h a n) s"
  shows "slot_opcode s = HC_OP_FWRITE_PTR" "slot_handle s = h" "slot_bufptr s = a" "slot_size s = n"
  using assms by (auto simp: published_def submit_def)

lemma run_log_snoc:
  assumes "run_log v (xs @ [e]) = Some v'"
  obtains v1 where "run_log v xs = Some v1" "service_slot (le_before e) v1 = Some (le_after e, v')"
  using assms by (auto simp: run_log_append split: option.splits prod.splits if_splits)

definition entries_of :: "log_entry list \<Rightarrow> nat \<Rightarrow> log_entry list" where
  "entries_of xs w = filter (\<lambda>e. le_wave e = w) xs"

lemma entries_snoc: "entries_of (xs @ [e]) w = entries_of xs w @ (if le_wave e = w then [e] else [])"
  by (simp add: entries_of_def)

lemma prefix_two:
  assumes "prefix (xs @ [x]) [a, b]"
  obtains "xs = []" "x = a" | "xs = [a]" "x = b"
proof -
  from assms have "xs = [] \<and> x = a \<or> xs = [a] \<and> x = b"
    by (cases xs; cases "tl xs") (auto simp: prefix_def Cons_eq_append_conv append_eq_Cons_conv)
  with that show ?thesis by blast
qed

text \<open>
  A log of the service in which every wave calls \<open>open_write\<close> with the handle its own open
  returned: every prefix of it has every file at the stage its wave has reached.
\<close>

definition jobs_ok ::
    "nat \<Rightarrow> (nat \<Rightarrow> string) \<Rightarrow> (nat \<Rightarrow> i64) \<Rightarrow> (nat \<Rightarrow> string) \<Rightarrow> io \<Rightarrow> bool" where
  "jobs_ok W nm a d w0 \<longleftrightarrow> io_ok w0 \<and> io_live w0 = {} \<and>
     inj_on (\<lambda>w. cstr_mem (HC_PATH_SIZE - 1) (mem_of (nm w))) {..<W} \<and>
     (\<forall>w < W. a w \<noteq> 0 \<and> devmem_read w0 (a w) (of_nat (length (d w))) = Some (d w))"

definition replies_ok :: "(nat \<Rightarrow> request list) \<Rightarrow> (nat \<Rightarrow> i64) \<Rightarrow> log_entry list \<Rightarrow> bool" where
  "replies_ok R h log \<longleftrightarrow> (\<forall>e \<in> set log. published (le_req e) (le_before e)) \<and>
     (\<forall>w. prefix (map le_req (entries_of log w)) (R w)) \<and>
     (\<forall>w. entries_of log w \<noteq> [] \<longrightarrow> entry_reply (hd (entries_of log w)) = RHandle (h w))"

lemma replies_ok_snoc:
  assumes "replies_ok R h (xs @ [e])"
  shows "replies_ok R h xs"
proof -
  have "prefix (map le_req (entries_of xs w)) (R w)" for w
    using assms unfolding replies_ok_def entries_snoc map_append by (meson append_prefixD)
  moreover have "entry_reply (hd (entries_of xs w)) = RHandle (h w)" if "entries_of xs w \<noteq> []" for w
    using assms that unfolding replies_ok_def entries_snoc by (auto simp: hd_append split: if_splits)
  ultimately show ?thesis using assms by (simp add: replies_ok_def)
qed

definition write_reply :: "i64 \<Rightarrow> string \<Rightarrow> hc_result" where
  "write_reply h d = RCount (if h = 0 then - 1 else of_nat (length d))"

lemma jobs_log:
  assumes ok: "jobs_ok W nm a d w0"
    and R: "\<And>w. w < W \<Longrightarrow> R w = open_write (nm w) (h w) (a w) (length (d w))" "\<And>w. W \<le> w \<Longrightarrow> R w = []"
  defines "p \<equiv> \<lambda>w. cstr_mem (HC_PATH_SIZE - 1) (mem_of (nm w))"
  shows "run_log (service_init w0) log = Some v \<Longrightarrow> replies_ok R h log \<Longrightarrow>
    jobs_inv W p h d w0 (\<lambda>w. length (entries_of log w)) v \<and>
    (\<forall>w < W. length (entries_of log w) = 2 \<longrightarrow> entry_reply (entries_of log w ! 1) = write_reply (h w) (d w))"
proof (induction log arbitrary: v rule: rev_induct)
  case Nil
  then show ?case using jobs_init [of w0 W p h d] ok by (auto simp: jobs_ok_def entries_of_def)
next
  case (snoc e xs)
  let ?w = "le_wave e" and ?k = "\<lambda>w. length (entries_of xs w)"
  obtain v1 where v1: "run_log (service_init w0) xs = Some v1" "service_slot (le_before e) v1 = Some (le_after e, v)"
    by (rule run_log_snoc [OF snoc.prems(1)])
  from snoc.IH [OF v1(1) replies_ok_snoc [OF snoc.prems(2)]]
  have i: "jobs_inv W p h d w0 ?k v1"
    and rep: "\<And>w. w < W \<Longrightarrow> ?k w = 2 \<Longrightarrow> entry_reply (entries_of xs w ! 1) = write_reply (h w) (d w)" by blast+
  have inj: "inj_on p {..<W}" using ok by (simp add: jobs_ok_def p_def)
  have pre: "prefix (map le_req (entries_of xs ?w) @ [le_req e]) (R ?w)"
    using snoc.prems(2) [unfolded replies_ok_def, THEN conjunct2, THEN conjunct1, THEN spec, of ?w] by (simp add: entries_snoc)
  then have w: "?w < W" using R(2) [of ?w] by (cases "W \<le> ?w") auto
  have pub: "published (le_req e) (le_before e)" using snoc.prems(2) by (simp add: replies_ok_def)
  have upd: "(\<lambda>x. length (entries_of (xs @ [e]) x)) = ?k(?w := Suc (?k ?w))"
    by (auto simp: entries_snoc fun_eq_iff)
  from pre [unfolded R(1) [OF w] open_write_def] show ?case
  proof (cases rule: prefix_two)
    case 1
    then have k: "?k ?w = 0" by simp
    then have "entry_reply e = RHandle (h ?w)"
      using snoc.prems(2) by (auto simp: replies_ok_def entries_snoc dest: spec [of _ ?w])
    then have h: "slot_handle (le_after e) = h ?w" using 1 by (simp add: entry_reply_def)
    from published_open [OF pub [unfolded 1(2)]]
    have "jobs_inv W p h d w0 (?k(?w := 1)) v" by (intro jobs_open [OF i inj w k v1(2) _ _ _ h]) (simp_all add: p_def)
    then show ?thesis using rep k unfolding upd by (auto simp: entries_snoc)
  next
    case 2
    then have k: "?k ?w = 1" by (metis length_map list.size(3,4) One_nat_def add.commute plus_1_eq_Suc)
    have rd: "devmem_read w0 (a ?w) (of_nat (length (d ?w))) = Some (d ?w)" "a ?w \<noteq> 0" using ok w by (simp_all add: jobs_ok_def)
    note pw = published_write [OF pub [unfolded 2(2)]]
    have "jobs_inv W p h d w0 (?k(?w := 2)) v \<and> slot_retval (le_after e) = (if h ?w = 0 then - 1 else of_nat (length (d ?w)))"
      by (rule jobs_write [OF i inj w k v1(2) pw(1)]) (simp_all add: pw rd)
    moreover have "entry_reply e = RCount (slot_retval (le_after e))" using 2 by (simp add: entry_reply_def)
    ultimately show ?thesis using rep k unfolding upd by (auto simp: entries_snoc nth_append write_reply_def numeral_2_eq_2)
  qed
qed

section \<open>From the ring to the disk\<close>

text \<open>
  A launch that has come to its end: every wave is idle with nothing left to call. Its log
  holds, per wave, exactly the calls and the replies of that wave.
\<close>

definition launch_over :: "nat \<Rightarrow> ring \<Rightarrow> bool" where
  "launch_over W c \<longleftrightarrow> (\<forall>w < W. w_pc (rg_wave c w) = WIdle \<and> w_todo (rg_wave c w) = [])"

lemma launch_log:
  assumes "launch_ok W R" "ring_exec (ring_init R sv) tr = Some c" "launch_over W c"
  obtains log where "run_log sv log = Some (rg_sv c)"
    "\<And>e. e \<in> set log \<Longrightarrow> published (le_req e) (le_before e)"
    "\<And>w. map le_req (entries_of log w) = R w"
    "\<And>w. w_done (rg_wave c w) = map entry_reply (entries_of log w)"
proof -
  obtain g where g: "ring_inv W R sv (c, g)" using exec_inv [OF assms(2,1)] by blast
  have l: "log_inv sv c g" and c: "ctl_inv W c g" using g by (simp_all add: ring_inv_def)
  have "map le_req (entries_of (g_log g) w) = R w \<and> w_done (rg_wave c w) = map entry_reply (entries_of (g_log g) w)" for w
  proof -
    have "w_pc (rg_wave c w) = WIdle" "w_todo (rg_wave c w) = []"
      using assms(3) ctl_idle [OF c, of w] by (cases "w < W"; simp add: launch_over_def)+
    moreover have "data_inv R c g w" using g by (simp add: ring_inv_def)
    ultimately show ?thesis
      by (simp add: data_inv_def to_serve_def to_read_def served_def pc_of_def wave_log_def entries_of_def)
  qed
  with l that [of "g_log g"] show ?thesis by (auto simp: log_inv_def)
qed

lemma launch_files:
  assumes W: "W \<le> 2 ^ 24" and ok: "jobs_ok W nm a d w0"
    and R: "\<And>w. w < W \<Longrightarrow> R w = open_write (nm w) (h w) (a w) (length (d w))" "\<And>w. W \<le> w \<Longrightarrow> R w = []"
    and ex: "ring_exec (ring_init R (service_init w0)) tr = Some c" "launch_over W c"
    and h: "\<And>w. w < W \<Longrightarrow> hd (w_done (rg_wave c w)) = RHandle (h w)"
  defines "p \<equiv> \<lambda>w. cstr_mem (HC_PATH_SIZE - 1) (mem_of (nm w))"
    and "out \<equiv> disk (fst (service_teardown (rg_sv c)))"
  shows "w < W \<Longrightarrow> out (p w) = (if h w = 0 then disk w0 (p w) else Some (d w)) \<and>
      w_done (rg_wave c w) = [RHandle (h w), write_reply (h w) (d w)]"
    and "q \<notin> p ` {..<W} \<Longrightarrow> out q = disk w0 q"
proof -
  have "launch_ok W R" using W R(2) by (simp add: launch_ok_def)
  from launch_log [OF this ex] obtain log where log: "run_log (service_init w0) log = Some (rg_sv c)"
    "\<And>e. e \<in> set log \<Longrightarrow> published (le_req e) (le_before e)"
    "\<And>w. map le_req (entries_of log w) = R w"
    "\<And>w. w_done (rg_wave c w) = map entry_reply (entries_of log w)" by blast
  have len: "length (entries_of log w) = (if w < W then 2 else 0)" for w
    using arg_cong [OF log(3) [of w], of length] R by (simp add: open_write_def not_less)
  have h': "entry_reply (hd (entries_of log w)) = RHandle (h w)" if "entries_of log w \<noteq> []" for w
    using that h [of w] log(4) [of w] len [of w] by (auto simp: hd_map split: if_splits)
  have "replies_ok R h log" using log(2,3) h' by (simp add: replies_ok_def)
  from jobs_log [OF ok R log(1) this] have i: "jobs_inv W p h d w0 (\<lambda>w. length (entries_of log w)) (rg_sv c)"
    and rep: "\<And>w. w < W \<Longrightarrow> entry_reply (entries_of log w ! 1) = write_reply (h w) (d w)"
    using len by (auto simp: p_def)
  have out: "out q = fst (snd (file_view (rg_sv c) q))" for q
    by (simp add: out_def service_teardown_def close_all_disk file_view_def Let_def)
  show "out q = disk w0 q" if "q \<notin> p ` {..<W}"
    using jobs_invD(4) [OF i that] by (simp add: out file_stage_def)
  assume w: "w < W"
  then obtain e1 e2 where e: "entries_of log w = [e1, e2]"
    using len [of w] by (auto simp: numeral_2_eq_2 length_Suc_conv)
  have "w_done (rg_wave c w) = [RHandle (h w), write_reply (h w) (d w)]"
    using log(4) [of w] h' [of w] rep [OF w] by (simp add: e)
  with jobs_invD(3) [OF i w] len [of w] w
  show "out (p w) = (if h w = 0 then disk w0 (p w) else Some (d w)) \<and>
      w_done (rg_wave c w) = [RHandle (h w), write_reply (h w) (d w)]" by (simp add: out file_stage_def)
qed

section \<open>One trace file per wave, from the mutator to the disk\<close>

text \<open>
  The run of a kernel that \<open>preload_perwave_instrument\<close> has instrumented, on one wave: the calls
  at the entry, then the kernel (it does not see the variables), then the calls at the exit; a plan
  with calls at other points has no such run. The
  per-wave variables 0 to 4 are the fields of \<open>pw_vars\<close>; a call that binds them in any other way
  has no meaning here. \<open>h\<close> is what the wave's \<open>gpu_fopen\<close> returns, \<open>a\<close> the address of its line.
\<close>

definition perwave_probe :: "wave_ctx \<Rightarrow> i64 \<Rightarrow> i64 \<Rightarrow> Insertion \<Rightarrow> pw_vars \<Rightarrow> (pw_vars \<times> request list) option" where
  "perwave_probe cx h a i v =
     (if is_callee i = ''pw_open'' \<and> is_args i = [VarAddress 0, VarAddress 1, VarAddress 2, VarAddress 3] then pw_open cx h v
      else if is_callee i = ''pw_flush'' \<and> is_args i = [VarAddress 0, VarAddress 1, VarAddress 2, VarAddress 4] then pw_flush cx a v
      else None)"

fun perwave_probes :: "wave_ctx \<Rightarrow> i64 \<Rightarrow> i64 \<Rightarrow> Insertion list \<Rightarrow> pw_vars \<Rightarrow> (pw_vars \<times> request list) option" where
  "perwave_probes cx h a [] v = Some (v, [])"
| "perwave_probes cx h a (i # is) v =
     (case perwave_probe cx h a i v of None \<Rightarrow> None
      | Some (v', r) \<Rightarrow> map_option (\<lambda>(v'', r'). (v'', r @ r')) (perwave_probes cx h a is v'))"

definition perwave_run :: "wave_ctx \<Rightarrow> i64 \<Rightarrow> i64 \<Rightarrow> Plan \<Rightarrow> pw_vars \<Rightarrow> (pw_vars \<times> request list) option" where
  "perwave_run cx h a p v =
     (if list_all (\<lambda>i. is_point i = AtEntry \<or> is_point i = AtExit) (pl_calls p) then perwave_probes cx h a
        (filter (\<lambda>i. is_point i = AtEntry) (pl_calls p) @ filter (\<lambda>i. is_point i = AtExit) (pl_calls p)) v
      else None)"

text \<open>The variables as the plan sizes them, with any contents.\<close>

definition perwave_sized :: "Plan \<Rightarrow> pw_vars \<Rightarrow> bool" where
  "perwave_sized p v \<longleftrightarrow> map unat (pl_vars p) = [8, 4, 4, length (pv_name v), length (pv_line v)]"

lemma perwave_plan:
  assumes "preload_perwave_instrument im args = (0, p)" "\<And>i. im_accepts im i"
    and "im_fun im (argv args 3 ''_Z9vectoraddPfPKfS1_i'') = Some kn" "kn_entry kn" "kn_exit kn"
  shows "\<exists>name. pl_vars p = [8, 4, 4, 64, 128] \<and> pl_calls p =
    [\<lparr>is_kernel = name, is_point = AtEntry, is_callee = ''pw_open'', is_args = [VarAddress 0, VarAddress 1, VarAddress 2, VarAddress 3]\<rparr>,
     \<lparr>is_kernel = name, is_point = AtExit, is_callee = ''pw_flush'', is_args = [VarAddress 0, VarAddress 1, VarAddress 2, VarAddress 4]\<rparr>]"
  using assms(1,3-5)
  by (auto simp: preload_perwave_instrument_def mutate_def Let_def insert_at_def insertSnippet_def assms(2)
      write_file_def no_plan_def split: if_splits)

lemma perwave_run_spec:
  assumes "preload_perwave_instrument im args = (0, p)" "\<And>i. im_accepts im i"
    and "im_fun im (argv args 3 ''_Z9vectoraddPfPKfS1_i'') = Some kn" "kn_entry kn" "kn_exit kn"
    and "elected cx" "perwave_sized p v"
  defines "s \<equiv> flush_line (global_wavefront_id cx) 0 0"
  shows "\<exists>nm v'. perwave_run cx h a p v = Some (v', open_write nm h a (length s)) \<and>
    cstr_mem (HC_PATH_SIZE - 1) (mem_of nm) = wave_file ''wave_'' (global_wavefront_id cx) \<and>
    take (length s) (pv_line v') = s"
proof -
  obtain name where p: "pl_vars p = [8, 4, 4, 64, 128]" "pl_calls p =
      [\<lparr>is_kernel = name, is_point = AtEntry, is_callee = ''pw_open'', is_args = [VarAddress 0, VarAddress 1, VarAddress 2, VarAddress 3]\<rparr>,
       \<lparr>is_kernel = name, is_point = AtExit, is_callee = ''pw_flush'', is_args = [VarAddress 0, VarAddress 1, VarAddress 2, VarAddress 4]\<rparr>]"
    using perwave_plan [OF assms(1-5)] by blast
  have len: "length (pv_name v) = 64" "length (pv_line v) = 128" using assms(7) by (simp_all add: perwave_sized_def p(1))
  let ?f = "wave_file ''wave_'' (global_wavefront_id cx)"
  let ?nm = "write_at 0 (?f @ [NUL]) (pv_name v)"
  let ?v = "v\<lparr>pv_name := ?nm, pv_handle := h, pv_hits := 0, pv_lanes := 0\<rparr>"
  have l: "length ?f \<le> 19" using length_wave_file [of "''wave_''"] by simp
  have ls: "length s \<le> 128" using length_flush_line [of "global_wavefront_id cx" 0 0] by (simp add: s_def)
  have "perwave_run cx h a p v = Some (?v\<lparr>pv_line := write_at 0 s (pv_line v)\<rparr>, open_write ?nm h a (length s))"
    using pw_open_spec [OF assms(6) len(1), of h] pw_flush_spec [OF assms(6), of ?v a] len(2)
    by (simp add: perwave_run_def p(2) perwave_probe_def open_write_def s_def)
  moreover have "cstr_mem (HC_PATH_SIZE - 1) (mem_of ?nm) = ?f"
    using l len by (intro cstr_mem_staged wave_file_no_nul) (simp_all add: HC_PATH_SIZE_def)
  moreover have "take (length s) (write_at 0 s (pv_line v)) = s"
    using ls len(2) by (intro take_staged) simp
  ultimately show ?thesis by auto
qed

text \<open>
  The waves of one launch: lane contexts of one grid and block shape, one elected lane per wave,
  no two of the same wave of the same block.
\<close>

definition waves_of_launch :: "nat \<Rightarrow> (nat \<Rightarrow> wave_ctx) \<Rightarrow> bool" where
  "waves_of_launch W cx \<longleftrightarrow> W \<le> 2 ^ 24 \<and>
     (\<forall>w < W. elected (cx w) \<and> launch_fits (cx w) \<and>
        cx_blockDim (cx w) = cx_blockDim (cx 0) \<and> cx_gridDim (cx w) = cx_gridDim (cx 0)) \<and>
     inj_on (\<lambda>w. (linear3 (cx_blockIdx (cx w)) (cx_gridDim (cx 0)),
       linear3 (cx_threadIdx (cx w)) (cx_blockDim (cx 0)) div 64)) {..<W}"

lemma waves_of_launchD:
  assumes "waves_of_launch W cx" "w < W"
  shows "elected (cx w)" "launch_fits (cx w)" "cx_blockDim (cx w) = cx_blockDim (cx 0)"
    "cx_gridDim (cx w) = cx_gridDim (cx 0)"
  using assms unfolding waves_of_launch_def by blast+

lemma waves_distinct_ids:
  assumes "waves_of_launch W cx"
  shows "inj_on (\<lambda>w. global_wavefront_id (cx w)) {..<W}"
proof (rule inj_onI)
  fix x y assume xy: "x \<in> {..<W}" "y \<in> {..<W}" "global_wavefront_id (cx x) = global_wavefront_id (cx y)"
  then have f: "launch_fits (cx x)" "launch_fits (cx y)"
    and dm: "cx_blockDim (cx x) = cx_blockDim (cx 0)" "cx_gridDim (cx x) = cx_gridDim (cx 0)"
      "cx_blockDim (cx y) = cx_blockDim (cx 0)" "cx_gridDim (cx y) = cx_gridDim (cx 0)"
    using waves_of_launchD [OF assms] by blast+
  have w: "waves_per_block (cx y) = waves_per_block (cx x)" by (simp add: waves_per_block_def block_threads_def dm)
  note a = wavefront_id_nat [OF f(1)] and b = wavefront_id_nat [OF f(2), unfolded w]
  from arg_cong [OF xy(3), of unat, unfolded a(1) b(1) mixed_radix [OF a(2) b(2)]]
  have "(linear3 (cx_blockIdx (cx x)) (cx_gridDim (cx 0)), linear3 (cx_threadIdx (cx x)) (cx_blockDim (cx 0)) div 64) =
        (linear3 (cx_blockIdx (cx y)) (cx_gridDim (cx 0)), linear3 (cx_threadIdx (cx y)) (cx_blockDim (cx 0)) div 64)"
    by (simp add: dm)
  moreover have "inj_on (\<lambda>w. (linear3 (cx_blockIdx (cx w)) (cx_gridDim (cx 0)),
      linear3 (cx_threadIdx (cx w)) (cx_blockDim (cx 0)) div 64)) {..<W}"
    using assms unfolding waves_of_launch_def by blast
  ultimately show "x = y" using xy(1,2) by (blast dest: inj_onD)
qed

lemma waves_distinct_files:
  assumes "waves_of_launch W cx" "\<And>w. w < W \<Longrightarrow> g w = wave_file pre (global_wavefront_id (cx w))"
  shows "inj_on g {..<W}"
proof (rule inj_onI)
  fix x y assume xy: "x \<in> {..<W}" "y \<in> {..<W}" "g x = g y"
  then have "wave_file pre (global_wavefront_id (cx x)) = wave_file pre (global_wavefront_id (cx y))"
    using assms(2) by simp
  then have "global_wavefront_id (cx x) = global_wavefront_id (cx y)" by (rule wave_file_inj)
  from inj_onD [OF waves_distinct_ids [OF assms(1)] this xy(1,2)] show "x = y" .
qed

text \<open>
  The files of a launch whose waves run a probe: \<open>rs w\<close> are the calls of wave \<open>w\<close>, \<open>t w\<close> the
  buffer that it leaves at \<open>a w\<close>, of which the text \<open>d w\<close> is the first part.
\<close>

lemma probe_files:
  assumes wv: "waves_of_launch W cx"
    and run: "\<forall>w < W. \<exists>nm. rs w = open_write nm (h w) (a w) (length (d w)) \<and>
      cstr_mem (HC_PATH_SIZE - 1) (mem_of nm) = wave_file pre (global_wavefront_id (cx w)) \<and>
      take (length (d w)) (t w) = d w \<and> length (d w) \<le> m"
    and m: "0 < m" "m < 2 ^ 31" and R: "\<And>w. R w = (if w < W then rs w else [])"
    and io: "io_ok w0" "io_live w0 = {}"
    and mem: "\<forall>w < W. \<forall>i < m. a w \<noteq> 0 \<and> devmem w0 (a w + of_nat i) = t w ! i"
    and ex: "ring_exec (ring_init R (service_init w0)) tr = Some c" "launch_over W c"
    and h: "\<forall>w < W. hd (w_done (rg_wave c w)) = RHandle (h w)"
  defines "file \<equiv> \<lambda>w. wave_file pre (global_wavefront_id (cx w))"
    and "out \<equiv> disk (fst (service_teardown (rg_sv c)))"
  shows "\<forall>w < W. out (file w) = (if h w = 0 then disk w0 (file w) else Some (d w)) \<and>
      w_done (rg_wave c w) = [RHandle (h w), write_reply (h w) (d w)]"
    and "\<forall>q. q \<notin> file ` {..<W} \<longrightarrow> out q = disk w0 q"
proof -
  have "\<exists>nm. w < W \<longrightarrow> rs w = open_write nm (h w) (a w) (length (d w)) \<and>
      cstr_mem (HC_PATH_SIZE - 1) (mem_of nm) = file w" for w
    using run [rule_format, of w] by (auto simp: file_def)
  then obtain nm where rs: "\<And>w. w < W \<Longrightarrow> rs w = open_write (nm w) (h w) (a w) (length (d w))"
    and nm: "\<And>w. w < W \<Longrightarrow> cstr_mem (HC_PATH_SIZE - 1) (mem_of (nm w)) = file w" by metis
  have rd: "devmem_read w0 (a w) (of_nat (length (d w))) = Some (d w)" "a w \<noteq> 0" if w: "w < W" for w
  proof -
    have d: "take (length (d w)) (t w) = d w" "length (d w) \<le> m" using run [rule_format, OF w] by auto
    have "devmem w0 (a w + of_nat i) = d w ! i" if "i < length (d w)" for i
      using mem [rule_format, OF w, of i] d that nth_take [OF that, of "t w"] by simp
    then have "map (\<lambda>i. devmem w0 (a w + of_nat i)) [0..<length (d w)] = d w" by (intro nth_equalityI) simp_all
    moreover have "sint (of_nat (length (d w)) :: i32) = int (length (d w))"
      using d(2) m(2) by (intro sint_of_nat_small) simp
    ultimately show "devmem_read w0 (a w) (of_nat (length (d w))) = Some (d w)" by (simp add: devmem_read_def)
    show "a w \<noteq> 0" using mem [rule_format, OF w m(1)] by simp
  qed
  have inj: "inj_on (\<lambda>w. cstr_mem (HC_PATH_SIZE - 1) (mem_of (nm w))) {..<W}"
    using waves_distinct_files [OF wv] nm by (simp add: file_def)
  have ok: "jobs_ok W nm a d w0" using io rd inj by (simp add: jobs_ok_def)
  have W: "W \<le> 2 ^ 24" using wv by (simp add: waves_of_launch_def)
  have R1: "R w = open_write (nm w) (h w) (a w) (length (d w))" if "w < W" for w
    using R [of w] rs [OF that] that by simp
  have R0: "R w = []" if "W \<le> w" for w using R [of w] that by simp
  have f: "out (cstr_mem (HC_PATH_SIZE - 1) (mem_of (nm w))) =
        (if h w = 0 then disk w0 (cstr_mem (HC_PATH_SIZE - 1) (mem_of (nm w))) else Some (d w)) \<and>
      w_done (rg_wave c w) = [RHandle (h w), write_reply (h w) (d w)]" if "w < W" for w
    unfolding out_def by (rule launch_files(1) [OF W ok _ _ ex _ that]) (rule R1 R0 h [rule_format], assumption)+
  have g: "out q = disk w0 q" if "q \<notin> (\<lambda>w. cstr_mem (HC_PATH_SIZE - 1) (mem_of (nm w))) ` {..<W}" for q
    unfolding out_def by (rule launch_files(2) [OF W ok _ _ ex _ that]) (rule R1 R0 h [rule_format], assumption)+
  have im: "(\<lambda>w. cstr_mem (HC_PATH_SIZE - 1) (mem_of (nm w))) ` {..<W} = file ` {..<W}"
    using nm by (intro image_cong refl) simp
  show "\<forall>q. q \<notin> file ` {..<W} \<longrightarrow> out q = disk w0 q" using g unfolding im by blast
  show "\<forall>w < W. out (file w) = (if h w = 0 then disk w0 (file w) else Some (d w)) \<and>
      w_done (rg_wave c w) = [RHandle (h w), write_reply (h w) (d w)]"
    using f nm by simp
qed

text \<open>
  C2: One trace file per wave, from the mutator to the disk. When \<open>preload_perwave_instrument\<close>
  succeeds and the waves of a launch run its probes, with the variables it declared, in any
  interleaving to the end, then no probe leaves its buffer, and after the teardown the file
  \<open>wave_<id>.txt\<close> of every wave whose open succeeded holds exactly the wave's own line; a wave
  whose open failed gets \<open>-1\<close> from its write and leaves the disk alone; no other file is
  touched. The line always reports 0 hits and 0 lanes: no inserted probe ever counts.
\<close>

theorem perwave_trace_files:
  assumes "preload_perwave_instrument im args = (0, p)" "\<And>i. im_accepts im i"
    and "im_fun im (argv args 3 ''_Z9vectoraddPfPKfS1_i'') = Some kn" "kn_entry kn" "kn_exit kn"
    and "waves_of_launch W cx" "\<And>w. w < W \<Longrightarrow> perwave_sized p (v w)"
    and "\<And>w. R w = (if w < W then snd (the (perwave_run (cx w) (h w) (a w) p (v w))) else [])"
    and "io_ok w0" "io_live w0 = {}"
    and "\<And>w i. w < W \<Longrightarrow> i < 128 \<Longrightarrow> a w \<noteq> 0 \<and>
      devmem w0 (a w + of_nat i) = pv_line (fst (the (perwave_run (cx w) (h w) (a w) p (v w)))) ! i"
    and "ring_exec (ring_init R (service_init w0)) tr = Some c" "launch_over W c"
    and "\<And>w. w < W \<Longrightarrow> hd (w_done (rg_wave c w)) = RHandle (h w)"
  defines "file \<equiv> \<lambda>w. wave_file ''wave_'' (global_wavefront_id (cx w))"
    and "line \<equiv> \<lambda>w. flush_line (global_wavefront_id (cx w)) 0 0"
    and "out \<equiv> disk (fst (service_teardown (rg_sv c)))"
  shows "(\<forall>w < W. perwave_run (cx w) (h w) (a w) p (v w) \<noteq> None \<and>
      out (file w) = (if h w = 0 then disk w0 (file w) else Some (line w)) \<and>
      w_done (rg_wave c w) = [RHandle (h w), write_reply (h w) (line w)]) \<and>
    (\<forall>q. q \<notin> file ` {..<W} \<longrightarrow> out q = disk w0 q)"
proof -
  have run: "\<exists>nm v'. perwave_run (cx w) (h w) (a w) p (v w) = Some (v', open_write nm (h w) (a w) (length (line w))) \<and>
      cstr_mem (HC_PATH_SIZE - 1) (mem_of nm) = file w \<and> take (length (line w)) (pv_line v') = line w" if "w < W" for w
    using perwave_run_spec [OF assms(1-5) waves_of_launchD(1) [OF assms(6)] assms(7)] that
    by (auto simp: file_def line_def)
  have ne: "perwave_run (cx w) (h w) (a w) p (v w) \<noteq> None" if "w < W" for w using run [OF that] by auto
  have rs: "\<exists>nm. snd (the (perwave_run (cx w) (h w) (a w) p (v w))) = open_write nm (h w) (a w) (length (line w)) \<and>
      cstr_mem (HC_PATH_SIZE - 1) (mem_of nm) = wave_file ''wave_'' (global_wavefront_id (cx w)) \<and>
      take (length (line w)) (pv_line (fst (the (perwave_run (cx w) (h w) (a w) p (v w))))) = line w \<and> length (line w) \<le> 128"
    if w: "w < W" for w
    using run [OF w] length_flush_line [of "global_wavefront_id (cx w)" 0 0] by (auto simp: file_def line_def)
  have mem: "\<forall>w < W. \<forall>i < 128. a w \<noteq> 0 \<and> devmem w0 (a w + of_nat i) =
      pv_line (fst (the (perwave_run (cx w) (h w) (a w) p (v w)))) ! i" using assms(11) by blast
  have h: "\<forall>w < W. hd (w_done (rg_wave c w)) = RHandle (h w)" using assms(14) by blast
  have pos: "0 < (128 :: nat)" "(128 :: nat) < 2 ^ 31" by simp_all
  note f = probe_files [OF assms(6) allI [OF impI, OF rs] pos assms(8-10) mem assms(12,13) h]
  show ?thesis unfolding file_def out_def
    by (rule conjI [OF _ f(2)]) (use ne f(1) in simp)
qed

section \<open>The block counts on the disk\<close>

definition visit_counts :: "ImageBlock list \<Rightarrow> nat list \<Rightarrow> u32 list" where
  "visit_counts bbs path = map (\<lambda>b. of_nat (count_list path (ib_start b))) (by_address bbs)"

lemma bb_wave_spec:
  assumes "3 \<le> length args" "im_opens im" "im_loads im" "\<And>i. im_accepts im i"
    and "im_fun im ''bb_inc'' \<noteq> None" "im_fun im ''bb_flush_pw'' \<noteq> None"
    and "im_fun im (argv args 3 ''_Z4vaddPfPKfS1_i'') = Some kn" "kn_cfg kn = Some bbs"
    and "\<forall>b \<in> set bbs. ib_entry_point b" "kn_exit kn" "distinct (map ib_start bbs)" "length bbs \<le> 10000"
    and "elected cx" "cx_exec cx \<noteq> 0" "set path \<subseteq> ib_start ` set bbs"
    and "bb_count_instrument im args = (0, p)"
  defines "s \<equiv> bb_report (visit_counts bbs path) (length bbs)"
  shows "\<exists>nm t. bb_wave cx h a p path = Some ([Counters (visit_counts bbs path), Text nm, Text t], open_write nm h (a 2) (length s)) \<and>
    cstr_mem (HC_PATH_SIZE - 1) (mem_of nm) = wave_file ''bbcount_'' (global_wavefront_id cx) \<and>
    take (length s) t = s \<and> length s \<le> 20 * length bbs \<and> length t = 20 * length bbs + 16"
proof -
  let ?name = "argv args 3 ''_Z4vaddPfPKfS1_i''" and ?v = "by_address bbs" and ?n = "length bbs"
  let ?c = "visit_counts bbs path" and ?rest = "[flush_call ?name ?n]"
  let ?z = "[Text (replicate 64 NUL), Text (replicate (20 * ?n + 16) NUL)]"
  have v: "length ?v = ?n" "set ?v = set bbs" "distinct (map ib_start ?v)"
    using assms(11) by (simp_all add: by_address_def distinct_map)
  have p: "pl_vars p = bb_count_vars ?n" "pl_calls p = map (block_call ?name) (enumerate 0 ?v) @ ?rest"
    using bb_count_plan [OF assms(1-9)] assms(10,16) by (auto split: if_splits)
  have vars: "bb_vars p = Counters (replicate ?n 0) # ?z"
    using bb_count_vars_sizes [OF assms(12)] by (simp add: bb_vars_def p(1) bb_count_vars_def)
  have ni: "\<not> list_ex (\<lambda>i. at_insn (is_point i)) (pl_calls p)"
    by (auto simp: p(2) list_ex_iff block_call_def flush_call_def)
  have at: "filter (\<lambda>i. is_point i = AtEntry) (pl_calls p) = []" "filter (\<lambda>i. is_point i = AtExit) (pl_calls p) = ?rest"
    by (simp_all add: p(2) flush_call_def filter_empty_conv block_call_def)
  obtain counts where r: "run_points cx h a (pl_calls p) (map AtBlock path @ [AtExit]) (Counters (replicate ?n 0) # ?z) =
        run_points cx h a (pl_calls p) [AtExit] (Counters counts # ?z)" "length counts = ?n"
      "\<forall>k < ?n. counts ! k = of_nat (count_list path (ib_start (?v ! k)))"
    using run_path_counts [OF assms(14) v(3), of ?rest "replicate ?n 0" path h a ?name "[AtExit]" ?z] assms(12,15) v(1,2)
    by (auto simp: flush_call_def p(2))
  have c: "counts = ?c" using r(2,3) v(1) by (intro nth_equalityI) (simp_all add: visit_counts_def)
  have sn: "nat (sint (of_nat ?n :: i32)) = ?n" "0 \<le> sint (of_nat ?n :: i32)"
    using assms(12) by (simp_all add: sint_of_nat_small)
  have len: "length s \<le> 20 * ?n" using bb_report_fits [OF assms(12)] by (simp add: s_def)
  let ?f = "wave_file ''bbcount_'' (global_wavefront_id cx)"
  let ?nm = "write_at 0 (?f @ [NUL]) (replicate 64 NUL)" and ?t = "write_at 0 s (replicate (20 * ?n + 16) NUL)"
  have fl: "bb_flush_pw cx h (a 2) ?c (replicate 64 NUL) (replicate (20 * ?n + 16) NUL) (of_nat ?n) =
      Some (?nm, ?t, open_write ?nm h (a 2) (length s))"
    using bb_flush_spec [OF assms(13) _ sn(2), of "replicate 64 NUL" ?c h "a 2" "replicate (20 * ?n + 16) NUL"] sn(1) r(2) len
    by (simp add: c s_def open_write_def)
  have "bb_wave cx h a p path = run_points cx h a (pl_calls p) [AtExit] (Counters ?c # ?z)"
    unfolding bb_wave_def vars using ni r(1) by (simp add: at(1) c option.map_id id_def [symmetric] split_def)
  moreover have "run_points cx h a (pl_calls p) [AtExit] (Counters ?c # ?z) = Some ([Counters ?c, Text ?nm, Text ?t], open_write ?nm h (a 2) (length s))"
    using fl by (simp add: at(2) flush_call_def bb_probe_def pw_var_def numeral_2_eq_2)
  moreover have "length ?f \<le> 22" using length_wave_file [of "''bbcount_''"] by simp
  then have "cstr_mem (HC_PATH_SIZE - 1) (mem_of ?nm) = ?f"
    by (intro cstr_mem_staged wave_file_no_nul) (simp_all add: HC_PATH_SIZE_def)
  moreover have "take (length s) ?t = s" using len by (intro take_staged) simp
  moreover have "length ?t = 20 * ?n + 16" using len by (simp add: write_at_def)
  ultimately show ?thesis using len by auto
qed

text \<open>
  C3: Block counts from the mutator to the disk. When \<open>bb_count_instrument\<close> succeeds on a kernel
  of at most 10000 blocks that all can be instrumented, and the waves of a launch run its plan, each
  along its own path of blocks, calling what the plan names on the variables the plan binds, the
  counters zeroed at the start, in any interleaving of their calls to the end, then after the teardown \<open>bbcount_<id>.txt\<close> holds for every
  wave whose open succeeded one line per block, in address order, with the number of the wave's visits
  (on 32 bits); no other file is touched. The device memory at the address of the report, variable 2,
  holds what the run left in it.
\<close>

theorem bb_trace_files:
  assumes "3 \<le> length args" "im_opens im" "im_loads im" "\<And>i. im_accepts im i"
    and "im_fun im ''bb_inc'' \<noteq> None" "im_fun im ''bb_flush_pw'' \<noteq> None"
    and "im_fun im (argv args 3 ''_Z4vaddPfPKfS1_i'') = Some kn" "kn_cfg kn = Some bbs"
    and "\<forall>b \<in> set bbs. ib_entry_point b" "kn_exit kn" "distinct (map ib_start bbs)" "length bbs \<le> 10000"
    and "bb_count_instrument im args = (0, p)"
    and "waves_of_launch W cx" "\<And>w. w < W \<Longrightarrow> cx_exec (cx w) \<noteq> 0 \<and> set (path w) \<subseteq> ib_start ` set bbs"
    and "\<And>w. R w = (if w < W then snd (the (bb_wave (cx w) (h w) (a w) p (path w))) else [])"
    and "io_ok w0" "io_live w0 = {}"
    and "\<And>w t i. w < W \<Longrightarrow> fst (the (bb_wave (cx w) (h w) (a w) p (path w))) ! 2 = Text t \<Longrightarrow> i < length t \<Longrightarrow>
      a w 2 \<noteq> 0 \<and> devmem w0 (a w 2 + of_nat i) = t ! i"
    and "ring_exec (ring_init R (service_init w0)) tr = Some c" "launch_over W c"
    and "\<And>w. w < W \<Longrightarrow> hd (w_done (rg_wave c w)) = RHandle (h w)"
  defines "file \<equiv> \<lambda>w. wave_file ''bbcount_'' (global_wavefront_id (cx w))"
    and "report \<equiv> \<lambda>w. bb_report (visit_counts bbs (path w)) (length bbs)"
    and "out \<equiv> disk (fst (service_teardown (rg_sv c)))"
  shows "(\<forall>w < W. bb_wave (cx w) (h w) (a w) p (path w) \<noteq> None \<and>
      out (file w) = (if h w = 0 then disk w0 (file w) else Some (report w)) \<and>
      w_done (rg_wave c w) = [RHandle (h w), write_reply (h w) (report w)]) \<and>
    (\<forall>q. q \<notin> file ` {..<W} \<longrightarrow> out q = disk w0 q)"
proof -
  let ?run = "\<lambda>w. bb_wave (cx w) (h w) (a w) p (path w)"
  let ?text = "\<lambda>w. case fst (the (?run w)) ! 2 of Text t \<Rightarrow> t"
  have run: "\<exists>nm t. ?run w = Some ([Counters (visit_counts bbs (path w)), Text nm, Text t],
        open_write nm (h w) (a w 2) (length (report w))) \<and>
      cstr_mem (HC_PATH_SIZE - 1) (mem_of nm) = file w \<and> take (length (report w)) t = report w \<and>
      length (report w) \<le> 20 * length bbs \<and> length t = 20 * length bbs + 16" if w: "w < W" for w
    using bb_wave_spec [OF assms(1-12) waves_of_launchD(1) [OF assms(14) w] _ _ assms(13), of "path w" "h w" "a w"] assms(15) [OF w]
    by (simp add: file_def report_def)
  have ne: "?run w \<noteq> None" if "w < W" for w using run [OF that] by auto
  have rs: "\<exists>nm. snd (the (?run w)) = open_write nm (h w) (a w 2) (length (report w)) \<and>
      cstr_mem (HC_PATH_SIZE - 1) (mem_of nm) = wave_file ''bbcount_'' (global_wavefront_id (cx w)) \<and>
      take (length (report w)) (?text w) = report w \<and> length (report w) \<le> 20 * length bbs + 16"
    if w: "w < W" for w using run [OF w] by (auto simp: file_def)
  have mem: "\<forall>w < W. \<forall>i < 20 * length bbs + 16. a w 2 \<noteq> 0 \<and> devmem w0 (a w 2 + of_nat i) = ?text w ! i"
  proof (intro allI impI)
    fix w i assume w: "w < W" and i: "i < 20 * length bbs + 16"
    from run [OF w] obtain t where t: "fst (the (?run w)) ! 2 = Text t" "length t = 20 * length bbs + 16" by auto
    then show "a w 2 \<noteq> 0 \<and> devmem w0 (a w 2 + of_nat i) = ?text w ! i" using assms(19) [OF w t(1)] i by simp
  qed
  have h: "\<forall>w < W. hd (w_done (rg_wave c w)) = RHandle (h w)" using assms(22) by blast
  have pos: "0 < 20 * length bbs + 16" "20 * length bbs + 16 < 2 ^ 31" using assms(12) by simp_all
  note f = probe_files [where a = "\<lambda>w. a w 2", OF assms(14) allI [OF impI, OF rs] pos assms(16-18) mem assms(20,21) h]
  show ?thesis unfolding file_def out_def
    by (rule conjI [OF _ f(2)]) (use ne f(1) in simp)
qed

section \<open>Calls one after the other\<close>

text \<open>
  A schedule in which the waves call one at a time: the ring is at rest between the calls, at
  ticket \<open>n\<close>, with the CPU at the slot of the next ticket.
\<close>

definition fresh_slot :: "nat \<Rightarrow> HostcallSlot" where
  "fresh_slot n = zero_slot\<lparr>slot_turn := of_nat n\<rparr>"

definition at_rest :: "nat \<Rightarrow> ring \<Rightarrow> bool" where
  "at_rest n c \<longleftrightarrow> length (slots (rg_q c)) = HC_NSLOTS \<and> enqueue_pos (rg_q c) = of_nat n \<and>
     rg_cpu c = CLook \<and> rg_cur c = n \<and> (\<forall>i. n \<le> i \<longrightarrow> i < HC_NSLOTS \<longrightarrow> slot_of (rg_q c) i = fresh_slot i)"

definition asked :: "nat \<Rightarrow> request \<Rightarrow> HostcallSlot" where
  "asked n r = (submit r (fresh_slot n))\<lparr>slot_status := 1\<rparr>"

lemma asked_published: "published r (asked n r)"
  unfolding published_def asked_def
  by (intro exI [of _ "fresh_slot n"] conjI refl) (simp add: fresh_slot_def slot_wf_def zero_slot_def)

lemma asked_status: "slot_status (asked n r) = 1" by (simp add: asked_def)

definition one_call :: "nat \<Rightarrow> Ring_Protocol.event list" where
  "one_call w = replicate 4 (Wave w) @ replicate 3 Cpu @ replicate 4 (Wave w)"

lemma ring_exec_append:
  "ring_exec c (xs @ ys) = (case ring_exec c xs of None \<Rightarrow> None | Some c' \<Rightarrow> ring_exec c' ys)"
  by (induction xs arbitrary: c) (auto split: option.splits)

lemma call_submits:
  assumes q: "at_rest n c" "n < HC_NSLOTS"
    and w: "w_pc (rg_wave c w) = WIdle" "w_todo (rg_wave c w) = r # rs"
  shows "ring_exec c (replicate 4 (Wave w)) = Some (c\<lparr>
      rg_q := set_slot (rg_q c\<lparr>enqueue_pos := of_nat (Suc n)\<rparr>) n (asked n r),
      rg_wave := (rg_wave c)(w := (rg_wave c w)\<lparr>w_pos := of_nat n, w_req := r, w_todo := rs, w_pc := WWait\<rparr>)\<rparr>)"
proof -
  have s: "slot_of (rg_q c) n = fresh_slot n" "slot_turn (fresh_slot n) = of_nat n" "length (slots (rg_q c)) = HC_NSLOTS"
    "enqueue_pos (rg_q c) = of_nat n" "slot_index (of_nat n) = n"
    using q by (simp_all add: at_rest_def fresh_slot_def)
  have ss: "set_slot (set_slot q n a) n b = set_slot q n b" for q a b by (simp add: set_slot_def)
  show ?thesis
    using q(2) w s
    by (simp add: numeral_eq_Suc wave_step_def hc_take_ticket_def hc_gate_def hc_marshal_def hc_publish_def Let_def ss asked_def add.commute
        del: slot_index_of_nat)
qed

lemma call_served:
  assumes "length (slots (rg_q c)) = HC_NSLOTS" "rg_cur c = n" "rg_cpu c = CLook" "n < HC_NSLOTS"
    and "slot_of (rg_q c) n = s" "slot_status s = 1" "service_slot s (rg_sv c) = Some (t, v)"
  shows "ring_exec c (replicate 3 Cpu) = Some (c\<lparr>rg_q := set_slot (rg_q c) n (t\<lparr>slot_status := 2\<rparr>),
     rg_sv := v, rg_cur := cpu_next n, rg_cpu := CLook\<rparr>)"
proof -
  have ss: "set_slot (set_slot q n a) n b = set_slot q n b" for q a b by (simp add: set_slot_def)
  show ?thesis using assms by (simp add: numeral_eq_Suc cpu_step_def Let_def ss)
qed

lemma call_returns:
  assumes "length (slots (rg_q c)) = HC_NSLOTS" "n < HC_NSLOTS"
    and "rg_wave c w = x\<lparr>w_pos := of_nat n, w_req := r, w_todo := rs, w_pc := WWait\<rparr>"
    and "slot_of (rg_q c) n = s" "slot_status s = 2"
  shows "\<exists>s'. ring_exec c (replicate 4 (Wave w)) = Some (c\<lparr>rg_q := set_slot (rg_q c) n s',
     rg_wave := (rg_wave c)(w := x\<lparr>w_pos := of_nat n, w_req := r, w_todo := rs,
        w_done := w_done x @ [reply r s], w_pc := WIdle\<rparr>)\<rparr>)"
proof -
  have ss: "set_slot (set_slot q n a) n b = set_slot q n b" for q a b by (simp add: set_slot_def)
  have "slot_index (of_nat n) = n" using assms(2) by simp
  then show ?thesis using assms
    by (simp add: numeral_eq_Suc wave_step_def hc_done_def hc_clear_def hc_next_turn_def Let_def ss del: slot_index_of_nat) blast
qed

lemma one_call_runs:
  assumes q: "at_rest n c" "Suc n < HC_NSLOTS"
    and w: "w_pc (rg_wave c w) = WIdle" "w_todo (rg_wave c w) = r # rs"
    and s: "service_slot (asked n r) (rg_sv c) = Some (t, v)"
  shows "\<exists>c'. ring_exec c (one_call w) = Some c' \<and> at_rest (Suc n) c' \<and> rg_sv c' = v \<and>
    w_pc (rg_wave c' w) = WIdle \<and> w_todo (rg_wave c' w) = rs \<and>
    w_done (rg_wave c' w) = w_done (rg_wave c w) @ [reply r t] \<and> (\<forall>x. x \<noteq> w \<longrightarrow> rg_wave c' x = rg_wave c x)"
proof -
  have n: "n < HC_NSLOTS" using q(2) by simp
  have len: "length (slots (rg_q c)) = HC_NSLOTS" and cpu: "rg_cur c = n" "rg_cpu c = CLook"
    using q(1) by (simp_all add: at_rest_def)
  let ?q = "rg_q c\<lparr>enqueue_pos := of_nat (Suc n)\<rparr>" and ?x = "rg_wave c w"
  let ?x1 = "?x\<lparr>w_pos := of_nat n, w_req := r, w_todo := rs, w_pc := WWait\<rparr>"
  let ?c1 = "c\<lparr>rg_q := set_slot ?q n (asked n r), rg_wave := (rg_wave c)(w := ?x1)\<rparr>"
  let ?c2 = "?c1\<lparr>rg_q := set_slot (rg_q ?c1) n (t\<lparr>slot_status := 2\<rparr>), rg_sv := v, rg_cur := cpu_next n, rg_cpu := CLook\<rparr>"
  have 1: "ring_exec c (replicate 4 (Wave w)) = Some ?c1" by (rule call_submits [OF q(1) n w])
  have 2: "ring_exec ?c1 (replicate 3 Cpu) = Some ?c2"
    by (rule call_served [where s = "asked n r"]) (simp_all add: len cpu n s asked_status)
  have "slot_of (rg_q ?c2) n = t\<lparr>slot_status := 2\<rparr>" using len n by simp
  moreover have "length (slots (rg_q ?c2)) = HC_NSLOTS" using len by simp
  ultimately obtain s' where 3: "ring_exec ?c2 (replicate 4 (Wave w)) = Some (?c2\<lparr>rg_q := set_slot (rg_q ?c2) n s',
     rg_wave := (rg_wave ?c2)(w := ?x\<lparr>w_pos := of_nat n, w_req := r, w_todo := rs,
        w_done := w_done ?x @ [reply r (t\<lparr>slot_status := 2\<rparr>)], w_pc := WIdle\<rparr>)\<rparr>)" (is "_ = Some ?c3")
    using call_returns [where c = ?c2 and n = n and w = w and x = ?x and r = r and rs = rs and s = "t\<lparr>slot_status := 2\<rparr>"] n by auto
  have e: "ring_exec c (one_call w) = Some ?c3"
    unfolding one_call_def ring_exec_append 1 option.case 2 3 ..
  have "at_rest (Suc n) ?c3" using q len by (auto simp: at_rest_def cpu_next_def)
  with e show ?thesis by (intro exI [of _ ?c3]) simp
qed

lemma at_rest_init: "at_rest 0 (ring_init R sv)"
  by (simp add: at_rest_def ring_init_def fresh_slot_def HC_NSLOTS_def)

text \<open>Two waves that open and write their files alternately, on a disk that lets them.\<close>

lemma open_granted:
  assumes ok: "service_ok v" and s: "slot_opcode s = HC_OP_FOPEN" "cstr (slot_mode s) = ''w''"
    and z: "lookup0 (sv_files v) (cstr (slot_path s)) = 0"
    and io: "io_handles (sv_io v) = f # fs" "\<And>p. openable (sv_io v) p ''w''"
  shows "\<exists>s' v'. service_slot s v = Some (s', v') \<and> service_ok v' \<and> slot_handle s' = f \<and> f \<noteq> 0 \<and>
    io_handles (sv_io v') = fs \<and> openable (sv_io v') = openable (sv_io v) \<and> io_live (sv_io v') = insert f (io_live (sv_io v)) \<and>
    (\<forall>q. lookup0 (sv_files v') q = (if q = cstr (slot_path s) then f else lookup0 (sv_files v) q))"
proof -
  have "request_ok v s" using s by (simp add: request_ok_def hc_ops)
  from service_slot_total [OF ok this] obtain s' v' where v': "service_slot s v = Some (s', v')" by blast
  from service_slot_effect [OF v'] s(1) have e: "fopen_effect s v s' v'"
    by (auto simp: write_effect_def quiet_effect_def)
  then have o: "fopen_once io_fopen (sv_files v) (cstr (slot_path s)) (cstr (slot_mode s)) (sv_io v) =
      (slot_handle s', sv_files v', sv_io v')" by (simp add: fopen_effect_def)
  from fopen_effect_io [OF e] z s(2) have f: "io_fopen (cstr (slot_path s)) ''w'' (sv_io v) = (slot_handle s', sv_io v')" by simp
  have i: "io_ok (sv_io v)" using ok by (simp add: service_ok_def stdio.table_ok_def)
  obtain dk st where w: "slot_handle s' = f" "sv_io v' = (sv_io v)\<lparr>disk := dk, streams := st, io_handles := fs\<rparr>"
    using f io by (auto simp: io_fopen_def Let_def dest: sym)
  then have h: "slot_handle s' = f" "io_handles (sv_io v') = fs" "openable (sv_io v') = openable (sv_io v)" by simp_all
  have "f \<noteq> 0" using i io(1) by (auto simp: io_ok_def)
  with io_fopen_cases [OF f] h(1) have "opened (cstr (slot_path s)) ''w'' f (sv_io v) (sv_io v')" by auto
  from opened_ok [OF this i] have "io_live (sv_io v') = insert f (io_live (sv_io v))" by simp
  with h v' \<open>f \<noteq> 0\<close> service_slot_ok [OF v' ok] stdio.once_lookup [OF o] show ?thesis by auto
qed

lemma write_granted:
  assumes ok: "service_ok v" and s: "slot_opcode s = HC_OP_FWRITE_PTR" "slot_handle s = f" "0 \<le> sint (slot_size s)"
    and f: "f \<in> io_live (sv_io v)"
  shows "\<exists>s' v'. service_slot s v = Some (s', v') \<and> service_ok v' \<and> io_live (sv_io v) \<subseteq> io_live (sv_io v')"
proof -
  have "request_ok v s" using s f by (simp add: request_ok_def handle_ok_def hc_ops)
  from service_slot_total [OF ok this] obtain s' v' where v': "service_slot s v = Some (s', v')" by blast
  with service_slot_ok [OF v' ok] service_slot_live [OF v' ok] show ?thesis by blast
qed

lemma two_waves_finish:
  assumes R: "R 0 = open_write n0 f0 a0 k0" "R 1 = open_write n1 f1 a1 k1" "\<And>w. 2 \<le> w \<Longrightarrow> R w = []"
    and d: "cstr_mem (HC_PATH_SIZE - 1) (mem_of n0) \<noteq> cstr_mem (HC_PATH_SIZE - 1) (mem_of n1)"
    and io: "io_ok w0" "io_live w0 = {}" "io_handles w0 = f0 # f1 # fs" "\<And>p. openable w0 p ''w''"
    and k: "k0 < 2 ^ 31" "k1 < 2 ^ 31"
  shows "\<exists>tr c. ring_exec (ring_init R (service_init w0)) tr = Some c \<and> launch_over 2 c \<and>
    hd (w_done (rg_wave c 0)) = RHandle f0 \<and> hd (w_done (rg_wave c 1)) = RHandle f1"
proof -
  let ?sv = "service_init w0" and ?c = "ring_init R (service_init w0)"
  let ?o = "\<lambda>n. Gpu_fopen (Some (mem_of n)) (Some (mem_of ''w''))"
  have pub: "slot_opcode (asked i (?o n)) = HC_OP_FOPEN" "cstr (slot_path (asked i (?o n))) = cstr_mem (HC_PATH_SIZE - 1) (mem_of n)"
    "cstr (slot_mode (asked i (?o n))) = ''w''" for i n using published_open [OF asked_published] by blast+
  have pubw: "slot_opcode (asked i (Gpu_fwrite f a m)) = HC_OP_FWRITE_PTR" "slot_handle (asked i (Gpu_fwrite f a m)) = f"
    "slot_size (asked i (Gpu_fwrite f a m)) = m" for i f a m using published_write [OF asked_published] by blast+
  have l0: "lookup0 (sv_files ?sv) q = 0" "sv_io ?sv = w0" for q by (simp_all add: service_init_def lookup0_def)
  have h0: "io_handles (sv_io ?sv) = f0 # f1 # fs" "\<And>p. openable (sv_io ?sv) p ''w''" using io(3,4) by (simp_all add: l0)
  obtain t0 v1 where v1: "service_slot (asked 0 (?o n0)) ?sv = Some (t0, v1)" "service_ok v1" "slot_handle t0 = f0"
      "io_handles (sv_io v1) = f1 # fs" "openable (sv_io v1) = openable w0" "io_live (sv_io v1) = {f0}"
      "\<And>q. q \<noteq> cstr_mem (HC_PATH_SIZE - 1) (mem_of n0) \<Longrightarrow> lookup0 (sv_files v1) q = 0"
    using open_granted [OF service_init_ok [OF io(1,2)] pub(1) pub(3) l0(1) h0, of 0 n0] io(2) by (auto simp: pub(2) l0)
  obtain t1 v2 where v2: "service_slot (asked 1 (?o n1)) v1 = Some (t1, v2)" "service_ok v2" "slot_handle t1 = f1"
      "io_live (sv_io v2) = {f1, f0}"
    using open_granted [OF v1(2) pub(1) pub(3) _ v1(4), of 1 n1] v1(5-7) d io(4) by (auto simp: pub(2))
  obtain t2 v3 where v3: "service_slot (asked 2 (Gpu_fwrite f0 a0 (of_nat k0))) v2 = Some (t2, v3)" "service_ok v3"
      "{f1, f0} \<subseteq> io_live (sv_io v3)"
    using write_granted [OF v2(2) pubw(1) pubw(2), of 2 f0 a0 "of_nat k0"] v2(4) k(1) by (auto simp: pubw sint_of_nat_small)
  obtain t3 v4 where v4: "service_slot (asked 3 (Gpu_fwrite f1 a1 (of_nat k1))) v3 = Some (t3, v4)"
    using write_granted [OF v3(2) pubw(1) pubw(2), of 3 f1 a1 "of_nat k1"] v3(3) k(2) by (auto simp: pubw sint_of_nat_small)
  have i: "w_pc (rg_wave ?c w) = WIdle" "w_todo (rg_wave ?c w) = R w" "w_done (rg_wave ?c w) = []" "rg_sv ?c = ?sv" for w
    by (simp_all add: ring_init_def idle_wave_def)
  note R' = R(1,2) [unfolded open_write_def]
  obtain c1 where c1: "ring_exec ?c (one_call 0) = Some c1" "at_rest 1 c1" "rg_sv c1 = v1" "w_pc (rg_wave c1 0) = WIdle"
      "w_todo (rg_wave c1 0) = [Gpu_fwrite f0 a0 (of_nat k0)]" "w_done (rg_wave c1 0) = [RHandle f0]" "\<forall>x. x \<noteq> 0 \<longrightarrow> rg_wave c1 x = rg_wave ?c x"
    using one_call_runs [where c = ?c and n = 0 and w = 0 and r = "?o n0" and rs = "[Gpu_fwrite f0 a0 (of_nat k0)]" and t = t0 and v = v1]
      at_rest_init [of R ?sv] v1 i R' by (auto simp: HC_NSLOTS_def)
  obtain c2 where c2: "ring_exec c1 (one_call 1) = Some c2" "at_rest 2 c2" "rg_sv c2 = v2" "w_pc (rg_wave c2 1) = WIdle"
      "w_todo (rg_wave c2 1) = [Gpu_fwrite f1 a1 (of_nat k1)]" "w_done (rg_wave c2 1) = [RHandle f1]" "\<forall>x. x \<noteq> 1 \<longrightarrow> rg_wave c2 x = rg_wave c1 x"
    using one_call_runs [OF c1(2), of 1 "?o n1" "[Gpu_fwrite f1 a1 (of_nat k1)]" t1 v2] c1 v2 i R' by (auto simp: HC_NSLOTS_def numeral_2_eq_2)
  obtain c3 where c3: "ring_exec c2 (one_call 0) = Some c3" "at_rest 3 c3" "rg_sv c3 = v3" "w_pc (rg_wave c3 0) = WIdle"
      "w_todo (rg_wave c3 0) = []" "hd (w_done (rg_wave c3 0)) = RHandle f0" "\<forall>x. x \<noteq> 0 \<longrightarrow> rg_wave c3 x = rg_wave c2 x"
    using one_call_runs [OF c2(2), of 0 "Gpu_fwrite f0 a0 (of_nat k0)" "[]" t2 v3] c1 c2 v3 by (auto simp: HC_NSLOTS_def numeral_3_eq_3)
  obtain c4 where c4: "ring_exec c3 (one_call 1) = Some c4" "w_pc (rg_wave c4 1) = WIdle"
      "w_todo (rg_wave c4 1) = []" "hd (w_done (rg_wave c4 1)) = RHandle f1" "\<forall>x. x \<noteq> 1 \<longrightarrow> rg_wave c4 x = rg_wave c3 x"
    using one_call_runs [OF c3(2), of 1 "Gpu_fwrite f1 a1 (of_nat k1)" "[]" t3 v4] c2 c3 v4 by (auto simp: HC_NSLOTS_def)
  have "ring_exec ?c (one_call 0 @ one_call 1 @ one_call 0 @ one_call 1) = Some c4"
    by (simp only: ring_exec_append c1(1) c2(1) c3(1) c4(1) option.case)
  moreover have "launch_over 2 c4" using c3 c4 by (auto simp: launch_over_def numeral_2_eq_2 less_Suc_eq)
  ultimately show ?thesis using c3(6) c4(4,5)
    by (intro exI [of _ "one_call 0 @ one_call 1 @ one_call 0 @ one_call 1"] exI [of _ c4]) simp
qed

text \<open>A kernel with two waves, each with its own cells at 128 and 256 in device memory.\<close>

definition demo_wave :: "nat \<Rightarrow> wave_ctx" where
  "demo_wave w = demo_ctx 0 (of_nat (64 * w))"

definition demo_cells :: pw_vars where
  "demo_cells = \<lparr>pv_handle = 0, pv_hits = 7, pv_lanes = 7, pv_name = replicate 64 NUL, pv_line = replicate 128 NUL\<rparr>"

definition demo_handle :: "nat \<Rightarrow> i64" where
  "demo_handle w = (if w = 0 then 4096 else 8192)"

definition demo_addr :: "nat \<Rightarrow> i64" where
  "demo_addr w = of_nat (128 * Suc w)"

definition demo_memory :: "(nat \<Rightarrow> string) \<Rightarrow> io" where
  "demo_memory t = demo_io\<lparr>devmem := (\<lambda>x. t (unat x div 128 - 1) ! (unat x mod 128))\<rparr>"

lemma demo_memory_ok: "io_ok (demo_memory t)" "io_live (demo_memory t) = {}"
    "io_handles (demo_memory t) = demo_handle 0 # demo_handle 1 # [12288]" "openable (demo_memory t) p ''w''"
    "disk (demo_memory t) p = None"
  using demo_io_ok by (simp_all add: demo_memory_def io_ok_def io_live_def demo_io_def demo_handle_def)

lemma demo_memory_line:
  assumes "w < 2" "i < 128"
  shows "demo_addr w \<noteq> 0 \<and> devmem (demo_memory t) (demo_addr w + of_nat i) = t w ! i"
proof -
  have a: "128 * Suc w + i < 2 ^ 64" "128 * Suc w < 2 ^ 64" using assms by simp_all
  have "demo_addr w + of_nat i = of_nat (128 * Suc w + i)" by (simp add: demo_addr_def)
  moreover have "unat (of_nat (128 * Suc w + i) :: u64) = 128 * Suc w + i" by (rule unat_u64 [OF a(1)])
  moreover have "(128 * Suc w + i) div 128 = Suc w" "(128 * Suc w + i) mod 128 = i"
    using assms(2) by (simp_all del: mult_Suc_right)
  moreover have "unat (demo_addr w) = 128 * Suc w" unfolding demo_addr_def by (rule unat_u64 [OF a(2)])
  ultimately show ?thesis by (auto simp: demo_memory_def)
qed

lemma lessThan_two: "{..<2} = {0, 1 :: nat}" by auto

lemma demo_waves: "waves_of_launch 2 demo_wave"
proof -
  have "elected (demo_wave w)" for w by (simp add: demo_wave_def demo_ctx_elected)
  moreover have "launch_fits (demo_wave w)" if "w < 2" for w
    using that by (cases w)
      (auto simp: demo_wave_def launch_fits_def demo_ctx_def in_dims_def block_threads_def grid_blocks_def waves_per_block_def)
  moreover have "inj_on (\<lambda>w. (linear3 (cx_blockIdx (demo_wave w)) (cx_gridDim (demo_wave 0)),
       linear3 (cx_threadIdx (demo_wave w)) (cx_blockDim (demo_wave 0)) div 64)) {..<2}"
    unfolding lessThan_two by (simp add: demo_wave_def demo_ctx_def linear3_def)
  ultimately show ?thesis unfolding waves_of_launch_def by (auto simp: demo_wave_def demo_ctx_def)
qed

lemma demo_wave_ids: "global_wavefront_id (demo_wave 0) = 14" "global_wavefront_id (demo_wave 1) = 15"
  by (simp_all add: demo_wave_def global_wavefront_id_def demo_ctx_def Let_def word_div_def)

lemma all_less_two: "(\<forall>w < 2. P (w :: nat)) \<longleftrightarrow> P 0 \<and> P 1"
  by (auto simp: numeral_2_eq_2 less_Suc_eq)

definition demo_perwave :: Plan where
  "demo_perwave = snd (preload_perwave_instrument demo_image [''pw'', ''in'', ''out''])"

definition demo_perwave_calls :: "nat \<Rightarrow> request list" where
  "demo_perwave_calls w =
     (if w < 2 then snd (the (perwave_run (demo_wave w) (demo_handle w) (demo_addr w) demo_perwave demo_cells)) else [])"

definition demo_perwave_memory :: io where
  "demo_perwave_memory = demo_memory (\<lambda>w.
     pv_line (fst (the (perwave_run (demo_wave w) (demo_handle w) (demo_addr w) demo_perwave demo_cells))))"

lemma demo_perwave_plan:
  "preload_perwave_instrument demo_image [''pw'', ''in'', ''out''] = (0, demo_perwave)"
  "perwave_sized demo_perwave demo_cells"
  by (simp_all add: demo_perwave_def preload_perwave_instrument_def mutate_def Let_def insert_at_def insertSnippet_def
      write_file_def no_plan_def demo_image_def demo_sites_def perwave_sized_def demo_cells_def)

lemma demo_image_sel: "im_accepts demo_image i" "im_fun demo_image f = Some demo_sites" "kn_entry demo_sites" "kn_exit demo_sites"
  by (simp_all add: demo_image_def demo_sites_def)

lemma demo_perwave_runs:
  "\<exists>tr c. ring_exec (ring_init demo_perwave_calls (service_init demo_perwave_memory)) tr = Some c \<and> launch_over 2 c \<and>
    (\<forall>w < 2. hd (w_done (rg_wave c w)) = RHandle (demo_handle w))"
proof -
  have "\<exists>nm. snd (the (perwave_run (demo_wave w) (demo_handle w) (demo_addr w) demo_perwave demo_cells)) =
      open_write nm (demo_handle w) (demo_addr w) (length (flush_line (global_wavefront_id (demo_wave w)) 0 0)) \<and>
      cstr_mem (HC_PATH_SIZE - 1) (mem_of nm) = wave_file ''wave_'' (global_wavefront_id (demo_wave w))" for w
    using perwave_run_spec [OF demo_perwave_plan(1) demo_image_sel demo_ctx_elected demo_perwave_plan(2)]
    by (simp add: demo_wave_def) (metis option.sel snd_conv)
  then obtain nm where nm: "\<And>w. snd (the (perwave_run (demo_wave w) (demo_handle w) (demo_addr w) demo_perwave demo_cells)) =
      open_write (nm w) (demo_handle w) (demo_addr w) (length (flush_line (global_wavefront_id (demo_wave w)) 0 0))"
    "\<And>w. cstr_mem (HC_PATH_SIZE - 1) (mem_of (nm w)) = wave_file ''wave_'' (global_wavefront_id (demo_wave w))" by metis
  have "cstr_mem (HC_PATH_SIZE - 1) (mem_of (nm 0)) \<noteq> cstr_mem (HC_PATH_SIZE - 1) (mem_of (nm 1))"
    unfolding nm(2) demo_wave_ids by (auto dest: wave_file_inj)
  moreover have "length (flush_line x 0 0) < 2 ^ 31" for x using length_flush_line [of x 0 0] by simp
  ultimately show ?thesis unfolding all_less_two demo_perwave_memory_def
    by (intro two_waves_finish [where fs = "[12288]"] demo_memory_ok) (simp_all add: demo_perwave_calls_def nm(1))
qed

theorem perwave_trace_files_witness:
  "\<exists>tr c. ring_exec (ring_init demo_perwave_calls (service_init demo_perwave_memory)) tr = Some c \<and>
    disk (fst (service_teardown (rg_sv c))) ''wave_14.txt'' = Some (flush_line 14 0 0) \<and>
    disk (fst (service_teardown (rg_sv c))) ''wave_15.txt'' = Some (flush_line 15 0 0) \<and>
    disk (fst (service_teardown (rg_sv c))) ''wave_16.txt'' = None"
proof -
  obtain tr c where c: "ring_exec (ring_init demo_perwave_calls (service_init demo_perwave_memory)) tr = Some c" "launch_over 2 c"
    "\<And>w. w < 2 \<Longrightarrow> hd (w_done (rg_wave c w)) = RHandle (demo_handle w)" using demo_perwave_runs by blast
  have f: "wave_file ''wave_'' 14 = ''wave_14.txt''" "wave_file ''wave_'' 15 = ''wave_15.txt''"
    by (simp_all add: wave_file_def dec.simps digit_char_def char_of_eq_iff)
  have io: "io_ok demo_perwave_memory" "io_live demo_perwave_memory = {}" by (simp_all add: demo_perwave_memory_def demo_memory_ok)
  have mem: "demo_addr w \<noteq> 0 \<and> devmem demo_perwave_memory (demo_addr w + of_nat i) =
      pv_line (fst (the (perwave_run (demo_wave w) (demo_handle w) (demo_addr w) demo_perwave demo_cells))) ! i"
    if "w < 2" "i < 128" for w i using demo_memory_line [OF that] by (simp add: demo_perwave_memory_def)
  note p = perwave_trace_files [OF demo_perwave_plan(1) demo_image_sel demo_waves demo_perwave_plan(2) demo_perwave_calls_def
      io mem c]
  have "demo_handle 0 \<noteq> 0" "demo_handle 1 \<noteq> 0" by (simp_all add: demo_handle_def)
  with p [THEN conjunct1, THEN spec, of 0] p [THEN conjunct1, THEN spec, of 1]
  have "disk (fst (service_teardown (rg_sv c))) ''wave_14.txt'' = Some (flush_line 14 0 0)"
    "disk (fst (service_teardown (rg_sv c))) ''wave_15.txt'' = Some (flush_line 15 0 0)"
    unfolding demo_wave_ids f by simp_all
  moreover have "(\<lambda>w. wave_file ''wave_'' (global_wavefront_id (demo_wave w))) ` {..<2} = {''wave_14.txt'', ''wave_15.txt''}"
    unfolding lessThan_two image_insert demo_wave_ids f by simp
  with p [THEN conjunct2, THEN spec, of "''wave_16.txt''"]
  have "disk (fst (service_teardown (rg_sv c))) ''wave_16.txt'' = None"
    by (simp add: demo_perwave_memory_def demo_memory_ok)
  ultimately show ?thesis using c(1) by blast
qed


text \<open>The same two waves in a kernel of two blocks, one of them visiting the second block twice.\<close>

definition demo_bb :: Plan where
  "demo_bb = snd (bb_count_instrument demo_image [''bb'', ''in'', ''out''])"

definition demo_path :: "nat \<Rightarrow> nat list" where
  "demo_path w = (if w = 0 then [0, 16, 16] else [0])"

text \<open>The addresses of the three variables of a wave.\<close>

definition demo_addrs :: "nat \<Rightarrow> nat \<Rightarrow> i64" where
  "demo_addrs w x = (if x = 2 then demo_addr w else demo_addr w + of_nat (4096 * Suc x))"

lemma demo_addrs_report [simp]: "demo_addrs w 2 = demo_addr w"
  by (simp add: demo_addrs_def)

definition demo_bb_run :: "nat \<Rightarrow> pw_buf list \<times> request list" where
  "demo_bb_run w = the (bb_wave (demo_wave w) (demo_handle w) (demo_addrs w) demo_bb (demo_path w))"

definition demo_bb_calls :: "nat \<Rightarrow> request list" where
  "demo_bb_calls w = (if w < 2 then snd (demo_bb_run w) else [])"

definition demo_bb_memory :: io where
  "demo_bb_memory = demo_memory (\<lambda>w. case fst (demo_bb_run w) ! 2 of Text t \<Rightarrow> t | _ \<Rightarrow> [])"

definition demo_blocks :: "ImageBlock list" where
  "demo_blocks = the (kn_cfg demo_sites)"

lemma demo_blocks_ok: "kn_cfg demo_sites = Some demo_blocks" "length demo_blocks = 2" "distinct (map ib_start demo_blocks)"
    "\<forall>b \<in> set demo_blocks. ib_entry_point b" "ib_start ` set demo_blocks = {0, 16}"
    "map ib_start (by_address demo_blocks) = [0, 16]"
  by (auto simp: demo_blocks_def demo_sites_def by_address_def)

lemma demo_bb_plan: "bb_count_instrument demo_image [''bb'', ''in'', ''out''] = (0, demo_bb)"
  unfolding demo_bb_def
  using bb_count_plan [of "[''bb'', ''in'', ''out'']" demo_image demo_sites demo_blocks] demo_blocks_ok demo_image_sel
  by (simp add: demo_image_def)


lemma demo_bb_spec:
  "\<exists>nm t. bb_wave (demo_wave w) (demo_handle w) (demo_addrs w) demo_bb (demo_path w) =
      Some ([Counters (visit_counts demo_blocks (demo_path w)), Text nm, Text t], open_write nm (demo_handle w) (demo_addr w) (length (bb_report (visit_counts demo_blocks (demo_path w)) 2))) \<and>
    cstr_mem (HC_PATH_SIZE - 1) (mem_of nm) = wave_file ''bbcount_'' (global_wavefront_id (demo_wave w)) \<and>
    length (bb_report (visit_counts demo_blocks (demo_path w)) 2) \<le> 40 \<and> length t = 56"
proof -
  have "elected (demo_wave w)" "cx_exec (demo_wave w) \<noteq> 0" by (simp_all add: demo_wave_def demo_ctx_elected, simp add: demo_ctx_def)
  moreover have "set (demo_path w) \<subseteq> ib_start ` set demo_blocks" by (simp add: demo_path_def demo_blocks_ok)
  ultimately show ?thesis
    using bb_wave_spec [of "[''bb'', ''in'', ''out'']" demo_image demo_sites demo_blocks "demo_wave w" "demo_path w" demo_bb
        "demo_handle w" "demo_addrs w"] demo_blocks_ok demo_image_sel demo_bb_plan
    by (auto simp: demo_image_def)
qed

lemma demo_bb_runs:
  "\<exists>tr c. ring_exec (ring_init demo_bb_calls (service_init demo_bb_memory)) tr = Some c \<and> launch_over 2 c \<and>
    (\<forall>w < 2. hd (w_done (rg_wave c w)) = RHandle (demo_handle w))"
proof -
  let ?n = "\<lambda>w. length (bb_report (visit_counts demo_blocks (demo_path w)) 2)"
  have "\<exists>nm. snd (demo_bb_run w) = open_write nm (demo_handle w) (demo_addr w) (?n w) \<and>
      cstr_mem (HC_PATH_SIZE - 1) (mem_of nm) = wave_file ''bbcount_'' (global_wavefront_id (demo_wave w))" for w
    using demo_bb_spec [of w] by (auto simp: demo_bb_run_def)
  then obtain nm where nm: "\<And>w. snd (demo_bb_run w) = open_write (nm w) (demo_handle w) (demo_addr w) (?n w)"
    "\<And>w. cstr_mem (HC_PATH_SIZE - 1) (mem_of (nm w)) = wave_file ''bbcount_'' (global_wavefront_id (demo_wave w))" by metis
  have "cstr_mem (HC_PATH_SIZE - 1) (mem_of (nm 0)) \<noteq> cstr_mem (HC_PATH_SIZE - 1) (mem_of (nm 1))"
    unfolding nm(2) demo_wave_ids by (auto dest: wave_file_inj)
  moreover have "?n w < 2 ^ 31" for w using demo_bb_spec [of w] by auto
  ultimately show ?thesis unfolding all_less_two demo_bb_memory_def
    by (intro two_waves_finish [where fs = "[12288]"] demo_memory_ok) (simp_all add: demo_bb_calls_def nm(1))
qed

theorem bb_trace_files_witness:
  "\<exists>tr c. ring_exec (ring_init demo_bb_calls (service_init demo_bb_memory)) tr = Some c \<and>
    disk (fst (service_teardown (rg_sv c))) ''bbcount_14.txt'' = Some (bb_report [1, 2] 2) \<and>
    disk (fst (service_teardown (rg_sv c))) ''bbcount_15.txt'' = Some (bb_report [1, 0] 2)"
proof -
  obtain tr c where c: "ring_exec (ring_init demo_bb_calls (service_init demo_bb_memory)) tr = Some c" "launch_over 2 c"
    "\<And>w. w < 2 \<Longrightarrow> hd (w_done (rg_wave c w)) = RHandle (demo_handle w)" using demo_bb_runs by blast
  have f: "wave_file ''bbcount_'' 14 = ''bbcount_14.txt''" "wave_file ''bbcount_'' 15 = ''bbcount_15.txt''"
    by (simp_all add: wave_file_def dec.simps digit_char_def char_of_eq_iff)
  have io: "io_ok demo_bb_memory" "io_live demo_bb_memory = {}" by (simp_all add: demo_bb_memory_def demo_memory_ok)
  have mem: "demo_addrs w 2 \<noteq> 0 \<and> devmem demo_bb_memory (demo_addrs w 2 + of_nat i) = t ! i"
    if "w < 2" "fst (the (bb_wave (demo_wave w) (demo_handle w) (demo_addrs w) demo_bb (demo_path w))) ! 2 = Text t" "i < length t" for w t i
  proof -
    have "length t = 56" using demo_bb_spec [of w] that(2) by auto
    then show ?thesis using demo_memory_line [of w i] that by (simp add: demo_bb_memory_def demo_bb_run_def)
  qed
  have wv: "cx_exec (demo_wave w) \<noteq> 0 \<and> set (demo_path w) \<subseteq> ib_start ` set demo_blocks" for w
    by (simp add: demo_wave_def demo_ctx_def demo_path_def demo_blocks_ok)
  have im: "3 \<le> length [''bb'', ''in'', ''out'']" "im_opens demo_image" "im_loads demo_image"
    "im_fun demo_image x \<noteq> None" "length demo_blocks \<le> 10000" for x
    by (simp_all add: demo_image_def demo_blocks_ok)
  let ?file = "\<lambda>w. wave_file ''bbcount_'' (global_wavefront_id (demo_wave w))" and ?out = "disk (fst (service_teardown (rg_sv c)))"
    and ?rep = "\<lambda>w. bb_report (visit_counts demo_blocks (demo_path w)) (length demo_blocks)"
  have p: "(\<forall>w < 2. bb_wave (demo_wave w) (demo_handle w) (demo_addrs w) demo_bb (demo_path w) \<noteq> None \<and>
      ?out (?file w) = (if demo_handle w = 0 then disk demo_bb_memory (?file w) else Some (?rep w)) \<and>
      w_done (rg_wave c w) = [RHandle (demo_handle w), write_reply (demo_handle w) (?rep w)]) \<and>
    (\<forall>q. q \<notin> ?file ` {..<2} \<longrightarrow> ?out q = disk demo_bb_memory q)"
    by (rule bb_trace_files [OF im(1-3) demo_image_sel(1) im(4,4) demo_image_sel(2) demo_blocks_ok(1,4) demo_image_sel(4)
      demo_blocks_ok(3) im(5) demo_bb_plan demo_waves wv demo_bb_calls_def [unfolded demo_bb_run_def] io _ c(1,2)]) (rule mem c(3), assumption+)+
  have v: "visit_counts demo_blocks (demo_path 0) = [1, 2]" "visit_counts demo_blocks (demo_path 1) = [1, 0]"
  proof -
    have "visit_counts demo_blocks q = map (\<lambda>a. of_nat (count_list q a)) [0, 16]" for q
      unfolding visit_counts_def demo_blocks_ok(6) [symmetric] map_map comp_def ..
    then show "visit_counts demo_blocks (demo_path 0) = [1, 2]" "visit_counts demo_blocks (demo_path 1) = [1, 0]"
      by (simp_all add: demo_path_def)
  qed
  have "demo_handle w \<noteq> 0" if "w < 2" for w using that by (auto simp: demo_handle_def less_2_cases_iff)
  then have d: "disk (fst (service_teardown (rg_sv c))) (wave_file ''bbcount_'' (global_wavefront_id (demo_wave w))) =
      Some (bb_report (visit_counts demo_blocks (demo_path w)) (length demo_blocks))" if "w < 2" for w
    using p [THEN conjunct1, THEN spec, THEN mp, OF that, THEN conjunct2, THEN conjunct1] that by (simp only: if_False simp_thms)
  have "disk (fst (service_teardown (rg_sv c))) ''bbcount_14.txt'' = Some (bb_report [1, 2] 2)"
    "disk (fst (service_teardown (rg_sv c))) ''bbcount_15.txt'' = Some (bb_report [1, 0] 2)"
    using d [of 0] d [of 1] unfolding demo_wave_ids f v demo_blocks_ok(2) by simp_all
  then show ?thesis using c(1) by blast
qed

end
