(* ===== verification/Kernels.thy ===== *)
theory Kernels
  imports User_Probe "HOL-Library.Signed_Division" "HOL-Library.Monad_Syntax"
begin

text \<open>
  The kernels that the experiments instrument, \<open>mutatees/vectoradd/*.cpp\<close>, and the divergent one of
  \<open>archive/divergent_mutatee\<close>: what one thread does to the output array, as the code has it, with
  the device's float arithmetic as a parameter. A read or write outside an array is \<open>None\<close>. Threads
  run in any order; the locale of the theory is the contract that makes the order irrelevant.
\<close>

section \<open>Threads, arrays, floats\<close>

record thread =
  th_blockDim :: dim3
  th_blockIdx :: dim3
  th_threadIdx :: dim3

text \<open>\<open>int i = blockIdx.x * blockDim.x + threadIdx.x\<close>: unsigned arithmetic, stored in an int.\<close>

definition gid_x :: "thread \<Rightarrow> i32" where
  "gid_x t = dx (th_blockIdx t) * dx (th_blockDim t) + dx (th_threadIdx t)"

definition gid_y :: "thread \<Rightarrow> i32" where
  "gid_y t = dy (th_blockIdx t) * dy (th_blockDim t) + dy (th_threadIdx t)"

definition gid_z :: "thread \<Rightarrow> i32" where
  "gid_z t = dz (th_blockIdx t) * dz (th_blockDim t) + dz (th_threadIdx t)"

definition rd :: "'v list \<Rightarrow> int \<Rightarrow> 'v option" where
  "rd A i = (if 0 \<le> i \<and> nat i < length A then Some (A ! nat i) else None)"

definition wr :: "'v list \<Rightarrow> int \<Rightarrow> 'v \<Rightarrow> 'v list option" where
  "wr A i v = (if 0 \<le> i \<and> nat i < length A then Some (A[nat i := v]) else None)"

text \<open>\<open>float\<close>, its conversion from \<open>int\<close>, its \<open>!=\<close> and its \<open>%g\<close>.\<close>

record 'f farith =
  f_add :: "'f \<Rightarrow> 'f \<Rightarrow> 'f"
  f_sub :: "'f \<Rightarrow> 'f \<Rightarrow> 'f"
  f_mul :: "'f \<Rightarrow> 'f \<Rightarrow> 'f"
  f_of_int :: "int \<Rightarrow> 'f"
  f_ne :: "'f \<Rightarrow> 'f \<Rightarrow> bool"
  f_show :: "'f \<Rightarrow> string"

section \<open>The kernels\<close>

definition vectoradd :: "'f farith \<Rightarrow> i32 \<Rightarrow> 'f list \<Rightarrow> 'f list \<Rightarrow> thread \<Rightarrow> 'f list \<Rightarrow> 'f list option" where
  "vectoradd F N A B t C =
     (let i = gid_x t in
      if sint i < sint N then do { a \<leftarrow> rd A (sint i); b \<leftarrow> rd B (sint i); wr C (sint i) (f_add F a b) }
      else Some C)"

definition kmul :: "'f farith \<Rightarrow> i32 \<Rightarrow> 'f list \<Rightarrow> 'f list \<Rightarrow> thread \<Rightarrow> 'f list \<Rightarrow> 'f list option" where
  "kmul F N A B t C =
     (let i = gid_x t in
      if sint i < sint N then do { a \<leftarrow> rd A (sint i); b \<leftarrow> rd B (sint i); wr C (sint i) (f_mul F a b) }
      else Some C)"

definition kB :: "'f farith \<Rightarrow> i32 \<Rightarrow> 'f list \<Rightarrow> 'f list \<Rightarrow> thread \<Rightarrow> 'f list \<Rightarrow> 'f list option" where
  "kB F N A B t C =
     (let i = gid_x t in
      if sint i < sint N then do { a \<leftarrow> rd A (sint i); b \<leftarrow> rd B (sint i); wr C (sint i) (f_sub F a b) }
      else Some C)"

definition fscale :: "'f farith \<Rightarrow> 'f \<Rightarrow> 'f" where
  "fscale F x = f_mul F x (f_of_int F 1)"

definition vaddcall :: "'f farith \<Rightarrow> i32 \<Rightarrow> 'f list \<Rightarrow> 'f list \<Rightarrow> thread \<Rightarrow> 'f list \<Rightarrow> 'f list option" where
  "vaddcall F N A B t C =
     (let i = gid_x t in
      if sint i < sint N then do {
        a \<leftarrow> rd A (sint i); b \<leftarrow> rd B (sint i);
        let s = f_add F a b;
        wr C (sint i) (fscale F s) }
      else Some C)"

text \<open>\<open>int i = y * W + x\<close> and \<open>int i = (z * H + y) * W + x\<close>.\<close>

definition vectoradd2d :: "'f farith \<Rightarrow> i32 \<Rightarrow> i32 \<Rightarrow> 'f list \<Rightarrow> 'f list \<Rightarrow> thread \<Rightarrow> 'f list \<Rightarrow> 'f list option" where
  "vectoradd2d F W H A B t C =
     (let x = gid_x t; y = gid_y t in
      if sint x < sint W \<and> sint y < sint H then (let i = y * W + x in
        do { a \<leftarrow> rd A (sint i); b \<leftarrow> rd B (sint i); wr C (sint i) (f_add F a b) })
      else Some C)"

definition vectoradd3d ::
    "'f farith \<Rightarrow> i32 \<Rightarrow> i32 \<Rightarrow> i32 \<Rightarrow> 'f list \<Rightarrow> 'f list \<Rightarrow> thread \<Rightarrow> 'f list \<Rightarrow> 'f list option" where
  "vectoradd3d F W H D A B t C =
     (let x = gid_x t; y = gid_y t; z = gid_z t in
      if sint x < sint W \<and> sint y < sint H \<and> sint z < sint D then (let i = (z * H + y) * W + x in
        do { a \<leftarrow> rd A (sint i); b \<leftarrow> rd B (sint i); wr C (sint i) (f_add F a b) })
      else Some C)"

text \<open>
  \<open>spillcall\<close> keeps 128 volatile floats live across its call: written before, summed after, each
  times zero. \<open>%\<close> is the remainder of C, with the sign of the dividend.
\<close>

definition spill_local :: "'f farith \<Rightarrow> i32 \<Rightarrow> 'f list" where
  "spill_local F i = map (\<lambda>j. f_of_int F (sint ((i + of_nat j) AND 3))) [0..<128]"

fun spill_sum :: "'f farith \<Rightarrow> 'f list \<Rightarrow> i32 \<Rightarrow> nat list \<Rightarrow> 'f \<Rightarrow> 'f option" where
  "spill_sum F loc i [] s = Some s"
| "spill_sum F loc i (j # js) s = do {
     x \<leftarrow> rd loc (sint (of_nat j * 11 + i) smod 128);
     spill_sum F loc i js (f_add F s (f_mul F x (f_of_int F 0))) }"

definition spillcall :: "'f farith \<Rightarrow> i32 \<Rightarrow> 'f list \<Rightarrow> 'f list \<Rightarrow> thread \<Rightarrow> 'f list \<Rightarrow> 'f list option" where
  "spillcall F N A B t C =
     (let i = gid_x t; loc = spill_local F i in do {
        a \<leftarrow> rd A (sint i smod sint N); b \<leftarrow> rd B (sint i smod sint N);
        let r = f_add F a b;
        s \<leftarrow> spill_sum F loc i [0..<128] (f_of_int F 0);
        if sint i < sint N then wr C (sint i) (f_add F r s) else Some C })"

text \<open>The divergent kernel: odd lanes add 3 and subtract it again, one to eight times.\<close>

definition divergent :: "'f farith \<Rightarrow> i32 \<Rightarrow> 'f list \<Rightarrow> 'f list \<Rightarrow> thread \<Rightarrow> 'f list \<Rightarrow> 'f list option" where
  "divergent F N A B t C =
     (let i = gid_x t in
      if sint N \<le> sint i then Some C
      else do {
        a \<leftarrow> rd A (sint i); b \<leftarrow> rd B (sint i);
        let r = f_add F a b;
        let reps = nat (sint ((i AND 7) + 1));
        let r' = (if dx (th_threadIdx t) AND 1 \<noteq> 0 then
            ((\<lambda>x. f_sub F x (f_of_int F 3)) ^^ reps) (((\<lambda>x. f_add F x (f_of_int F 3)) ^^ reps) r) else r);
        wr C (sint i) r' })"

text \<open>The loops of the block-counter demos run over \<open>k = 0, ..., m\<close>.\<close>

definition up_to :: "i32 \<Rightarrow> i32 list" where
  "up_to m = map of_nat [0..<nat (sint m + 1)]"

definition bb_acc :: "i32 \<Rightarrow> i32" where
  "bb_acc m = fold (\<lambda>k acc. if k AND 1 \<noteq> 0 then acc + k else acc - k) (up_to m) 0"

definition bbdemo :: "i32 \<Rightarrow> i32 list \<Rightarrow> thread \<Rightarrow> i32 list \<Rightarrow> i32 list option" where
  "bbdemo n inp t out =
     (let i = gid_x t in
      if sint i < sint n then do { v \<leftarrow> rd inp (sint i); wr out (sint i) (bb_acc (v AND 7)) }
      else Some out)"

fun bbmw_loop :: "i32 \<Rightarrow> i32 list \<Rightarrow> i32 \<Rightarrow> i32 list \<Rightarrow> i32 \<Rightarrow> i32 option" where
  "bbmw_loop n inp i [] acc = Some acc"
| "bbmw_loop n inp i (k # ks) acc = do { v \<leftarrow> rd inp (sint ((i + k) AND (n - 1))); bbmw_loop n inp i ks (acc + v) }"

definition bbmw :: "i32 \<Rightarrow> i32 list \<Rightarrow> thread \<Rightarrow> i32 list \<Rightarrow> i32 list option" where
  "bbmw n inp t out =
     (let i = gid_x t; wid = signed_drop_bit 6 i in do {
        acc \<leftarrow> bbmw_loop n inp i (up_to wid) 0;
        acc \<leftarrow> (if wid AND 1 \<noteq> 0 then do { v \<leftarrow> rd inp (sint (i AND (n - 1))); Some (acc + v * 3) } else Some acc);
        wr out (sint i) acc })"

text \<open>The host's own computation of one element.\<close>

definition bbmw_ref :: "i32 \<Rightarrow> i32 list \<Rightarrow> i32 \<Rightarrow> i32 option" where
  "bbmw_ref i hi n =
     (let wid = signed_drop_bit 6 i in do {
        acc \<leftarrow> bbmw_loop n hi i (up_to wid) 0;
        if wid AND 1 \<noteq> 0 then do { v \<leftarrow> rd hi (sint (i AND (n - 1))); Some (acc + v * 3) } else Some acc })"

section \<open>Threads in any order\<close>

text \<open>
  A launch runs every thread of the grid once, in an order the code does not choose.
\<close>

definition grid_threads :: "dim3 \<Rightarrow> dim3 \<Rightarrow> thread set" where
  "grid_threads g b = {t. th_blockDim t = b \<and> in_dims (th_blockIdx t) g \<and> in_dims (th_threadIdx t) b}"

fun run_threads :: "('t \<Rightarrow> 's \<Rightarrow> 's option) \<Rightarrow> 't list \<Rightarrow> 's \<Rightarrow> 's option" where
  "run_threads step [] s = Some s"
| "run_threads step (t # ts) s = (case step t s of None \<Rightarrow> None | Some s' \<Rightarrow> run_threads step ts s')"

text \<open>The contract: each thread writes at most one cell, its own, with a value of its own.\<close>

locale own_cell =
  fixes T :: "'t set" and n :: nat and cell :: "'t \<Rightarrow> nat option" and val :: "'t \<Rightarrow> 'v"
    and step :: "'t \<Rightarrow> 'v list \<Rightarrow> 'v list option"
  assumes step_cell: "t \<in> T \<Longrightarrow> length C = n \<Longrightarrow>
      step t C = Some (case cell t of None \<Rightarrow> C | Some k \<Rightarrow> C[k := val t])"
    and cell_inside: "t \<in> T \<Longrightarrow> cell t = Some k \<Longrightarrow> k < n"
    and cell_own: "t \<in> T \<Longrightarrow> t' \<in> T \<Longrightarrow> cell t = Some k \<Longrightarrow> cell t' = Some k \<Longrightarrow> t = t'"
begin

lemma run_result:
  "set ts \<subseteq> T \<Longrightarrow> length C = n \<Longrightarrow> \<exists>C'. run_threads step ts C = Some C' \<and> length C' = n \<and>
     (\<forall>k < n. C' ! k = (if \<exists>t \<in> set ts. cell t = Some k then val (THE t. t \<in> T \<and> cell t = Some k) else C ! k))"
proof (induction ts arbitrary: C)
  case (Cons t ts)
  let ?C = "case cell t of None \<Rightarrow> C | Some k \<Rightarrow> C[k := val t]"
  have t: "t \<in> T" "set ts \<subseteq> T" using Cons.prems(1) by simp_all
  have l: "length ?C = n" using Cons.prems(2) by (simp split: option.splits)
  obtain C' where C': "run_threads step ts ?C = Some C'" "length C' = n"
      "\<forall>k < n. C' ! k = (if \<exists>t \<in> set ts. cell t = Some k then val (THE t. t \<in> T \<and> cell t = Some k) else ?C ! k)"
    using Cons.IH [OF t(2) l] by blast
  have own: "(THE u. u \<in> T \<and> cell u = Some k) = t" if "cell t = Some k" for k
    using t(1) that cell_own by (intro the_equality) blast+
  have "C' ! k = (if \<exists>u \<in> set (t # ts). cell u = Some k then val (THE t. t \<in> T \<and> cell t = Some k) else C ! k)"
    if k: "k < n" for k
    using C'(3) [rule_format, OF k] own [of k] Cons.prems(2) k
    by (cases "cell t") (auto simp: nth_list_update)
  then show ?case using C'(1,2) step_cell [OF t(1) Cons.prems(2)] by simp
qed simp

lemma run_covers:
  assumes "set ts = T" "length C = n" "\<And>k. k < n \<Longrightarrow> \<exists>t \<in> T. cell t = Some k \<and> val t = f k"
  shows "run_threads step ts C = Some (map f [0..<n])"
proof -
  obtain C' where C': "run_threads step ts C = Some C'" "length C' = n"
      "\<forall>k < n. C' ! k = (if \<exists>t \<in> set ts. cell t = Some k then val (THE t. t \<in> T \<and> cell t = Some k) else C ! k)"
    using run_result [of ts C] assms(1,2) by auto
  have "C' ! k = f k" if k: "k < n" for k
  proof -
    obtain t where t: "t \<in> T" "cell t = Some k" "val t = f k" using assms(3) [OF k] by blast
    then have "(THE u. u \<in> T \<and> cell u = Some k) = t" using cell_own by (intro the_equality) blast+
    with C'(3) k t assms(1) show ?thesis by auto
  qed
  with C'(2) have "C' = map f [0..<n]" by (intro nth_equalityI) simp_all
  with C'(1) show ?thesis by simp
qed

lemma order_irrelevant:
  assumes "set ts = T" "set ts' = T" "length C = n"
  shows "run_threads step ts C = run_threads step ts' C"
proof -
  obtain C1 where 1: "run_threads step ts C = Some C1" "length C1 = n"
      "\<forall>k < n. C1 ! k = (if \<exists>t \<in> T. cell t = Some k then val (THE t. t \<in> T \<and> cell t = Some k) else C ! k)"
    using run_result [of ts C] assms by auto
  obtain C2 where 2: "run_threads step ts' C = Some C2" "length C2 = n"
      "\<forall>k < n. C2 ! k = (if \<exists>t \<in> T. cell t = Some k then val (THE t. t \<in> T \<and> cell t = Some k) else C ! k)"
    using run_result [of ts' C] assms by auto
  have "C1 = C2" using 1(2,3) 2(2,3) by (intro nth_equalityI) simp_all
  with 1 2 show ?thesis by simp
qed

end

section \<open>Where a thread of a grid is\<close>

text \<open>The position along one axis, without wrap-around.\<close>

definition axis :: "(dim3 \<Rightarrow> u32) \<Rightarrow> thread \<Rightarrow> nat" where
  "axis d t = unat (d (th_blockIdx t)) * unat (d (th_blockDim t)) + unat (d (th_threadIdx t))"

definition extent :: "(dim3 \<Rightarrow> u32) \<Rightarrow> dim3 \<Rightarrow> dim3 \<Rightarrow> nat" where
  "extent d g b = unat (d g) * unat (d b)"

lemma gid_axis: "gid_x t = of_nat (axis dx t)" "gid_y t = of_nat (axis dy t)" "gid_z t = of_nat (axis dz t)"
  by (simp_all add: gid_x_def gid_y_def gid_z_def axis_def)

lemma radix_less: "p < g \<Longrightarrow> q < b \<Longrightarrow> p * b + q < g * (b :: nat)"
proof -
  assume "p < g" "q < b"
  then have "p * b + q < Suc p * b" by simp
  also have "\<dots> \<le> g * b" using \<open>p < g\<close> by (intro mult_le_mono1) simp
  finally show ?thesis .
qed

lemma axis_less:
  assumes "t \<in> grid_threads g b"
  shows "axis dx t < extent dx g b" "axis dy t < extent dy g b" "axis dz t < extent dz g b"
  using assms by (auto simp: grid_threads_def in_dims_def axis_def extent_def word_less_nat_alt intro: radix_less)

lemma axes_determine_thread:
  assumes "t \<in> grid_threads g b" "u \<in> grid_threads g b"
    and "axis dx t = axis dx u" "axis dy t = axis dy u" "axis dz t = axis dz u"
  shows "t = u"
proof -
  have b: "th_blockDim t = b" "th_blockDim u = b" and
    i: "dx (th_threadIdx t) < dx b" "dy (th_threadIdx t) < dy b" "dz (th_threadIdx t) < dz b"
       "dx (th_threadIdx u) < dx b" "dy (th_threadIdx u) < dy b" "dz (th_threadIdx u) < dz b"
    using assms(1,2) by (auto simp: grid_threads_def in_dims_def)
  note r = mixed_radix [OF i(1) [unfolded word_less_nat_alt] i(4) [unfolded word_less_nat_alt]]
    mixed_radix [OF i(2) [unfolded word_less_nat_alt] i(5) [unfolded word_less_nat_alt]]
    mixed_radix [OF i(3) [unfolded word_less_nat_alt] i(6) [unfolded word_less_nat_alt]]
  from assms(3-5) have "th_blockIdx t = th_blockIdx u" "th_threadIdx t = th_threadIdx u"
    unfolding axis_def b r by (auto intro!: dim3.equality simp: word_unat_eq_iff)
  with b show ?thesis by (intro thread.equality) simp_all
qed

text \<open>Every position inside the extents belongs to a thread.\<close>

lemma axis_cover:
  assumes "i < unat (G :: u32) * unat (B :: u32)"
  obtains p q where "p < G" "q < B" "unat p * unat B + unat q = i"
proof
  have B: "0 < unat B" using assms by (cases "unat B = 0") auto
  have d: "i div unat B < unat G" "i mod unat B < unat B" using assms B by (simp_all add: less_mult_imp_div_less)
  have lt: "unat x < 2 ^ 32" for x :: u32 using unsigned_less [of x] by simp
  have u: "unat (of_nat (i div unat B) :: u32) = i div unat B" "unat (of_nat (i mod unat B) :: u32) = i mod unat B"
    using order.strict_trans [OF d(1) lt] order.strict_trans [OF d(2) lt] by (simp_all only: unat_small)
  show "(of_nat (i div unat B) :: u32) < G" "(of_nat (i mod unat B) :: u32) < B"
    using d u by (simp_all only: word_less_nat_alt)
  show "unat (of_nat (i div unat B) :: u32) * unat B + unat (of_nat (i mod unat B) :: u32) = i"
    unfolding u by simp
qed

lemma grid_cover:
  assumes "x < extent dx g b" "y < extent dy g b" "z < extent dz g b"
  obtains t where "t \<in> grid_threads g b" "axis dx t = x" "axis dy t = y" "axis dz t = z"
proof -
  obtain px qx where x: "px < dx g" "qx < dx b" "unat px * unat (dx b) + unat qx = x"
    using axis_cover assms(1) unfolding extent_def by blast
  obtain py qy where y: "py < dy g" "qy < dy b" "unat py * unat (dy b) + unat qy = y"
    using axis_cover assms(2) unfolding extent_def by blast
  obtain pz qz where z: "pz < dz g" "qz < dz b" "unat pz * unat (dz b) + unat qz = z"
    using axis_cover assms(3) unfolding extent_def by blast
  let ?t = "\<lparr>th_blockDim = b, th_blockIdx = \<lparr>dx = px, dy = py, dz = pz\<rparr>, th_threadIdx = \<lparr>dx = qx, dy = qy, dz = qz\<rparr>\<rparr>"
  have "?t \<in> grid_threads g b" using x y z by (simp add: grid_threads_def in_dims_def)
  with that [of ?t] x y z show ?thesis by (simp add: axis_def)
qed

text \<open>One-dimensional launches that cover \<open>n\<close> elements, and three-dimensional ones.\<close>

definition grid1 :: "dim3 \<Rightarrow> dim3 \<Rightarrow> nat \<Rightarrow> bool" where
  "grid1 g b n \<longleftrightarrow> dy g = 1 \<and> dz g = 1 \<and> dy b = 1 \<and> dz b = 1 \<and> n \<le> extent dx g b \<and> extent dx g b < 2 ^ 31"

definition grid3 :: "dim3 \<Rightarrow> dim3 \<Rightarrow> nat \<Rightarrow> nat \<Rightarrow> nat \<Rightarrow> bool" where
  "grid3 g b W H D \<longleftrightarrow> W \<le> extent dx g b \<and> H \<le> extent dy g b \<and> D \<le> extent dz g b \<and>
     extent dx g b < 2 ^ 31 \<and> extent dy g b < 2 ^ 31 \<and> extent dz g b < 2 ^ 31 \<and> D * H * W < 2 ^ 31"

lemma grid1_flat:
  assumes "grid1 g b n" "t \<in> grid_threads g b"
  shows "axis dy t = 0" "axis dz t = 0"
  using axis_less [OF assms(2)] assms(1) by (simp_all add: grid1_def extent_def)

lemma grid1_thread:
  assumes "grid1 g b n" "t \<in> grid_threads g b"
  shows "sint (gid_x t) = int (axis dx t)"
  using axis_less(1) [OF assms(2)] assms(1) by (simp add: gid_axis sint_of_nat_small grid1_def)

lemma rd_at [simp]: "k < length A \<Longrightarrow> rd A (int k) = Some (A ! k)" by (simp add: rd_def)

lemma wr_at [simp]: "k < length A \<Longrightarrow> wr A (int k) v = Some (A[k := v])" by (simp add: wr_def)

definition cell1 :: "nat \<Rightarrow> thread \<Rightarrow> nat option" where
  "cell1 n t = (if axis dx t < n then Some (axis dx t) else None)"

definition launch1 :: "dim3 \<Rightarrow> dim3 \<Rightarrow> nat \<Rightarrow> 'v list \<Rightarrow> 'v list \<Rightarrow> thread set" where
  "launch1 g b n A B = (if grid1 g b n \<and> n \<le> length A \<and> n \<le> length B then grid_threads g b else {})"

lemma cell1_own:
  assumes "t \<in> launch1 g b n A B" "u \<in> launch1 g b n A B" "cell1 n t = Some k" "cell1 n u = Some k"
  shows "t = u"
proof -
  have l: "grid1 g b n" "t \<in> grid_threads g b" "u \<in> grid_threads g b" "axis dx t = axis dx u"
    using assms by (auto simp: launch1_def cell1_def split: if_splits)
  with grid1_flat [OF l(1,2)] grid1_flat [OF l(1,3)] show ?thesis
    by (intro axes_determine_thread) simp_all
qed

lemma grid1_small: "grid1 g b n \<Longrightarrow> n < 2 ^ 31" by (simp add: grid1_def)

interpretation add1: own_cell "launch1 g b n A B" n "cell1 n" "\<lambda>t. f_add F (A ! axis dx t) (B ! axis dx t)"
  "vectoradd F (of_nat n) A B" for g b n A B F
proof (unfold_locales, goal_cases)
  case (1 t C)
  then have "grid1 g b n" "t \<in> grid_threads g b" "n \<le> length A" "n \<le> length B" "length C = n"
    by (auto simp: launch1_def split: if_splits)
  then show ?case
    by (simp add: vectoradd_def Let_def grid1_thread cell1_def sint_of_nat_small [OF grid1_small])
next
  case (2 t k)
  then show ?case by (auto simp: cell1_def split: if_splits)
next
  case (3 t u k)
  then show ?case by (rule cell1_own)
qed

text \<open>Three dimensions: the cell is \<open>(z * H + y) * W + x\<close>.\<close>

definition flat3 :: "nat \<Rightarrow> nat \<Rightarrow> thread \<Rightarrow> nat" where
  "flat3 W H t = (axis dz t * H + axis dy t) * W + axis dx t"

definition cell3 :: "nat \<Rightarrow> nat \<Rightarrow> nat \<Rightarrow> thread \<Rightarrow> nat option" where
  "cell3 W H D t = (if axis dx t < W \<and> axis dy t < H \<and> axis dz t < D then Some (flat3 W H t) else None)"

definition launch3 :: "dim3 \<Rightarrow> dim3 \<Rightarrow> nat \<Rightarrow> nat \<Rightarrow> nat \<Rightarrow> 'v list \<Rightarrow> 'v list \<Rightarrow> thread set" where
  "launch3 g b W H D A B =
     (if grid3 g b W H D \<and> D * H * W \<le> length A \<and> D * H * W \<le> length B then grid_threads g b else {})"

lemma cell3_inside: "cell3 W H D t = Some k \<Longrightarrow> k < D * H * W"
  by (auto simp: cell3_def flat3_def radix_less split: if_splits)

lemma cell3_own:
  assumes "t \<in> launch3 g b W H D A B" "u \<in> launch3 g b W H D A B" "cell3 W H D t = Some k" "cell3 W H D u = Some k"
  shows "t = u"
proof -
  have l: "t \<in> grid_threads g b" "u \<in> grid_threads g b" "flat3 W H t = flat3 W H u"
      "axis dx t < W" "axis dx u < W" "axis dy t < H" "axis dy u < H"
    using assms by (auto simp: launch3_def cell3_def split: if_splits)
  from l(3) have "axis dz t = axis dz u \<and> axis dy t = axis dy u \<and> axis dx t = axis dx u"
    unfolding flat3_def mixed_radix [OF l(4,5)] mixed_radix [OF l(6,7)] by blast
  with axes_determine_thread [OF l(1,2)] show ?thesis by blast
qed

lemma grid3_thread:
  assumes "grid3 g b W H D" "t \<in> grid_threads g b"
  shows "sint (gid_x t) = int (axis dx t)" "sint (gid_y t) = int (axis dy t)" "sint (gid_z t) = int (axis dz t)"
  using axis_less [OF assms(2)] assms(1) by (simp_all add: gid_axis sint_of_nat_small grid3_def)

lemma grid3_flat:
  assumes "grid3 g b W H D" "cell3 W H D t = Some k"
  shows "sint ((gid_z t * of_nat H + gid_y t) * of_nat W + gid_x t) = int k"
proof -
  have "k < 2 ^ 31" using cell3_inside [OF assms(2)] assms(1) by (simp add: grid3_def)
  moreover have "(gid_z t * of_nat H + gid_y t) * of_nat W + gid_x t = of_nat (flat3 W H t)"
    by (simp add: gid_axis flat3_def)
  moreover have "flat3 W H t = k" using assms(2) by (simp add: cell3_def split: if_splits)
  ultimately show ?thesis by (simp only: sint_of_nat_small)
qed

lemma grid3_small:
  assumes "grid3 g b W H D"
  shows "W < 2 ^ 31" "H < 2 ^ 31" "D < 2 ^ 31"
  using assms by (simp_all add: grid3_def)

interpretation add3: own_cell "launch3 g b W H D A B" "D * H * W" "cell3 W H D"
  "\<lambda>t. f_add F (A ! flat3 W H t) (B ! flat3 W H t)" "vectoradd3d F (of_nat W) (of_nat H) (of_nat D) A B"
  for g b W H D A B F
proof (unfold_locales, goal_cases)
  case (1 t C)
  then have l: "grid3 g b W H D" "t \<in> grid_threads g b" "D * H * W \<le> length A" "D * H * W \<le> length B" "length C = D * H * W"
    by (auto simp: launch3_def split: if_splits)
  note s = grid3_thread [OF l(1,2)] sint_of_nat_small [OF grid3_small(1) [OF l(1)]]
    sint_of_nat_small [OF grid3_small(2) [OF l(1)]] sint_of_nat_small [OF grid3_small(3) [OF l(1)]]
  show ?case
  proof (cases "cell3 W H D t")
    case None
    then have "\<not> (axis dx t < W \<and> axis dy t < H \<and> axis dz t < D)" by (simp add: cell3_def split: if_splits)
    with None show ?thesis by (auto simp: vectoradd3d_def Let_def s)
  next
    case (Some k)
    then have "axis dx t < W" "axis dy t < H" "axis dz t < D" "flat3 W H t = k" by (simp_all add: cell3_def split: if_splits)
    with Some l cell3_inside [OF Some] show ?thesis
      by (simp add: vectoradd3d_def Let_def s grid3_flat [OF l(1) Some])
  qed
next
  case (2 t k)
  then show ?case by (simp add: cell3_inside)
next
  case (3 t u k)
  then show ?case by (rule cell3_own)
qed

text \<open>Every element has its thread.\<close>

lemma cover1:
  assumes "grid1 g b n" "n \<le> length A" "n \<le> length B" "k < n"
  shows "\<exists>t \<in> launch1 g b n A B. cell1 n t = Some k \<and> axis dx t = k"
proof -
  have "k < extent dx g b" "0 < extent dy g b" "0 < extent dz g b" using assms by (simp_all add: grid1_def extent_def)
  then obtain t where "t \<in> grid_threads g b" "axis dx t = k" "axis dy t = 0" "axis dz t = 0" by (rule grid_cover)
  with assms show ?thesis by (intro bexI [of _ t]) (simp_all add: launch1_def cell1_def)
qed

lemma cover3:
  assumes "grid3 g b W H D" "D * H * W \<le> length A" "D * H * W \<le> length B" "k < D * H * W"
  shows "\<exists>t \<in> launch3 g b W H D A B. cell3 W H D t = Some k \<and> flat3 W H t = k"
proof -
  have W: "0 < W" "0 < H" using assms(4) by (cases "W = 0"; cases "H = 0"; simp)+
  have x: "k mod W < W" "k div W mod H < H" "k div W div H < D"
    using assms(4) W by (simp_all add: less_mult_imp_div_less mult.commute mult.left_commute)
  then have "k mod W < extent dx g b" "k div W mod H < extent dy g b" "k div W div H < extent dz g b"
    using assms(1) by (auto simp: grid3_def)
  then obtain t where t: "t \<in> grid_threads g b" "axis dx t = k mod W" "axis dy t = k div W mod H" "axis dz t = k div W div H"
    by (rule grid_cover)
  have "flat3 W H t = k" by (simp add: flat3_def t)
  with t x assms show ?thesis by (intro bexI [of _ t]) (simp_all add: launch3_def cell3_def)
qed

section \<open>The other additions\<close>

text \<open>
  The kernels with calls, a scratch frame or a divergent branch do what \<open>vectoradd\<close> does, under
  the facts on float arithmetic that their comments rely on.
\<close>

lemma vaddcall_same:
  assumes "\<And>a b. rd A (sint (gid_x t)) = Some a \<Longrightarrow> rd B (sint (gid_x t)) = Some b \<Longrightarrow>
      f_mul F (f_add F a b) (f_of_int F 1) = f_add F a b"
  shows "vaddcall F N A B t C = vectoradd F N A B t C"
  using assms by (cases "rd A (sint (gid_x t))"; cases "rd B (sint (gid_x t))")
    (simp_all add: vaddcall_def vectoradd_def fscale_def Let_def)

lemma vectoradd2d_flat: "gid_z t = 0 \<Longrightarrow> vectoradd2d F W H A B t C = vectoradd3d F W H 1 A B t C"
  by (simp add: vectoradd2d_def vectoradd3d_def Let_def)

definition exact_zero :: "'f farith \<Rightarrow> bool" where
  "exact_zero F \<longleftrightarrow> (\<forall>k \<in> {0..3}. f_mul F (f_of_int F k) (f_of_int F 0) = f_of_int F 0) \<and>
     f_add F (f_of_int F 0) (f_of_int F 0) = f_of_int F 0"

lemma low_bits:
  fixes x :: i32
  shows "0 \<le> sint (x AND 3)" "sint (x AND 3) \<le> 3" "0 \<le> sint (x AND 7)" "sint (x AND 7) \<le> 7"
proof -
  have m: "(3 :: i32) = mask 2" "(7 :: i32) = mask 3" by (simp_all add: mask_eq_exp_minus_1)
  have k: "take_bit k x = of_nat (unat x mod 2 ^ k)" for k
    using take_bit_of_nat [where 'a = "32 word", of k "unat x"]
    by (simp only: of_nat_unat ucast_id take_bit_eq_mod [where 'a = nat])
  have n: "x AND 3 = of_nat (unat x mod 4)" "x AND 7 = of_nat (unat x mod 8)"
    unfolding m take_bit_eq_mask [symmetric] k by simp_all
  have "unat x mod 4 < 4" "unat x mod 8 < 8" by simp_all
  then have "unat x mod 4 < 2 ^ 31" "unat x mod 8 < 2 ^ 31" by simp_all
  then have "sint (x AND 3) = int (unat x mod 4)" "sint (x AND 7) = int (unat x mod 8)"
    unfolding n by (simp_all only: sint_of_nat_small)
  then show "0 \<le> sint (x AND 3)" "sint (x AND 3) \<le> 3" "0 \<le> sint (x AND 7)" "sint (x AND 7) \<le> 7"
    by linarith+
qed

text \<open>Every access to the scratch array is inside, and it adds up to zero.\<close>

lemma spill_sum_zero:
  assumes "exact_zero F" "p + 11 * 128 < 2 ^ 31" "set js \<subseteq> {..<128}"
  shows "spill_sum F (spill_local F (of_nat p)) (of_nat p) js (f_of_int F 0) = Some (f_of_int F 0)"
  using assms(3)
proof (induction js)
  case (Cons j js)
  have "(of_nat j * 11 + of_nat p :: i32) = of_nat (11 * j + p)" by (simp add: mult.commute)
  moreover have "11 * j + p < 2 ^ 31" using Cons.prems assms(2) by simp
  ultimately have "sint (of_nat j * 11 + of_nat p :: i32) = int (11 * j + p)" by (simp only: sint_of_nat_small)
  then have i: "sint (of_nat j * 11 + of_nat p :: i32) smod 128 = int ((11 * j + p) mod 128)"
    by (simp add: smod_mod_positive zmod_int)
  have l: "(11 * j + p) mod 128 < length (spill_local F (of_nat p))" by (simp add: spill_local_def)
  then have "rd (spill_local F (of_nat p)) (int ((11 * j + p) mod 128)) =
      Some (f_of_int F (sint ((of_nat p + of_nat ((11 * j + p) mod 128) :: i32) AND 3)))"
    by (simp only: rd_at) (simp add: spill_local_def)
  moreover have "f_mul F (f_of_int F (sint ((of_nat p + of_nat ((11 * j + p) mod 128) :: i32) AND 3))) (f_of_int F 0) = f_of_int F 0"
    using assms(1) low_bits [of "of_nat p + of_nat ((11 * j + p) mod 128)"] by (simp add: exact_zero_def)
  ultimately show ?case using Cons assms(1) by (simp add: i exact_zero_def)
qed simp

lemma spillcall_same:
  assumes "exact_zero F" "gid_x t = of_nat p" "p + 11 * 128 < 2 ^ 31" "0 < n" "n < 2 ^ 31" "n \<le> length A" "n \<le> length B"
    and "\<And>k. k < n \<Longrightarrow> f_add F (f_add F (A ! k) (B ! k)) (f_of_int F 0) = f_add F (A ! k) (B ! k)"
  shows "spillcall F (of_nat n) A B t C = vectoradd F (of_nat n) A B t C"
proof -
  have s: "sint (of_nat p :: i32) = int p" "sint (of_nat n :: i32) = int n"
    using assms(3,5) by (simp_all add: sint_of_nat_small)
  have m: "int p smod int n = int (p mod n)" by (simp add: smod_mod_positive zmod_int)
  have l: "p mod n < length A" "p mod n < length B" using assms(4,6,7) mod_less_divisor [of n p] by linarith+
  have z: "spill_sum F (spill_local F (of_nat p)) (of_nat p) [0..<128] (f_of_int F 0) = Some (f_of_int F 0)"
    by (rule spill_sum_zero [OF assms(1,3)]) auto
  show ?thesis
    unfolding spillcall_def vectoradd_def Let_def assms(2) s m z
    using l assms(6-8) by (cases "p < n") simp_all
qed

lemma funpow_inverse:
  "(\<And>k. k < n \<Longrightarrow> g (f ((f ^^ k) x)) = (f ^^ k) x) \<Longrightarrow> (g ^^ n) ((f ^^ n) x) = x"
proof (induction n)
  case (Suc n)
  have "(g ^^ Suc n) ((f ^^ Suc n) x) = (g ^^ n) (g (f ((f ^^ n) x)))" by (simp add: funpow_swap1)
  also have "\<dots> = (g ^^ n) ((f ^^ n) x)" using Suc.prems by simp
  also have "\<dots> = x" using Suc by simp
  finally show ?case .
qed simp

lemma divergent_same:
  assumes "\<And>a b k. rd A (sint (gid_x t)) = Some a \<Longrightarrow> rd B (sint (gid_x t)) = Some b \<Longrightarrow> k < 8 \<Longrightarrow>
      (let x = ((\<lambda>x. f_add F x (f_of_int F 3)) ^^ k) (f_add F a b) in f_sub F (f_add F x (f_of_int F 3)) (f_of_int F 3) = x)"
  shows "divergent F N A B t C = vectoradd F N A B t C"
proof -
  let ?i = "gid_x t" and ?f = "\<lambda>x. f_add F x (f_of_int F 3)" and ?g = "\<lambda>x. f_sub F x (f_of_int F 3)"
  have "sint ((?i AND 7) + 1) \<le> 8"
  proof -
    have "?i AND 7 = of_nat (nat (sint (?i AND 7)))" using low_bits(3) [of ?i] by simp
    then have "(?i AND 7) + 1 = of_nat (Suc (nat (sint (?i AND 7))))" by simp
    moreover have "Suc (nat (sint (?i AND 7))) < 2 ^ 31" using low_bits(4) [of ?i] by simp
    ultimately have "sint ((?i AND 7) + 1) = int (Suc (nat (sint (?i AND 7))))" by (simp only: sint_of_nat_small)
    then show ?thesis using low_bits(4) [of ?i] by simp
  qed
  then have "nat (sint ((?i AND 7) + 1)) \<le> 8" by simp
  then have "(?g ^^ nat (sint ((?i AND 7) + 1))) ((?f ^^ nat (sint ((?i AND 7) + 1))) (f_add F a b)) = f_add F a b"
    if "rd A (sint ?i) = Some a" "rd B (sint ?i) = Some b" for a b
    using assms [OF that] by (intro funpow_inverse) (simp add: Let_def)
  then show ?thesis
    by (cases "rd A (sint ?i)"; cases "rd B (sint ?i)") (auto simp: divergent_def vectoradd_def Let_def)
qed

section \<open>The block-counter demos\<close>

lemma up_to_nat: "q < 2 ^ 31 - 1 \<Longrightarrow> up_to (of_nat q) = map of_nat [0..<Suc q]"
  by (simp add: up_to_def sint_of_nat_small nat_add_distrib)

text \<open>What \<open>bbdemo\<close> computes for an input: a signed half of \<open>m = v & 7\<close>.\<close>

lemma bb_acc_value:
  assumes "m < 8"
  shows "bb_acc (of_nat m) = (if odd m then of_nat (Suc m div 2) else - of_nat (m div 2))"
proof -
  have u: "up_to (of_nat m) = map of_nat [0..<Suc m]" using assms by (intro up_to_nat) simp
  have "m \<in> {0, 1, 2, 3, 4, 5, 6, 7}" using assms by auto
  then show ?thesis unfolding bb_acc_def u by (elim insertE emptyE) (simp_all add: upt_conv_Cons)
qed

lemma and_seven: "v AND 7 = (of_nat (unat v mod 8) :: i32)"
proof -
  have "v AND 7 = take_bit 3 v" by (simp add: take_bit_eq_mask mask_eq_exp_minus_1)
  also have "\<dots> = of_nat (unat v mod 8)"
    using take_bit_of_nat [where 'a = "32 word", of 3 "unat v"]
    by (simp only: of_nat_unat ucast_id take_bit_eq_mod [where 'a = nat]) simp
  finally show ?thesis .
qed

definition launchd :: "dim3 \<Rightarrow> dim3 \<Rightarrow> nat \<Rightarrow> i32 list \<Rightarrow> thread set" where
  "launchd g b n inp = (if grid1 g b n \<and> n \<le> length inp then grid_threads g b else {})"

lemma launchd_1: "launchd g b n inp = launch1 g b n inp inp" by (simp add: launchd_def launch1_def)

interpretation demo: own_cell "launchd g b n inp" n "cell1 n" "\<lambda>t. bb_acc (inp ! axis dx t AND 7)" "bbdemo (of_nat n) inp"
  for g b n inp
proof (unfold_locales, goal_cases)
  case (1 t C)
  then have "grid1 g b n" "t \<in> grid_threads g b" "n \<le> length inp" "length C = n"
    by (auto simp: launchd_def split: if_splits)
  then show ?case by (simp add: bbdemo_def Let_def grid1_thread cell1_def sint_of_nat_small [OF grid1_small])
next
  case (2 t k)
  then show ?case by (auto simp: cell1_def split: if_splits)
next
  case (3 t u k)
  then show ?case unfolding launchd_1 by (rule cell1_own)
qed

text \<open>
  \<open>bbmw\<close> on an array of \<open>2\<^sup>m\<close> elements: thread \<open>p\<close> adds the \<open>p div 64 + 1\<close> elements from its
  own on, cyclically, and odd waves add three times their own once more.
\<close>

definition mw_value :: "nat \<Rightarrow> i32 list \<Rightarrow> nat \<Rightarrow> i32" where
  "mw_value n inp p = (\<Sum>k \<le> p div 64. inp ! ((p + k) mod n)) + (if odd (p div 64) then inp ! (p mod n) * 3 else 0)"

lemma and_size: "m < 31 \<Longrightarrow> sint (of_nat x AND (of_nat (2 ^ m) - 1) :: i32) = int (x mod 2 ^ m)"
proof -
  assume m: "m < 31"
  have "of_nat x AND (of_nat (2 ^ m) - 1) = (take_bit m (of_nat x) :: i32)"
    by (simp add: take_bit_eq_mask mask_eq_exp_minus_1)
  also have "\<dots> = of_nat (x mod 2 ^ m)" by (simp only: take_bit_of_nat take_bit_eq_mod [where 'a = nat])
  finally have e: "of_nat x AND (of_nat (2 ^ m) - 1) = (of_nat (x mod 2 ^ m) :: i32)" .
  have "(2 :: nat) ^ m < 2 ^ 31" using m by (intro power_strict_increasing) simp_all
  then have "x mod 2 ^ m < 2 ^ 31" by (rule order.strict_trans [rotated]) simp
  then show ?thesis unfolding e by (rule sint_of_nat_small)
qed

lemma mw_loop:
  assumes "m < 31" "2 ^ m \<le> length inp"
  shows "bbmw_loop (of_nat (2 ^ m)) inp (of_nat p) (map of_nat [a..<a + l]) acc =
    Some (acc + (\<Sum>k \<leftarrow> [a..<a + l]. inp ! ((p + k) mod 2 ^ m)))"
proof (induction l arbitrary: a acc)
  case (Suc l)
  have r: "(p + a) mod 2 ^ m < length inp" by (rule order.strict_trans2 [OF mod_less_divisor assms(2)]) simp
  have "sint ((of_nat p + of_nat a :: i32) AND (of_nat (2 ^ m) - 1)) = int ((p + a) mod 2 ^ m)"
    using and_size [OF assms(1), of "p + a"] by simp
  then have "rd inp (sint ((of_nat p + of_nat a :: i32) AND (of_nat (2 ^ m) - 1))) = Some (inp ! ((p + a) mod 2 ^ m))"
    using r by (simp only: rd_at)
  moreover have "[a..<a + Suc l] = a # [Suc a..<Suc a + l]" by (simp add: upt_conv_Cons del: upt_Suc)
  ultimately show ?case using Suc.IH [of "Suc a"] by (simp add: add.assoc del: upt_Suc)
qed simp

lemma wave_of_thread:
  assumes "p < 2 ^ 31"
  shows "signed_drop_bit 6 (of_nat p :: i32) = of_nat (p div 64)"
proof -
  have "sint (signed_drop_bit 6 (of_nat p :: i32)) = int (p div 64)"
    using assms by (simp add: sint_signed_drop_bit_eq sint_of_nat_small drop_bit_eq_div zdiv_int)
  also have "\<dots> = sint (of_nat (p div 64) :: i32)"
    using assms by (intro sint_of_nat_small [symmetric]) (simp add: less_mult_imp_div_less)
  finally show ?thesis by (simp add: signed_word_eqI)
qed

text \<open>A thread stores what the host computes.\<close>

lemma bbmw_is_ref: "bbmw n inp t out = Option.bind (bbmw_ref (gid_x t) inp n) (wr out (sint (gid_x t)))"
  by (simp add: bbmw_def bbmw_ref_def Let_def Option.bind_assoc)

lemma bbmw_ref_value:
  assumes "m < 31" "p < 2 ^ m" "2 ^ m \<le> length inp"
  shows "bbmw_ref (of_nat p) inp (of_nat (2 ^ m)) = Some (mw_value (2 ^ m) inp p)"
proof -
  have "(2 :: nat) ^ m \<le> 2 ^ 30" using assms(1) by (intro power_increasing) simp_all
  then have p31: "p < 2 ^ 31" using assms(2) by simp
  then have "p div 64 < 2 ^ 31 - 1" by simp
  note u = up_to_nat [OF this]
  have lp: "bbmw_loop (of_nat (2 ^ m)) inp (of_nat p) (map of_nat [0..<Suc (p div 64)]) 0 =
      Some (\<Sum>k \<leftarrow> [0..<Suc (p div 64)]. inp ! ((p + k) mod 2 ^ m))"
    using mw_loop [OF assms(1,3), of p 0 "Suc (p div 64)" 0] by simp
  have sm: "(\<Sum>k \<leftarrow> [0..<Suc (p div 64)]. inp ! ((p + k) mod 2 ^ m)) = (\<Sum>k \<le> p div 64. inp ! ((p + k) mod 2 ^ m))"
    by (simp only: sum_set_upt_conv_sum_list_nat [symmetric] set_upt atLeast0LessThan lessThan_Suc_atMost)
  have od: "(of_nat (p div 64) AND 1 \<noteq> (0 :: i32)) = odd (p div 64)"
    by (simp add: and_one_eq mod_2_eq_odd)
  have own: "rd inp (sint ((of_nat p :: i32) AND (of_nat (2 ^ m) - 1))) = Some (inp ! (p mod 2 ^ m))"
    unfolding and_size [OF assms(1)] using assms(2,3) by simp
  show ?thesis unfolding bbmw_ref_def Let_def wave_of_thread [OF p31] u lp sm od own by (simp add: mw_value_def)
qed

definition launchm :: "dim3 \<Rightarrow> dim3 \<Rightarrow> nat \<Rightarrow> i32 list \<Rightarrow> thread set" where
  "launchm g b m inp =
     (if grid1 g b (2 ^ m) \<and> extent dx g b = 2 ^ m \<and> 2 ^ m \<le> length inp then grid_threads g b else {})"

lemma launchm_1: "t \<in> launchm g b m inp \<Longrightarrow> t \<in> launch1 g b (2 ^ m) inp inp"
  by (simp add: launchm_def launch1_def split: if_splits)

interpretation mw: own_cell "launchm g b m inp" "2 ^ m" "cell1 (2 ^ m)" "\<lambda>t. mw_value (2 ^ m) inp (axis dx t)" "bbmw (of_nat (2 ^ m)) inp"
  for g b m inp
proof (unfold_locales, goal_cases)
  case (1 t C)
  let ?p = "axis dx t"
  from 1 have l: "grid1 g b (2 ^ m)" "extent dx g b = 2 ^ m" "t \<in> grid_threads g b" "2 ^ m \<le> length inp" "length C = 2 ^ m"
    by (auto simp: launchm_def split: if_splits)
  have m: "m < 31"
  proof (rule ccontr)
    assume "\<not> m < 31"
    then have "(2 :: nat) ^ 31 \<le> 2 ^ m" by (intro power_increasing) simp_all
    with grid1_small [OF l(1)] show False by simp
  qed
  have p: "?p < 2 ^ m" using axis_less(1) [OF l(3)] l(2) by simp
  have "wr C (sint (gid_x t)) v = Some (C[?p := v])" for v
    using p l(5) grid1_thread [OF l(1,3)] by simp
  then show ?case
    unfolding bbmw_is_ref gid_axis(1) bbmw_ref_value [OF m p l(4)] using p by (simp add: cell1_def)
next
  case (2 t k)
  then show ?case by (auto simp: cell1_def split: if_splits)
next
  case (3 t u k)
  then show ?case using cell1_own [OF launchm_1 launchm_1] by blast
qed

end
