(* ===== verification/Mutatees.thy ===== *)
theory Mutatees
  imports Kernels
begin

text \<open>
  The host programs of the test kernels, \<open>mutatees/vectoradd/*.cpp\<close> and
  \<open>archive/divergent_mutatee/divergent.cpp\<close>: device selection, the checked calls of HIP, the
  launch and the self-check. HIP is a parameter, the record \<open>hip\<close>: the architectures of its
  devices, which calls fail, and the order in which the threads of a launch run. The device's
  output array starts with any contents.
\<close>

section \<open>HIP\<close>

datatype hip_call = HipGetDeviceCount | HipGetDeviceProperties nat | HipSetDevice nat | HipMalloc nat
  | HipMemcpyIn nat | HipGetLastError nat | HipDeviceSynchronize | HipMemcpyOut nat

record hip =
  hip_archs :: "string list"
  hip_fails :: "hip_call \<Rightarrow> bool"
  hip_order :: "dim3 \<Rightarrow> dim3 \<Rightarrow> thread list"

text \<open>\<open>abort()\<close>, a device fault, or the exit code with what stdout shows last.\<close>

datatype outcome = Aborted | Faulted | Exited nat string

text \<open>The first device whose name starts with the prefix; a failed query aborts.\<close>

fun select_from :: "hip \<Rightarrow> string \<Rightarrow> nat \<Rightarrow> string list \<Rightarrow> nat option" where
  "select_from h pre i [] = None"
| "select_from h pre i (a # as) =
     (if hip_fails h (HipGetDeviceProperties i) then None
      else if starts_with pre a then Some i else select_from h pre (Suc i) as)"

definition select_device :: "hip \<Rightarrow> string \<Rightarrow> nat option" where
  "select_device h pre = (if hip_fails h HipGetDeviceCount then None else select_from h pre 0 (hip_archs h))"

definition select_gfx908_device :: "hip \<Rightarrow> nat option" where
  "select_gfx908_device h = select_device h ''gfx9''"

definition HIP_CHECK :: "hip \<Rightarrow> hip_call list \<Rightarrow> bool" where
  "HIP_CHECK h cs \<longleftrightarrow> \<not> list_ex (hip_fails h) cs"

section \<open>The vector additions\<close>

definition LF :: string where "LF = [CHR 0x0A]"

definition count_errors :: "'f farith \<Rightarrow> 'f list \<Rightarrow> 'f list \<Rightarrow> 'f list \<Rightarrow> nat \<Rightarrow> nat" where
  "count_errors F hA hB hC N = length (filter (\<lambda>i. f_ne F (hC ! i) (f_add F (hA ! i) (hB ! i))) [0..<N])"

definition verdict :: "nat \<Rightarrow> nat \<Rightarrow> outcome" where
  "verdict errors N =
     (if errors \<noteq> 0 then Exited 1 (''FAILED with '' @ dec errors @ '' errors'' @ LF)
      else Exited 0 (''PASSED ('' @ dec N @ '' elements)'' @ LF))"

definition input_A :: "'f farith \<Rightarrow> nat \<Rightarrow> 'f list" where
  "input_A F N = map (\<lambda>i. f_of_int F (int i)) [0..<N]"

definition input_B :: "'f farith \<Rightarrow> nat \<Rightarrow> 'f list" where
  "input_B F N = map (\<lambda>i. f_of_int F (2 * int i)) [0..<N]"

definition vadd_host ::
    "'f farith \<Rightarrow> hip \<Rightarrow> nat option \<Rightarrow> (nat \<Rightarrow> 'f) \<Rightarrow> nat \<Rightarrow> dim3 \<Rightarrow> dim3
      \<Rightarrow> ('f list \<Rightarrow> 'f list \<Rightarrow> thread \<Rightarrow> 'f list \<Rightarrow> 'f list option) \<Rightarrow> outcome" where
  "vadd_host F h device junk N grid block kern =
     (case device of None \<Rightarrow> Aborted
      | Some dev \<Rightarrow>
          if \<not> HIP_CHECK h [HipSetDevice dev, HipMalloc 0, HipMalloc 1, HipMalloc 2, HipMemcpyIn 0, HipMemcpyIn 1,
                HipGetLastError 0, HipDeviceSynchronize, HipMemcpyOut 0] then Aborted
          else (let hA = input_A F N; hB = input_B F N in
            case run_threads (kern hA hB) (hip_order h grid block) (map junk [0..<N]) of None \<Rightarrow> Faulted
            | Some hC \<Rightarrow> verdict (count_errors F hA hB hC N) N))"

definition dim1 :: "nat \<Rightarrow> dim3" where
  "dim1 n = \<lparr>dx = of_nat n, dy = 1, dz = 1\<rparr>"

definition dims :: "nat \<Rightarrow> nat \<Rightarrow> nat \<Rightarrow> dim3" where
  "dims x y z = \<lparr>dx = of_nat x, dy = of_nat y, dz = of_nat z\<rparr>"

definition vectoradd_main :: "'f farith \<Rightarrow> hip \<Rightarrow> (nat \<Rightarrow> 'f) \<Rightarrow> outcome" where
  "vectoradd_main F h junk =
     (let N = 2 ^ 20; block = 256; grid = (N + block - 1) div block in
      vadd_host F h (select_gfx908_device h) junk N (dim1 grid) (dim1 block) (vectoradd F (of_nat N)))"

definition vectoradd_mw_main :: "'f farith \<Rightarrow> hip \<Rightarrow> (nat \<Rightarrow> 'f) \<Rightarrow> outcome" where
  "vectoradd_mw_main F h junk =
     (let N = 1024; block = 64; grid = (N + block - 1) div block in
      vadd_host F h (select_gfx908_device h) junk N (dim1 grid) (dim1 block) (vectoradd F (of_nat N)))"

definition vectoradd_small_main :: "'f farith \<Rightarrow> hip \<Rightarrow> (nat \<Rightarrow> 'f) \<Rightarrow> outcome" where
  "vectoradd_small_main F h junk =
     (let N = 64; block = 64; grid = (N + block - 1) div block in
      vadd_host F h (select_gfx908_device h) junk N (dim1 grid) (dim1 block) (vectoradd F (of_nat N)))"

definition vaddcall_main :: "'f farith \<Rightarrow> hip \<Rightarrow> (nat \<Rightarrow> 'f) \<Rightarrow> outcome" where
  "vaddcall_main F h junk =
     (let N = 2 ^ 20; block = 256; grid = (N + block - 1) div block in
      vadd_host F h (select_gfx908_device h) junk N (dim1 grid) (dim1 block) (vaddcall F (of_nat N)))"

definition spillcall_main :: "'f farith \<Rightarrow> hip \<Rightarrow> (nat \<Rightarrow> 'f) \<Rightarrow> outcome" where
  "spillcall_main F h junk =
     (let N = 2 ^ 16; block = 256; grid = (N + block - 1) div block in
      vadd_host F h (select_gfx908_device h) junk N (dim1 grid) (dim1 block) (spillcall F (of_nat N)))"

text \<open>This one asks for a device named \<open>gfx908\<dots>\<close>.\<close>

definition divergent_main :: "'f farith \<Rightarrow> hip \<Rightarrow> (nat \<Rightarrow> 'f) \<Rightarrow> outcome" where
  "divergent_main F h junk =
     (let N = 2 ^ 20; block = 256; grid = (N + block - 1) div block in
      vadd_host F h (select_device h ''gfx908'') junk N (dim1 grid) (dim1 block) (divergent F (of_nat N)))"

definition vectoradd2d_main :: "'f farith \<Rightarrow> hip \<Rightarrow> (nat \<Rightarrow> 'f) \<Rightarrow> outcome" where
  "vectoradd2d_main F h junk =
     (let W = 64; H = 64; N = W * H; bx = 16; by' = 16 in
      vadd_host F h (select_gfx908_device h) junk N (dims ((W + bx - 1) div bx) ((H + by' - 1) div by') 1) (dims bx by' 1)
        (vectoradd2d F (of_nat W) (of_nat H)))"

definition vaddcall2d :: "'f farith \<Rightarrow> i32 \<Rightarrow> i32 \<Rightarrow> 'f list \<Rightarrow> 'f list \<Rightarrow> thread \<Rightarrow> 'f list \<Rightarrow> 'f list option" where
  "vaddcall2d F W H A B t C =
     (let x = gid_x t; y = gid_y t; fadd = (\<lambda>x y. f_add F x y) in
      if sint x < sint W \<and> sint y < sint H then (let i = y * W + x in
        do { a \<leftarrow> rd A (sint i); b \<leftarrow> rd B (sint i); wr C (sint i) (fadd a b) })
      else Some C)"

definition vaddcall2d_main :: "'f farith \<Rightarrow> hip \<Rightarrow> (nat \<Rightarrow> 'f) \<Rightarrow> outcome" where
  "vaddcall2d_main F h junk =
     (let W = 64; H = 64; N = W * H; bx = 16; by' = 16 in
      vadd_host F h (select_gfx908_device h) junk N (dims ((W + bx - 1) div bx) ((H + by' - 1) div by') 1) (dims bx by' 1)
        (vaddcall2d F (of_nat W) (of_nat H)))"

definition vectoradd3d_main :: "'f farith \<Rightarrow> hip \<Rightarrow> (nat \<Rightarrow> 'f) \<Rightarrow> outcome" where
  "vectoradd3d_main F h junk =
     (let W = 16; H = 16; D = 8; N = W * H * D; bx = 8; by' = 8; bz = 4 in
      vadd_host F h (select_gfx908_device h) junk N
        (dims ((W + bx - 1) div bx) ((H + by' - 1) div by') ((D + bz - 1) div bz)) (dims bx by' bz)
        (vectoradd3d F (of_nat W) (of_nat H) (of_nat D)))"

definition vaddcall3d ::
    "'f farith \<Rightarrow> i32 \<Rightarrow> i32 \<Rightarrow> i32 \<Rightarrow> 'f list \<Rightarrow> 'f list \<Rightarrow> thread \<Rightarrow> 'f list \<Rightarrow> 'f list option" where
  "vaddcall3d F W H D A B t C =
     (let x = gid_x t; y = gid_y t; z = gid_z t; fadd = (\<lambda>x y. f_add F x y) in
      if sint x < sint W \<and> sint y < sint H \<and> sint z < sint D then (let i = (z * H + y) * W + x in
        do { a \<leftarrow> rd A (sint i); b \<leftarrow> rd B (sint i); wr C (sint i) (fadd a b) })
      else Some C)"

definition vaddcall3d_main :: "'f farith \<Rightarrow> hip \<Rightarrow> (nat \<Rightarrow> 'f) \<Rightarrow> outcome" where
  "vaddcall3d_main F h junk =
     (let W = 16; H = 16; D = 8; N = W * H * D; bx = 8; by' = 8; bz = 4 in
      vadd_host F h (select_gfx908_device h) junk N
        (dims ((W + bx - 1) div bx) ((H + by' - 1) div by') ((D + bz - 1) div bz)) (dims bx by' bz)
        (vaddcall3d F (of_nat W) (of_nat H) (of_nat D)))"

section \<open>The programs with two kernels and the block-counter demos\<close>

text \<open>
  \<open>twokernels\<close>: both kernels write the same array; the line at the end is computed from the
  inputs on the host.
\<close>

definition twokernels_main :: "'f farith \<Rightarrow> hip \<Rightarrow> (nat \<Rightarrow> 'f) \<Rightarrow> outcome" where
  "twokernels_main F h junk =
     (case select_gfx908_device h of None \<Rightarrow> Aborted
      | Some dev \<Rightarrow>
          if \<not> HIP_CHECK h [HipSetDevice dev, HipMalloc 0, HipMalloc 1, HipMalloc 2, HipMemcpyIn 0, HipMemcpyIn 1,
                HipGetLastError 0, HipGetLastError 1, HipDeviceSynchronize, HipMemcpyOut 0] then Aborted
          else (let N = 64; hA = input_A F N; hB = input_B F N; ts = hip_order h (dim1 1) (dim1 64) in
            case run_threads (vectoradd F (of_nat N) hA hB) ts (map junk [0..<N]) of None \<Rightarrow> Faulted
            | Some dC \<Rightarrow> (case run_threads (kmul F (of_nat N) hA hB) ts dC of None \<Rightarrow> Faulted
              | Some hC \<Rightarrow> Exited 0 (''kadd[3]='' @ f_show F (f_add F (hA ! 3) (hB ! 3)) @ '' (want 9)  kmul[3]='' @
                  f_show F (f_mul F (hA ! 3) (hB ! 3)) @ '' (want 18)  -> '' @ ''PASSED'' @ LF))))"

text \<open>\<open>twoco\<close> takes device 0 when no name fits, and exits with 0 whatever it prints.\<close>

definition twoco_main :: "'f farith \<Rightarrow> hip \<Rightarrow> (nat \<Rightarrow> 'f) \<Rightarrow> outcome" where
  "twoco_main F h junk =
     (let dev = (case select_gfx908_device h of None \<Rightarrow> 0 | Some d \<Rightarrow> d);
          asked = (case select_gfx908_device h of None \<Rightarrow> length (hip_archs h) | Some d \<Rightarrow> Suc d) in
      if \<not> HIP_CHECK h (HipGetDeviceCount # map HipGetDeviceProperties [0..<asked] @
            [HipSetDevice dev, HipMalloc 0, HipMalloc 1, HipMalloc 2, HipMemcpyIn 0, HipMemcpyIn 1,
             HipGetLastError 0, HipMemcpyOut 0, HipDeviceSynchronize, HipMemcpyOut 1]) then Aborted
      else (let N = 64; hA = input_A F N; hB = input_B F N; ts = hip_order h (dim1 1) (dim1 64) in
        case run_threads (vectoradd F (of_nat N) hA hB) ts (map junk [0..<N]) of None \<Rightarrow> Faulted
        | Some hC \<Rightarrow> (let add = hC ! 3 in
            case run_threads (kB F (of_nat N) hA hB) ts hC of None \<Rightarrow> Faulted
            | Some hC \<Rightarrow> Exited 0 (''kA add[3]='' @ f_show F add @ '' (want 9)  kB sub[3]='' @ f_show F (hC ! 3) @
                '' (want -3)  -> '' @
                (if \<not> f_ne F add (f_of_int F 9) \<and> \<not> f_ne F (hC ! 3) (f_of_int F (- 3)) then ''PASSED'' else ''FAILED'') @ LF))))"

text \<open>The demos check no call; here the calls succeed. \<open>ref\<close> is the host's own computation.\<close>

definition bbdemo_ref :: "i32 \<Rightarrow> i32" where
  "bbdemo_ref v = (let m = v AND 7 in fold (\<lambda>k acc. if k AND 1 \<noteq> 0 then acc + k else acc - k) (up_to m) 0)"

definition bbdemo_main :: "hip \<Rightarrow> (nat \<Rightarrow> i32) \<Rightarrow> outcome" where
  "bbdemo_main h junk =
     (let N = 64; hi = map of_nat [0..<N] in
      case run_threads (bbdemo (of_nat N) hi) (hip_order h (dim1 ((N + 63) div 64)) (dim1 64)) (map junk [0..<N]) of
        None \<Rightarrow> Faulted
      | Some ho \<Rightarrow> if list_all (\<lambda>i. ho ! i = bbdemo_ref (hi ! i)) [0..<N] then Exited 0 (''PASSED'' @ LF)
          else Exited 1 (''FAILED'' @ LF))"

definition bbmw_main :: "hip \<Rightarrow> (nat \<Rightarrow> i32) \<Rightarrow> outcome" where
  "bbmw_main h junk =
     (let N = 512; hi = map (\<lambda>i. of_nat i + 1) [0..<N] in
      case run_threads (bbmw (of_nat N) hi) (hip_order h (dim1 (N div 64)) (dim1 64)) (map junk [0..<N]) of
        None \<Rightarrow> Faulted
      | Some ho \<Rightarrow> if list_all (\<lambda>i. Some (ho ! i) = bbmw_ref (of_nat i) hi (of_nat N)) [0..<N] then Exited 0 (''PASSED'' @ LF)
          else Exited 1 (''FAILED'' @ LF))"

section \<open>Every addition passes its check\<close>

text \<open>
  What a run needs from the platform: no call fails, each launch runs every thread of its grid
  (\<open>hip_order\<close> may repeat or reorder them), and the sums of the inputs, all below \<open>2\<^sup>24\<close>, are exact.
\<close>

definition hip_works :: "hip \<Rightarrow> bool" where
  "hip_works h \<longleftrightarrow> (\<forall>c. \<not> hip_fails h c) \<and> (\<forall>g b. set (hip_order h g b) = grid_threads g b)"

definition exact_sum :: "'f farith \<Rightarrow> 'f \<Rightarrow> bool" where
  "exact_sum F s \<longleftrightarrow> \<not> f_ne F s s \<and> f_mul F s (f_of_int F 1) = s \<and> f_add F s (f_of_int F 0) = s \<and>
     (\<forall>k<8. let x = ((\<lambda>x. f_add F x (f_of_int F 3)) ^^ k) s in f_sub F (f_add F x (f_of_int F 3)) (f_of_int F 3) = x)"

definition exact_sums :: "'f farith \<Rightarrow> bool" where
  "exact_sums F \<longleftrightarrow> exact_zero F \<and> (\<forall>i < 2 ^ 20. exact_sum F (f_add F (f_of_int F (int i)) (f_of_int F (2 * int i))))"

abbreviation passed :: "nat \<Rightarrow> outcome" where
  "passed N \<equiv> Exited 0 (''PASSED ('' @ dec N @ '' elements)'' @ LF)"

abbreviation sum_at :: "'f farith \<Rightarrow> nat \<Rightarrow> nat \<Rightarrow> 'f" where
  "sum_at F N k \<equiv> f_add F (input_A F N ! k) (input_B F N ! k)"

lemma inputs: "length (input_A F N) = N" "length (input_B F N) = N"
  "k < N \<Longrightarrow> input_A F N ! k = f_of_int F (int k)" "k < N \<Longrightarrow> input_B F N ! k = f_of_int F (2 * int k)"
  by (simp_all add: input_A_def input_B_def)

lemma sum_exact: "exact_sums F \<Longrightarrow> N \<le> 2 ^ 20 \<Longrightarrow> k < N \<Longrightarrow> exact_sum F (sum_at F N k)"
  by (simp add: exact_sums_def inputs)

lemma run_threads_cong:
  "(\<And>t C. t \<in> set ts \<Longrightarrow> step t C = step' t C) \<Longrightarrow> run_threads step ts s = run_threads step' ts s"
  by (induction ts arbitrary: s) (auto split: option.split)

lemma no_errors: "count_errors F hA hB hC N = 0 \<longleftrightarrow> (\<forall>i < N. \<not> f_ne F (hC ! i) (f_add F (hA ! i) (hB ! i)))"
  by (auto simp: count_errors_def filter_empty_conv)

text \<open>The self-check: exit code 0 means that no element differs from the host's own sum.\<close>

lemma self_check:
  assumes "hip_works h" "device = Some d"
    and "run_threads (kern (input_A F N) (input_B F N)) (hip_order h g b) (map junk [0..<N]) = Some hC"
  shows "vadd_host F h device junk N g b kern =
    (if \<forall>i < N. \<not> f_ne F (hC ! i) (sum_at F N i) then passed N
     else verdict (count_errors F (input_A F N) (input_B F N) hC N) N)"
  using assms no_errors [of F "input_A F N" "input_B F N" hC N]
  by (auto simp: vadd_host_def HIP_CHECK_def hip_works_def Let_def verdict_def)

lemma host_passes:
  assumes "hip_works h" "exact_sums F" "N \<le> 2 ^ 20" "device \<noteq> None"
    and "run_threads (kern (input_A F N) (input_B F N)) (hip_order h g b) (map junk [0..<N]) = Some (map (sum_at F N) [0..<N])"
  shows "vadd_host F h device junk N g b kern = passed N"
proof -
  obtain d where "device = Some d" using assms(4) by blast
  moreover have "\<forall>i < N. \<not> f_ne F (map (sum_at F N) [0..<N] ! i) (sum_at F N i)"
    using sum_exact [OF assms(2,3)] by (simp add: exact_sum_def)
  ultimately show ?thesis using self_check [where kern = kern, where F = F and N = N, OF assms(1) _ assms(5)] by simp
qed

lemma select_from_some:
  assumes "\<forall>c. \<not> hip_fails h c" "\<exists>a \<in> set as. starts_with pre a"
  shows "select_from h pre i as \<noteq> None"
  using assms by (induction as arbitrary: i) auto

lemma select_some:
  "hip_works h \<Longrightarrow> \<exists>a \<in> set (hip_archs h). starts_with pre a \<Longrightarrow> select_device h pre \<noteq> None"
  using select_from_some [of h "hip_archs h" pre 0] by (auto simp: hip_works_def select_device_def)

text \<open>One dimension: a kernel that does what \<open>vectoradd\<close> does on every thread of the launch.\<close>

lemma passes1:
  assumes "hip_works h" "exact_sums F" "N \<le> 2 ^ 20" "device \<noteq> None" "grid1 g b N"
    and "\<And>t C. t \<in> grid_threads g b \<Longrightarrow>
      kern (input_A F N) (input_B F N) t C = vectoradd F (of_nat N) (input_A F N) (input_B F N) t C"
  shows "vadd_host F h device junk N g b kern = passed N"
proof (rule host_passes [where kern = kern, OF assms(1-4)])
  let ?A = "input_A F N" and ?B = "input_B F N"
  have o: "set (hip_order h g b) = grid_threads g b" using assms(1) by (simp add: hip_works_def)
  have l: "launch1 g b N ?A ?B = grid_threads g b" using assms(5) by (simp add: launch1_def inputs)
  have "run_threads (kern ?A ?B) (hip_order h g b) (map junk [0..<N]) =
      run_threads (vectoradd F (of_nat N) ?A ?B) (hip_order h g b) (map junk [0..<N])"
    by (intro run_threads_cong) (simp add: assms(6) o)
  also have "\<dots> = Some (map (sum_at F N) [0..<N])"
  proof (rule add1.run_covers)
    show "set (hip_order h g b) = launch1 g b N ?A ?B" using o l by simp
    show "\<exists>t \<in> launch1 g b N ?A ?B. cell1 N t = Some k \<and> f_add F (?A ! axis dx t) (?B ! axis dx t) = sum_at F N k"
      if "k < N" for k
      using cover1 [OF assms(5) _ _ that, of ?A ?B] by (auto simp: inputs)
  qed simp
  finally show "run_threads (kern ?A ?B) (hip_order h g b) (map junk [0..<N]) = Some (map (sum_at F N) [0..<N])" .
qed

lemma passes3:
  assumes "hip_works h" "exact_sums F" "D * H * W \<le> 2 ^ 20" "device \<noteq> None" "grid3 g b W H D" "N = D * H * W"
    and "\<And>t C. t \<in> grid_threads g b \<Longrightarrow> kern (input_A F N) (input_B F N) t C =
      vectoradd3d F (of_nat W) (of_nat H) (of_nat D) (input_A F N) (input_B F N) t C"
  shows "vadd_host F h device junk N g b kern = passed N"
proof (rule host_passes [where kern = kern, OF assms(1,2) _ assms(4)])
  let ?A = "input_A F N" and ?B = "input_B F N"
  show "N \<le> 2 ^ 20" using assms(3,6) by simp
  have o: "set (hip_order h g b) = grid_threads g b" using assms(1) by (simp add: hip_works_def)
  have l: "launch3 g b W H D ?A ?B = grid_threads g b" using assms(5,6) by (simp add: launch3_def inputs)
  have "run_threads (kern ?A ?B) (hip_order h g b) (map junk [0..<N]) =
      run_threads (vectoradd3d F (of_nat W) (of_nat H) (of_nat D) ?A ?B) (hip_order h g b) (map junk [0..<N])"
    by (intro run_threads_cong) (simp add: assms(7) o)
  also have "\<dots> = Some (map (sum_at F N) [0..<D * H * W])"
  proof (rule add3.run_covers)
    show "set (hip_order h g b) = launch3 g b W H D ?A ?B" using o l by simp
    show "length (map junk [0..<N]) = D * H * W" using assms(6) by simp
    show "\<exists>t \<in> launch3 g b W H D ?A ?B. cell3 W H D t = Some k \<and>
        f_add F (?A ! flat3 W H t) (?B ! flat3 W H t) = sum_at F N k" if "k < D * H * W" for k
      using cover3 [OF assms(5) _ _ that, of ?A ?B] assms(6) by (auto simp: inputs)
  qed
  finally show "run_threads (kern ?A ?B) (hip_order h g b) (map junk [0..<N]) = Some (map (sum_at F N) [0..<N])"
    using assms(6) by simp
qed


lemma rd_sum:
  assumes "exact_sums F" "N \<le> 2 ^ 20" "rd (input_A F N) i = Some a" "rd (input_B F N) i = Some b"
  shows "exact_sum F (f_add F a b)"
proof -
  have "nat i < N" "a = input_A F N ! nat i" "b = input_B F N ! nat i"
    using assms(3,4) by (auto simp: rd_def inputs split: if_splits)
  then show ?thesis using sum_exact [OF assms(1,2)] by simp
qed

lemma vaddcall_passes:
  "exact_sums F \<Longrightarrow> N \<le> 2 ^ 20 \<Longrightarrow>
    vaddcall F (of_nat N) (input_A F N) (input_B F N) t C = vectoradd F (of_nat N) (input_A F N) (input_B F N) t C"
  using rd_sum [of F N "sint (gid_x t)"] by (intro vaddcall_same) (simp add: exact_sum_def)

lemma divergent_passes:
  "exact_sums F \<Longrightarrow> N \<le> 2 ^ 20 \<Longrightarrow>
    divergent F (of_nat N) (input_A F N) (input_B F N) t C = vectoradd F (of_nat N) (input_A F N) (input_B F N) t C"
  using rd_sum [of F N "sint (gid_x t)"] by (intro divergent_same) (simp add: exact_sum_def)

lemma spillcall_passes:
  assumes "exact_sums F" "0 < N" "N \<le> 2 ^ 20" "t \<in> grid_threads g b" "grid1 g b N" "extent dx g b \<le> 2 ^ 20"
  shows "spillcall F (of_nat N) (input_A F N) (input_B F N) t C = vectoradd F (of_nat N) (input_A F N) (input_B F N) t C"
proof (rule spillcall_same)
  show "exact_zero F" using assms(1) by (simp add: exact_sums_def)
  show "gid_x t = of_nat (axis dx t)" by (rule gid_axis)
  have "axis dx t < 2 ^ 20" using axis_less(1) [OF assms(4)] assms(6) by (rule order.strict_trans2)
  then show "axis dx t + 11 * 128 < 2 ^ 31" by simp
  show "f_add F (sum_at F N k) (f_of_int F 0) = sum_at F N k" if "k < N" for k
    using sum_exact [OF assms(1,3) that] by (simp add: exact_sum_def)
qed (use assms in \<open>simp_all add: inputs\<close>)

lemma twod_passes:
  assumes "grid3 g b W H 1" "dz g = 1" "dz b = 1" "t \<in> grid_threads g b"
  shows "vectoradd2d F (of_nat W) (of_nat H) A B t C = vectoradd3d F (of_nat W) (of_nat H) (of_nat 1) A B t C"
proof -
  have "axis dz t = 0" using axis_less(3) [OF assms(4)] assms(2,3) by (simp add: extent_def)
  then show ?thesis using vectoradd2d_flat [of t] by (simp add: gid_axis)
qed

lemma vaddcall2d_same: "vaddcall2d F W H A B = vectoradd2d F W H A B"
  by (simp add: vaddcall2d_def vectoradd2d_def fun_eq_iff Let_def)

lemma vaddcall3d_same: "vaddcall3d F W H D A B = vectoradd3d F W H D A B"
  by (simp add: vaddcall3d_def vectoradd3d_def fun_eq_iff Let_def)

text \<open>The launches of the programs, with the sizes that the code computes.\<close>

lemma grids:
  "grid1 (dim1 4096) (dim1 256) (2 ^ 20)" "grid1 (dim1 16) (dim1 64) 1024" "grid1 (dim1 1) (dim1 64) 64"
  "grid1 (dim1 256) (dim1 256) (2 ^ 16)" "extent dx (dim1 256) (dim1 256) = 2 ^ 16"
  "grid3 (dims 4 4 1) (dims 16 16 1) 64 64 1" "grid3 (dims 2 2 2) (dims 8 8 4) 16 16 8"
  by (simp_all add: grid1_def grid3_def extent_def dim1_def dims_def)

lemma one_dimensional:
  assumes "hip_works h" "\<exists>a \<in> set (hip_archs h). starts_with ''gfx9'' a" "exact_sums F"
  shows "vectoradd_main F h junk = passed (2 ^ 20)" "vectoradd_mw_main F h junk = passed 1024"
    "vectoradd_small_main F h junk = passed 64" "vaddcall_main F h junk = passed (2 ^ 20)"
    "spillcall_main F h junk = passed (2 ^ 16)"
proof -
  have d: "select_gfx908_device h \<noteq> None" using select_some [OF assms(1,2)] by (simp add: select_gfx908_device_def)
  have e: "((2 :: nat) ^ 20 + 256 - 1) div 256 = 4096" "(1024 + 64 - 1 :: nat) div 64 = 16"
    "(64 + 64 - 1 :: nat) div 64 = 1" "((2 :: nat) ^ 16 + 256 - 1) div 256 = 256" by simp_all
  note p = passes1 [OF assms(1,3) _ d]
  show "vectoradd_main F h junk = passed (2 ^ 20)"
    unfolding vectoradd_main_def Let_def e by (rule p [OF _ grids(1)]) simp_all
  show "vectoradd_mw_main F h junk = passed 1024"
    unfolding vectoradd_mw_main_def Let_def e by (rule p [OF _ grids(2)]) simp_all
  show "vectoradd_small_main F h junk = passed 64"
    unfolding vectoradd_small_main_def Let_def e by (rule p [OF _ grids(3)]) simp_all
  show "vaddcall_main F h junk = passed (2 ^ 20)"
    unfolding vaddcall_main_def Let_def e by (rule p [OF _ grids(1)]) (simp, rule vaddcall_passes [OF assms(3)], simp)
  show "spillcall_main F h junk = passed (2 ^ 16)"
    unfolding spillcall_main_def Let_def e
    by (rule p [OF _ grids(4)], simp, rule spillcall_passes [OF assms(3) _ _ _ grids(4)]) (simp_all add: grids(5))
qed

lemma divergent_one_dimensional:
  assumes "hip_works h" "\<exists>a \<in> set (hip_archs h). starts_with ''gfx908'' a" "exact_sums F"
  shows "divergent_main F h junk = passed (2 ^ 20)"
proof -
  have e: "((2 :: nat) ^ 20 + 256 - 1) div 256 = 4096" by simp
  show ?thesis unfolding divergent_main_def Let_def e
    by (rule passes1 [OF assms(1,3) _ select_some [OF assms(1,2)] grids(1)]) (simp, rule divergent_passes [OF assms(3)], simp)
qed

lemma more_dimensions:
  assumes "hip_works h" "\<exists>a \<in> set (hip_archs h). starts_with ''gfx9'' a" "exact_sums F"
  shows "vectoradd2d_main F h junk = passed 4096" "vaddcall2d_main F h junk = passed 4096"
    "vectoradd3d_main F h junk = passed 2048" "vaddcall3d_main F h junk = passed 2048"
proof -
  have d: "select_gfx908_device h \<noteq> None" using select_some [OF assms(1,2)] by (simp add: select_gfx908_device_def)
  have e: "(64 + 16 - 1 :: nat) div 16 = 4" "(16 + 8 - 1 :: nat) div 8 = 2" "(8 + 4 - 1 :: nat) div 4 = 2"
    "(64 * 64 :: nat) = 4096" "(16 * 16 * 8 :: nat) = 2048" by simp_all
  have z: "dz (dims 4 4 1) = 1" "dz (dims 16 16 1) = 1" by (simp_all add: dims_def)
  note p = passes3 [OF assms(1,3) _ d]
  show two: "vectoradd2d_main F h junk = passed 4096"
    unfolding vectoradd2d_main_def Let_def e
    by (rule p [OF _ grids(6)], simp, simp, rule twod_passes [OF grids(6) z])
  show "vaddcall2d_main F h junk = passed 4096"
    using two unfolding vaddcall2d_main_def vectoradd2d_main_def vaddcall2d_same .
  show three: "vectoradd3d_main F h junk = passed 2048"
    unfolding vectoradd3d_main_def Let_def e by (rule p [OF _ grids(7)]) simp_all
  show "vaddcall3d_main F h junk = passed 2048"
    using three unfolding vaddcall3d_main_def vectoradd3d_main_def vaddcall3d_same .
qed


section \<open>The demos, and the wave a thread belongs to\<close>

lemma bbdemo_passes:
  assumes "hip_works h"
  shows "bbdemo_main h junk = Exited 0 (''PASSED'' @ LF)"
proof -
  let ?in = "map of_nat [0..<64] :: i32 list" and ?f = "\<lambda>k. bb_acc (map of_nat [0..<64] ! k AND 7)"
  have e: "(64 + 63 :: nat) div 64 = 1" by simp
  have o: "set (hip_order h (dim1 1) (dim1 64)) = launchd (dim1 1) (dim1 64) 64 ?in"
    using assms grids(3) by (simp add: hip_works_def launchd_def)
  have "run_threads (bbdemo (of_nat 64) ?in) (hip_order h (dim1 1) (dim1 64)) (map junk [0..<64]) = Some (map ?f [0..<64])"
  proof (rule demo.run_covers [OF o])
    show "\<exists>t \<in> launchd (dim1 1) (dim1 64) 64 ?in. cell1 64 t = Some k \<and> bb_acc (?in ! axis dx t AND 7) = ?f k" if "k < 64" for k
      using cover1 [OF grids(3) _ _ that, of ?in ?in] unfolding launchd_1 by auto
  qed simp
  moreover have "list_all (\<lambda>i. map ?f [0..<64] ! i = bbdemo_ref (?in ! i)) [0..<64]"
    by (simp add: list_all_iff bbdemo_ref_def bb_acc_def Let_def)
  ultimately show ?thesis unfolding bbdemo_main_def Let_def e by simp
qed

lemma bbmw_run:
  assumes "grid1 g b (2 ^ m)" "extent dx g b = 2 ^ m" "2 ^ m \<le> length inp" "set ts = grid_threads g b" "length out = 2 ^ m"
  shows "run_threads (bbmw (of_nat (2 ^ m)) inp) ts out = Some (map (mw_value (2 ^ m) inp) [0..<2 ^ m])"
proof (rule mw.run_covers)
  show "set ts = launchm g b m inp" using assms by (simp add: launchm_def)
  show "\<exists>t \<in> launchm g b m inp. cell1 (2 ^ m) t = Some k \<and> mw_value (2 ^ m) inp (axis dx t) = mw_value (2 ^ m) inp k"
    if "k < 2 ^ m" for k
    using cover1 [OF assms(1,3,3) that] assms by (auto simp: launchm_def launch1_def)
qed (rule assms(5))

lemma bbmw_passes:
  assumes "hip_works h"
  shows "bbmw_main h junk = Exited 0 (''PASSED'' @ LF)"
proof -
  let ?in = "map (\<lambda>i. of_nat i + 1) [0..<512] :: i32 list"
  have e: "(512 :: nat) div 64 = 8" and p: "(512 :: nat) = 2 ^ 9" by simp_all
  have g: "grid1 (dim1 8) (dim1 64) (2 ^ 9)" "extent dx (dim1 8) (dim1 64) = 2 ^ 9"
    by (simp_all add: grid1_def extent_def dim1_def)
  have o: "set (hip_order h (dim1 8) (dim1 64)) = grid_threads (dim1 8) (dim1 64)"
    using assms by (simp add: hip_works_def)
  have "run_threads (bbmw (of_nat 512) ?in) (hip_order h (dim1 8) (dim1 64)) (map junk [0..<512]) =
      Some (map (mw_value 512 ?in) [0..<512])"
    using bbmw_run [OF g _ o, of ?in "map junk [0..<512]"] by simp
  moreover have "list_all (\<lambda>i. Some (map (mw_value 512 ?in) [0..<512] ! i) = bbmw_ref (of_nat i) ?in (of_nat 512)) [0..<512]"
    using bbmw_ref_value [of 9 _ ?in] by (simp add: list_all_iff)
  ultimately show ?thesis unfolding bbmw_main_def Let_def e by simp
qed

text \<open>The context that a probe sees in a lane of the wave of a thread.\<close>

definition probe_ctx :: "dim3 \<Rightarrow> u64 \<Rightarrow> nat \<Rightarrow> thread \<Rightarrow> wave_ctx" where
  "probe_ctx g e l t = \<lparr>cx_exec = e, cx_lane = l, cx_blockDim = th_blockDim t, cx_blockIdx = th_blockIdx t,
     cx_gridDim = g, cx_threadIdx = th_threadIdx t\<rparr>"

lemma waves_1d:
  assumes "grid1 g b n" "t \<in> grid_threads g b" "64 dvd unat (dx b)"
  shows "unat (global_wavefront_id (probe_ctx g e l t)) = axis dx t div 64"
proof -
  let ?cx = "probe_ctx g e l t"
  have b: "th_blockDim t = b" and i: "in_dims (th_blockIdx t) g" "in_dims (th_threadIdx t) b"
    using assms(2) by (auto simp: grid_threads_def)
  have one: "dy g = 1" "dz g = 1" "dy b = 1" "dz b = 1" "extent dx g b < 2 ^ 31" using assms(1) by (auto simp: grid1_def)
  have z: "dy (th_blockIdx t) = 0" "dz (th_blockIdx t) = 0" "dy (th_threadIdx t) = 0" "dz (th_threadIdx t) = 0"
    using i one by (auto simp: in_dims_def word_less_nat_alt unat_eq_0)
  obtain k where k: "unat (dx b) = 64 * k" using assms(3) by blast
  have pos: "0 < unat (dx g)" using i(1) by (auto simp: in_dims_def word_less_nat_alt)
  have B: "block_threads ?cx = 64 * k" and G: "grid_blocks ?cx = unat (dx g)" and W: "waves_per_block ?cx = k"
    using k one b by (simp_all add: probe_ctx_def block_threads_def grid_blocks_def waves_per_block_def)
  have x: "unat (dx g) * (64 * k) < 2 ^ 31" using one(5) k by (simp add: extent_def)
  have "64 * k \<le> unat (dx g) * (64 * k)" "unat (dx g) * k \<le> unat (dx g) * (64 * k)" using pos by simp_all
  with x have "64 * k < 2 ^ 31" "unat (dx g) * k < 2 ^ 31" by linarith+
  then have "launch_fits ?cx" using i b unfolding launch_fits_def B G W by (simp add: probe_ctx_def)
  note w = wavefront_id_nat(1) [OF this]
  have "linear3 (th_blockIdx t) g = unat (dx (th_blockIdx t))" "linear3 (th_threadIdx t) b = unat (dx (th_threadIdx t))"
    using z by (simp_all add: linear3_def)
  then have "unat (global_wavefront_id ?cx) = unat (dx (th_blockIdx t)) * k + unat (dx (th_threadIdx t)) div 64"
    unfolding w W by (simp add: probe_ctx_def b)
  also have "\<dots> = axis dx t div 64" using b k by (simp add: axis_def mult.left_commute)
  finally show ?thesis .
qed


lemma wave_number:
  assumes "grid1 g b n" "t \<in> grid_threads g b" "64 dvd unat (dx b)"
  shows "signed_drop_bit 6 (gid_x t) = global_wavefront_id (probe_ctx g e l t)"
proof -
  have "axis dx t < 2 ^ 31" using axis_less(1) [OF assms(2)] assms(1) by (simp add: grid1_def)
  then have "signed_drop_bit 6 (gid_x t) = of_nat (axis dx t div 64)" unfolding gid_axis by (rule wave_of_thread)
  also have "\<dots> = global_wavefront_id (probe_ctx g e l t)"
    unfolding waves_1d [OF assms, of e l, symmetric] by simp
  finally show ?thesis .
qed

section \<open>A concrete platform\<close>

text \<open>Threads block by block, row by row; exact arithmetic on integers.\<close>

definition coords :: "dim3 \<Rightarrow> dim3 list" where
  "coords d = [\<lparr>dx = of_nat x, dy = of_nat y, dz = of_nat z\<rparr>.
     z \<leftarrow> [0..<unat (dz d)], y \<leftarrow> [0..<unat (dy d)], x \<leftarrow> [0..<unat (dx d)]]"

definition row_major :: "dim3 \<Rightarrow> dim3 \<Rightarrow> thread list" where
  "row_major g b = [\<lparr>th_blockDim = b, th_blockIdx = p, th_threadIdx = q\<rparr>. p \<leftarrow> coords g, q \<leftarrow> coords b]"

definition exact_int :: "int farith" where
  "exact_int = \<lparr>f_add = (+), f_sub = (-), f_mul = (*), f_of_int = id, f_ne = (\<noteq>), f_show = (\<lambda>_. [])\<rparr>"

definition demo_hip :: hip where
  "demo_hip = \<lparr>hip_archs = [''gfx900'', ''gfx908:sramecc+:xnack-''], hip_fails = (\<lambda>_. False), hip_order = row_major\<rparr>"

lemma word_upt: "(\<exists>i < unat (n :: u32). x = of_nat i) \<longleftrightarrow> x < n"
proof
  assume "x < n"
  then show "\<exists>i < unat n. x = of_nat i" by (intro exI [of _ "unat x"]) (simp add: word_less_nat_alt)
next
  assume "\<exists>i < unat n. x = of_nat i"
  then obtain i where i: "i < unat n" "x = of_nat i" by blast
  moreover have "i < 2 ^ 32" by (rule order.strict_trans [OF i(1)]) (rule order.strict_trans2 [OF unsigned_less], simp)
  ultimately show "x < n" by (simp only: word_less_nat_alt unat_small)
qed

lemma set_coords: "set (coords d) = {i. in_dims i d}"
proof (rule set_eqI)
  fix i :: dim3
  have "i \<in> set (coords d) \<longleftrightarrow> (\<exists>x < unat (dx d). dx i = of_nat x) \<and> (\<exists>y < unat (dy d). dy i = of_nat y) \<and>
      (\<exists>z < unat (dz d). dz i = of_nat z)"
  proof -
    have "i \<in> set (coords d) \<longleftrightarrow> (\<exists>z < unat (dz d). \<exists>y < unat (dy d). \<exists>x < unat (dx d).
        i = \<lparr>dx = of_nat x, dy = of_nat y, dz = of_nat z\<rparr>)"
      unfolding coords_def by auto (blast, rule bexI, rule bexI, rule image_eqI, rule refl, simp_all)
    also have "\<dots> \<longleftrightarrow> (\<exists>x < unat (dx d). dx i = of_nat x) \<and> (\<exists>y < unat (dy d). dy i = of_nat y) \<and>
        (\<exists>z < unat (dz d). dz i = of_nat z)"
      by (cases i) auto
    finally show ?thesis .
  qed
  then show "i \<in> set (coords d) \<longleftrightarrow> i \<in> {i. in_dims i d}" by (simp add: word_upt in_dims_def)
qed

lemma set_row_major: "set (row_major g b) = grid_threads g b"
proof (rule set_eqI)
  show "t \<in> set (row_major g b) \<longleftrightarrow> t \<in> grid_threads g b" for t :: thread
    by (cases t) (auto simp: row_major_def set_coords grid_threads_def)
qed

lemma demo_hip_works: "hip_works demo_hip"
  by (simp add: hip_works_def demo_hip_def set_row_major)

lemma exact_int_sums: "exact_sums exact_int"
proof -
  have "(\<lambda>x. x + 3) ^^ k = (\<lambda>x. x + 3 * int k)" for k by (induction k) (auto simp: fun_eq_iff)
  then show ?thesis by (auto simp: exact_sums_def exact_sum_def exact_zero_def exact_int_def)
qed

section \<open>The properties\<close>

text \<open>
  C37: On a platform where no call fails and every launch runs each thread of its grid, in any order
  and with any contents of the output array before, with a \<open>gfx908\<close> among the devices and exact
  sums, every addition program prints \<open>PASSED\<close> with its number of elements and exits with 0, and so
  do the two block-counter demos. No access is outside an array.
\<close>

theorem mutatees_pass:
  assumes "hip_works h" "\<exists>a \<in> set (hip_archs h). starts_with ''gfx908'' a" "exact_sums F"
  shows "vectoradd_main F h junk = passed (2 ^ 20) \<and> vectoradd_mw_main F h junk = passed 1024 \<and>
    vectoradd_small_main F h junk = passed 64 \<and> vaddcall_main F h junk = passed (2 ^ 20) \<and>
    spillcall_main F h junk = passed (2 ^ 16) \<and> divergent_main F h junk = passed (2 ^ 20) \<and>
    vectoradd2d_main F h junk = passed 4096 \<and> vaddcall2d_main F h junk = passed 4096 \<and>
    vectoradd3d_main F h junk = passed 2048 \<and> vaddcall3d_main F h junk = passed 2048 \<and>
    bbdemo_main h junk' = Exited 0 (''PASSED'' @ LF) \<and> bbmw_main h junk' = Exited 0 (''PASSED'' @ LF)"
proof -
  have "\<exists>a \<in> set (hip_archs h). starts_with ''gfx9'' a"
    using assms(2) by (auto simp: starts_with_iff)
  note one_dimensional [OF assms(1) this assms(3)] more_dimensions [OF assms(1) this assms(3)]
    divergent_one_dimensional [OF assms] bbdemo_passes [OF assms(1)] bbmw_passes [OF assms(1)]
  then show ?thesis by (intro conjI)
qed

lemma mutatees_pass_witness:
  "vectoradd_main exact_int demo_hip (\<lambda>_. 7) = passed (2 ^ 20) \<and>
   bbmw_main demo_hip (\<lambda>_. 7) = Exited 0 (''PASSED'' @ LF)"
  using mutatees_pass [of demo_hip exact_int "\<lambda>_. 7" "\<lambda>_. 7", OF demo_hip_works _ exact_int_sums]
  by (simp add: demo_hip_def)

text \<open>
  C38: \<open>vectoradd3d\<close> for all sizes and blocks that cover them, as long as indices fit in an int: in
  every order of the threads, each element of the output is the sum of the elements of the inputs,
  and threads outside the array touch nothing.
\<close>

theorem vectoradd3d_any_order:
  assumes "grid3 g b W H D" "D * H * W \<le> length A" "D * H * W \<le> length B" "length C = D * H * W"
    and "set ts = grid_threads g b"
  shows "run_threads (vectoradd3d F (of_nat W) (of_nat H) (of_nat D) A B) ts C =
    Some (map (\<lambda>k. f_add F (A ! k) (B ! k)) [0..<D * H * W])"
proof (rule add3.run_covers)
  show "set ts = launch3 g b W H D A B" using assms by (simp add: launch3_def)
  show "\<exists>t \<in> launch3 g b W H D A B. cell3 W H D t = Some k \<and>
      f_add F (A ! flat3 W H t) (B ! flat3 W H t) = f_add F (A ! k) (B ! k)" if "k < D * H * W" for k
    using cover3 [OF assms(1-3) that] by auto
qed (rule assms(4))

lemma vectoradd3d_any_order_witness:
  "run_threads (vectoradd3d exact_int 3 2 2 [1..12] [21..32]) (rev (row_major (dims 2 1 2) (dims 2 2 1))) (replicate 12 0) =
    Some [22, 24, 26, 28, 30, 32, 34, 36, 38, 40, 42, 44]"
proof -
  have g: "grid3 (dims 2 1 2) (dims 2 2 1) 3 2 2" by (simp add: grid3_def extent_def dims_def)
  show ?thesis
    using vectoradd3d_any_order [OF g, of "[1..12]" "[21..32]" "replicate 12 0"
      "rev (row_major (dims 2 1 2) (dims 2 2 1))" exact_int]
    by (simp add: set_row_major exact_int_def upt_conv_Cons upto_rec1 upto_rec2)
qed

text \<open>
  C39: \<open>bbmw\<close> on \<open>2\<^sup>m\<close> elements, with blocks of whole waves: every order of the threads gives the same
  array, the host's own values, and each thread goes through the loop \<open>wid + 1\<close> times for the \<open>wid\<close>
  that \<open>global_wavefront_id\<close> gives the probes of its wave, whatever their lane and mask.
\<close>

theorem bbmw_by_wave:
  assumes "grid1 g b (2 ^ m)" "extent dx g b = 2 ^ m" "2 ^ m \<le> length inp" "length out = 2 ^ m"
    and "set ts = grid_threads g b" "64 dvd unat (dx b)"
  shows "(\<exists>res. run_threads (bbmw (of_nat (2 ^ m)) inp) ts out = Some res \<and> length res = 2 ^ m \<and>
      (\<forall>i < 2 ^ m. bbmw_ref (of_nat i) inp (of_nat (2 ^ m)) = Some (res ! i))) \<and>
    (\<forall>t \<in> grid_threads g b. \<forall>e l.
      length (up_to (signed_drop_bit 6 (gid_x t))) = unat (global_wavefront_id (probe_ctx g e l t)) + 1)"
proof (intro conjI ballI allI)
  have m: "m < 31"
  proof (rule ccontr)
    assume "\<not> m < 31"
    then have "(2 :: nat) ^ 31 \<le> 2 ^ m" by (intro power_increasing) simp_all
    with grid1_small [OF assms(1)] show False by simp
  qed
  show "\<exists>res. run_threads (bbmw (of_nat (2 ^ m)) inp) ts out = Some res \<and> length res = 2 ^ m \<and>
      (\<forall>i < 2 ^ m. bbmw_ref (of_nat i) inp (of_nat (2 ^ m)) = Some (res ! i))"
    using bbmw_run [OF assms(1,2,3,5,4)] bbmw_ref_value [OF m _ assms(3)] by simp
next
  fix t e l
  assume t: "t \<in> grid_threads g b"
  have "axis dx t < 2 ^ 31" using axis_less(1) [OF t] assms(1) by (simp add: grid1_def)
  then have p: "axis dx t div 64 < 2 ^ 31 - 1" "axis dx t div 64 < 2 ^ 31" by simp_all
  have w: "unat (global_wavefront_id (probe_ctx g e l t)) = axis dx t div 64" by (rule waves_1d [OF assms(1) t assms(6)])
  then have "signed_drop_bit 6 (gid_x t) = of_nat (axis dx t div 64)"
    unfolding wave_number [OF assms(1) t assms(6), of e l] by (metis of_nat_unat ucast_id)
  then show "length (up_to (signed_drop_bit 6 (gid_x t))) = unat (global_wavefront_id (probe_ctx g e l t)) + 1"
    unfolding w by (simp only: up_to_nat [OF p(1)] length_map length_upt)
qed

lemma bbmw_by_wave_witness:
  "length (up_to (signed_drop_bit 6 (gid_x
      \<lparr>th_blockDim = dim1 64, th_blockIdx = \<lparr>dx = 5, dy = 0, dz = 0\<rparr>, th_threadIdx = \<lparr>dx = 9, dy = 0, dz = 0\<rparr>\<rparr>))) =
    unat (global_wavefront_id (probe_ctx (dim1 8) 1 0
      \<lparr>th_blockDim = dim1 64, th_blockIdx = \<lparr>dx = 5, dy = 0, dz = 0\<rparr>, th_threadIdx = \<lparr>dx = 9, dy = 0, dz = 0\<rparr>\<rparr>)) + 1"
    (is "length (up_to (signed_drop_bit 6 (gid_x ?t))) = _")
proof -
  have "grid1 (dim1 8) (dim1 64) (2 ^ 9)" "extent dx (dim1 8) (dim1 64) = 2 ^ 9" "64 dvd unat (dx (dim1 64))"
    by (simp_all add: grid1_def extent_def dim1_def)
  moreover have "?t \<in> grid_threads (dim1 8) (dim1 64)" by (simp add: grid_threads_def in_dims_def dim1_def)
  ultimately show ?thesis
    using bbmw_by_wave [of "dim1 8" "dim1 64" 9 "replicate 512 1" "replicate 512 0" "row_major (dim1 8) (dim1 64)"]
    by (simp add: set_row_major del: length_map)
qed

section \<open>What the checks do not see\<close>

text \<open>\<open>twokernels\<close> prints \<open>PASSED\<close> and exits with 0 whatever the launch left in the array.\<close>

lemma twokernels_always_passes:
  "twokernels_main F h junk = Exited c s \<Longrightarrow> c = 0 \<and> (\<exists>p. s = p @ ''PASSED'' @ LF)"
  by (auto simp: twokernels_main_def Let_def split: option.splits if_splits)

text \<open>\<open>twoco\<close> compares, and exits with 0 all the same.\<close>

lemma twoco_always_exits_0: "twoco_main F h junk = Exited c s \<Longrightarrow> c = 0"
  by (auto simp: twoco_main_def Let_def split: option.splits if_splits)

text \<open>The addition programs take the first \<open>gfx9\<close> device: where device 0 is a \<open>gfx900\<close>, that one.\<close>

lemma gfx900_is_selected:
  "\<not> hip_fails h HipGetDeviceCount \<Longrightarrow> \<not> hip_fails h (HipGetDeviceProperties 0) \<Longrightarrow>
    hip_archs h = ''gfx900'' # ''gfx908'' # as \<Longrightarrow> select_gfx908_device h = Some 0"
  by (simp add: select_gfx908_device_def select_device_def)

end
