(* ===== verification/Probes.thy ===== *)
theory Probes
  imports Kernels "HOL-Library.Multiset"
begin

text \<open>
  The earlier experiments of \<open>archive/\<close> and the tracing shim \<open>tools/probe/loadtrace.cpp\<close>: the
  block counter \<open>count_inst\<close>, the kernels that pinned scratch memory, the call convention and
  function pointers, and the interposers that log the loading of code objects. Device functions
  take what they read of the thread as arguments; an access outside an array is \<open>None\<close>.
\<close>

section \<open>The block counter\<close>

text \<open>\<open>__ballot(1)\<close> is the EXEC mask; \<open>__ffsll\<close> counts from 1; \<open>__popcll\<close> counts the set bits.\<close>

definition ffsll :: "u64 \<Rightarrow> nat" where
  "ffsll x = (case find (bit x) [0..<64] of None \<Rightarrow> 0 | Some i \<Rightarrow> Suc i)"

definition popcll :: "u64 \<Rightarrow> nat" where
  "popcll x = length (filter (bit x) [0..<64])"

definition count_inst :: "u64 \<Rightarrow> nat \<Rightarrow> u64 \<Rightarrow> u64" where
  "count_inst ex lane g_inst_count =
     (let active = ex in
      if active = 0 then g_inst_count
      else (let leader = ffsll active - 1 in
        if lane = leader then g_inst_count + of_nat (popcll active) else g_inst_count))"

definition active_lanes :: "u64 \<Rightarrow> nat list" where
  "active_lanes ex = filter (bit ex) [0..<64]"

text \<open>One execution of a block: each active lane of the wave calls \<open>count_inst\<close> once.\<close>

definition block_calls :: "u64 \<Rightarrow> (u64 \<times> nat) list" where
  "block_calls ex = map (Pair ex) (active_lanes ex)"

definition added :: "u64 \<times> nat \<Rightarrow> u64" where
  "added c = count_inst (fst c) (snd c) 0"

lemma count_inst_adds: "count_inst ex lane g = g + added (ex, lane)"
  by (simp add: count_inst_def added_def Let_def)

lemma fold_count_inst: "fold (\<lambda>(ex, lane). count_inst ex lane) cs g = g + sum_list (map added cs)"
  by (induction cs arbitrary: g) (auto simp: count_inst_adds add.assoc)

lemma leader_unique:
  assumes "ex \<noteq> 0"
  shows "(\<Sum>c \<leftarrow> block_calls ex. added c) = of_nat (popcll ex)"
proof -
  let ?L = "active_lanes ex"
  have "\<exists>i < 64. bit ex i"
  proof (rule ccontr)
    assume "\<not> (\<exists>i < 64. bit ex i)"
    then have "ex = 0" by (intro bit_word_eqI) auto
    with assms show False by simp
  qed
  then obtain i where i: "find (bit ex) [0..<64] = Some i"
    using find_None_iff [of "bit ex" "[0..<64]"] by (cases "find (bit ex) [0..<64]") auto
  then have m: "i \<in> set ?L" by (auto simp: find_Some_iff active_lanes_def)
  have a: "added (ex, l) = (if l = i then of_nat (popcll ex) else 0)" for l
    using assms i by (simp add: added_def count_inst_def Let_def ffsll_def)
  have "(\<Sum>c \<leftarrow> block_calls ex. added c) = (\<Sum>l \<leftarrow> ?L. if l = i then of_nat (popcll ex) else 0)"
    by (simp add: block_calls_def comp_def a)
  also have "\<dots> = (\<Sum>l \<in> set ?L. if l = i then of_nat (popcll ex) else 0)"
    by (rule sum_list_distinct_conv_sum_set) (simp add: active_lanes_def)
  also have "\<dots> = of_nat (popcll ex)" using m by simp
  finally show ?thesis .
qed

text \<open>
  The counter after any interleaving of the calls of any executions is the number of lanes that
  executed a block, modulo \<open>2\<^sup>64\<close>: one atomic addition per wave stands for all its lanes.
\<close>

theorem count_inst_counts_lanes:
  assumes "mset cs = mset (concat (map block_calls execs))"
  shows "fold (\<lambda>(ex, lane). count_inst ex lane) cs 0 = of_nat (\<Sum>ex \<leftarrow> execs. length (active_lanes ex))"
proof -
  have b: "(\<Sum>c \<leftarrow> block_calls ex. added c) = of_nat (length (active_lanes ex))" for ex
  proof (cases "ex = 0")
    case True
    then show ?thesis by (simp add: block_calls_def active_lanes_def)
  qed (simp add: leader_unique popcll_def active_lanes_def)
  have "sum_list (map added cs) = sum_list (map added (concat (map block_calls execs)))"
    using assms by (metis mset_map sum_mset_sum_list)
  also have "\<dots> = of_nat (\<Sum>ex \<leftarrow> execs. length (active_lanes ex))"
    by (induction execs) (simp_all add: b)
  finally show ?thesis by (simp add: fold_count_inst)
qed


section \<open>Scratch memory\<close>

text \<open>\<open>scratch_probe\<close>: 96 volatile ints, read back in the order that \<open>sel\<close> and the mask 95 give.\<close>

fun probe_sum :: "i32 list \<Rightarrow> i32 \<Rightarrow> nat list \<Rightarrow> i32 \<Rightarrow> i32 option" where
  "probe_sum buf sel [] acc = Some acc"
| "probe_sum buf sel (i # is) acc = do { v \<leftarrow> rd buf (sint ((of_nat i + sel) AND 95)); probe_sum buf sel is (acc + v) }"

definition scratch_probe :: "i32 \<Rightarrow> i32 \<Rightarrow> i32 list \<Rightarrow> thread \<Rightarrow> i32 list \<Rightarrow> i32 list option" where
  "scratch_probe n sel inp th out =
     (let t = dx (th_threadIdx th) + dx (th_blockIdx th) * dx (th_blockDim th) in do {
        v \<leftarrow> rd inp (sint t);
        let buf = map (\<lambda>i. v + of_nat i * n) [0..<96];
        acc \<leftarrow> probe_sum buf sel [0..<96] 0;
        wr out (sint t) acc })"

text \<open>The call convention: \<open>bar\<close>, \<open>foo\<close> and their kernel, with \<open>threadIdx.x\<close> and \<open>blockIdx.x\<close>.\<close>

definition bar :: "i32 \<Rightarrow> i32 \<Rightarrow> i32" where
  "bar tid x = x * 3 + tid"

definition foo :: "i32 \<Rightarrow> i32 \<Rightarrow> i32 \<Rightarrow> i32 \<Rightarrow> i32" where
  "foo tid bid a b = (let s = bar tid a + bar tid b in s + bid)"

definition callabi_k :: "i32 \<Rightarrow> thread \<Rightarrow> i32 list \<Rightarrow> i32 list option" where
  "callabi_k n th out =
     (let t = dx (th_threadIdx th); r = foo t (dx (th_blockIdx th)) t n in wr out (sint t) (r + t))"

text \<open>The frames of \<open>framesize.cpp\<close>: an array of \<open>k\<close> ints \<open>x, x + 1, \<dots>\<close> in each.\<close>

definition frame :: "nat \<Rightarrow> i32 \<Rightarrow> i32 list" where
  "frame k x = map (\<lambda>i. x + of_nat i) [0..<k]"

definition leaf_small :: "i32 \<Rightarrow> i32 \<Rightarrow> i32" where
  "leaf_small tid x = x * 3 + tid"

definition frame_small :: "i32 \<Rightarrow> i32 \<Rightarrow> i32" where
  "frame_small tid x = leaf_small tid x + leaf_small tid (x + 1)"

definition frame_big :: "i32 \<Rightarrow> i32 \<Rightarrow> i32" where
  "frame_big tid x = fold (\<lambda>i s. s + frame 64 x ! i * leaf_small tid (of_nat i)) [0..<64] 0"

definition d3 :: "i32 \<Rightarrow> i32 \<Rightarrow> i32 option" where
  "d3 tid x = do { v \<leftarrow> rd (frame 8 x) (sint (x AND 7)); Some (v + tid) }"

definition d2 :: "i32 \<Rightarrow> i32 \<Rightarrow> i32 option" where
  "d2 tid x = do { v \<leftarrow> rd (frame 8 x) (sint (x AND 7)); r \<leftarrow> d3 tid x; Some (v + r) }"

definition d1 :: "i32 \<Rightarrow> i32 \<Rightarrow> i32 option" where
  "d1 tid x = do { v \<leftarrow> rd (frame 8 x) (sint (x AND 7)); r \<leftarrow> d2 tid x; Some (v + r) }"

lemma positive_pred: "0 < sint (x :: i32) \<Longrightarrow> sint (x - 1) = sint x - 1"
proof -
  assume x: "0 < sint x"
  have s: "sint x < 2 ^ 31" using sint_less [of x] by simp
  have "x - 1 = of_nat (nat (sint x - 1))" using x by (simp add: of_nat_nat)
  then show ?thesis using sint_of_nat_small [of "nat (sint x - 1)"] x s by simp
qed

function rec_frames :: "i32 \<Rightarrow> i32 option" where
  "rec_frames x = (if sint x \<le> 0 then Some 0
     else do { v \<leftarrow> rd (frame 8 x) (sint (x AND 7)); r \<leftarrow> rec_frames (x - 1); Some (v + r) })"
  by auto
termination by (relation "measure (\<lambda>x. nat (sint x))") (auto simp: positive_pred)

declare rec_frames.simps [simp del]

lemma frame_read: "rd (frame 8 x) (sint (x AND 7)) = Some (x + (x AND 7))"
proof -
  have l: "nat (sint (x AND 7)) < 8" "0 \<le> sint (x AND 7)" using low_bits(3,4) [of x] by simp_all
  then have "x AND 7 = of_nat (nat (sint (x AND 7)))" by (simp add: of_nat_nat)
  with l show ?thesis by (simp add: rd_def frame_def)
qed

text \<open>No frame is left, the recursion returns for every argument, and the depth is the argument.\<close>

lemma deep_value: "d1 tid x = Some (3 * (x + (x AND 7)) + tid)"
  by (simp add: d1_def d2_def d3_def frame_read algebra_simps)

lemma rec_value: "m < 2 ^ 31 \<Longrightarrow> rec_frames (of_nat m) = Some (\<Sum>k \<leftarrow> [1..<Suc m]. of_nat k + (of_nat k AND 7))"
proof (induction m)
  case 0
  show ?case by (subst rec_frames.simps) simp
next
  case (Suc m)
  have s: "sint (of_nat (Suc m) :: i32) = int (Suc m)" using Suc.prems by (intro sint_of_nat_small) simp
  have "(of_nat (Suc m) :: i32) - 1 = of_nat m" by simp
  then show ?case
    by (subst rec_frames.simps) (use s Suc in \<open>simp add: frame_read add.commute\<close>)
qed

lemma and_95: "0 \<le> sint (x AND 95 :: i32) \<and> sint (x AND 95 :: i32) < 96"
proof -
  have "x AND 95 \<le> 95" by (rule word_and_le1)
  then have u: "unat (x AND 95) \<le> 95" by (simp add: word_le_nat_alt)
  then have "sint (of_nat (unat (x AND 95)) :: i32) = int (unat (x AND 95))" by (intro sint_of_nat_small) simp
  then have "sint (x AND 95) = int (unat (x AND 95))" by simp
  with u show ?thesis by linarith
qed

text \<open>Every read of \<open>scratch_probe\<close> is inside its frame, for all selections.\<close>

lemma scratch_probe_sum:
  "probe_sum (map (\<lambda>i. v + of_nat i * n) [0..<96]) sel is acc =
    Some (acc + (\<Sum>i \<leftarrow> is. v + ((of_nat i + sel) AND 95) * n))"
proof (induction "is" arbitrary: acc)
  case (Cons i "is")
  let ?k = "(of_nat i + sel) AND 95 :: i32"
  have "rd (map (\<lambda>i. v + of_nat i * n) [0..<96]) (sint ?k) = Some (v + ?k * n)"
    using and_95 [of "of_nat i + sel"] by (auto simp: rd_def of_nat_nat)
  with Cons show ?case by (simp add: add.assoc)
qed simp

text \<open>With one block, \<open>callabi_k\<close> stores \<open>6 t + 3 n\<close> in cell \<open>t\<close>; threads of other blocks share the cell.\<close>

lemma callabi_value:
  assumes "sint (dx (th_threadIdx th)) = int t" "t < length out"
  shows "callabi_k n th out = Some (out[t := 6 * dx (th_threadIdx th) + 3 * n + dx (th_blockIdx th)])"
  using assms by (simp add: callabi_k_def Let_def foo_def bar_def algebra_simps)

section \<open>Function pointers and calls\<close>

definition g_table :: "'f farith \<Rightarrow> ('f \<Rightarrow> 'f) list" where
  "g_table F = [\<lambda>x. f_add F (f_mul F x (f_of_int F 3)) (f_of_int F 1), \<lambda>x. f_add F x (f_of_int F 9)]"

definition fnptr_k :: "'f farith \<Rightarrow> i32 \<Rightarrow> 'f \<Rightarrow> thread \<Rightarrow> 'f list \<Rightarrow> 'f list option" where
  "fnptr_k F sel v th out = do {
     f \<leftarrow> rd (g_table F) (sint (sel AND 1));
     let r = f_add F (f v) (f_sub F v (f_of_int F 2));
     wr out (sint (dx (th_threadIdx th))) r }"

definition callee :: "'f farith \<Rightarrow> 'f \<Rightarrow> 'f" where
  "callee F x = f_add F (f_mul F x (f_of_int F 2)) (f_of_int F 1)"

definition nontail :: "'f farith \<Rightarrow> 'f \<Rightarrow> 'f" where
  "nontail F x = f_add F (callee F x) (f_of_int F 3)"

definition tailcall_k2 :: "'f farith \<Rightarrow> 'f \<Rightarrow> thread \<Rightarrow> 'f list \<Rightarrow> 'f list option" where
  "tailcall_k2 F v th out = wr out (sint (dx (th_threadIdx th))) (f_add F (callee F v) (nontail F v))"

definition directcall_kd :: "'f farith \<Rightarrow> 'f \<Rightarrow> thread \<Rightarrow> 'f list \<Rightarrow> 'f list option" where
  "directcall_kd F v th out =
     (let r = f_add F v (f_of_int F 1) in wr out (sint (dx (th_threadIdx th))) (f_mul F r (f_of_int F 2)))"

text \<open>The mutatee whose table of device functions is changed on the device before the call.\<close>

datatype device_fn = FnA | FnB | FnC

definition fn_array :: "device_fn list" where
  "fn_array = [FnA, FnB, FnB]"

definition load_fn_ptr :: "'f farith \<Rightarrow> 'f list \<Rightarrow> device_fn list \<Rightarrow> ('f list \<times> device_fn list) option" where
  "load_fn_ptr F v fns = do {
     v \<leftarrow> wr v 0 (f_of_int F 0); v \<leftarrow> wr v 1 (f_of_int F 1); v \<leftarrow> wr v 2 (f_of_int F 2);
     fns \<leftarrow> wr fns 2 FnC;
     Some (v, fns) }"

definition call_fn :: "'f list \<Rightarrow> device_fn list \<Rightarrow> int \<Rightarrow> (device_fn \<times> 'f) option" where
  "call_fn v fns i = do { f \<leftarrow> rd fns i; x \<leftarrow> rd v i; Some (f, x) }"

definition mutatee_main :: "'f farith \<Rightarrow> 'f list \<Rightarrow> (device_fn \<times> 'f) option" where
  "mutatee_main F junk = do { (v, fns) \<leftarrow> load_fn_ptr F junk fn_array; call_fn v fns 2 }"

lemma mutatee_calls_C: "length junk = 3 \<Longrightarrow> mutatee_main F junk = Some (FnC, f_of_int F 2)"
  by (simp add: mutatee_main_def load_fn_ptr_def call_fn_def fn_array_def wr_def rd_def nth_list_update)

lemma fnptr_selects:
  assumes "sint (dx (th_threadIdx th)) = int t" "t < length out"
  shows "fnptr_k F sel v th out = Some (out[t := f_add F ((g_table F ! (if odd sel then 1 else 0)) v) (f_sub F v (f_of_int F 2))])"
  using assms by (simp add: fnptr_k_def and_one_eq mod_2_eq_odd g_table_def rd_def Let_def)


section \<open>Tracing the loader\<close>

text \<open>
  The interposers of \<open>loadtrace.cpp\<close>: each looks up the real function, calls it with its own
  arguments, logs them with what came back, and returns the status. The real runtime is a
  parameter, \<open>None\<close> where \<open>dlsym\<close> finds nothing; the handle that a call stores is the second
  component of its answer. A null output pointer is logged as handle 0.
\<close>

datatype hsa_load_call =
    ExecutableCreateAlt nat nat "string option" bool
  | ExecutableCreate nat nat "string option" bool
  | ReaderFromMemory nat nat bool
  | ReaderFromFile int bool
  | LoadAgentCodeObject nat nat nat "string option"
  | LoadProgramCodeObject nat nat "string option"
  | ExecutableFreeze nat "string option"

fun hsa_name :: "hsa_load_call \<Rightarrow> string" where
  "hsa_name (ExecutableCreateAlt p r opt e) = ''hsa_executable_create_alt''"
| "hsa_name (ExecutableCreate p st opt e) = ''hsa_executable_create''"
| "hsa_name (ReaderFromMemory d n r) = ''hsa_code_object_reader_create_from_memory''"
| "hsa_name (ReaderFromFile fd r) = ''hsa_code_object_reader_create_from_file''"
| "hsa_name (LoadAgentCodeObject e a r opt) = ''hsa_executable_load_agent_code_object''"
| "hsa_name (LoadProgramCodeObject e r opt) = ''hsa_executable_load_program_code_object''"
| "hsa_name (ExecutableFreeze e opt) = ''hsa_executable_freeze''"

text \<open>A line: what it is about, the numbers it prints, the options where it prints them.\<close>

datatype trace_line = DlsymMiss string | Traced string "int list" "string option"

fun logged :: "hsa_load_call \<Rightarrow> int \<Rightarrow> nat \<Rightarrow> trace_line" where
  "logged (ExecutableCreateAlt p r opt e) s h =
     Traced ''hsa_executable_create_alt'' [if e then int h else 0, s] (Some (case opt of None \<Rightarrow> [] | Some x \<Rightarrow> x))"
| "logged (ExecutableCreate p st opt e) s h = Traced ''hsa_executable_create'' [if e then int h else 0, s] None"
| "logged (ReaderFromMemory d n r) s h = Traced ''co_reader_create_from_memory'' [int d, int n, if r then int h else 0, s] None"
| "logged (ReaderFromFile fd r) s h = Traced ''co_reader_create_from_file'' [fd, if r then int h else 0, s] None"
| "logged (LoadAgentCodeObject e a r opt) s h =
     Traced ''load_agent_code_object'' [int e, int a, int r, s] (Some (case opt of None \<Rightarrow> [] | Some x \<Rightarrow> x))"
| "logged (LoadProgramCodeObject e r opt) s h = Traced ''load_PROGRAM_code_object'' [int e, int r, s] None"
| "logged (ExecutableFreeze e opt) s h = Traced ''hsa_executable_freeze'' [int e, s] None"

text \<open>The answer is \<open>None\<close> where the null function pointer is called.\<close>

definition interpose :: "(string \<Rightarrow> (hsa_load_call \<Rightarrow> int \<times> nat) option) \<Rightarrow> hsa_load_call \<Rightarrow> (int \<times> nat) option \<times> trace_line list" where
  "interpose dlsym c =
     (case dlsym (hsa_name c) of None \<Rightarrow> (None, [DlsymMiss (hsa_name c)])
      | Some real \<Rightarrow> (case real c of (s, h) \<Rightarrow> (Some (s, h), [logged c s h])))"

text \<open>The shim is transparent, and logs one line per call; a missing function is reported, then called.\<close>

lemma interpose_transparent:
  "dlsym (hsa_name c) = Some real \<Longrightarrow> fst (interpose dlsym c) = Some (real c) \<and> length (snd (interpose dlsym c)) = 1"
  by (simp add: interpose_def split: prod.split)

lemma interpose_missing_crashes:
  "dlsym (hsa_name c) = None \<Longrightarrow> interpose dlsym c = (None, [DlsymMiss (hsa_name c)])"
  by (simp add: interpose_def)

end
