(* ===== verification/Kernarg_Names.thy ===== *)
theory Kernarg_Names
  imports Msgpack Co_Elf
begin

text \<open>
  The kernel-argument names \<open>structure.C\<close> reads from the metadata note (\<open>kernargNameMap\<close>)
  and the register meanings it reads from the kernel descriptor (\<open>abiSeeds\<close>). The symbol table
  is the record of the lookups the code makes. Addresses and sizes are natural numbers; a read
  of bytes that are not there is undefined behaviour and gives \<open>None\<close>.
\<close>

section \<open>The symbol table\<close>

record SymRegion =
  rgn_mem :: nat
  rgn_raw :: "bytes option"

record Symbol =
  sym_offset :: nat
  sym_mangled :: string

record Symtab =
  findSymbol :: "string \<Rightarrow> Symbol list"
  findRegion :: "string \<Rightarrow> SymRegion option"
  findEnclosingRegion :: "nat \<Rightarrow> SymRegion option"

section \<open>Register meanings at entry\<close>

text \<open>The packing of the user SGPRs: an enabled field takes the next \<open>n\<close> registers.\<close>

definition user_sgpr :: "nat \<Rightarrow> nat \<Rightarrow> nat \<Rightarrow> nat \<Rightarrow> nat option \<times> nat" where
  "user_sgpr props b n s = (if bit props b then (Some s, s + n) else (None, s))"

definition reg_pair :: "nat \<Rightarrow> string" where
  "reg_pair lo = ''[S'' @ dec lo @ '',S'' @ dec (lo + 1) @ '']''"

definition seed_if :: "nat option \<Rightarrow> (nat \<Rightarrow> string) \<Rightarrow> string \<Rightarrow> (string \<times> string) list" where
  "seed_if r key meaning = (case r of None \<Rightarrow> [] | Some s \<Rightarrow> [(key s, meaning)])"

definition sgpr :: "nat \<Rightarrow> string" where
  "sgpr n = CHR ''S'' # dec n"

text \<open>The seeds in the order of their assignments (a later one wins).\<close>

definition descriptor_seeds :: "nat \<Rightarrow> nat \<Rightarrow> (string \<times> string) list" where
  "descriptor_seeds rsrc2 props =
     (let (psb, s) = user_sgpr props 0 4 0;
          (dispatchPtr, s) = user_sgpr props 1 2 s;
          (queue, s) = user_sgpr props 2 2 s;
          (kernargPtr, s) = user_sgpr props 3 2 s;
          y = (rsrc2 div 2) mod 32;
          (wgX, y) = user_sgpr rsrc2 7 1 y;
          (wgY, y) = user_sgpr rsrc2 8 1 y;
          (wgZ, y) = user_sgpr rsrc2 9 1 y;
          widDims = (rsrc2 div 2048) mod 4
      in [(''V0'', ''threadIdx.x'')]
         @ seed_if kernargPtr reg_pair ''&kernarg'' @ seed_if dispatchPtr reg_pair ''&dispatch''
         @ seed_if wgX sgpr ''blockIdx.x'' @ seed_if wgY sgpr ''blockIdx.y'' @ seed_if wgZ sgpr ''blockIdx.z''
         @ (if 1 \<le> widDims then [(''V1'', ''threadIdx.y'')] else [])
         @ (if 2 \<le> widDims then [(''V2'', ''threadIdx.z'')] else []))"

text \<open>\<open>std::map\<close> assignments: the association list is read from its end.\<close>

definition abiSeeds :: "Symtab option \<Rightarrow> string \<Rightarrow> (string \<times> string) list option" where
  "abiSeeds st fname = (let v0 = [(''V0'', ''threadIdx.x'')] in
     case st of None \<Rightarrow> Some v0
     | Some t \<Rightarrow> (case findSymbol t (fname @ ''.kd'') of [] \<Rightarrow> Some v0
       | sy # _ \<Rightarrow> (case findEnclosingRegion t (sym_offset sy) of None \<Rightarrow> Some v0
         | Some rg \<Rightarrow> (case rgn_raw rg of None \<Rightarrow> Some v0
           | Some raw \<Rightarrow> do {
               let kd = sym_offset sy - rgn_mem rg;
               rsrc2 \<leftarrow> rd 4 raw (kd + 0x34);
               props \<leftarrow> rd 2 raw (kd + 0x38);
               Some (descriptor_seeds rsrc2 props) }))))"

section \<open>The note and its arguments\<close>

definition AMDGPU_name :: bytes where
  "AMDGPU_name = [0x41, 0x4d, 0x44, 0x47, 0x50, 0x55]"

text \<open>\<open>(n + 3) & ~3u\<close> on a \<open>uint32_t\<close>.\<close>

definition round4 :: "nat \<Rightarrow> nat" where
  "round4 n = (let m = (n + 3) mod 2 ^ 32 in m - m mod 4)"

text \<open>
  The scan of the notes: the offset and the claimed size of the metadata, if there is one. A
  comparison that leaves the section gives \<open>None\<close>.
\<close>

function note_scan :: "bytes \<Rightarrow> nat \<Rightarrow> (nat \<times> nat) option option" where
  "note_scan sec p =
     (if length sec < p + 12 then Some None
      else let namesz = field 4 sec p; descsz = field 4 sec (p + 4); ntype = field 4 sec (p + 8);
               nm = p + 12; desc = nm + round4 namesz in
        if length sec < desc then Some None
        else if ntype = 32 \<and> 6 \<le> namesz then
          (case memcmp_at sec nm AMDGPU_name of None \<Rightarrow> None
           | Some True \<Rightarrow> Some (Some (desc, descsz))
           | Some False \<Rightarrow> note_scan sec (desc + round4 descsz))
        else note_scan sec (desc + round4 descsz))"
  by pat_completeness auto
termination
  by (relation "measure (\<lambda>(sec, p). Suc (length sec) - p)") (auto simp: Let_def)

declare note_scan.simps [simp del]

definition coerce_suffix :: string where
  "coerce_suffix = ''.coerce''"

definition strip_coerce :: "string \<Rightarrow> string" where
  "strip_coerce name = (let n = length name; k = length coerce_suffix in
     if k < n \<and> drop (n - k) name = coerce_suffix then take (n - k) name else name)"

definition explicit_name :: "MsgVal \<Rightarrow> nat \<Rightarrow> string" where
  "explicit_name a argIdx = strip_coerce
     (case mpGet a ''.name'' of Some (MStr s) \<Rightarrow> if s \<noteq> '''' then s else ''arg'' @ dec argIdx
      | _ \<Rightarrow> ''arg'' @ dec argIdx)"

fun name_args :: "MsgVal list \<Rightarrow> nat \<Rightarrow> (u64 \<rightharpoonup> string) \<Rightarrow> (u64 \<rightharpoonup> string)" where
  "name_args [] argIdx out = out"
| "name_args (a # as) argIdx out =
     (case (mpGet a ''.value_kind'', mpGet a ''.offset'') of
        (Some (MStr vk), Some (MInt off)) \<Rightarrow>
          (if prettyHidden vk = '''' then
             name_args as (Suc argIdx) (out(word_of_int off \<mapsto> explicit_name a argIdx))
           else name_args as argIdx (out(word_of_int off \<mapsto> prettyHidden vk)))
      | _ \<Rightarrow> name_args as argIdx out)"

definition is_mine :: "string \<Rightarrow> MsgVal \<Rightarrow> bool" where
  "is_mine kd k =
     ((case mpGet k ''.symbol'' of Some (MStr s) \<Rightarrow> s = kd | _ \<Rightarrow> False)
      \<or> (case mpGet k ''.name'' of Some (MStr s) \<Rightarrow> s @ ''.kd'' = kd | _ \<Rightarrow> False))"

fun kernel_args :: "string \<Rightarrow> MsgVal list \<Rightarrow> (u64 \<rightharpoonup> string)" where
  "kernel_args kd [] = Map.empty"
| "kernel_args kd (k # ks) =
     (if \<not> is_mine kd k then kernel_args kd ks
      else (case mpGet k ''.args'' of Some (MArr as) \<Rightarrow> name_args as 0 Map.empty | _ \<Rightarrow> Map.empty))"

text \<open>
  \<open>beyond\<close> is what the memory holds after the section: the metadata is parsed up to
  \<open>meta + metalen\<close>, which no check keeps inside the section.
\<close>

definition kernargNameMap :: "Symtab option \<Rightarrow> string \<Rightarrow> bytes \<Rightarrow> (u64 \<rightharpoonup> string) option" where
  "kernargNameMap st fname beyond =
     (case st of None \<Rightarrow> Some Map.empty
      | Some t \<Rightarrow> (case findRegion t ''.note'' of None \<Rightarrow> Some Map.empty
        | Some rg \<Rightarrow> (case rgn_raw rg of None \<Rightarrow> Some Map.empty
          | Some sec \<Rightarrow> (case note_scan sec 0 of None \<Rightarrow> None
            | Some None \<Rightarrow> Some Map.empty
            | Some (Some (meta, metalen)) \<Rightarrow>
                (case mpParse (take metalen (drop meta (sec @ beyond))) of None \<Rightarrow> Some Map.empty
                 | Some (root, _) \<Rightarrow> (case mpGet root ''amdhsa.kernels'' of
                     Some (MArr ks) \<Rightarrow>
                       (let kd = (case findSymbol t (fname @ ''.kd'') of [] \<Rightarrow> '''' | sy # _ \<Rightarrow> sym_mangled sy)
                        in Some (kernel_args kd ks))
                   | _ \<Rightarrow> Some Map.empty))))))"

section \<open>The seeds name each register once\<close>

lemma sgpr_inj [simp]: "sgpr a = sgpr b \<longleftrightarrow> a = b"
  by (auto simp: sgpr_def dest: dec_inj)

lemma dec_digits: "c \<in> set (dec n) \<Longrightarrow> \<exists>d < 10. c = digit_char d"
proof (induction n rule: dec.induct)
  case (1 n)
  show ?case
  proof (cases "n < 10")
    case True
    with "1.prems" show ?thesis by (auto simp: dec.simps [of n])
  next
    case False
    then have "c \<in> set (dec (n div 10)) \<or> c = digit_char (n mod 10)" using "1.prems" by (auto simp: dec.simps [of n])
    then show ?thesis using "1.IH" [OF False] by (auto intro: exI [of _ "n mod 10"])
  qed
qed

lemma dec_no_comma: "c \<in> set (dec n) \<Longrightarrow> c \<noteq> CHR '',''"
proof
  assume "c \<in> set (dec n)" and "c = CHR '',''"
  then obtain d where "d < 10" "digit_char d = CHR '',''" using dec_digits [of "CHR '',''" n] by auto
  then have "(of_char (CHR '','') :: nat) = 48 + d" using of_char_digit_char [of d] by simp
  then show False by simp
qed

lemma reg_pair_inj [simp]: "reg_pair a = reg_pair b \<longleftrightarrow> a = b"
proof
  assume "reg_pair a = reg_pair b"
  then have eq: "dec a @ '',S'' @ dec (a + 1) @ '']'' = dec b @ '',S'' @ dec (b + 1) @ '']''"
    by (simp add: reg_pair_def)
  have tw: "takeWhile (\<lambda>c. c \<noteq> CHR '','') (dec n @ CHR '','' # z) = dec n" for n z
    by (rule takeWhile_append_stop) (auto dest: dec_no_comma)
  have "dec a = dec b" using arg_cong [OF eq, of "takeWhile (\<lambda>c. c \<noteq> CHR '','')"] by (simp only: tw append.simps)
  then show "a = b" by (rule dec_inj)
qed simp

text \<open>The keys of the seeds: pairs of user SGPRs, system SGPRs and the work-item id registers.\<close>

lemma reg_pair_not_sgpr [simp]: "reg_pair a \<noteq> sgpr b" "sgpr b \<noteq> reg_pair a"
  "reg_pair a \<noteq> CHR ''V'' # x" "sgpr b \<noteq> CHR ''V'' # x" "CHR ''V'' # x \<noteq> reg_pair a" "CHR ''V'' # x \<noteq> sgpr b"
  by (simp_all add: reg_pair_def sgpr_def)

definition kernarg_reg :: "nat \<Rightarrow> nat" where
  "kernarg_reg props = 4 * of_bool (bit props 0) + 2 * of_bool (bit props 1) + 2 * of_bool (bit props 2)"

lemma user_sgpr_pair:
  "user_sgpr props b n s = (if bit props b then Some s else None, s + n * of_bool (bit props b))"
  by (simp add: user_sgpr_def)

lemma filter_seed_if [simp]:
  "filter (\<lambda>(k, v). v = m) (seed_if r key m') = (if m' = m then seed_if r key m' else [])"
  by (simp add: seed_if_def split: option.splits)

lemma fst_seed_if: "map fst (seed_if r key m) = (case r of None \<Rightarrow> [] | Some s \<Rightarrow> [key s])"
  by (simp add: seed_if_def split: option.splits)

lemma distinct_seed_if [simp]: "distinct (map fst (seed_if r key m))"
  by (simp add: fst_seed_if split: option.splits)

lemma in_fst_seed_if: "x \<in> fst ` set (seed_if r key m) \<longleftrightarrow> (\<exists>s. r = Some s \<and> x = key s)"
  by (auto simp: seed_if_def split: option.splits)

lemma disjoint_seed_if:
  "fst ` set (seed_if r key m) \<inter> A = {} \<longleftrightarrow> (\<forall>s. r = Some s \<longrightarrow> key s \<notin> A)"
  by (auto simp: seed_if_def split: option.splits)

lemma seeds_distinct: "distinct (map fst (descriptor_seeds rsrc2 props))"
  by (simp add: descriptor_seeds_def user_sgpr_pair Let_def disjoint_seed_if in_fst_seed_if image_Un)

lemma seeds_kernarg:
  "filter (\<lambda>(k, v). v = ''&kernarg'') (descriptor_seeds rsrc2 props)
    = (if bit props 3 then [(reg_pair (kernarg_reg props), ''&kernarg'')] else [])"
  by (simp add: descriptor_seeds_def user_sgpr_pair Let_def kernarg_reg_def) (simp add: seed_if_def)

section \<open>A note and what it should say\<close>

record karg =
  ka_kind :: string
  ka_off :: nat
  ka_name :: "string option"

text \<open>
  What a note says: the entry of an argument, of a kernel and of the whole metadata, with whatever
  other keys the compiler writes (\<open>.size\<close>, \<open>.address_space\<close>, \<open>.kernarg_segment_size\<close>, ...) in any order.
\<close>

definition arg_is :: "MsgVal \<Rightarrow> karg \<Rightarrow> bool" where
  "arg_is v a \<longleftrightarrow> mpGet v ''.value_kind'' = Some (MStr (ka_kind a)) \<and>
     mpGet v ''.offset'' = Some (MInt (int (ka_off a))) \<and> mpGet v ''.name'' = map_option MStr (ka_name a)"

definition kernel_is :: "MsgVal \<Rightarrow> string \<times> karg list \<Rightarrow> bool" where
  "kernel_is v k \<longleftrightarrow> (case mpGet v ''.args'' of Some (MArr vs) \<Rightarrow> list_all2 arg_is vs (snd k) | _ \<Rightarrow> False) \<and>
     mpGet v ''.name'' = Some (MStr (fst k)) \<and> mpGet v ''.symbol'' = Some (MStr (fst k @ ''.kd''))"

definition root_is :: "MsgVal \<Rightarrow> (string \<times> karg list) list \<Rightarrow> bool" where
  "root_is v ks \<longleftrightarrow> (case mpGet v ''amdhsa.kernels'' of Some (MArr kvs) \<Rightarrow> list_all2 kernel_is kvs ks | _ \<Rightarrow> False)"

definition note_header :: "nat \<Rightarrow> bytes" where
  "note_header descsz = le_bytes 4 7 @ le_bytes 4 descsz @ le_bytes 4 32 @ AMDGPU_name @ [0, 0]"

definition is_explicit :: "karg \<Rightarrow> bool" where
  "is_explicit a = (prettyHidden (ka_kind a) = '''')"

text \<open>The name of argument \<open>i\<close>: hidden ones by their kind, explicit ones by their source name or position.\<close>

definition spec_name :: "nat \<Rightarrow> karg list \<Rightarrow> nat \<Rightarrow> string" where
  "spec_name k as i =
     (if \<not> is_explicit (as ! i) then prettyHidden (ka_kind (as ! i))
      else strip_coerce (case ka_name (as ! i) of
          Some s \<Rightarrow> if s \<noteq> '''' then s else ''arg'' @ dec (k + length (filter is_explicit (take i as)))
        | None \<Rightarrow> ''arg'' @ dec (k + length (filter is_explicit (take i as)))))"

lemma arg_isD [dest]:
  assumes "arg_is v a"
  shows "mpGet v ''.value_kind'' = Some (MStr (ka_kind a))" "mpGet v ''.offset'' = Some (MInt (int (ka_off a)))"
    "mpGet v ''.name'' = map_option MStr (ka_name a)"
  using assms by (simp_all add: arg_is_def)

lemma spec_name_0: "arg_is v a \<Longrightarrow> spec_name k (a # as) 0 = (if is_explicit a then explicit_name v k else prettyHidden (ka_kind a))"
  by (simp add: spec_name_def explicit_name_def arg_is_def split: option.splits)

lemma spec_name_Suc: "spec_name k (a # as) (Suc i) = spec_name (if is_explicit a then Suc k else k) as i"
  by (simp add: spec_name_def split: option.splits)

definition offs :: "karg list \<Rightarrow> u64 list" where
  "offs as = map (\<lambda>a. of_nat (ka_off a)) as"

lemma name_args_other: "list_all2 arg_is vs as \<Longrightarrow> x \<notin> set (offs as) \<Longrightarrow> name_args vs k out x = out x"
  by (induction vs as arbitrary: k out rule: list_all2_induct) (auto simp: offs_def arg_is_def)

lemma name_args_spec:
  "list_all2 arg_is vs as \<Longrightarrow> distinct (offs as) \<Longrightarrow> i < length as \<Longrightarrow>
    name_args vs k out (offs as ! i) = Some (spec_name k as i)"
proof (induction vs as arbitrary: k out i rule: list_all2_induct)
  case (Cons v vs a as)
  note a = arg_isD [OF Cons.hyps(1)]
  show ?case
  proof (cases i)
    case 0
    from Cons.prems have "of_nat (ka_off a) \<notin> set (offs as)" by (simp add: offs_def)
    note other = name_args_other [OF Cons.hyps(2) this]
    have "offs (a # as) ! 0 = of_nat (ka_off a)" by (simp add: offs_def)
    then show ?thesis by (simp add: 0 a spec_name_0 [OF Cons.hyps(1)] other is_explicit_def)
  next
    case (Suc j)
    then show ?thesis using Cons by (simp add: a spec_name_Suc offs_def is_explicit_def)
  qed
qed simp

lemma note_scan_header:
  assumes "descsz < 2 ^ 32"
  shows "note_scan (note_header descsz @ r) 0 = Some (Some (20, descsz))"
proof -
  have h: "length (note_header descsz) = 20" by (simp add: note_header_def AMDGPU_name_def del: le_bytes.simps)
  have f: "field 4 (note_header descsz @ r) 0 = 7" "field 4 (note_header descsz @ r) 4 = descsz"
      "field 4 (note_header descsz @ r) 8 = 32"
    using assms by (simp_all add: note_header_def field_def le_val_bytes del: le_bytes.simps)
  have m: "memcmp_at (note_header descsz @ r) 12 AMDGPU_name = Some True"
    by (simp add: memcmp_at_def note_header_def AMDGPU_name_def del: le_bytes.simps)
  show ?thesis by (simp add: note_scan.simps [of _ 0] h f m round4_def Let_def)
qed

lemma is_mine_kernel: "kernel_is v k \<Longrightarrow> is_mine (s @ ''.kd'') v \<longleftrightarrow> fst k = s"
  by (auto simp: is_mine_def kernel_is_def)

lemma kernel_args_spec:
  "list_all2 kernel_is kvs ks \<Longrightarrow> distinct (map fst ks) \<Longrightarrow> (s, as) \<in> set ks \<Longrightarrow>
    \<exists>vs. list_all2 arg_is vs as \<and> kernel_args (s @ ''.kd'') kvs = name_args vs 0 Map.empty"
proof (induction kvs ks rule: list_all2_induct)
  case (Cons v kvs k ks)
  show ?case
  proof (cases "fst k = s")
    case True
    then have "k = (s, as)" using Cons.prems by (cases k) (force simp: image_iff)
    then show ?thesis using Cons.hyps(1) is_mine_kernel [OF Cons.hyps(1)]
      by (auto simp: kernel_is_def split: option.splits MsgVal.splits)
  next
    case False
    then show ?thesis using Cons is_mine_kernel [OF Cons.hyps(1)] by auto
  qed
qed simp

text \<open>The symbol table of a code object with kernel \<open>fname\<close> (mangled \<open>s\<close>) and a note section.\<close>

definition describes :: "Symtab \<Rightarrow> string \<Rightarrow> string \<Rightarrow> bytes \<Rightarrow> bool" where
  "describes t fname s sec =
     ((case findSymbol t (fname @ ''.kd'') of [] \<Rightarrow> False | sy # _ \<Rightarrow> sym_mangled sy = s @ ''.kd'')
      \<and> (case findRegion t ''.note'' of None \<Rightarrow> False | Some rg \<Rightarrow> rgn_raw rg = Some sec))"

lemma kernargNameMap_note:
  assumes "describes t fname s (note_header (length (enc root)) @ r)"
    and "take (length (enc root)) (r @ beyond) = enc root"
    and "mp_fits root" "length (enc root) < 2 ^ 32" "root_is root ks"
    and "distinct (map fst ks)" "(s, as) \<in> set ks"
  shows "\<exists>vs. list_all2 arg_is vs as \<and> kernargNameMap (Some t) fname beyond = Some (name_args vs 0 Map.empty)"
proof -
  obtain sy sys rg where s: "findSymbol t (fname @ ''.kd'') = sy # sys" "sym_mangled sy = s @ ''.kd''"
      "findRegion t ''.note'' = Some rg" "rgn_raw rg = Some (note_header (length (enc root)) @ r)"
    using assms(1) by (auto simp: describes_def split: list.splits option.splits)
  have h: "length (note_header n) = 20" for n
    by (simp add: note_header_def AMDGPU_name_def del: le_bytes.simps)
  have p: "mpParse (enc root) = Some (root, [])"
    using assms(3) mp_val_enc [of root "[]"] by (simp add: mpParse_def)
  obtain kvs where k: "mpGet root ''amdhsa.kernels'' = Some (MArr kvs)" "list_all2 kernel_is kvs ks"
    using assms(5) by (auto simp: root_is_def split: option.splits MsgVal.splits)
  then obtain vs where v: "list_all2 arg_is vs as" "kernel_args (s @ ''.kd'') kvs = name_args vs 0 Map.empty"
    using kernel_args_spec [OF k(2) assms(6,7)] by blast
  then have "kernargNameMap (Some t) fname beyond = Some (name_args vs 0 Map.empty)"
    using assms(2) s h p k(1) by (simp add: kernargNameMap_def note_scan_header [OF assms(4)])
  then show ?thesis using v(1) by blast
qed

section \<open>Properties\<close>

text \<open>
  C20: \<open>kernargNameMap\<close> reads back the argument table of the kernel from the bytes of a note, whatever
  other keys its maps hold and in whatever order: at each offset the hidden arguments get the name of
  their kind, the explicit ones their source name without \<open>.coerce\<close> or \<open>argN\<close> where \<open>N\<close> counts
  explicit arguments only, and no other offset gets a name.
\<close>
theorem kernarg_names_spec:
  assumes "describes t fname s (note_header (length (enc root)) @ enc root @ r)"
    and "mp_fits root" "length (enc root) < 2 ^ 32" "root_is root ks"
    and "distinct (map fst ks)" "(s, as) \<in> set ks" "distinct (offs as)"
  shows "\<exists>names. kernargNameMap (Some t) fname beyond = Some names
    \<and> (\<forall>i < length as. names (offs as ! i) = Some (spec_name 0 as i))
    \<and> (\<forall>x. x \<notin> set (offs as) \<longrightarrow> names x = None)"
proof -
  obtain vs where v: "list_all2 arg_is vs as" "kernargNameMap (Some t) fname beyond = Some (name_args vs 0 Map.empty)"
    using kernargNameMap_note [OF assms(1) _ assms(2-6)] by auto
  then show ?thesis using name_args_spec [OF v(1) assms(7)] name_args_other [OF v(1)] by simp
qed

text \<open>A note as the compiler writes it, with the keys \<open>kernargNameMap\<close> does not look at.\<close>

definition demo_root :: MsgVal where
  "demo_root = MMap [(MStr ''amdhsa.kernels'', MArr [MMap
     [(MStr ''.args'', MArr [
        MMap [(MStr ''.address_space'', MStr ''global''), (MStr ''.name'', MStr ''a.coerce''), (MStr ''.offset'', MInt 0),
              (MStr ''.size'', MInt 8), (MStr ''.value_kind'', MStr ''global_buffer'')],
        MMap [(MStr ''.offset'', MInt 8), (MStr ''.size'', MInt 4), (MStr ''.value_kind'', MStr ''by_value'')],
        MMap [(MStr ''.offset'', MInt 16), (MStr ''.size'', MInt 2), (MStr ''.value_kind'', MStr ''hidden_group_size_x'')]]),
      (MStr ''.group_segment_fixed_size'', MInt 0), (MStr ''.kernarg_segment_align'', MInt 8),
      (MStr ''.kernarg_segment_size'', MInt 24), (MStr ''.name'', MStr ''vadd''), (MStr ''.sgpr_count'', MInt 14),
      (MStr ''.symbol'', MStr ''vadd.kd''), (MStr ''.wavefront_size'', MInt 64)]]),
     (MStr ''amdhsa.target'', MStr ''amdgcn-amd-amdhsa--gfx908''), (MStr ''amdhsa.version'', MArr [MInt 1, MInt 2])]"

definition demo_kernels :: "(string \<times> karg list) list" where
  "demo_kernels = [(''vadd'', [\<lparr>ka_kind = ''global_buffer'', ka_off = 0, ka_name = Some ''a.coerce''\<rparr>,
     \<lparr>ka_kind = ''by_value'', ka_off = 8, ka_name = None\<rparr>,
     \<lparr>ka_kind = ''hidden_group_size_x'', ka_off = 16, ka_name = None\<rparr>])]"

definition demo_symtab :: "bytes \<Rightarrow> Symtab" where
  "demo_symtab sec = \<lparr>findSymbol = (\<lambda>n. [\<lparr>sym_offset = 64, sym_mangled = ''vadd.kd''\<rparr>]),
     findRegion = (\<lambda>n. Some \<lparr>rgn_mem = 0, rgn_raw = Some sec\<rparr>), findEnclosingRegion = (\<lambda>x. None)\<rparr>"

lemma demo_length: "length (enc demo_root) \<le> 500"
  by code_simp

definition demo_section :: bytes where
  "demo_section = note_header (length (enc demo_root)) @ enc demo_root"

lemma demo_note_ok: "mp_fits demo_root" "root_is demo_root demo_kernels" "distinct (offs (snd (hd demo_kernels)))"
  by (simp_all add: demo_root_def demo_kernels_def root_is_def kernel_is_def arg_is_def offs_def)

lemma kernarg_names_spec_witness:
  "\<exists>names. kernargNameMap (Some (demo_symtab demo_section)) ''vadd'' [] = Some names
    \<and> names 0 = Some ''a'' \<and> names 8 = Some ''arg1'' \<and> names 16 = Some ''blockDim.x''"
proof -
  have d: "describes (demo_symtab demo_section) ''vadd'' ''vadd''
      (note_header (length (enc demo_root)) @ enc demo_root @ [])"
    by (simp add: describes_def demo_symtab_def demo_section_def)
  have m: "(''vadd'', snd (hd demo_kernels)) \<in> set demo_kernels" "distinct (map fst demo_kernels)"
    by (simp_all add: demo_kernels_def)
  have l: "length (enc demo_root) < 2 ^ 32" using demo_length by simp
  obtain names where n: "kernargNameMap (Some (demo_symtab demo_section)) ''vadd'' [] = Some names"
      "\<forall>i < length (snd (hd demo_kernels)). names (offs (snd (hd demo_kernels)) ! i) = Some (spec_name 0 (snd (hd demo_kernels)) i)"
    using kernarg_names_spec [OF d demo_note_ok(1) l demo_note_ok(2) m(2,1) demo_note_ok(3), of "[]"] by blast
  have k: "length (snd (hd demo_kernels)) = 3" by (simp add: demo_kernels_def)
  have o: "offs (snd (hd demo_kernels)) = [0, 8, 16]" by (simp add: offs_def demo_kernels_def)
  have s: "map (spec_name 0 (snd (hd demo_kernels))) [0, 1, 2] = [''a'', ''arg1'', ''blockDim.x'']" by code_simp
  have "names 0 = Some ''a''" using n(2)[rule_format, of 0] o s k by simp
  moreover have "names 8 = Some ''arg1''" using n(2)[rule_format, of 1] o s k by simp
  moreover have "names 16 = Some ''blockDim.x''" using n(2)[rule_format, of 2] o s k by simp
  ultimately show ?thesis using n(1) by blast
qed

text \<open>
  The size in the note's header is trusted: a section that ends right after the header is
  read beyond its end, and the argument names are whatever the memory there spells.
\<close>
theorem metadata_size_unchecked:
  assumes "describes t fname s (note_header (length (enc root)))"
    and "mp_fits root" "length (enc root) < 2 ^ 32" "root_is root ks"
    and "distinct (map fst ks)" "(s, as) \<in> set ks" "distinct (offs as)" "i < length as"
  shows "\<exists>names. kernargNameMap (Some t) fname (enc root @ z) = Some names
    \<and> names (offs as ! i) = Some (spec_name 0 as i)"
proof -
  obtain vs where v: "list_all2 arg_is vs as" "kernargNameMap (Some t) fname (enc root @ z) = Some (name_args vs 0 Map.empty)"
    using kernargNameMap_note [of t fname s root "[]" "enc root @ z" ks as] assms by auto
  then show ?thesis using name_args_spec [OF v(1) assms(7,8)] by simp
qed

lemma metadata_size_unchecked_witness:
  "\<exists>names. kernargNameMap (Some (demo_symtab (note_header (length (enc demo_root))))) ''vadd''
      (enc demo_root @ [1, 2]) = Some names \<and> names 8 = Some ''arg1''"
proof -
  have d: "describes (demo_symtab (note_header (length (enc demo_root)))) ''vadd'' ''vadd''
      (note_header (length (enc demo_root)))"
    by (simp add: describes_def demo_symtab_def)
  have m: "(''vadd'', snd (hd demo_kernels)) \<in> set demo_kernels" "distinct (map fst demo_kernels)"
    by (simp_all add: demo_kernels_def)
  have l: "length (enc demo_root) < 2 ^ 32" using demo_length by simp
  have k: "1 < length (snd (hd demo_kernels))" by (simp add: demo_kernels_def)
  have o: "offs (snd (hd demo_kernels)) = [0, 8, 16]" by (simp add: offs_def demo_kernels_def)
  have s: "spec_name 0 (snd (hd demo_kernels)) 1 = ''arg1''" by code_simp
  show ?thesis
    using metadata_size_unchecked [OF d demo_note_ok(1) l demo_note_ok(2) m(2,1) demo_note_ok(3) k, of "[1, 2]"] o s by simp
qed

text \<open>
  The seeds come from the kernel descriptor when its bytes are there (a descriptor cut off
  before byte 58 is read past its region): each register is named once, the kernarg pointer is
  the pair after the enabled private-segment buffer, dispatch and queue pointers, and the
  workgroup ids take the SGPRs from the user count on.
\<close>
theorem abi_seeds_layout:
  assumes "findSymbol t (f @ ''.kd'') = sy # sys" "findEnclosingRegion t (sym_offset sy) = Some rg" "rgn_raw rg = Some raw"
  defines "kd \<equiv> sym_offset sy - rgn_mem rg"
  defines "props \<equiv> field 2 raw (kd + 0x38)" and "rsrc2 \<equiv> field 4 raw (kd + 0x34)"
  shows "(abiSeeds (Some t) f = None \<longleftrightarrow> length raw < kd + 58)
    \<and> (58 + kd \<le> length raw \<longrightarrow> (\<exists>seeds. abiSeeds (Some t) f = Some seeds \<and> distinct (map fst seeds)
        \<and> filter (\<lambda>(k, v). v = ''&kernarg'') seeds = (if bit props 3 then [(reg_pair (kernarg_reg props), ''&kernarg'')] else [])
        \<and> ((sgpr (rsrc2 div 2 mod 32), ''blockIdx.x'') \<in> set seeds \<longleftrightarrow> bit rsrc2 7)
        \<and> ((sgpr (rsrc2 div 2 mod 32 + of_bool (bit rsrc2 7)), ''blockIdx.y'') \<in> set seeds \<longleftrightarrow> bit rsrc2 8)))"
proof -
  have "abiSeeds (Some t) f = (if kd + 58 \<le> length raw then Some (descriptor_seeds rsrc2 props) else None)"
    using assms by (simp add: abiSeeds_def Let_def rd_def field_def)
  moreover have "(sgpr (rsrc2 div 2 mod 32), ''blockIdx.x'') \<in> set (descriptor_seeds rsrc2 props) \<longleftrightarrow> bit rsrc2 7"
    by (simp add: descriptor_seeds_def user_sgpr_pair Let_def seed_if_def)
  moreover have "(sgpr (rsrc2 div 2 mod 32 + of_bool (bit rsrc2 7)), ''blockIdx.y'') \<in> set (descriptor_seeds rsrc2 props) \<longleftrightarrow> bit rsrc2 8"
    by (simp add: descriptor_seeds_def user_sgpr_pair Let_def seed_if_def)
  ultimately show ?thesis by (simp add: seeds_distinct seeds_kernarg not_less)
qed

definition demo_descriptor :: bytes where
  "demo_descriptor = replicate 0x34 0 @ [0x90, 0x08, 0, 0] @ [0x09, 0] @ replicate 6 0"

definition demo_kd_symtab :: Symtab where
  "demo_kd_symtab = \<lparr>findSymbol = (\<lambda>n. [\<lparr>sym_offset = 64, sym_mangled = ''vadd.kd''\<rparr>]), findRegion = (\<lambda>n. None),
     findEnclosingRegion = (\<lambda>x. Some \<lparr>rgn_mem = 64, rgn_raw = Some demo_descriptor\<rparr>)\<rparr>"

lemma abi_seeds_layout_witness:
  "\<exists>seeds. abiSeeds (Some demo_kd_symtab) ''vadd'' = Some seeds \<and> (reg_pair 4, ''&kernarg'') \<in> set seeds
    \<and> (sgpr 8, ''blockIdx.x'') \<in> set seeds"
proof -
  have f: "field 2 demo_descriptor 0x38 = 9" "field 4 demo_descriptor 0x34 = 2192" "length demo_descriptor = 64"
    by (simp_all add: field_def demo_descriptor_def)
  have b: "bit (9::nat) 3" "bit (2192::nat) 7" "kernarg_reg 9 = 4"
    by (simp_all add: bit_iff_odd kernarg_reg_def)
  obtain seeds where s: "abiSeeds (Some demo_kd_symtab) ''vadd'' = Some seeds"
      "filter (\<lambda>(k, v). v = ''&kernarg'') seeds = [(reg_pair 4, ''&kernarg'')]" "(sgpr 8, ''blockIdx.x'') \<in> set seeds"
    using abi_seeds_layout [of demo_kd_symtab "''vadd''" "\<lparr>sym_offset = 64, sym_mangled = ''vadd.kd''\<rparr>" "[]"
      "\<lparr>rgn_mem = 64, rgn_raw = Some demo_descriptor\<rparr>" demo_descriptor]
    by (auto simp add: demo_kd_symtab_def f b bit_Suc_0_iff simp del: filter_eq_Cons_iff)
  have "(reg_pair 4, ''&kernarg'') \<in> set seeds"
    using arg_cong [OF s(2), of set] by auto
  then show ?thesis using s(1,3) by blast
qed

end
