(* ===== verification/Provenance.thy ===== *)
theory Provenance
  imports Flow_Graph Kernarg_Names
begin

text \<open>
  The forward value provenance of \<open>structure.C\<close> (lines 802 to 994): a state that gives register
  texts a meaning, started from the seeds and updated by \<open>applyTransfer\<close> for every instruction
  in reverse post-order, with the conditions and call targets it renders on the way. The
  immediate is kept as the integer whose decimal text the code stores.
\<close>

section \<open>State\<close>

record Prov =
  pv_state :: "string \<rightharpoonup> string"
  pv_base :: string
  pv_packed :: "string \<rightharpoonup> string \<times> int"
  pv_condAt :: "nat \<rightharpoonup> string"
  pv_callTarget :: "nat \<rightharpoonup> string"

definition val :: "(string \<rightharpoonup> string) \<Rightarrow> string \<Rightarrow> string" where
  "val state n = (case state n of Some v \<Rightarrow> v | None \<Rightarrow> n)"

section \<open>Labels\<close>

definition packetField :: "int \<Rightarrow> string" where
  "packetField off =
     (if off = 0x04 then ''blockDim.x'' else if off = 0x06 then ''blockDim.y'' else if off = 0x08 then ''blockDim.z''
      else if off = 0x0c then ''gridSize.x'' else if off = 0x10 then ''gridSize.y'' else if off = 0x14 then ''gridSize.z''
      else '''')"

definition labelAt :: "(u64 \<rightharpoonup> string) \<Rightarrow> string \<Rightarrow> int \<Rightarrow> string" where
  "labelAt names base off =
     (if base = ''&dispatch'' then packetField off
      else case names (word_of_int off) of Some s \<Rightarrow> s | None \<Rightarrow> '''')"

fun target_scan :: "Operand list \<Rightarrow> (string \<rightharpoonup> string) \<Rightarrow> string" where
  "target_scan [] state = ''''"
| "target_scan (x # xs) state =
     (if isWritten x then target_scan xs state
      else let rr = dataRegs (op_reads x) in
        if rr = [] \<or> \<not> isScalarReg (hd rr) then target_scan xs state else val state (op_format x))"

definition callTarget :: "Instruction \<Rightarrow> (string \<rightharpoonup> string) \<Rightarrow> string" where
  "callTarget i state = target_scan (in_ops i) state"

definition substituted :: "Instruction \<Rightarrow> (string \<rightharpoonup> string) \<Rightarrow> string" where
  "substituted i state = (let src = map (val state) (readOperands i) in
     if 2 \<le> length src then infix_compare src (in_mnemonic i) else '''')"

section \<open>The transfer function\<close>

record Src =
  sr_key :: string
  sr_low :: string
  sr_scalar :: bool

fun gather :: "Operand list \<Rightarrow> Src list \<Rightarrow> int option \<Rightarrow> Src list \<times> int option" where
  "gather [] src imm = (src, imm)"
| "gather (x # xs) src imm =
     (if isWritten x then gather xs src imm
      else case op_eval x of
          Some v \<Rightarrow> gather xs src (if imm = None then Some (signed32 v) else imm)
        | None \<Rightarrow>
            (if \<not> isRead x then gather xs src imm
             else let rr = dataRegs (op_reads x) in
               if rr = [] then gather xs src imm
               else gather xs (src @ [\<lparr>sr_key = op_format x, sr_low = regKey (hd rr), sr_scalar = isScalarReg (hd rr)\<rparr>]) imm))"

definition imm_text :: "int option \<Rightarrow> string" where
  "imm_text imm = (case imm of None \<Rightarrow> '''' | Some v \<Rightarrow> dec_int v)"

definition known_src :: "(string \<rightharpoonup> string) \<Rightarrow> Src \<Rightarrow> bool" where
  "known_src state s = (state (sr_key s) \<noteq> None)"

text \<open>Scalar load: the pointer is the kernarg segment, the dispatch packet, or something else.\<close>

definition tr_sload :: "(u64 \<rightharpoonup> string) \<Rightarrow> string \<Rightarrow> string \<Rightarrow> Src list \<Rightarrow> int option \<Rightarrow> Prov \<Rightarrow> Prov" where
  "tr_sload names dst dstLow src imm p =
     (let base = sr_key (hd src); state = pv_state p;
          kb = (if pv_base p = '''' \<and> state base = None then base else pv_base p);
          meaning = (if base = kb then ''&kernarg'' else val state base);
          off = (case imm of None \<Rightarrow> 0 | Some v \<Rightarrow> v);
          packed = (pv_packed p)(dst := None) in
      if meaning = ''&kernarg'' \<or> meaning = ''&dispatch'' then
        (let lab = labelAt names meaning off;
             v = (if lab \<noteq> '''' then lab
                  else (if meaning = ''&kernarg'' then ''karg@'' else ''disp@'') @ imm_text imm);
             state' = state(dst \<mapsto> v) in
         p\<lparr>pv_base := kb, pv_packed := packed(dst \<mapsto> (meaning, off)),
           pv_state := (if dstLow \<noteq> dst then state'(dstLow \<mapsto> v) else state')\<rparr>)
      else p\<lparr>pv_base := kb, pv_packed := packed, pv_state := state(dst \<mapsto> ''mem['' @ meaning @ '']'')\<rparr>)"

text \<open>Vector load: through the first scalar source and the first other one, or the first source.\<close>

definition tr_vmem :: "string \<Rightarrow> Src list \<Rightarrow> int option \<Rightarrow> (string \<rightharpoonup> string) \<Rightarrow> (string \<rightharpoonup> string)" where
  "tr_vmem dst src imm state =
     (case find sr_scalar src of
        Some sb \<Rightarrow>
          (let rest = filter (\<lambda>(k, s). \<not> sr_scalar s \<or> (\<exists>j < k. sr_scalar (src ! j))) (enumerate 0 src);
               a = val state (sr_key sb)
                   @ (case rest of [] \<Rightarrow> '''' | (k, s) # _ \<Rightarrow> '' + '' @ val state (sr_low s))
                   @ (case imm of None \<Rightarrow> '''' | Some v \<Rightarrow> if v = 0 then '''' else '' + '' @ dec_int v)
           in state(dst \<mapsto> ''mem['' @ a @ '']''))
      | None \<Rightarrow> (case src of [] \<Rightarrow> state(dst := None)
          | s # _ \<Rightarrow> state(dst \<mapsto> ''mem['' @ val state (sr_low s) @ '']'')))"

definition tr_mov :: "string \<Rightarrow> Src list \<Rightarrow> Prov \<Rightarrow> Prov" where
  "tr_mov dst src p = (let k = sr_key (hd src) in
     p\<lparr>pv_state := (pv_state p)(dst := pv_state p k), pv_packed := (pv_packed p)(dst := pv_packed p k)\<rparr>)"

definition tr_and :: "string \<Rightarrow> Src list \<Rightarrow> int \<Rightarrow> Prov \<Rightarrow> Prov" where
  "tr_and dst src imm p = (let k = sr_key (hd src); state = pv_state p in
     case pv_packed p k of
       Some keep \<Rightarrow> p\<lparr>pv_state := state(dst := state k), pv_packed := (pv_packed p)(dst \<mapsto> keep)\<rparr>
     | None \<Rightarrow> p\<lparr>pv_packed := (pv_packed p)(dst := None),
         pv_state := (if state k \<noteq> None then state(dst \<mapsto> ''('' @ val state k @ '' & '' @ dec_int imm @ '')'') else state(dst := None))\<rparr>)"

definition tr_lshr16 :: "(u64 \<rightharpoonup> string) \<Rightarrow> string \<Rightarrow> Src list \<Rightarrow> Prov \<Rightarrow> Prov" where
  "tr_lshr16 names dst src p =
     (let packed = (pv_packed p)(dst := None); erased = p\<lparr>pv_packed := packed, pv_state := (pv_state p)(dst := None)\<rparr> in
      case pv_packed p (sr_key (hd src)) of None \<Rightarrow> erased
      | Some (base, off) \<Rightarrow>
          (let lab = labelAt names base (off + 2) in
           if lab \<noteq> '''' then p\<lparr>pv_state := (pv_state p)(dst \<mapsto> lab), pv_packed := packed(dst \<mapsto> (base, off + 2))\<rparr>
           else erased))"

definition tr_minmax :: "string \<Rightarrow> string \<Rightarrow> Src list \<Rightarrow> int option \<Rightarrow> (string \<rightharpoonup> string) \<Rightarrow> (string \<rightharpoonup> string)" where
  "tr_minmax opc dst src imm state =
     (let fn = (if contains_sub ''MAX'' opc then ''max'' else ''min''); known = list_ex (known_src state) src in
      if known \<and> 2 \<le> length src then
        state(dst \<mapsto> fn @ ''('' @ val state (sr_key (src ! 0)) @ '', '' @ val state (sr_key (src ! 1)) @ '')'')
      else if known \<and> length src = 1 \<and> imm \<noteq> None then
        state(dst \<mapsto> fn @ ''('' @ val state (sr_key (src ! 0)) @ '', '' @ imm_text imm @ '')'')
      else state(dst := None))"

text \<open>An arithmetic text, of the operands or of their low halves; empty when there are too few.\<close>

definition build_expr :: "(Src \<Rightarrow> string) \<Rightarrow> string \<Rightarrow> Src list \<Rightarrow> int option \<Rightarrow> (string \<rightharpoonup> string) \<Rightarrow> string" where
  "build_expr sel op src imm state =
     (if 2 \<le> length src then ''('' @ val state (sel (src ! 0)) @ op @ val state (sel (src ! 1)) @ '')''
      else if length src = 1 \<and> imm \<noteq> None then ''('' @ val state (sel (src ! 0)) @ op @ imm_text imm @ '')''
      else '''')"

definition tr_arith :: "string \<Rightarrow> string \<Rightarrow> string \<Rightarrow> Src list \<Rightarrow> int option \<Rightarrow> (string \<rightharpoonup> string) \<Rightarrow> (string \<rightharpoonup> string)" where
  "tr_arith opc dst dstLow src imm state =
     (let op = (if contains_sub ''MUL'' opc then '' * '' else if contains_sub ''LSHL'' opc then '' << '' else '' + '');
          known = list_ex (\<lambda>s. state (sr_key s) \<noteq> None \<or> state (sr_low s) \<noteq> None) src;
          full = build_expr sr_key op src imm state in
      if known \<and> full \<noteq> '''' then
        (let state' = state(dst \<mapsto> full) in
         if dstLow \<noteq> dst then
           (let lh = build_expr sr_low op src imm state' in if lh \<noteq> '''' then state'(dstLow \<mapsto> lh) else state')
         else state')
      else (let state' = state(dst := None) in if dstLow \<noteq> dst then state'(dstLow := None) else state'))"

definition applyTransfer :: "(u64 \<rightharpoonup> string) \<Rightarrow> Instruction \<Rightarrow> Prov \<Rightarrow> Prov" where
  "applyTransfer names i p =
     (if in_ops i = [] \<or> \<not> isWritten (hd (in_ops i)) then p
      else let opc = in_mnemonic i; dstRegs = dataRegs (op_writes (hd (in_ops i))) in
        if dstRegs = [] then p
        else let dst = op_format (hd (in_ops i)); dstLow = regKey (hd dstRegs);
                 (src, imm) = gather (tl (in_ops i)) [] None;
                 state = pv_state p; nopack = (pv_packed p)(dst := None) in
          if starts_with ''S_LOAD'' opc \<and> src \<noteq> [] then tr_sload names dst dstLow src imm p
          else if starts_with ''GLOBAL_LOAD'' opc \<or> starts_with ''FLAT_LOAD'' opc then
            p\<lparr>pv_packed := nopack, pv_state := tr_vmem dst src imm state\<rparr>
          else if (starts_with ''S_MOV'' opc \<or> starts_with ''V_MOV'' opc) \<and> src \<noteq> [] then tr_mov dst src p
          else if starts_with ''V_READFIRSTLANE'' opc \<or> starts_with ''V_READLANE'' opc then
            p\<lparr>pv_packed := nopack, pv_state := (if src \<noteq> [] then state(dst \<mapsto> ''firstlane('' @ val state (sr_key (hd src)) @ '')'')
                else state(dst := None))\<rparr>
          else if (starts_with ''S_AND_B32'' opc \<or> starts_with ''V_AND_B32'' opc) \<and> length src = 1 \<and> imm \<noteq> None then
            tr_and dst src (the imm) p
          else if starts_with ''S_LSHR'' opc \<and> length src = 1 \<and> imm = Some 16 then tr_lshr16 names dst src p
          else if starts_with ''V_MAX'' opc \<or> starts_with ''V_MIN'' opc then
            p\<lparr>pv_packed := nopack, pv_state := tr_minmax opc dst src imm state\<rparr>
          else if contains_sub ''MUL'' opc \<or> contains_sub ''LSHL'' opc \<or> contains_sub ''ADD'' opc then
            p\<lparr>pv_packed := nopack, pv_state := tr_arith opc dst dstLow src imm state\<rparr>
          else p\<lparr>pv_packed := nopack, pv_state := state(dst := None)\<rparr>)"

section \<open>The pass\<close>

definition prov_step :: "(u64 \<rightharpoonup> string) \<Rightarrow> nat \<times> Instruction \<Rightarrow> Prov \<Rightarrow> Prov" where
  "prov_step names ai p =
     (let (a, i) = ai;
          p1 = (if classify i = Compare then p\<lparr>pv_condAt := (pv_condAt p)(a \<mapsto> substituted i (pv_state p))\<rparr> else p);
          p2 = (if isCallInsn i then p1\<lparr>pv_callTarget := (pv_callTarget p1)(a \<mapsto> callTarget i (pv_state p1))\<rparr> else p1)
      in applyTransfer names i p2)"

text \<open>The instructions in the order of the pass.\<close>

definition insns_rpo :: "Function \<Rightarrow> (nat \<times> Instruction) list" where
  "insns_rpo f = concat (map (\<lambda>b. blk_insns (deref f b)) (reversePostOrder f))"

definition initial_base :: "(string \<times> string) list \<Rightarrow> string" where
  "initial_base seeds = fold (\<lambda>(k, v) b. if v = ''&kernarg'' then k else b) seeds ''''"

definition prov_init :: "(string \<times> string) list \<Rightarrow> Prov" where
  "prov_init seeds = \<lparr>pv_state = map_of (rev seeds), pv_base = initial_base seeds, pv_packed = Map.empty,
     pv_condAt = Map.empty, pv_callTarget = Map.empty\<rparr>"

definition computeProvenance :: "Function \<Rightarrow> (string \<times> string) list \<Rightarrow> (u64 \<rightharpoonup> string) \<Rightarrow> Prov" where
  "computeProvenance f seeds names = fold (prov_step names) (insns_rpo f) (prov_init seeds)"

section \<open>Shapes of instructions\<close>

definition data_reg :: "string \<Rightarrow> bool \<Rightarrow> nat \<Rightarrow> MachRegister" where
  "data_reg s scalar n = \<lparr>rg_id = OtherReg n, rg_class = (if scalar then SgprClass GFX908 else VgprClass GFX908),
     rg_val = n, rg_name = s, rg_format = s\<rparr>"

definition reg_op :: "string \<Rightarrow> MachRegister list \<Rightarrow> bool \<Rightarrow> Operand" where
  "reg_op s rs w = \<lparr>op_format = s, isRead = \<not> w, isWritten = w, op_eval = None,
     op_reads = (if w then [] else rs), op_writes = (if w then rs else [])\<rparr>"

definition imm_op :: "int \<Rightarrow> Operand" where
  "imm_op v = \<lparr>op_format = dec_int v, isRead = False, isWritten = False, op_eval = Some v, op_reads = [], op_writes = []\<rparr>"

definition insn :: "string \<Rightarrow> Operand list \<Rightarrow> Instruction" where
  "insn m xs = \<lparr>in_id = (GFX908, OtherOp 0), in_mnemonic = m, in_format = m, in_ops = xs,
     in_reads = concat (map op_reads xs), in_writes = concat (map op_writes xs)\<rparr>"

text \<open>A single data register: its text is the upper-case name, so it is its own low half.\<close>

definition plain_reg :: "MachRegister \<Rightarrow> bool" where
  "plain_reg r \<longleftrightarrow> isDataReg r \<and> rg_format r = regKey r"

abbreviation rd_op :: "MachRegister \<Rightarrow> Operand" where
  "rd_op r \<equiv> reg_op (rg_format r) [r] False"

abbreviation wr_op :: "MachRegister \<Rightarrow> Operand" where
  "wr_op r \<equiv> reg_op (rg_format r) [r] True"

lemma dataRegs_single [simp]: "dataRegs [r] = (if isDataReg r then [r] else [])"
  by (simp add: dataRegs_def)

lemma op_simps [simp]:
  "isWritten (reg_op s rs w) = w" "isRead (reg_op s rs w) = (\<not> w)" "op_format (reg_op s rs w) = s"
  "op_eval (reg_op s rs w) = None" "op_writes (reg_op s rs True) = rs" "op_reads (reg_op s rs False) = rs"
  "isWritten (imm_op v) = False" "op_eval (imm_op v) = Some v" "isRead (imm_op v) = False"
  "in_ops (insn m xs) = xs" "in_mnemonic (insn m xs) = m"
  by (simp_all add: reg_op_def imm_op_def insn_def)

section \<open>What one instruction changes\<close>

definition dst_of :: "Instruction \<Rightarrow> string" where
  "dst_of i = op_format (hd (in_ops i))"

definition low_of :: "Instruction \<Rightarrow> string" where
  "low_of i = regKey (hd (dataRegs (op_writes (hd (in_ops i)))))"

lemma tr_frames:
  "k \<noteq> dst \<Longrightarrow> k \<noteq> low \<Longrightarrow> pv_state (tr_sload names dst low src imm p) k = pv_state p k"
  "k \<noteq> dst \<Longrightarrow> tr_vmem dst src imm state k = state k"
  "k \<noteq> dst \<Longrightarrow> pv_state (tr_mov dst src p) k = pv_state p k"
  "k \<noteq> dst \<Longrightarrow> pv_state (tr_and dst src v p) k = pv_state p k"
  "k \<noteq> dst \<Longrightarrow> pv_state (tr_lshr16 names dst src p) k = pv_state p k"
  "k \<noteq> dst \<Longrightarrow> tr_minmax opc dst src imm state k = state k"
  "k \<noteq> dst \<Longrightarrow> k \<noteq> low \<Longrightarrow> tr_arith opc dst low src imm state k = state k"
  by (simp_all add: tr_sload_def tr_vmem_def tr_mov_def tr_and_def tr_lshr16_def tr_minmax_def tr_arith_def Let_def
    split: option.splits list.splits prod.splits)

lemma applyTransfer_frame:
  "k \<noteq> dst_of i \<Longrightarrow> k \<noteq> low_of i \<Longrightarrow> pv_state (applyTransfer names i p) k = pv_state p k"
  unfolding applyTransfer_def dst_of_def low_of_def
  by (simp add: Let_def tr_frames split: prod.splits)

lemma tr_bases:
  "pv_base p \<noteq> '''' \<Longrightarrow> pv_base (tr_sload names dst low src imm p) = pv_base p"
  "pv_base (tr_mov dst src p) = pv_base p" "pv_base (tr_and dst src v p) = pv_base p"
  "pv_base (tr_lshr16 names dst src p) = pv_base p"
  by (simp_all add: tr_sload_def tr_mov_def tr_and_def tr_lshr16_def Let_def split: option.splits)

lemma applyTransfer_base: "pv_base p \<noteq> '''' \<Longrightarrow> pv_base (applyTransfer names i p) = pv_base p"
  unfolding applyTransfer_def by (simp add: Let_def tr_bases split: prod.splits)

lemma prov_step_base: "pv_base p \<noteq> '''' \<Longrightarrow> pv_base (prov_step names ai p) = pv_base p"
  by (simp add: prov_step_def applyTransfer_base Let_def split: prod.splits)

lemma fold_prov_base: "pv_base p \<noteq> '''' \<Longrightarrow> pv_base (fold (prov_step names) is p) = pv_base p"
  by (induction "is" arbitrary: p) (simp_all add: prov_step_base)

text \<open>A load of one destination through the pair \<open>base\<close>, as \<open>s_load\<close> decodes it.\<close>

definition s_load :: "MachRegister list \<Rightarrow> string \<Rightarrow> MachRegister list \<Rightarrow> string \<Rightarrow> int \<Rightarrow> Instruction" where
  "s_load ds dst bs base off = insn ''S_LOAD_DWORD'' [reg_op dst ds True, reg_op base bs False, imm_op off]"

lemma load_kernarg_base:
  assumes "pv_base p \<noteq> ''''" "dataRegs ds \<noteq> []" "dataRegs bs \<noteq> []"
  shows "pv_state (applyTransfer names (s_load ds dst bs (pv_base p) off) p) dst
    = Some (if labelAt names ''&kernarg'' (signed32 off) \<noteq> '''' then labelAt names ''&kernarg'' (signed32 off)
        else ''karg@'' @ dec_int (signed32 off))"
  using assms by (simp add: applyTransfer_def s_load_def tr_sload_def Let_def imm_text_def)

section \<open>Properties\<close>

text \<open>
  The comment promises kill-on-overwrite ``even when the kernel reuses the kernarg-pointer'',
  but the register of the kernarg pointer is never forgotten: after any instructions, loads that
  overwrite that very register included, an \<open>s_load\<close> through it is labelled as an argument.
\<close>
theorem kernarg_base_never_killed:
  assumes "pv_base p \<noteq> ''''" "dataRegs ds \<noteq> []" "dataRegs bs \<noteq> []"
  shows "pv_state (applyTransfer names (s_load ds dst bs (pv_base p) off) (fold (prov_step names) is p)) dst
    = Some (if labelAt names ''&kernarg'' (signed32 off) \<noteq> '''' then labelAt names ''&kernarg'' (signed32 off)
        else ''karg@'' @ dec_int (signed32 off))"
  using load_kernarg_base [of "fold (prov_step names) is p" ds bs names dst off] assms
  by (simp add: fold_prov_base)

definition demo_pair :: "MachRegister list" where
  "demo_pair = [data_reg ''s4'' True 4, data_reg ''s5'' True 5]"

definition demo_prov :: Prov where
  "demo_prov = prov_init [(''V0'', ''threadIdx.x''), (''[S4,S5]'', ''&kernarg''), (''S6'', ''blockIdx.x'')]"

definition demo_names :: "u64 \<rightharpoonup> string" where
  "demo_names = [0 \<mapsto> ''data'', 24 \<mapsto> ''blockDim.x'']"

lemma demo_pair_data: "dataRegs demo_pair \<noteq> []"
  by (simp add: dataRegs_def demo_pair_def isDataReg_def data_reg_def)

text \<open>The pointer argument is loaded into the pair that held the kernarg pointer; a load through it is then called \<open>data\<close> again.\<close>

lemma kernarg_base_never_killed_witness:
  "pv_state (applyTransfer demo_names (s_load demo_pair ''[S4,S5]'' demo_pair ''[S4,S5]'' 0)
     (fold (prov_step demo_names) [(0, s_load demo_pair ''[S4,S5]'' demo_pair ''[S4,S5]'' 0)] demo_prov)) ''[S4,S5]'' = Some ''data''"
proof -
  have b: "pv_base demo_prov = ''[S4,S5]''" by (simp add: demo_prov_def prov_init_def initial_base_def)
  then have "pv_base demo_prov \<noteq> ''''" by simp
  from kernarg_base_never_killed [OF this demo_pair_data demo_pair_data, of demo_names "''[S4,S5]''" 0
      "[(0, s_load demo_pair ''[S4,S5]'' demo_pair ''[S4,S5]'' 0)]"]
  show ?thesis by (simp only: b) (simp add: labelAt_def demo_names_def signed32_def)
qed

text \<open>
  An instruction changes the meaning of its destination text and of its low half only, and a
  destination it cannot explain loses its meaning; so a pair keeps its meaning when one of its
  halves is overwritten (\<open>[S4,S5]\<close> when \<open>S4\<close> is written).
\<close>
theorem transfer_kills_destination_only:
  shows "(k \<noteq> dst_of i \<and> k \<noteq> low_of i \<longrightarrow> pv_state (applyTransfer names i p) k = pv_state p k)
    \<and> (dataRegs (op_writes (hd (in_ops i))) = [] \<longrightarrow> applyTransfer names i p = p)
    \<and> (in_ops i \<noteq> [] \<and> isWritten (hd (in_ops i)) \<and> dataRegs (op_writes (hd (in_ops i))) \<noteq> []
        \<and> (\<forall>m \<in> {''S_LOAD'', ''GLOBAL_LOAD'', ''FLAT_LOAD'', ''S_MOV'', ''V_MOV'', ''V_READFIRSTLANE'', ''V_READLANE'',
             ''S_AND_B32'', ''V_AND_B32'', ''S_LSHR'', ''V_MAX'', ''V_MIN''}. \<not> starts_with m (in_mnemonic i))
        \<and> (\<forall>m \<in> {''MUL'', ''LSHL'', ''ADD''}. \<not> contains_sub m (in_mnemonic i))
        \<longrightarrow> pv_state (applyTransfer names i p) (dst_of i) = None)"
proof -
  have "pv_state (applyTransfer names i p) (dst_of i) = None"
    if "in_ops i \<noteq> []" "isWritten (hd (in_ops i))" "dataRegs (op_writes (hd (in_ops i))) \<noteq> []"
      "\<forall>m \<in> {''S_LOAD'', ''GLOBAL_LOAD'', ''FLAT_LOAD'', ''S_MOV'', ''V_MOV'', ''V_READFIRSTLANE'', ''V_READLANE'',
             ''S_AND_B32'', ''V_AND_B32'', ''S_LSHR'', ''V_MAX'', ''V_MIN''}. \<not> starts_with m (in_mnemonic i)"
      "\<forall>m \<in> {''MUL'', ''LSHL'', ''ADD''}. \<not> contains_sub m (in_mnemonic i)"
    using that by (simp add: applyTransfer_def Let_def dst_of_def split: prod.splits)
  moreover have "dataRegs (op_writes (hd (in_ops i))) = [] \<Longrightarrow> applyTransfer names i p = p"
    by (simp add: applyTransfer_def Let_def)
  ultimately show ?thesis by (blast intro: applyTransfer_frame)
qed

lemma transfer_kills_destination_only_witness:
  "pv_state (applyTransfer demo_names (insn ''S_SUB_U32'' [reg_op ''S4'' [data_reg ''s4'' True 4] True, rd_op (data_reg ''S9'' True 9)]) demo_prov) ''[S4,S5]''
      = Some ''&kernarg''
    \<and> pv_state (applyTransfer demo_names (insn ''S_SUB_U32'' [reg_op ''S4'' [data_reg ''s4'' True 4] True, rd_op (data_reg ''S9'' True 9)]) demo_prov) ''S4'' = None"
proof -
  let ?i = "insn ''S_SUB_U32'' [reg_op ''S4'' [data_reg ''s4'' True 4] True, rd_op (data_reg ''S9'' True 9)]"
  have d: "isDataReg (data_reg ''s4'' True 4)" by (simp add: isDataReg_def data_reg_def)
  have "dst_of ?i = ''S4''" "low_of ?i = ''S4''"
    by (simp add: dst_of_def) (simp add: low_of_def d regKey_def, simp add: data_reg_def toupper_def char_of_eq_iff)
  moreover have "pv_state demo_prov ''[S4,S5]'' = Some ''&kernarg''" by (simp add: demo_prov_def prov_init_def)
  ultimately show ?thesis
    using transfer_kills_destination_only [of "''[S4,S5]''" ?i demo_names demo_prov] d by simp
qed

lemma gather_regs [simp]:
  "dataRegs rs \<noteq> [] \<Longrightarrow> gather (reg_op s rs False # xs) src imm
    = gather xs (src @ [\<lparr>sr_key = s, sr_low = regKey (hd (dataRegs rs)), sr_scalar = isScalarReg (hd (dataRegs rs))\<rparr>]) imm"
  "gather (imm_op v # xs) src imm = gather xs src (if imm = None then Some (signed32 v) else imm)"
  by (simp_all add: Let_def)

text \<open>
  The instructions that compute a global index: load the word that holds the block size, take its low
  or its high half, multiply, add.
\<close>

definition index_math :: "string \<Rightarrow> MachRegister list \<Rightarrow> int \<Rightarrow> bool \<Rightarrow> MachRegister \<Rightarrow> MachRegister \<Rightarrow> MachRegister \<Rightarrow> MachRegister \<Rightarrow> MachRegister \<Rightarrow> Instruction list" where
  "index_math base bs off high a g c v0 vi =
     [insn ''S_LOAD_DWORD'' [wr_op a, reg_op base bs False, imm_op off],
      (if high then insn ''S_LSHR_B32'' [wr_op a, rd_op a, imm_op 16] else insn ''S_AND_B32'' [wr_op a, rd_op a, imm_op 0xffff]),
      insn ''S_MUL_I32'' [wr_op c, rd_op g, rd_op a],
      insn ''V_ADD_U32'' [wr_op vi, rd_op c, rd_op v0]]"

definition run_prov :: "(u64 \<rightharpoonup> string) \<Rightarrow> Instruction list \<Rightarrow> Prov \<Rightarrow> Prov" where
  "run_prov names is p = fold (applyTransfer names) is p"

text \<open>What the half at \<open>off\<close> of the segment that \<open>base\<close> points to is called.\<close>

definition segment_label :: "(u64 \<rightharpoonup> string) \<Rightarrow> Prov \<Rightarrow> string \<Rightarrow> int \<Rightarrow> string \<Rightarrow> bool" where
  "segment_label names p base off lab \<longleftrightarrow>
     base = pv_base p \<and> base \<noteq> '''' \<and> names (word_of_int off) = Some lab \<or>
     base \<noteq> pv_base p \<and> pv_state p base = Some ''&dispatch'' \<and>
       (off, lab) \<in> {(4, ''blockDim.x''), (6, ''blockDim.y''), (8, ''blockDim.z'')}"

lemma segment_load:
  assumes "segment_label names p base (signed32 off + d) lab" "dataRegs bs \<noteq> []" "plain_reg a" "lab \<noteq> ''''"
  defines "p1 \<equiv> applyTransfer names (insn ''S_LOAD_DWORD'' [wr_op a, reg_op base bs False, imm_op off]) p"
  shows "\<exists>m. labelAt names m (signed32 off + d) = lab \<and> pv_packed p1 (rg_format a) = Some (m, signed32 off)
    \<and> (\<forall>x. (pv_state p1)(rg_format a := x) = (pv_state p)(rg_format a := x)) \<and> (d = 0 \<longrightarrow> pv_state p1 (rg_format a) = Some lab)"
proof -
  have a: "isDataReg a" "regKey a = rg_format a" using assms(3) by (simp_all add: plain_reg_def)
  from assms(1) consider "base = pv_base p" "base \<noteq> ''''" "names (word_of_int (signed32 off + d)) = Some lab"
    | "base \<noteq> pv_base p" "pv_state p base = Some ''&dispatch''" "packetField (signed32 off + d) = lab"
    by (auto simp: segment_label_def packetField_def)
  then show ?thesis
  proof cases
    case 1
    then show ?thesis using a assms(2,4)
      by (intro exI [of _ "''&kernarg''"]) (auto simp: p1_def applyTransfer_def tr_sload_def Let_def labelAt_def)
  next
    case 2
    then show ?thesis using a assms(2,4)
      by (intro exI [of _ "''&dispatch''"]) (auto simp: p1_def applyTransfer_def tr_sload_def Let_def labelAt_def val_def)
  qed
qed

text \<open>
  C21: the pass recovers the index computation of a kernel in each dimension \<open>k\<close>: loading the word
  with the block size, through the kernarg pointer (whose hidden arguments the metadata names) or
  through the dispatch packet (\<open>packetField\<close>), taking its low half with the mask or its high half
  with the shift, multiplying with the workgroup id and adding the work-item id gives
  \<open>((blockIdx.k * blockDim.k) + threadIdx.k)\<close>, in whatever registers.
\<close>
theorem index_math_recovered:
  assumes "segment_label names p base (signed32 off + (if high then 2 else 0)) (''blockDim.'' @ [k])"
    and "dataRegs bs \<noteq> []" "list_all plain_reg [a, g, c, v0, vi]"
    and "rg_format g \<noteq> rg_format a" "rg_format v0 \<noteq> rg_format a" "rg_format v0 \<noteq> rg_format c"
    and "pv_state p (rg_format g) = Some (''blockIdx.'' @ [k])" "pv_state p (rg_format v0) = Some (''threadIdx.'' @ [k])"
  shows "pv_state (run_prov names (index_math base bs off high a g c v0 vi) p) (rg_format vi)
    = Some (''((blockIdx.'' @ [k] @ '' * blockDim.'' @ [k] @ '') + threadIdx.'' @ [k] @ '')'')"
proof -
  let ?lab = "''blockDim.'' @ [k]"
  have d: "isDataReg a" "isDataReg g" "isDataReg c" "isDataReg v0" "isDataReg vi" "plain_reg a"
    and k: "regKey a = rg_format a" "regKey g = rg_format g" "regKey c = rg_format c" "regKey v0 = rg_format v0" "regKey vi = rg_format vi"
    using assms(3) by (simp_all add: plain_reg_def)
  define p1 where "p1 = applyTransfer names (insn ''S_LOAD_DWORD'' [wr_op a, reg_op base bs False, imm_op off]) p"
  obtain m where p1: "labelAt names m (signed32 off + (if high then 2 else 0)) = ?lab" "pv_packed p1 (rg_format a) = Some (m, signed32 off)"
      "\<And>x. (pv_state p1)(rg_format a := x) = (pv_state p)(rg_format a := x)" "\<not> high \<Longrightarrow> pv_state p1 (rg_format a) = Some ?lab"
    using segment_load [OF assms(1,2) d(6)] by (auto simp: p1_def split: if_splits)
  define p2 where "p2 = applyTransfer names (if high then insn ''S_LSHR_B32'' [wr_op a, rd_op a, imm_op 16]
        else insn ''S_AND_B32'' [wr_op a, rd_op a, imm_op 0xffff]) p1"
  have i: "signed32 16 = 16" by (simp add: signed32_def)
  have s2: "pv_state p2 = (pv_state p)(rg_format a \<mapsto> ?lab)"
  proof (cases high)
    case True
    then show ?thesis using d(1) k(1) p1 i by (simp add: p2_def applyTransfer_def tr_lshr16_def Let_def)
  next
    case False
    then show ?thesis using d(1) k(1) p1 by (simp add: p2_def applyTransfer_def tr_and_def Let_def)
  qed
  define p3 where "p3 = applyTransfer names (insn ''S_MUL_I32'' [wr_op c, rd_op g, rd_op a]) p2"
  have p3: "pv_state p3 = (pv_state p2)(rg_format c \<mapsto> ''(blockIdx.'' @ [k] @ '' * blockDim.'' @ [k] @ '')'')"
    using d k assms(4,7) by (simp add: p3_def applyTransfer_def tr_arith_def build_expr_def val_def s2 Let_def del: gather.simps(2))
  have "pv_state (applyTransfer names (insn ''V_ADD_U32'' [wr_op vi, rd_op c, rd_op v0]) p3) (rg_format vi)
      = Some (''((blockIdx.'' @ [k] @ '' * blockDim.'' @ [k] @ '') + threadIdx.'' @ [k] @ '')'')"
    using d k assms(5,6,8) by (simp add: applyTransfer_def tr_arith_def build_expr_def val_def s2 p3 Let_def del: gather.simps(2))
  then show ?thesis by (simp only: run_prov_def index_math_def p1_def [symmetric] p2_def [symmetric] p3_def [symmetric] fold.simps comp_apply id_apply)
qed

definition nreg :: "char \<Rightarrow> char \<Rightarrow> nat \<Rightarrow> MachRegister" where
  "nreg k d n = \<lparr>rg_id = OtherReg n, rg_class = (if k = CHR ''S'' then SgprClass GFX908 else VgprClass GFX908),
     rg_val = n, rg_name = [k, d], rg_format = [k, d]\<rparr>"

text \<open>
  The block height, in the high half of the first word of the sizes: read through the dispatch pointer
  at offset 4, and through the kernarg pointer at the offset of the hidden block width.
\<close>

definition demo_prov_y :: Prov where
  "demo_prov_y = prov_init [(''V0'', ''threadIdx.x''), (''[S4,S5]'', ''&kernarg''), (''[S2,S3]'', ''&dispatch''),
     (''S7'', ''blockIdx.y''), (''V1'', ''threadIdx.y'')]"

definition demo_names_y :: "u64 \<rightharpoonup> string" where
  "demo_names_y = [0 \<mapsto> ''data'', 24 \<mapsto> ''blockDim.x'', 26 \<mapsto> ''blockDim.y'']"

lemma index_math_recovered_witness:
  defines "index \<equiv> (\<lambda>base off. pv_state (run_prov demo_names_y (index_math base demo_pair off True (nreg CHR ''S'' CHR ''0'' 0)
      (nreg CHR ''S'' CHR ''7'' 7) (nreg CHR ''S'' CHR ''1'' 1) (nreg CHR ''V'' CHR ''1'' 1) (nreg CHR ''V'' CHR ''2'' 2)) demo_prov_y) ''V2'')"
  shows "index ''[S2,S3]'' 4 = Some ''((blockIdx.y * blockDim.y) + threadIdx.y)''
    \<and> index ''[S4,S5]'' 24 = Some ''((blockIdx.y * blockDim.y) + threadIdx.y)''"
proof -
  have b: "pv_base demo_prov_y = ''[S4,S5]''" by (simp add: demo_prov_y_def prov_init_def initial_base_def)
  have r: "list_all plain_reg [nreg CHR ''S'' CHR ''0'' 0, nreg CHR ''S'' CHR ''7'' 7, nreg CHR ''S'' CHR ''1'' 1,
      nreg CHR ''V'' CHR ''1'' 1, nreg CHR ''V'' CHR ''2'' 2]"
    by (simp add: plain_reg_def isDataReg_def nreg_def regKey_def toupper_def)
  have s: "pv_state demo_prov_y ''[S2,S3]'' = Some ''&dispatch''" "pv_state demo_prov_y ''S7'' = Some (''blockIdx.'' @ ''y'')"
      "pv_state demo_prov_y ''V1'' = Some (''threadIdx.'' @ ''y'')"
    by (simp_all add: demo_prov_y_def prov_init_def)
  have l: "segment_label demo_names_y demo_prov_y ''[S2,S3]'' (signed32 4 + 2) (''blockDim.'' @ ''y'')"
      "segment_label demo_names_y demo_prov_y ''[S4,S5]'' (signed32 24 + 2) (''blockDim.'' @ ''y'')"
    by (simp_all add: segment_label_def b s demo_names_y_def signed32_def)
  have f: "rg_format (nreg x y n) = [x, y]" for x y n by (simp add: nreg_def)
  have "index base off = Some ''((blockIdx.y * blockDim.y) + threadIdx.y)''"
    if "segment_label demo_names_y demo_prov_y base (signed32 off + 2) (''blockDim.'' @ ''y'')" for base off
    using index_math_recovered [of demo_names_y demo_prov_y base off True "CHR ''y''" demo_pair, OF _ demo_pair_data r] that s
    by (simp add: index_def f)
  then show ?thesis using l by blast
qed

text \<open>
  two renderings lose information. A mask of a value that came from a known segment keeps
  the bare label whatever the mask is (\<open>n & 1\<close> is rendered as \<open>n\<close>), and \<open>v_lshlrev\<close> of two
  registers, whose first source is the shift amount, is rendered as \<open>amount << value\<close>.
\<close>
theorem mask_dropped_and_shift_reversed:
  assumes "plain_reg a" "plain_reg d" "plain_reg s" "isDataReg s"
    and "pv_packed p (rg_format a) = Some (''&kernarg'', off)" "pv_state p (rg_format a) = Some lab"
  shows "pv_state (applyTransfer names (insn ''V_AND_B32'' [wr_op d, imm_op m, rd_op a]) p) (rg_format d) = Some lab
    \<and> pv_state (applyTransfer names (insn ''V_LSHLREV_B32'' [wr_op d, rd_op a, rd_op s]) p) (rg_format d)
        = Some (''('' @ lab @ '' << '' @ val (pv_state p) (rg_format s) @ '')'')"
  using assms
  by (simp add: plain_reg_def applyTransfer_def tr_and_def tr_arith_def build_expr_def val_def Let_def del: gather.simps(2))

lemma mask_dropped_and_shift_reversed_witness:
  "pv_state (applyTransfer demo_names (insn ''V_AND_B32'' [wr_op (nreg CHR ''V'' CHR ''1'' 1), imm_op 1, rd_op (nreg CHR ''V'' CHR ''2'' 2)])
      (demo_prov\<lparr>pv_state := [''V2'' \<mapsto> ''n''], pv_packed := [''V2'' \<mapsto> (''&kernarg'', 8)]\<rparr>)) ''V1'' = Some ''n''"
proof -
  have "plain_reg (nreg CHR ''V'' CHR ''1'' 1)" "plain_reg (nreg CHR ''V'' CHR ''2'' 2)"
    by (simp_all add: plain_reg_def isDataReg_def nreg_def regKey_def toupper_def)
  then show ?thesis
    using mask_dropped_and_shift_reversed [of "nreg CHR ''V'' CHR ''2'' 2" "nreg CHR ''V'' CHR ''1'' 1" "nreg CHR ''V'' CHR ''2'' 2"
      "demo_prov\<lparr>pv_state := [''V2'' \<mapsto> ''n''], pv_packed := [''V2'' \<mapsto> (''&kernarg'', 8)]\<rparr>" 8 "''n''" demo_names 1]
    by (simp add: plain_reg_def) (simp add: nreg_def plain_reg_def)
qed

end
