(* ===== verification/Region_Tree.thy ===== *)
theory Region_Tree
  imports Provenance Printf
begin

text \<open>
  The region tree of \<open>structure.C\<close>: \<open>build\<close> walks the instructions in control-flow order with a
  stack of open regions, \<open>combineConditions\<close> folds the guards from the root down, \<open>regionOf\<close>
  finds the region of a block and \<open>dump\<close> prints the tree. A region pointer is its index in
  \<open>all_\<close> (the root is 0); the stack has its top first.
\<close>

section \<open>Regions\<close>

datatype Kind = KRoot | KIf | KElse | KLoop | KSelect

record Region =
  kind :: Kind
  cond :: string
  header :: nat
  headerBlk :: "nat option"
  parent :: "nat option"
  children :: "nat list"
  body :: "nat list"
  reconverge :: nat
  balanced :: bool
  pairedIf :: "nat option"
  effCond :: string

record Tree =
  regions :: "Region list"
  stack :: "nat list"

definition makeRegion :: "Kind \<Rightarrow> nat \<Rightarrow> nat option \<Rightarrow> Region" where
  "makeRegion k h b = \<lparr>kind = k, cond = '''', header = h, headerBlk = b, parent = None, children = [], body = [],
     reconverge = 0, balanced = True, pairedIf = None, effCond = ''''\<rparr>"

definition upd :: "nat \<Rightarrow> (Region \<Rightarrow> Region) \<Rightarrow> Region list \<Rightarrow> Region list" where
  "upd r g rs = rs[r := g (rs ! r)]"

definition add_child :: "nat option \<Rightarrow> nat \<Rightarrow> Region list \<Rightarrow> Region list" where
  "add_child p c rs = (case p of None \<Rightarrow> rs | Some q \<Rightarrow> upd q (\<lambda>r. r\<lparr>children := children r @ [c]\<rparr>) rs)"

text \<open>Open: the condition and the post-dominator's start are computed by the caller.\<close>

definition openRegion :: "string \<Rightarrow> nat \<Rightarrow> nat \<Rightarrow> nat option \<Rightarrow> Tree \<Rightarrow> Tree" where
  "openRegion c rc addr blk t =
     (let cur = hd (stack t); r = length (regions t);
          new = (makeRegion KIf addr blk)\<lparr>cond := c, parent := Some cur, reconverge := rc\<rparr> in
      \<lparr>regions = add_child (Some cur) r (regions t) @ [new], stack = r # stack t\<rparr>)"

definition replace_top :: "Region \<Rightarrow> Tree \<Rightarrow> Tree" where
  "replace_top new t = (let e = length (regions t) in
     \<lparr>regions = add_child (parent new) e (regions t) @ [new], stack = e # tl (stack t)\<rparr>)"

definition elseRegion :: "nat \<Rightarrow> nat option \<Rightarrow> Tree \<Rightarrow> Tree" where
  "elseRegion addr blk t = (let cur = hd (stack t) in
     if cur = 0 then t
     else replace_top ((makeRegion KElse addr blk)\<lparr>parent := parent (regions t ! cur), pairedIf := Some cur\<rparr>) t)"

definition rerouteRegion :: "nat \<Rightarrow> nat option \<Rightarrow> Tree \<Rightarrow> Tree" where
  "rerouteRegion addr blk t = (let cur = hd (stack t) in
     if cur = 0 then t
     else replace_top ((makeRegion KElse addr blk)\<lparr>parent := parent (regions t ! cur), balanced := False\<rparr>) t)"

definition closeRegion :: "nat \<Rightarrow> Tree \<Rightarrow> Tree" where
  "closeRegion addr t =
     (if length (stack t) \<le> 1 then t
      else \<lparr>regions = upd (hd (stack t)) (\<lambda>r. r\<lparr>balanced := (reconverge r = 0 \<or> reconverge r \<le> addr)\<rparr>) (regions t),
            stack = tl (stack t)\<rparr>)"

definition narrowRegion :: "string \<Rightarrow> Tree \<Rightarrow> Tree" where
  "narrowRegion c t = (let cur = hd (stack t) in
     if cur = 0 then t
     else t\<lparr>regions := upd cur (\<lambda>r. r\<lparr>cond := (if cond r = '''' then c else cond r @ '' && '' @ c)\<rparr>) (regions t)\<rparr>)"

definition bodyAddr :: "nat \<Rightarrow> Tree \<Rightarrow> Tree" where
  "bodyAddr addr t = t\<lparr>regions := upd (hd (stack t)) (\<lambda>r. r\<lparr>body := body r @ [addr]\<rparr>) (regions t)\<rparr>"

text \<open>One step of the walk: the role of the instruction, its condition and its block's data.\<close>

definition tree_step :: "MaskOp \<Rightarrow> string \<Rightarrow> nat \<Rightarrow> nat \<Rightarrow> nat option \<Rightarrow> Tree \<Rightarrow> Tree" where
  "tree_step m c rc addr blk t =
     (case m of
        Open \<Rightarrow> openRegion c rc addr blk t
      | Else \<Rightarrow> elseRegion addr blk t
      | Reroute \<Rightarrow> rerouteRegion addr blk t
      | Close \<Rightarrow> closeRegion addr t
      | Narrow \<Rightarrow> narrowRegion c t
      | Call \<Rightarrow> bodyAddr addr t
      | Select \<Rightarrow> bodyAddr addr t
      | Compare \<Rightarrow> t
      | MNone \<Rightarrow> t)"

definition tree_init :: Tree where
  "tree_init = \<lparr>regions = [makeRegion KRoot 0 None], stack = [0]\<rparr>"

section \<open>Conditions\<close>

definition cond_text :: "(nat \<rightharpoonup> string) \<Rightarrow> nat \<times> Instruction \<Rightarrow> string" where
  "cond_text condAt d = (let (a, i) = d in
     if classify i = Compare then
       (case condAt a of None \<Rightarrow> formatCompare i | Some s \<Rightarrow> if s = '''' then formatCompare i else s)
     else in_mnemonic i)"

definition reachingCond :: "Function \<Rightarrow> (nat \<rightharpoonup> string) \<Rightarrow> reg_id list \<Rightarrow> nat \<Rightarrow> nat \<Rightarrow> string" where
  "reachingCond f condAt regs blk before =
     (case fst (search f (\<lambda>i. definesAny i regs) (\<lambda>d. cond_text condAt d \<noteq> '''') [] blk before []) of
        None \<Rightarrow> '''' | Some d \<Rightarrow> cond_text condAt d)"

definition recoverCond :: "Function \<Rightarrow> (nat \<rightharpoonup> string) \<Rightarrow> nat \<times> Instruction \<Rightarrow> nat \<Rightarrow> string" where
  "recoverCond f condAt ai blk = (let c = reachingCond f condAt (maskReads (snd ai)) blk (fst ai) in if c = '''' then ''?'' else c)"

section \<open>The walk\<close>

text \<open>\<open>ins\<close> with the block of each instruction: the last block of the order that lists the address.\<close>

definition blkOf :: "Function \<Rightarrow> nat \<Rightarrow> nat option" where
  "blkOf f a = find (\<lambda>b. a \<in> fst ` set (blk_insns (deref f b))) (rev (reversePostOrder f))"

definition build_step :: "Function \<Rightarrow> (nat \<rightharpoonup> string) \<Rightarrow> nat \<times> Instruction \<Rightarrow> Tree \<Rightarrow> Tree" where
  "build_step f condAt ai t =
     (let (addr, i) = ai; blk = blkOf f addr;
          c = (case blk of None \<Rightarrow> ''?'' | Some b \<Rightarrow> recoverCond f condAt ai b);
          rc = (case blk of None \<Rightarrow> 0 | Some b \<Rightarrow> (case fn_ipdom f b of None \<Rightarrow> 0 | Some p \<Rightarrow> blk_start (deref f p)))
      in tree_step (classify i) c rc addr blk t)"

definition build_tree :: "Function \<Rightarrow> (nat \<rightharpoonup> string) \<Rightarrow> Tree" where
  "build_tree f condAt = fold (build_step f condAt) (insns_rpo f) tree_init"

section \<open>Guards\<close>

text \<open>The recursions follow \<open>pairedIf\<close> and \<open>children\<close>; \<open>None\<close> is a recursion deeper than the fuel.\<close>

fun localGuard :: "nat \<Rightarrow> Region list \<Rightarrow> nat \<Rightarrow> string option" where
  "localGuard 0 rs r = None"
| "localGuard (Suc n) rs r =
     (case (kind (rs ! r), pairedIf (rs ! r)) of
        (KElse, Some q) \<Rightarrow> map_option (\<lambda>g. ''!('' @ g @ '')'') (localGuard n rs q)
      | _ \<Rightarrow> Some (cond (rs ! r)))"

definition join_guard :: "string \<Rightarrow> string \<Rightarrow> string" where
  "join_guard parentEff self =
     (if self = '''' then parentEff else if parentEff = '''' then self else parentEff @ '' && '' @ self)"

function combineConditions :: "nat \<Rightarrow> Region list \<Rightarrow> nat \<Rightarrow> string \<Rightarrow> Region list option"
  and combine_children :: "nat \<Rightarrow> Region list \<Rightarrow> nat list \<Rightarrow> string \<Rightarrow> Region list option" where
  "combineConditions 0 rs r parentEff = None"
| "combineConditions (Suc n) rs r parentEff =
     (case localGuard (length rs) rs r of None \<Rightarrow> None
      | Some self \<Rightarrow> (let eff = join_guard parentEff self in
          combine_children n (upd r (\<lambda>x. x\<lparr>effCond := eff\<rparr>) rs) (children (rs ! r)) eff))"
| "combine_children n rs [] eff = Some rs"
| "combine_children n rs (c # cs) eff =
     (case combineConditions n rs c eff of None \<Rightarrow> None | Some rs' \<Rightarrow> combine_children n rs' cs eff)"
  by pat_completeness auto
termination
  by (relation "measures [\<lambda>x. case x of Inl (n, _) \<Rightarrow> n | Inr (n, _) \<Rightarrow> n,
    \<lambda>x. case x of Inl _ \<Rightarrow> 0 | Inr (n, rs, cs, e) \<Rightarrow> Suc (length cs)]") auto

definition build :: "Function \<Rightarrow> (nat \<rightharpoonup> string) \<Rightarrow> Region list option" where
  "build f condAt = (let rs = regions (build_tree f condAt) in combineConditions (length rs) rs 0 '''')"

section \<open>Queries and printing\<close>

definition regionOf :: "Region list \<Rightarrow> nat \<Rightarrow> nat" where
  "regionOf rs a = fold (\<lambda>r best.
     if r \<noteq> 0 \<and> header (rs ! r) \<le> a \<and> (reconverge (rs ! r) = 0 \<or> a < reconverge (rs ! r))
        \<and> header (rs ! best) \<le> header (rs ! r) then r else best) [0..<length rs] 0"

fun dump :: "nat \<Rightarrow> Region list \<Rightarrow> nat \<Rightarrow> nat \<Rightarrow> string list" where
  "dump 0 rs r depth = []"
| "dump (Suc n) rs r depth =
     (let x = rs ! r; pad = spaces (2 * depth) in
      (case kind x of
         KRoot \<Rightarrow> [''function'']
       | KElse \<Rightarrow> [pad @ ''else ['' @ effCond x @ '']   // @'' @ hex0x (header x) @ '' ''
            @ (if balanced x then '''' else ''[REROUTE/irregular]'')]
       | _ \<Rightarrow> [pad @ ''if '' @ effCond x @ '' {   // @'' @ hex0x (header x) @ ''  reconverge@'' @ hex0x (reconverge x) @ '' ''
            @ (if balanced x then '''' else ''[UNBALANCED]'')])
      @ map (\<lambda>a. pad @ ''  body @'' @ hex0x a) (body x)
      @ concat (map (\<lambda>c. dump n rs c (Suc depth)) (children x)))"

section \<open>The invariant of the tree and the stack\<close>

text \<open>
  Every region but the root is an If or an Else below an older parent that lists it, children are
  listed in creation order, an Else is paired with an older sibling; the stack is the chain of
  parents from the innermost open region to the root.
\<close>

definition region_ok :: "Region list \<Rightarrow> nat \<Rightarrow> bool" where
  "region_ok rs r \<longleftrightarrow>
     (r = 0 \<longrightarrow> kind (rs ! r) = KRoot \<and> parent (rs ! r) = None)
     \<and> (0 < r \<longrightarrow> kind (rs ! r) \<in> {KIf, KElse} \<and> (\<exists>p < r. parent (rs ! r) = Some p \<and> r \<in> set (children (rs ! p))))
     \<and> sorted_wrt (<) (children (rs ! r))
     \<and> (\<forall>c \<in> set (children (rs ! r)). r < c \<and> c < length rs \<and> parent (rs ! c) = Some r)
     \<and> (\<forall>q. pairedIf (rs ! r) = Some q \<longrightarrow> kind (rs ! r) = KElse \<and> 0 < q \<and> q < r \<and> parent (rs ! q) = parent (rs ! r))"

definition forest_ok :: "Region list \<Rightarrow> bool" where
  "forest_ok rs \<longleftrightarrow> rs \<noteq> [] \<and> (\<forall>r < length rs. region_ok rs r)"

fun chain :: "Region list \<Rightarrow> nat list \<Rightarrow> bool" where
  "chain rs [] = False"
| "chain rs [r] = (r = 0)"
| "chain rs (r # p # st) = (0 < r \<and> r < length rs \<and> parent (rs ! r) = Some p \<and> chain rs (p # st))"

definition tree_ok :: "Tree \<Rightarrow> bool" where
  "tree_ok t = (forest_ok (regions t) \<and> chain (regions t) (stack t))"

definition skel :: "Region \<Rightarrow> Kind \<times> nat option \<times> nat list \<times> nat option" where
  "skel r = (kind r, parent r, children r, pairedIf r)"

lemma length_upd [simp]: "length (upd r g rs) = length rs"
  by (simp add: upd_def)

lemma nth_upd: "i < length rs \<Longrightarrow> upd r g rs ! i = (if i = r then g (rs ! r) else rs ! i)"
  by (simp add: upd_def nth_list_update)

lemma skel_eq_nth:
  assumes "map skel rs = map skel rs'"
  shows "length rs = length rs'"
    "i < length rs \<Longrightarrow> kind (rs ! i) = kind (rs' ! i) \<and> parent (rs ! i) = parent (rs' ! i)
      \<and> children (rs ! i) = children (rs' ! i) \<and> pairedIf (rs ! i) = pairedIf (rs' ! i)"
proof -
  show l: "length rs = length rs'" using assms map_eq_imp_length_eq by blast
  assume "i < length rs"
  then have "skel (rs ! i) = skel (rs' ! i)" using assms l by (metis nth_map)
  then show "kind (rs ! i) = kind (rs' ! i) \<and> parent (rs ! i) = parent (rs' ! i)
      \<and> children (rs ! i) = children (rs' ! i) \<and> pairedIf (rs ! i) = pairedIf (rs' ! i)"
    by (simp add: skel_def)
qed

lemma forest_ok_skel:
  assumes "map skel rs = map skel rs'" "forest_ok rs"
  shows "forest_ok rs'"
proof -
  note l = skel_eq_nth(1) [OF assms(1)] and n = skel_eq_nth(2) [OF assms(1)]
  have "region_ok rs' r" if r: "r < length rs'" for r
  proof -
    have ok: "region_ok rs r" using assms(2) r l by (simp add: forest_ok_def)
    have par: "parent (rs' ! c) = parent (rs ! c)" if "c < length rs" for c using n [OF that] by simp
    have ch: "children (rs' ! c) = children (rs ! c)" if "c < length rs" for c using n [OF that] by simp
    have k: "kind (rs' ! r) = kind (rs ! r)" "parent (rs' ! r) = parent (rs ! r)" "children (rs' ! r) = children (rs ! r)"
      "pairedIf (rs' ! r) = pairedIf (rs ! r)" using n [of r] r l by simp_all
    have "\<exists>p < r. parent (rs' ! r) = Some p \<and> r \<in> set (children (rs' ! p))" if pos: "0 < r"
    proof -
      obtain p where "p < r" "parent (rs ! r) = Some p" "r \<in> set (children (rs ! p))"
        using ok pos by (auto simp: region_ok_def)
      then show ?thesis using ch [of p] k(2) r l by auto
    qed
    moreover have "\<forall>c \<in> set (children (rs ! r)). r < c \<and> c < length rs' \<and> parent (rs' ! c) = Some r"
      using ok l par by (auto simp: region_ok_def)
    moreover have "parent (rs' ! q) = parent (rs ! r)" if "pairedIf (rs ! r) = Some q" for q
      using ok that par [of q] r l by (auto simp: region_ok_def)
    moreover have "kind (rs' ! 0) = kind (rs ! 0)" "parent (rs' ! 0) = parent (rs ! 0)" using n [of 0] r l by (cases "rs' = []"; simp)+
    ultimately show ?thesis using ok by (simp add: region_ok_def k)
  qed
  then show ?thesis using assms(2) l by (auto simp: forest_ok_def)
qed

lemma chain_parents:
  "chain rs st \<Longrightarrow> length rs \<le> length rs' \<Longrightarrow> (\<And>i. i < length rs \<Longrightarrow> parent (rs' ! i) = parent (rs ! i)) \<Longrightarrow> chain rs' st"
  by (induction rs st rule: chain.induct) auto

lemma chain_skel: "map skel rs = map skel rs' \<Longrightarrow> chain rs st \<Longrightarrow> chain rs' st"
  using skel_eq_nth [of rs rs'] by (intro chain_parents [of rs st rs']) auto

lemma skel_upd: "(\<And>x. skel (g x) = skel x) \<Longrightarrow> map skel (upd r g rs) = map skel rs"
  by (rule nth_equalityI) (auto simp: nth_upd)

lemma tree_ok_upd: "tree_ok t \<Longrightarrow> (\<And>x. skel (g x) = skel x) \<Longrightarrow> tree_ok (t\<lparr>regions := upd r g (regions t)\<rparr>)"
  using forest_ok_skel [OF skel_upd [of g r "regions t", symmetric]] chain_skel [OF skel_upd [of g r "regions t", symmetric]]
  by (simp add: tree_ok_def)

lemma length_add_child [simp]: "length (add_child p c rs) = length rs"
  by (simp add: add_child_def split: option.splits)

lemma nth_add_child: "i < length rs \<Longrightarrow> add_child (Some p) c rs ! i = (if i = p then (rs ! i)\<lparr>children := children (rs ! i) @ [c]\<rparr> else rs ! i)"
  by (simp add: add_child_def nth_upd)

lemma forest_ok_new:
  assumes ok: "forest_ok rs" and p: "p < length rs" and new: "parent new = Some p" "children new = []" "kind new \<in> {KIf, KElse}"
    and paired: "\<And>q. pairedIf new = Some q \<Longrightarrow> kind new = KElse \<and> 0 < q \<and> q < length rs \<and> parent (rs ! q) = Some p"
  shows "forest_ok (add_child (Some p) (length rs) rs @ [new])"
proof -
  let ?rs = "add_child (Some p) (length rs) rs @ [new]"
  have nth: "?rs ! i = (if i = p then (rs ! i)\<lparr>children := children (rs ! i) @ [length rs]\<rparr> else rs ! i)" if "i < length rs" for i
    using that by (simp add: nth_append nth_add_child)
  have last: "?rs ! length rs = new" by (simp add: nth_append)
  have fields: "kind (?rs ! i) = kind (rs ! i)" "parent (?rs ! i) = parent (rs ! i)" "pairedIf (?rs ! i) = pairedIf (rs ! i)"
    "set (children (?rs ! i)) = set (children (rs ! i)) \<union> (if i = p then {length rs} else {})" if "i < length rs" for i
    using nth [OF that] by auto
  have "region_ok ?rs r" if "r < length ?rs" for r
  proof (cases "r < length rs")
    case True
    then have r: "region_ok rs r" using ok by (simp add: forest_ok_def)
    have "sorted_wrt (<) (children (?rs ! r))"
      using r nth [OF True] by (auto simp: region_ok_def sorted_wrt_append)
    moreover have "\<forall>c \<in> set (children (?rs ! r)). r < c \<and> c < length ?rs \<and> parent (?rs ! c) = Some r"
      using r True fields last new(1) unfolding region_ok_def by (auto split: if_splits)
    moreover have "0 < r \<Longrightarrow> \<exists>q < r. parent (?rs ! r) = Some q \<and> r \<in> set (children (?rs ! q))"
      using r True fields unfolding region_ok_def by (metis UnI1 less_trans)
    ultimately show ?thesis using r fields [OF True] fields(2) True unfolding region_ok_def by auto
  next
    case False
    then have r: "r = length rs" using that by simp
    have "0 < length rs" using p by (rule le_less_trans [OF le0])
    moreover have "length rs \<in> set (children (?rs ! p))" using fields(4) [OF p] by simp
    ultimately show ?thesis using new p paired fields(2) unfolding r region_ok_def last by auto
  qed
  then show ?thesis using ok by (simp add: forest_ok_def)
qed

lemma chain_nonempty: "chain rs st \<Longrightarrow> st \<noteq> []"
  by (cases st) auto

lemma chain_less: "chain rs st \<Longrightarrow> rs \<noteq> [] \<Longrightarrow> r \<in> set st \<Longrightarrow> r < length rs"
  by (induction rs st rule: chain.induct) auto

lemma chain_top: "chain rs st \<Longrightarrow> hd st \<noteq> 0 \<Longrightarrow> \<exists>p st'. st = hd st # p # st' \<and> parent (rs ! hd st) = Some p \<and> chain rs (p # st') \<and> hd st < length rs"
  by (cases "(rs, st)" rule: chain.cases) auto

lemma parent_grown: "i < length rs \<Longrightarrow> parent ((add_child (Some p) c rs @ ys) ! i) = parent (rs ! i)"
  by (simp add: nth_append nth_add_child)

lemma chain_grown: "chain rs st \<Longrightarrow> chain (add_child (Some p) c rs @ ys) st"
  by (erule chain_parents) (simp_all add: parent_grown)

lemma makeRegion_simps [simp]:
  "kind (makeRegion k h b) = k" "cond (makeRegion k h b) = ''''" "header (makeRegion k h b) = h" "parent (makeRegion k h b) = None"
  "children (makeRegion k h b) = []" "body (makeRegion k h b) = []" "reconverge (makeRegion k h b) = 0"
  "balanced (makeRegion k h b) = True" "pairedIf (makeRegion k h b) = None" "effCond (makeRegion k h b) = ''''"
  by (simp_all add: makeRegion_def)

lemma tree_ok_init: "tree_ok tree_init"
  by (simp add: tree_ok_def tree_init_def forest_ok_def region_ok_def)

lemma tree_ok_open: "tree_ok t \<Longrightarrow> tree_ok (openRegion c rc addr blk t)"
proof -
  assume ok: "tree_ok t"
  then have f: "forest_ok (regions t)" and ch: "chain (regions t) (stack t)" by (simp_all add: tree_ok_def)
  obtain cur st where st: "stack t = cur # st" using chain_nonempty [OF ch] by (cases "stack t") auto
  have cur: "cur < length (regions t)" using chain_less [OF ch] f st by (auto simp: forest_ok_def)
  let ?new = "(makeRegion KIf addr blk)\<lparr>cond := c, parent := Some cur, reconverge := rc\<rparr>"
  have "forest_ok (add_child (Some cur) (length (regions t)) (regions t) @ [?new])"
    by (rule forest_ok_new [OF f cur]) simp_all
  moreover have "chain (add_child (Some cur) (length (regions t)) (regions t) @ [?new]) (length (regions t) # cur # st)"
    using cur chain_grown [OF ch, of cur "length (regions t)" "[?new]"] st by (auto simp: nth_append)
  ultimately show ?thesis by (simp add: tree_ok_def openRegion_def st Let_def)
qed

lemma tree_ok_replace:
  assumes "tree_ok t" "hd (stack t) \<noteq> 0" "parent new = parent (regions t ! hd (stack t))" "children new = []" "kind new = KElse"
    and "\<And>q. pairedIf new = Some q \<Longrightarrow> q = hd (stack t)"
  shows "tree_ok (replace_top new t)"
proof -
  have f: "forest_ok (regions t)" and ch: "chain (regions t) (stack t)" using assms(1) by (simp_all add: tree_ok_def)
  obtain cur p st where st: "stack t = cur # p # st" "parent (regions t ! cur) = Some p" "chain (regions t) (p # st)" "cur < length (regions t)" "cur \<noteq> 0"
    using chain_top [OF ch assms(2)] assms(2) by (metis list.sel(1))
  have p: "p < length (regions t)" using chain_less [OF st(3)] f by (auto simp: forest_ok_def)
  have par: "parent new = Some p" using assms(3) st(1,2) by simp
  have "forest_ok (add_child (Some p) (length (regions t)) (regions t) @ [new])"
  proof (rule forest_ok_new [OF f p par assms(4)])
    show "kind new \<in> {KIf, KElse}" using assms(5) by simp
    fix q' assume q': "pairedIf new = Some q'"
    have "q' = cur" using assms(6) [OF q'] st(1) by simp
    then show "kind new = KElse \<and> 0 < q' \<and> q' < length (regions t) \<and> parent (regions t ! q') = Some p"
      using st assms(5) by simp
  qed
  moreover have "chain (add_child (Some p) (length (regions t)) (regions t) @ [new]) (length (regions t) # p # st)"
    using par chain_grown [OF st(3), of p "length (regions t)" "[new]"] p by (auto simp: nth_append)
  ultimately show ?thesis by (simp add: tree_ok_def replace_top_def par st(1) Let_def)
qed

lemma tree_ok_close: "tree_ok t \<Longrightarrow> tree_ok (closeRegion addr t)"
proof (cases "length (stack t) \<le> 1")
  case False
  assume ok: "tree_ok t"
  let ?t = "t\<lparr>regions := upd (hd (stack t)) (\<lambda>r. r\<lparr>balanced := (reconverge r = 0 \<or> reconverge r \<le> addr)\<rparr>) (regions t)\<rparr>"
  have t: "tree_ok ?t" by (rule tree_ok_upd [OF ok]) (simp add: skel_def)
  obtain x y st where "stack t = x # y # st" using False by (cases "stack t" rule: remdups_adj.cases) auto
  then show ?thesis using t False by (simp add: tree_ok_def closeRegion_def)
qed (simp add: closeRegion_def)

lemma tree_ok_step: "tree_ok t \<Longrightarrow> tree_ok (tree_step m c rc addr blk t)"
proof (cases m)
  case Else
  then show "tree_ok t \<Longrightarrow> tree_ok (tree_step m c rc addr blk t)"
    using tree_ok_replace [of t "(makeRegion KElse addr blk)\<lparr>parent := parent (regions t ! hd (stack t)), pairedIf := Some (hd (stack t))\<rparr>"]
    by (simp add: tree_step_def elseRegion_def Let_def)
next
  case Reroute
  then show "tree_ok t \<Longrightarrow> tree_ok (tree_step m c rc addr blk t)"
    using tree_ok_replace [of t "(makeRegion KElse addr blk)\<lparr>parent := parent (regions t ! hd (stack t)), balanced := False\<rparr>"]
    by (simp add: tree_step_def rerouteRegion_def Let_def)
qed (auto simp: tree_step_def tree_ok_open tree_ok_close narrowRegion_def bodyAddr_def skel_def Let_def intro!: tree_ok_upd)

lemma build_tree_ok: "tree_ok (build_tree f condAt)"
proof -
  have "tree_ok t \<Longrightarrow> tree_ok (fold (build_step f condAt) is t)" for "is" t
    by (induction "is" arbitrary: t) (auto simp: build_step_def tree_ok_step Let_def split: prod.splits)
  then show ?thesis by (simp add: build_tree_def tree_ok_init)
qed

section \<open>The guards\<close>

function lguard :: "Region list \<Rightarrow> nat \<Rightarrow> string" where
  "lguard rs r = (case (kind (rs ! r), pairedIf (rs ! r)) of
      (KElse, Some q) \<Rightarrow> if q < r then ''!('' @ lguard rs q @ '')'' else ''''
    | _ \<Rightarrow> cond (rs ! r))"
  by pat_completeness auto
termination
  by (relation "measure snd") auto

function eff_spec :: "Region list \<Rightarrow> nat \<Rightarrow> string" where
  "eff_spec rs r = (case parent (rs ! r) of
      Some p \<Rightarrow> if p < r then join_guard (eff_spec rs p) (lguard rs r) else ''''
    | None \<Rightarrow> join_guard '''' (lguard rs r))"
  by pat_completeness auto
termination
  by (relation "measure snd") auto

declare lguard.simps [simp del] eff_spec.simps [simp del]

definition core :: "Region \<Rightarrow> Region" where
  "core r = r\<lparr>effCond := ''''\<rparr>"

lemma core_eq:
  assumes "core x = core y"
  shows "kind x = kind y" "parent x = parent y" "children x = children y" "pairedIf x = pairedIf y" "cond x = cond y"
  using arg_cong [OF assms, of kind] arg_cong [OF assms, of parent] arg_cong [OF assms, of children]
    arg_cong [OF assms, of pairedIf] arg_cong [OF assms, of cond] by (simp_all add: core_def)

lemma cores_nth: "map core rs = map core rs' \<Longrightarrow> i < length rs \<Longrightarrow> core (rs ! i) = core (rs' ! i)"
  by (metis map_eq_imp_length_eq nth_map)

lemma cores_skel: "map core rs = map core rs' \<Longrightarrow> map skel rs = map skel rs'"
proof (rule nth_equalityI)
  assume m: "map core rs = map core rs'"
  then show "length (map skel rs) = length (map skel rs')" using map_eq_imp_length_eq by fastforce
  fix i assume "i < length (map skel rs)"
  then show "map skel rs ! i = map skel rs' ! i"
    using core_eq [OF cores_nth [OF m]] map_eq_imp_length_eq [OF m] by (simp add: skel_def)
qed

lemma lguard_cores: "map core rs = map core rs' \<Longrightarrow> r < length rs \<Longrightarrow> lguard rs r = lguard rs' r"
proof (induction r rule: less_induct)
  case (less r)
  note c = core_eq [OF cores_nth [OF less.prems]]
  show ?case using less.IH less.prems by (simp add: lguard.simps [of _ r] c split: Kind.splits option.splits)
qed

lemma eff_spec_cores: "map core rs = map core rs' \<Longrightarrow> r < length rs \<Longrightarrow> eff_spec rs r = eff_spec rs' r"
proof (induction r rule: less_induct)
  case (less r)
  note c = core_eq [OF cores_nth [OF less.prems]]
  show ?case using less.IH less.prems lguard_cores [OF less.prems]
    by (simp add: eff_spec.simps [of _ r] c split: option.splits)
qed

lemma localGuard_enough:
  assumes "forest_ok rs"
  shows "r < length rs \<Longrightarrow> r < n \<Longrightarrow> localGuard n rs r = Some (lguard rs r)"
proof (induction n arbitrary: r)
  case (Suc n)
  have "region_ok rs r" using assms Suc.prems by (simp add: forest_ok_def)
  then have q: "q < r" if "pairedIf (rs ! r) = Some q" for q using that by (simp add: region_ok_def)
  have ih: "localGuard n rs q = Some (lguard rs q)" if "pairedIf (rs ! r) = Some q" for q
    using Suc.IH [of q] q [OF that] Suc.prems by simp
  show ?case using ih q by (simp add: lguard.simps [of rs r] split: Kind.splits option.splits)
qed simp

definition par_rel :: "Region list \<Rightarrow> (nat \<times> nat) set" where
  "par_rel rs = {(c, p). c < length rs \<and> parent (rs ! c) = Some p}"

lemma par_rel_cores: "map core rs = map core rs' \<Longrightarrow> par_rel rs = par_rel rs'"
  using core_eq(2) [OF cores_nth] map_eq_imp_length_eq unfolding par_rel_def by (metis (mono_tags, lifting))

text \<open>What filling the guards of a subtree does: nothing else changes, and every region below gets its guard.\<close>

definition filled :: "Region list \<Rightarrow> Region list \<Rightarrow> nat set \<Rightarrow> bool" where
  "filled rs rs' S \<longleftrightarrow> map core rs' = map core rs
     \<and> (\<forall>i < length rs. effCond (rs' ! i) = effCond (rs ! i) \<or> effCond (rs' ! i) = eff_spec rs i)
     \<and> (\<forall>i \<in> S. i < length rs \<longrightarrow> effCond (rs' ! i) = eff_spec rs i)"

lemma filled_trans:
  assumes "filled rs rs' S" "filled rs' rs'' T"
  shows "filled rs rs'' (S \<union> T)"
proof -
  have c: "map core rs' = map core rs" "map core rs'' = map core rs'" and l: "length rs' = length rs"
    using assms map_eq_imp_length_eq unfolding filled_def by blast+
  have e: "i < length rs \<Longrightarrow> eff_spec rs' i = eff_spec rs i" for i by (rule eff_spec_cores [OF c(1)]) (simp add: l)
  show ?thesis using assms c e l unfolding filled_def by (metis Un_iff)
qed

lemma core_upd_eff: "map core (upd r (\<lambda>x. x\<lparr>effCond := e\<rparr>) rs) = map core rs"
  by (rule nth_equalityI) (auto simp: nth_upd core_def)

lemma below_cases:
  assumes "forest_ok rs" "r < length rs" "(i, r) \<in> (par_rel rs)\<^sup>*"
  shows "i = r \<or> (\<exists>c \<in> set (children (rs ! r)). (i, c) \<in> (par_rel rs)\<^sup>*)"
  using assms(3)
proof (cases rule: rtranclE)
  case (step c)
  then have c: "c < length rs" "parent (rs ! c) = Some r" by (auto simp: par_rel_def)
  then have "region_ok rs c" using assms(1) by (simp add: forest_ok_def)
  then have "c \<in> set (children (rs ! r))" using c unfolding region_ok_def by (cases "c = 0") auto
  with step show ?thesis by blast
qed simp

lemma combine_filled:
  "forest_ok rs \<Longrightarrow> r < length rs \<Longrightarrow> length rs - r \<le> n \<Longrightarrow>
    pe = (case parent (rs ! r) of None \<Rightarrow> '''' | Some p \<Rightarrow> eff_spec rs p) \<Longrightarrow>
    \<exists>rs'. combineConditions n rs r pe = Some rs' \<and> filled rs rs' {i. (i, r) \<in> (par_rel rs)\<^sup>*}"
  "forest_ok rs \<Longrightarrow> (\<forall>c \<in> set cs. c < length rs \<and> length rs - c \<le> n \<and> (\<exists>p. parent (rs ! c) = Some p \<and> eff = eff_spec rs p)) \<Longrightarrow>
    \<exists>rs'. combine_children n rs cs eff = Some rs' \<and> filled rs rs' {i. \<exists>c \<in> set cs. (i, c) \<in> (par_rel rs)\<^sup>*}"
proof (induction n rs r pe and n rs cs eff rule: combineConditions_combine_children.induct)
  case (1 rs r pe)
  then show ?case by simp
next
  case (2 n rs r pe)
  let ?eff = "join_guard pe (lguard rs r)"
  let ?rs = "upd r (\<lambda>x. x\<lparr>effCond := ?eff\<rparr>) rs"
  have ok: "region_ok rs r" using 2(2,3) by (simp add: forest_ok_def)
  have lg: "localGuard (length rs) rs r = Some (lguard rs r)" by (rule localGuard_enough [OF 2(2,3,3)])
  have eff: "?eff = eff_spec rs r" using ok 2(5) unfolding region_ok_def
    by (auto simp: eff_spec.simps [of rs r] split: option.splits)
  note cu = core_upd_eff [of r ?eff rs]
  have fo: "forest_ok ?rs" by (rule forest_ok_skel [OF cores_skel [OF cu [symmetric]] 2(2)])
  have es: "i < length rs \<Longrightarrow> eff_spec ?rs i = eff_spec rs i" for i by (rule eff_spec_cores [OF cu]) simp
  have "\<forall>c \<in> set (children (rs ! r)). c < length ?rs \<and> length ?rs - c \<le> n
      \<and> (\<exists>p. parent (?rs ! c) = Some p \<and> ?eff = eff_spec ?rs p)"
    using ok 2(3,4) eff es by (auto simp: region_ok_def nth_upd)
  then obtain rs' where rs': "combine_children n ?rs (children (rs ! r)) ?eff = Some rs'"
      "filled ?rs rs' {i. \<exists>c \<in> set (children (rs ! r)). (i, c) \<in> (par_rel ?rs)\<^sup>*}"
    using 2(1) [OF lg refl fo] by blast
  have "filled rs ?rs {r}" unfolding filled_def using 2(3) cu eff by (auto simp: nth_upd)
  from filled_trans [OF this rs'(2)] have f: "filled rs rs' ({r} \<union> {i. \<exists>c \<in> set (children (rs ! r)). (i, c) \<in> (par_rel rs)\<^sup>*})"
    by (simp only: par_rel_cores [OF cu])
  have "filled rs rs' {i. (i, r) \<in> (par_rel rs)\<^sup>*}"
    using f below_cases [OF 2(2,3)] unfolding filled_def by blast
  then show ?case using rs'(1) lg by (simp add: Let_def)
next
  case (3 n rs eff)
  then show ?case by (simp add: filled_def)
next
  case (4 n rs c cs eff)
  have "\<exists>p. parent (rs ! c) = Some p \<and> eff = eff_spec rs p" using 4(4) by simp
  then have "eff = (case parent (rs ! c) of None \<Rightarrow> '''' | Some p \<Rightarrow> eff_spec rs p)" by auto
  then obtain rs' where rs': "combineConditions n rs c eff = Some rs'" "filled rs rs' {i. (i, c) \<in> (par_rel rs)\<^sup>*}"
    using 4(1) [OF 4(3)] 4(4) by auto
  have cu: "map core rs' = map core rs" using rs'(2) by (simp add: filled_def)
  have l: "length rs' = length rs" by (rule map_eq_imp_length_eq [OF cu])
  have fo: "forest_ok rs'" by (rule forest_ok_skel [OF cores_skel [OF cu [symmetric]] 4(3)])
  have "\<forall>d \<in> set cs. d < length rs' \<and> length rs' - d \<le> n \<and> (\<exists>p. parent (rs' ! d) = Some p \<and> eff = eff_spec rs' p)"
  proof
    fix d assume d: "d \<in> set cs"
    then obtain p where p: "d < length rs" "length rs - d \<le> n" "parent (rs ! d) = Some p" "eff = eff_spec rs p" using 4(4) by auto
    have "region_ok rs d" using 4(3) p(1) by (simp add: forest_ok_def)
    then have "p < length rs" using p(1,3) unfolding region_ok_def by (cases "d = 0") auto
    then have "eff_spec rs' p = eff_spec rs p" by (intro eff_spec_cores [OF cu]) (simp add: l)
    moreover have "parent (rs' ! d) = parent (rs ! d)" by (rule core_eq(2) [OF cores_nth [OF cu]]) (simp add: l p(1))
    ultimately show "d < length rs' \<and> length rs' - d \<le> n \<and> (\<exists>p. parent (rs' ! d) = Some p \<and> eff = eff_spec rs' p)"
      using p l by simp
  qed
  then obtain rs'' where rs'': "combine_children n rs' cs eff = Some rs''" "filled rs' rs'' {i. \<exists>c \<in> set cs. (i, c) \<in> (par_rel rs')\<^sup>*}"
    using 4(2) [OF rs'(1) fo] by blast
  from filled_trans [OF rs'(2) rs''(2)]
  have "filled rs rs'' {i. \<exists>d \<in> set (c # cs). (i, d) \<in> (par_rel rs)\<^sup>*}"
    unfolding par_rel_cores [OF cu] filled_def by auto
  then show ?case using rs'(1) rs''(1) by simp
qed

section \<open>Properties of the tree and the guards\<close>

lemma lguard_ext:
  "(\<And>i. i \<le> r \<Longrightarrow> kind (rs' ! i) = kind (rs ! i) \<and> pairedIf (rs' ! i) = pairedIf (rs ! i) \<and> cond (rs' ! i) = cond (rs ! i))
    \<Longrightarrow> lguard rs' r = lguard rs r"
proof (induction r rule: less_induct)
  case (less r)
  have "kind (rs' ! r) = kind (rs ! r)" "pairedIf (rs' ! r) = pairedIf (rs ! r)" "cond (rs' ! r) = cond (rs ! r)"
    using less.prems by blast+
  then show ?case using less by (simp add: lguard.simps [of _ r] split: Kind.splits option.splits)
qed

lemma grown_fields:
  "i < length rs \<Longrightarrow> kind ((add_child p c rs @ ys) ! i) = kind (rs ! i) \<and> pairedIf ((add_child p c rs @ ys) ! i) = pairedIf (rs ! i)
    \<and> cond ((add_child p c rs @ ys) ! i) = cond (rs ! i) \<and> body ((add_child p c rs @ ys) ! i) = body (rs ! i)"
  by (cases p) (simp_all add: nth_append nth_add_child, simp add: add_child_def)

lemma lguard_grown: "r < length rs \<Longrightarrow> lguard (add_child p c rs @ ys) r = lguard rs r"
  by (rule lguard_ext) (simp add: grown_fields)

lemma root_cond_step:
  assumes "tree_ok t" "cond (regions t ! 0) = ''''"
  shows "cond (regions (tree_step m c rc addr blk t) ! 0) = ''''"
proof -
  have l: "0 < length (regions t)" using assms(1) by (simp add: tree_ok_def forest_ok_def)
  have top: "1 < length (stack t) \<Longrightarrow> 0 < hd (stack t)" using assms(1)
    by (cases "(regions t, stack t)" rule: chain.cases) (auto simp: tree_ok_def)
  show ?thesis using assms(2) l top
    by (cases m) (simp_all add: tree_step_def openRegion_def elseRegion_def rerouteRegion_def replace_top_def closeRegion_def
      narrowRegion_def bodyAddr_def grown_fields nth_upd Let_def)
qed

lemma build_root_cond: "cond (regions (build_tree f condAt) ! 0) = ''''"
proof -
  have "tree_ok t \<Longrightarrow> cond (regions t ! 0) = '''' \<Longrightarrow> cond (regions (fold (build_step f condAt) is t) ! 0) = ''''" for "is" t
    by (induction "is" arbitrary: t) (auto simp: build_step_def tree_ok_step root_cond_step Let_def split: prod.splits)
  moreover have "cond (regions tree_init ! 0) = ''''" by (simp add: tree_init_def)
  ultimately show ?thesis using tree_ok_init unfolding build_tree_def by blast
qed

text \<open>
  C16: the walk keeps the tree well formed whatever the instructions are: every region but the
  root is an If or Else listed once by an older parent, an Else is paired with an older sibling,
  and the stack is the chain of parents from the innermost open region to the root, which is
  never popped.
\<close>
theorem region_tree_invariant:
  "forest_ok (regions (build_tree f condAt)) \<and> chain (regions (build_tree f condAt)) (stack (build_tree f condAt))
    \<and> last (stack (build_tree f condAt)) = 0"
proof -
  have ok: "tree_ok (build_tree f condAt)" by (rule build_tree_ok)
  have "chain rs st \<Longrightarrow> last st = 0" for rs st by (induction rs st rule: chain.induct) auto
  then show ?thesis using ok by (auto simp: tree_ok_def)
qed

lemma below_root: "forest_ok rs \<Longrightarrow> i < length rs \<Longrightarrow> (i, 0) \<in> (par_rel rs)\<^sup>*"
proof (induction i rule: less_induct)
  case (less i)
  show ?case
  proof (cases "i = 0")
    case False
    then obtain p where p: "p < i" "parent (rs ! i) = Some p" using less.prems unfolding forest_ok_def region_ok_def by blast
    then have "(i, p) \<in> par_rel rs" using less.prems by (simp add: par_rel_def)
    then show ?thesis using less.IH [OF p(1)] p(1) less.prems by (auto intro: converse_rtrancl_into_rtrancl)
  qed simp
qed

text \<open>
  C17: \<open>build\<close> always finishes, and the effective guard of a region is the conjunction of its
  parent's effective guard and its own: the condition of an If, the negation of its partner's
  guard for a paired Else; the root has none.
\<close>
theorem guards_combined:
  "\<exists>rs. build f condAt = Some rs \<and> map core rs = map core (regions (build_tree f condAt))
    \<and> effCond (rs ! 0) = ''''
    \<and> (\<forall>r. 0 < r \<and> r < length rs \<longrightarrow> (\<exists>p < r. parent (rs ! r) = Some p \<and>
          effCond (rs ! r) = join_guard (effCond (rs ! p)) (lguard rs r)))
    \<and> (\<forall>r < length rs. localGuard (length rs) rs r = Some (lguard rs r))"
proof -
  let ?rs = "regions (build_tree f condAt)"
  have fo: "forest_ok ?rs" using build_tree_ok by (simp add: tree_ok_def)
  have l: "0 < length ?rs" using fo by (simp add: forest_ok_def)
  have r0: "region_ok ?rs 0" using fo l by (simp add: forest_ok_def)
  then have "'''' = (case parent (?rs ! 0) of None \<Rightarrow> '''' | Some p \<Rightarrow> eff_spec ?rs p)" by (simp add: region_ok_def)
  from combine_filled(1) [OF fo l _ this, of "length ?rs"]
  obtain rs where b: "build f condAt = Some rs" and f: "filled ?rs rs {i. (i, 0) \<in> (par_rel ?rs)\<^sup>*}"
    by (auto simp: build_def Let_def)
  have cu: "map core rs = map core ?rs" using f by (simp add: filled_def)
  have len: "length rs = length ?rs" by (rule map_eq_imp_length_eq [OF cu])
  have fo': "forest_ok rs" by (rule forest_ok_skel [OF cores_skel [OF cu [symmetric]] fo])
  have eff: "effCond (rs ! i) = eff_spec rs i" if "i < length rs" for i
    using f that below_root [OF fo] eff_spec_cores [OF cu that] by (simp add: filled_def len)
  have a: "effCond (rs ! 0) = ''''"
  proof -
    have "cond (rs ! 0) = ''''" using core_eq(5) [OF cores_nth [OF cu]] l len build_root_cond by simp
    moreover have "region_ok rs 0" using fo' l len by (simp add: forest_ok_def)
    then have "kind (rs ! 0) = KRoot" "parent (rs ! 0) = None" by (simp_all add: region_ok_def)
    ultimately show ?thesis using eff [of 0] l len by (simp add: eff_spec.simps [of rs 0] lguard.simps [of rs 0] join_guard_def)
  qed
  have step: "\<exists>p < r. parent (rs ! r) = Some p \<and> effCond (rs ! r) = join_guard (effCond (rs ! p)) (lguard rs r)"
    if r: "0 < r" "r < length rs" for r
  proof -
    obtain p where p: "p < r" "parent (rs ! r) = Some p" using fo' r unfolding forest_ok_def region_ok_def by blast
    then show ?thesis using eff [of r] eff [of p] r by (auto simp: eff_spec.simps [of rs r])
  qed
  then have "\<forall>r. 0 < r \<and> r < length rs \<longrightarrow> (\<exists>p < r. parent (rs ! r) = Some p \<and>
      effCond (rs ! r) = join_guard (effCond (rs ! p)) (lguard rs r))" by blast
  moreover have "\<forall>r < length rs. localGuard (length rs) rs r = Some (lguard rs r)"
    using localGuard_enough [OF fo'] by blast
  ultimately show ?thesis by (intro exI [of _ rs] conjI b cu a)
qed

text \<open>
  The usual lowering of an else arm, \<open>s_or_saveexec\<close> followed by \<open>s_xor exec\<close>, is two Else
  transitions: the second Else is paired with the first, and its guard is the double negation of
  the if's guard, that is the guard of the then arm.
\<close>
theorem else_twice_double_negation:
  assumes "tree_ok t" "hd (stack t) \<noteq> 0"
  shows "let t' = elseRegion a2 b2 (elseRegion a1 b1 t) in
    localGuard (length (regions t')) (regions t') (hd (stack t')) = Some (''!(!('' @ lguard (regions t) (hd (stack t)) @ ''))'')"
proof -
  define t' where "t' = elseRegion a2 b2 (elseRegion a1 b1 t)"
  let ?cur = "hd (stack t)" and ?n = "length (regions t)" and ?p = "parent (regions t ! hd (stack t))"
  define e1 where "e1 = (makeRegion KElse a1 b1)\<lparr>parent := ?p, pairedIf := Some ?cur\<rparr>"
  define rs1 where "rs1 = add_child ?p ?n (regions t) @ [e1]"
  have cur: "?cur < ?n" using chain_top assms(1,2) by (metis tree_ok_def)
  then have n0: "?n \<noteq> 0" by linarith
  have s1: "regions (elseRegion a1 b1 t) = rs1" "stack (elseRegion a1 b1 t) = ?n # tl (stack t)"
    using assms(2) by (simp_all add: elseRegion_def replace_top_def Let_def rs1_def e1_def)
  have last1: "rs1 ! ?n = e1" "length rs1 = Suc ?n" by (simp_all add: rs1_def nth_append)
  define e2 where "e2 = (makeRegion KElse a2 b2)\<lparr>parent := ?p, pairedIf := Some ?n\<rparr>"
  define rs2 where "rs2 = add_child ?p (Suc ?n) rs1 @ [e2]"
  have s2: "regions t' = rs2" "hd (stack t') = Suc ?n"
    using n0 by (simp_all add: t'_def elseRegion_def [of a2] replace_top_def s1 last1 Let_def rs2_def e2_def) (simp_all add: e1_def)
  have last2: "rs2 ! Suc ?n = e2" by (simp add: rs2_def nth_append last1)
  have "lguard rs2 ?n = lguard rs1 ?n" unfolding rs2_def by (rule lguard_grown) (simp add: last1)
  also have "\<dots> = ''!('' @ lguard rs1 ?cur @ '')''" using cur by (simp add: lguard.simps [of rs1 ?n] last1 e1_def)
  also have "lguard rs1 ?cur = lguard (regions t) ?cur" unfolding rs1_def by (rule lguard_grown [OF cur])
  finally have g: "lguard rs2 (Suc ?n) = ''!(!('' @ lguard (regions t) ?cur @ ''))''"
    by (simp add: lguard.simps [of rs2 "Suc ?n"] last2 e2_def)
  have "tree_ok (elseRegion a1 b1 t)" using tree_ok_step [OF assms(1), of Else] by (simp add: tree_step_def)
  then have "tree_ok t'" using tree_ok_step [of "elseRegion a1 b1 t" Else] by (simp add: tree_step_def t'_def)
  then show ?thesis using localGuard_enough [of rs2 "Suc ?n" "length rs2"] g
    by (simp add: s2 tree_ok_def Let_def t'_def [symmetric]) (simp add: rs2_def last1)
qed

text \<open>
  The irregular flag of a reroute does not survive: a rerouted arm has no reconvergence
  address, so its close marks it balanced and the printed tree never says
  \<open>[REROUTE/irregular]\<close> for a region that is closed.
\<close>
theorem reroute_flag_lost:
  assumes "tree_ok t" "hd (stack t) \<noteq> 0"
  shows "\<not> balanced (regions (rerouteRegion a b t) ! length (regions t))
    \<and> balanced (regions (closeRegion a' (rerouteRegion a b t)) ! length (regions t))"
proof -
  let ?e = "(makeRegion KElse a b)\<lparr>parent := parent (regions t ! hd (stack t)), balanced := False\<rparr>"
  have "chain (regions t) (stack t)" using assms(1) by (simp add: tree_ok_def)
  from chain_top [OF this assms(2)] obtain p st where st: "tl (stack t) = p # st" by (metis list.sel(3))
  have r: "rerouteRegion a b t = \<lparr>regions = add_child (parent ?e) (length (regions t)) (regions t) @ [?e],
      stack = length (regions t) # p # st\<rparr>"
    using assms(2) by (simp add: rerouteRegion_def replace_top_def Let_def st)
  show ?thesis by (simp add: r closeRegion_def nth_upd) (simp add: nth_append)
qed

section \<open>Witnesses\<close>

text \<open>A block that compares into \<open>vcc\<close>, opens an if on it and calls.\<close>

definition vcc_reg :: MachRegister where
  "vcc_reg = \<lparr>rg_id = VCC_LO GFX908, rg_class = SgprClass GFX908, rg_val = 106, rg_name = ''vcc_lo'', rg_format = ''VCC_LO''\<rparr>"

definition demo_cmp :: Instruction where
  "demo_cmp = \<lparr>in_id = (GFX908, OtherOp 1), in_mnemonic = ''V_CMP_GT_I32'', in_format = ''V_CMP_GT_I32 VCC, S1, V0'',
     in_ops = [reg_op ''VCC'' [vcc_reg] True, rd_op (nreg CHR ''S'' CHR ''1'' 1), rd_op (nreg CHR ''V'' CHR ''0'' 0)],
     in_reads = [], in_writes = [vcc_reg]\<rparr>"

definition demo_open :: Instruction where
  "demo_open = \<lparr>in_id = (GFX908, S_AND_SAVEEXEC_B64), in_mnemonic = ''S_AND_SAVEEXEC_B64'', in_format = ''S_AND_SAVEEXEC_B64 [S2,S3], VCC'',
     in_ops = [], in_reads = [vcc_reg], in_writes = []\<rparr>"

definition demo_call :: Instruction where
  "demo_call = \<lparr>in_id = (GFX908, S_SWAPPC_B64), in_mnemonic = ''S_SWAPPC_B64'', in_format = ''S_SWAPPC_B64'',
     in_ops = [], in_reads = [], in_writes = []\<rparr>"

definition demo_if_fn :: Function where
  "demo_if_fn = \<lparr>fn_name = ''vadd'', fn_addr = 0, fn_all = [demo_block 0 [(0, demo_cmp), (4, demo_open), (8, demo_call)] [] []],
     fn_blocks = [0], fn_entry = 0, fn_ipdom = (\<lambda>b. None), fn_loops = []\<rparr>"

lemma demo_if_rpo: "reversePostOrder demo_if_fn = [0]"
  by (simp add: reversePostOrder_def rpo_loop.simps rpo_succs_def deref_def demo_if_fn_def demo_block_def)

lemma demo_if_insns: "insns_rpo demo_if_fn = [(0, demo_cmp), (4, demo_open), (8, demo_call)]"
  by (simp add: insns_rpo_def demo_if_rpo deref_def) (simp add: demo_if_fn_def demo_block_def)

lemma demo_classes: "classify demo_cmp = Compare" "classify demo_open = Open" "classify demo_call = Call"
  by (simp_all add: classify_def on_arch_def demo_cmp_def demo_open_def demo_call_def by_mnemonic_def is_compare_def)

lemma demo_if_cond: "recoverCond demo_if_fn [0 \<mapsto> ''(n > i)''] (4, demo_open) 0 = ''(n > i)''"
  by (simp add: recoverCond_def reachingCond_def search.simps last_def_def deref_def demo_if_fn_def demo_block_def definesAny_def
    maskReads_def demo_open_def demo_cmp_def demo_call_def vcc_reg_def cond_text_def classify_def on_arch_def by_mnemonic_def is_compare_def)

lemma demo_if_tree: "map cond (regions (build_tree demo_if_fn [0 \<mapsto> ''(n > i)''])) = ['''', ''(n > i)'']
    \<and> map parent (regions (build_tree demo_if_fn [0 \<mapsto> ''(n > i)''])) = [None, Some 0]"
proof -
  have b: "blkOf demo_if_fn 4 = Some 0"
    by (simp add: blkOf_def demo_if_rpo deref_def) (simp add: demo_if_fn_def demo_block_def)
  have d: "fn_ipdom demo_if_fn = (\<lambda>b. None)" by (simp add: demo_if_fn_def)
  show ?thesis
    by (simp add: build_tree_def demo_if_insns build_step_def demo_classes tree_step_def b demo_if_cond d tree_init_def openRegion_def
      bodyAddr_def add_child_def upd_def Let_def)
qed

lemma guards_combined_witness:
  "\<exists>rs. build demo_if_fn [0 \<mapsto> ''(n > i)''] = Some rs \<and> effCond (rs ! 1) = join_guard '''' (lguard rs 1)"
proof -
  obtain rs where rs: "build demo_if_fn [0 \<mapsto> ''(n > i)''] = Some rs" "map core rs = map core (regions (build_tree demo_if_fn [0 \<mapsto> ''(n > i)'']))"
      "effCond (rs ! 0) = ''''" "\<forall>r. 0 < r \<and> r < length rs \<longrightarrow> (\<exists>p < r. parent (rs ! r) = Some p \<and>
          effCond (rs ! r) = join_guard (effCond (rs ! p)) (lguard rs r))"
    using guards_combined [of demo_if_fn "[0 \<mapsto> ''(n > i)'']"] by blast
  have "length (regions (build_tree demo_if_fn [0 \<mapsto> ''(n > i)''])) = 2"
    using arg_cong [OF conjunct1 [OF demo_if_tree], of length] by simp
  then have "length rs = 2" using map_eq_imp_length_eq [OF rs(2)] by simp
  then have "\<exists>p < 1. parent (rs ! 1) = Some p \<and> effCond (rs ! 1) = join_guard (effCond (rs ! p)) (lguard rs 1)"
    using rs(4) by auto
  then show ?thesis using rs(1,3) by auto
qed

definition demo_tree :: Tree where
  "demo_tree = openRegion ''c'' 32 16 None tree_init"

lemma demo_tree_ok: "tree_ok demo_tree" "hd (stack demo_tree) \<noteq> 0" "lguard (regions demo_tree) (hd (stack demo_tree)) = ''c''"
  using tree_ok_open [OF tree_ok_init, of "''c''" 32 16 None]
  by (simp_all add: demo_tree_def) (simp_all add: openRegion_def tree_init_def add_child_def upd_def lguard.simps)

lemma else_twice_double_negation_witness:
  "let t' = elseRegion 24 None (elseRegion 20 None demo_tree) in
    localGuard (length (regions t')) (regions t') (hd (stack t')) = Some ''!(!(c))''"
  using else_twice_double_negation [OF demo_tree_ok(1,2), of 24 None 20 None] demo_tree_ok(3) by simp

lemma reroute_flag_lost_witness:
  "balanced (regions (closeRegion 32 (rerouteRegion 20 None demo_tree)) ! length (regions demo_tree))"
  using reroute_flag_lost [OF demo_tree_ok(1,2), of 20 None 32] by simp

end
