(* ===== verification/Loop_Recovery.thy ===== *)
theory Loop_Recovery
  imports Region_Tree
begin

text \<open>
  The loop reports of \<open>structure.C\<close> (lines 451 to 589) and its \<open>main\<close>: scalar loops with their
  condition, counter, bound, start and step; EXEC-mask loops with their kind; and the text
  printed for a function, as a list of lines.
\<close>

section \<open>Scalar loops\<close>

definition emplace :: "'k \<Rightarrow> 'v \<Rightarrow> ('k \<rightharpoonup> 'v) \<Rightarrow> ('k \<rightharpoonup> 'v)" where
  "emplace k v m = (if m k = None then m(k \<mapsto> v) else m)"

definition loop_insns :: "Function \<Rightarrow> LoopInfo \<Rightarrow> (nat \<times> Instruction) list" where
  "loop_insns f l = concat (map (\<lambda>b. blk_insns (deref f b)) (loop_blocks l))"

definition loop_ivs :: "Function \<Rightarrow> LoopInfo \<Rightarrow> (string \<rightharpoonup> string)" where
  "loop_ivs f l = fold (\<lambda>(a, i) m. case isBasicInductionUpdate i of None \<Rightarrow> m | Some (r, s) \<Rightarrow> emplace r s m)
     (loop_insns f l) Map.empty"

definition loop_header :: "Function \<Rightarrow> LoopInfo \<Rightarrow> nat" where
  "loop_header f l = (case loop_entries l of [] \<Rightarrow> 0 | e # _ \<Rightarrow> blk_start (deref f e))"

definition latch_cond :: "(nat \<rightharpoonup> string) \<Rightarrow> (nat \<times> Instruction) option \<Rightarrow> string" where
  "latch_cond condAt cmp = (case cmp of None \<Rightarrow> ''''
     | Some (a, i) \<Rightarrow>
         (let fallback = (if classify i = Compare then formatCompare i else in_mnemonic i) in
          case condAt a of None \<Rightarrow> fallback | Some s \<Rightarrow> if s = '''' then fallback else s))"

definition taken_in_loop :: "LoopInfo \<Rightarrow> edge list \<Rightarrow> bool" where
  "taken_in_loop l es = (case find (\<lambda>e. fst e = COND_TAKEN) es of
     Some (t, Some b) \<Rightarrow> b \<in> set (loop_blocks l) | _ \<Rightarrow> False)"

text \<open>The operand that is an induction variable and the one that is not: the last of each kind.\<close>

definition counter_bound :: "(string \<rightharpoonup> string) \<Rightarrow> string list \<Rightarrow> string \<times> string" where
  "counter_bound ivs cs = fold (\<lambda>c (counter, bound). if ivs c \<noteq> None then (c, bound) else (counter, c)) cs ('''', '''')"

fun init_of_entry :: "Function \<Rightarrow> LoopInfo \<Rightarrow> string \<Rightarrow> nat list \<Rightarrow> string" where
  "init_of_entry f l counter [] = ''?''"
| "init_of_entry f l counter (p # ps) =
     (if p \<in> set (loop_blocks l) then init_of_entry f l counter ps
      else case reachingDefByName f counter p (blk_end (deref f p)) (Some l) of
          Some (a, i) \<Rightarrow> in_format i | None \<Rightarrow> init_of_entry f l counter ps)"

fun counter_init :: "Function \<Rightarrow> LoopInfo \<Rightarrow> string \<Rightarrow> nat list \<Rightarrow> string" where
  "counter_init f l counter [] = ''?''"
| "counter_init f l counter (e # es) =
     (let s = init_of_entry f l counter (intra_ends (blk_sources (deref f e))) in
      if s \<noteq> ''?'' then s else counter_init f l counter es)"

definition or_mark :: "string \<Rightarrow> string \<Rightarrow> string" where
  "or_mark m s = (if s = '''' then m else s)"

definition scalar_latch :: "Function \<Rightarrow> (nat \<rightharpoonup> string) \<Rightarrow> LoopInfo \<Rightarrow> nat \<Rightarrow> string list" where
  "scalar_latch f condAt l b =
     (case rev (blk_insns (deref f b)) of [] \<Rightarrow> []
      | (termAddr, term) # _ \<Rightarrow>
        (if \<not> isSccBranch term then []
         else let cmp = reachingDefInsn f [SRC_SCC GFX908] b termAddr None;
                  ivs = loop_ivs f l;
                  line = ''  loop hdr@'' @ hex0x (loop_header f l) @ ''  latch@'' @ hex0x termAddr @ ''  ''
                    @ (if taken_in_loop l (blk_targets (deref f b)) then ''continue-if'' else ''exit-if'') @ '' ''
                    @ (if sccBranchTakenWhenTrue term then '''' else ''!'') @ or_mark ''(?)'' (latch_cond condAt cmp) in
           (case cmp of None \<Rightarrow> [line]
            | Some (a, i) \<Rightarrow>
                (let (counter, bound) = counter_bound ivs (readOperands i) in
                 if counter = '''' then [line]
                 else [line, ''    counter '' @ counter @ '' : init ['' @ counter_init f l counter (loop_entries l)
                   @ '']  bound '' @ or_mark ''?'' bound @ ''  step '' @ (case ivs counter of Some s \<Rightarrow> s | None \<Rightarrow> '''')]))))"

definition recoverScalarLoops :: "Function \<Rightarrow> (nat \<rightharpoonup> string) \<Rightarrow> string list" where
  "recoverScalarLoops f condAt = concat (map (\<lambda>l. concat (map (scalar_latch f condAt l) (loop_blocks l))) (fn_loops f))"

section \<open>EXEC-mask loops\<close>

definition sfind :: "string \<Rightarrow> string \<Rightarrow> nat \<Rightarrow> nat option" where
  "sfind pat s i = find (\<lambda>j. starts_with pat (drop j s)) [i..<Suc (length s)]"

definition exec_latch :: "Function \<Rightarrow> LoopInfo \<Rightarrow> (nat \<times> bool) option" where
  "exec_latch f l =
     (case find (\<lambda>b. case rev (blk_insns (deref f b)) of [] \<Rightarrow> False | (a, i) # _ \<Rightarrow> isExecBranch i) (loop_blocks l) of
        None \<Rightarrow> None
      | Some b \<Rightarrow> (case rev (blk_insns (deref f b)) of [] \<Rightarrow> None
          | (a, i) # _ \<Rightarrow> Some (a, execBranchTakenWhenLanesRemain i)))"

text \<open>\<open>firstlane(X) == X\<close>, up to the first closing parenthesis.\<close>

definition is_convergence :: "string \<Rightarrow> bool" where
  "is_convergence c =
     (case sfind ''firstlane('' c 0 of None \<Rightarrow> False
      | Some fl \<Rightarrow> (case sfind '')'' c (fl + 10) of None \<Rightarrow> False
        | Some cl \<Rightarrow> (case sfind '' == '' c cl of None \<Rightarrow> False
          | Some eq \<Rightarrow>
              (let inner = take (cl - (fl + 10)) (drop (fl + 10) c); rhs = drop (eq + 4) c in
               inner = (if rhs \<noteq> '''' \<and> last rhs = CHR '')'' then butlast rhs else rhs)))))"

definition exec_selector :: "(nat \<rightharpoonup> string) \<Rightarrow> (nat \<times> Instruction) list \<Rightarrow> string" where
  "exec_selector condAt is =
     (let cs = filter (contains_sub ''firstlane('') (List.map_filter (\<lambda>(a, i). condAt a) is);
          selector = fold (\<lambda>c s. if is_convergence c then c else s) cs '''';
          fallback = fold (\<lambda>c s. if s = '''' then c else s) cs '''' in
      if selector = '''' then fallback else selector)"

definition dispatch_target :: "(nat \<rightharpoonup> string) \<Rightarrow> (nat \<times> Instruction) list \<Rightarrow> string" where
  "dispatch_target callTargetAt is =
     fold (\<lambda>(a, i) s. case callTargetAt a of Some t \<Rightarrow> if contains_sub ''firstlane('' t then t else s | None \<Rightarrow> s) is ''''"

definition exec_loop_lines :: "Function \<Rightarrow> Prov \<Rightarrow> LoopInfo \<Rightarrow> string list" where
  "exec_loop_lines f p l =
     (case exec_latch f l of None \<Rightarrow> []
      | Some (latch, whileLanes) \<Rightarrow>
          (let is = loop_insns f l;
               waterfall = list_ex (\<lambda>(a, i). isReadfirstlane i) is;
               selector = exec_selector (pv_condAt p) is;
               target = dispatch_target (pv_callTarget p) is;
               (k, extra) = (if target \<noteq> '''' then (''indirect-call dispatch'', ''  target '' @ target)
                  else if waterfall then (''waterfall serialization'', if selector = '''' then '''' else ''  groups by '' @ selector)
                  else (''divergent loop'', '''')) in
           [''  exec-loop hdr@'' @ hex0x (loop_header f l) @ ''  latch@'' @ hex0x latch @ ''  ''
             @ (if whileLanes then ''repeat-while-lanes-remain'' else ''repeat-until-lanes-clear'')
             @ ''  ['' @ k @ '']'' @ extra]))"

definition recoverExecLoops :: "Function \<Rightarrow> Prov \<Rightarrow> string list" where
  "recoverExecLoops f p = concat (map (exec_loop_lines f p) (fn_loops f))"

section \<open>The report of a function\<close>

text \<open>\<open>None\<close> is the undefined behaviour of a truncated descriptor or note.\<close>

definition report_fn :: "Symtab option \<Rightarrow> bytes \<Rightarrow> Function \<Rightarrow> string list option" where
  "report_fn st beyond f =
     (case abiSeeds st (fn_name f) of None \<Rightarrow> None
      | Some seeds \<Rightarrow> (case kernargNameMap st (fn_name f) beyond of None \<Rightarrow> None
        | Some names \<Rightarrow>
            (let p = computeProvenance f seeds names in
             case build f (pv_condAt p) of None \<Rightarrow> None
             | Some rs \<Rightarrow>
                 Some (if children (rs ! 0) = [] \<and> fn_loops f = [] then []
                   else ['''', ''========== '' @ fn_name f @ '' ==========''] 
                     @ (if children (rs ! 0) \<noteq> [] then dump (length rs) rs 0 0 else [])
                     @ recoverScalarLoops f (pv_condAt p) @ recoverExecLoops f p))))"

definition structure_main :: "Symtab option \<Rightarrow> bytes \<Rightarrow> string \<Rightarrow> Function list \<Rightarrow> string list option" where
  "structure_main st beyond filt fs =
     map_option concat (those (map (report_fn st beyond) (filter (\<lambda>f. filt = '''' \<or> contains_sub filt (fn_name f)) fs)))"

section \<open>Properties\<close>

lemma find_in_set: "find P xs = Some x \<Longrightarrow> x \<in> set xs \<and> P x"
  by (induction xs) (auto split: if_splits)

lemma reaching_none:
  assumes "\<And>b a i. (a, i) \<in> set (blk_insns (deref f b)) \<Longrightarrow> \<not> isdef i"
  shows "find_def f isdef avoid b before = None"
proof (rule ccontr)
  assume "find_def f isdef avoid b before \<noteq> None"
  then obtain d where "find_def f isdef avoid b before = Some d" by blast
  then have "reaches f isdef (set avoid) b before d" using search_sound(1) unfolding find_def_def
    by (metis prod.collapse)
  then show False
  proof (induction rule: reaches.induct)
    case (here b before d)
    then have "d \<in> set (blk_insns (deref f b)) \<and> isdef (snd d)"
      unfolding last_def_def by (auto dest!: find_in_set split: prod.splits)
    then show ?case using assms by (cases d) auto
  qed
qed

text \<open>
  the search for the compare of a scalar loop names the condition code of gfx908 only: in a
  function whose instructions do not write that register, a gfx940 one for instance, every
  scalar latch is reported with the unknown condition and without its counter.
\<close>
theorem gfx940_loop_conditions_lost:
  assumes "\<And>b a i. (a, i) \<in> set (blk_insns (deref f b)) \<Longrightarrow> \<not> writesReg i (SRC_SCC GFX908)"
  shows "scalar_latch f condAt l b \<noteq> [] \<Longrightarrow>
    \<exists>line. scalar_latch f condAt l b = [line @ ''(?)'']"
proof -
  have "reachingDefInsn f [SRC_SCC GFX908] b before None = None" for before
    unfolding reachingDefInsn_def by (rule reaching_none) (use assms in \<open>auto simp: definesAny_def writesReg_def\<close>)
  then show "scalar_latch f condAt l b \<noteq> [] \<Longrightarrow> \<exists>line. scalar_latch f condAt l b = [line @ ''(?)'']"
    by (auto simp: scalar_latch_def latch_cond_def or_mark_def Let_def split: list.splits)
qed

definition demo_loop_fn :: "arch \<Rightarrow> Function" where
  "demo_loop_fn a = \<lparr>fn_name = ''vadd'', fn_addr = 0, fn_all = [demo_block 0
      [(0, \<lparr>in_id = (a, OtherOp 1), in_mnemonic = ''S_CMP_LT_I32'', in_format = '''', in_ops = [], in_reads = [],
          in_writes = [\<lparr>rg_id = SRC_SCC a, rg_class = OtherClass 0, rg_val = 0, rg_name = ''scc'', rg_format = ''SCC''\<rparr>]\<rparr>),
       (4, \<lparr>in_id = (a, S_CBRANCH_SCC1), in_mnemonic = ''S_CBRANCH_SCC1'', in_format = '''', in_ops = [], in_reads = [], in_writes = []\<rparr>)] [0] [0]],
     fn_blocks = [0], fn_entry = 0, fn_ipdom = (\<lambda>b. None), fn_loops = [\<lparr>loop_entries = [0], loop_blocks = [0]\<rparr>]\<rparr>"

lemma gfx940_loop_conditions_lost_witness:
  "(\<exists>line. recoverScalarLoops (demo_loop_fn GFX940) Map.empty = [line @ ''(?)''])
    \<and> recoverScalarLoops (demo_loop_fn GFX908) Map.empty = [''  loop hdr@0x0  latch@0x4  continue-if S_CMP_LT_I32'']"
proof -
  have w: "\<not> writesReg i (SRC_SCC GFX908)" if "(a, i) \<in> set (blk_insns (deref (demo_loop_fn GFX940) b))" for a b i
    using that by (cases "b = 0") (auto simp: demo_loop_fn_def deref_def demo_block_def null_block_def writesReg_def)
  have b: "blk_insns (deref (demo_loop_fn a) 0) = blk_insns (hd (fn_all (demo_loop_fn a)))" for a
    by (simp add: demo_loop_fn_def deref_def)
  have ne: "scalar_latch (demo_loop_fn a) Map.empty \<lparr>loop_entries = [0], loop_blocks = [0]\<rparr> 0 \<noteq> []" if "a \<in> {GFX908, GFX940}" for a
    using that unfolding scalar_latch_def b
    by (auto simp: demo_loop_fn_def demo_block_def isSccBranch_def CFR_IS_def Let_def split: option.splits prod.splits)
  have h: "hex 0 = ''0''" "hex 4 = ''4''" by (simp_all add: hex.simps hex_digit_def char_of_eq_iff)
  have "recoverScalarLoops (demo_loop_fn GFX908) Map.empty = [''  loop hdr@0x0  latch@0x4  continue-if S_CMP_LT_I32'']"
    by (simp add: recoverScalarLoops_def demo_loop_fn_def scalar_latch_def deref_def demo_block_def isSccBranch_def CFR_IS_def
      reachingDefInsn_def find_def_def search.simps last_def_def definesAny_def latch_cond_def or_mark_def loop_header_def
      taken_in_loop_def sccBranchTakenWhenTrue_def counter_bound_def readOperands_def sources_without_def classify_def on_arch_def
      by_mnemonic_def is_compare_def formatCompare_def hex0x_def h Let_def)
  moreover have "recoverScalarLoops (demo_loop_fn GFX940) Map.empty
      = scalar_latch (demo_loop_fn GFX940) Map.empty \<lparr>loop_entries = [0], loop_blocks = [0]\<rparr> 0"
    by (simp add: recoverScalarLoops_def) (simp add: demo_loop_fn_def)
  ultimately show ?thesis using gfx940_loop_conditions_lost [OF w ne] by simp
qed

end
