(* ===== verification/Mask_Text.thy ===== *)
theory Mask_Text
  imports Flow_Graph Printf
begin

text \<open>
  The two text-based prototypes: \<open>depredicate.C\<close>, which renders the condition of every
  predicated select, and \<open>bracket.C\<close>, which prints EXEC-mask brackets as nested braces. Both
  parse the printed instruction, and each carries its own copy of the helpers.
\<close>

section \<open>Parsing an instruction's text (depredicate.C)\<close>

record TextInsn =
  ti_addr :: nat
  mnem :: string
  ops :: "string list"

definition trim :: "string \<Rightarrow> string" where
  "trim s = rev (dropWhile (\<lambda>c. c = CHR '' '') (rev (dropWhile (\<lambda>c. c = CHR '' '') s)))"

definition push_nonempty :: "string \<Rightarrow> string list" where
  "push_nonempty s = (if s = '''' then [] else [s])"

fun split_ops_from :: "string \<Rightarrow> string \<Rightarrow> int \<Rightarrow> string list" where
  "split_ops_from [] cur depth = push_nonempty (trim cur)"
| "split_ops_from (c # cs) cur depth =
     (let depth = (if c = CHR ''['' then depth + 1 else if c = CHR '']'' then depth - 1 else depth) in
      if c = CHR '','' \<and> depth = 0 then push_nonempty (trim cur) @ split_ops_from cs '''' depth
      else split_ops_from cs (cur @ [c]) depth)"

definition splitOps :: "string \<Rightarrow> string list" where
  "splitOps rest = split_ops_from rest '''' 0"

definition parseInsn :: "nat \<Rightarrow> string \<Rightarrow> TextInsn" where
  "parseInsn a fmt =
     (if CHR '' '' \<notin> set fmt then \<lparr>ti_addr = a, mnem = fmt, ops = []\<rparr>
      else \<lparr>ti_addr = a, mnem = takeWhile (\<lambda>c. c \<noteq> CHR '' '') fmt,
             ops = splitOps (drop 1 (dropWhile (\<lambda>c. c \<noteq> CHR '' '') fmt))\<rparr>)"

definition dp_cmpOp :: "string \<Rightarrow> string" where
  "dp_cmpOp m =
     (let p = getline_fields CHR ''_'' m; c = (if length p > 2 then p ! 2 else ''?'') in
      if c = ''LT'' then ''<'' else if c = ''GT'' then ''>'' else if c = ''LE'' \<or> c = ''NGT'' then ''<=''
      else if c = ''GE'' \<or> c = ''NLT'' then ''>='' else if c = ''EQ'' then ''==''
      else if c = ''NE'' \<or> c = ''LG'' \<or> c = ''NEQ'' then ''!='' else ''.'' @ c @ ''.'')"

section \<open>Recovering a mask's condition\<close>

definition defOf :: "TextInsn list \<Rightarrow> string \<Rightarrow> nat \<Rightarrow> nat option" where
  "defOf ins reg before = find (\<lambda>j. ops (ins ! j) \<noteq> [] \<and> hd (ops (ins ! j)) = reg) (rev [0..<before])"

lemma find_in: "find P xs = Some x \<Longrightarrow> x \<in> set xs \<and> P x"
  by (induction xs) (auto split: if_splits)

lemma defOf_less: "defOf ins reg before = Some j \<Longrightarrow> j < before"
  by (auto simp: defOf_def dest!: find_in)

definition src_op :: "TextInsn \<Rightarrow> nat \<Rightarrow> string" where
  "src_op d i = (if i < length (ops d) then ops d ! i else ''?'')"

text \<open>The bytes of the horizontal ellipsis.\<close>

definition ellipsis :: string where
  "ellipsis = [CHR 0xE2, CHR 0x80, CHR 0xA6]"

function buildCond :: "TextInsn list \<Rightarrow> string \<Rightarrow> nat \<Rightarrow> nat \<Rightarrow> string" where
  "buildCond ins reg before depth =
     (if depth > 32 then reg @ ellipsis
      else case defOf ins reg before of None \<Rightarrow> reg @ ''@in''
      | Some j \<Rightarrow>
          (let d = ins ! j; m = mnem d in
           if starts_with ''V_CMP'' m then ''('' @ src_op d 1 @ '' '' @ dp_cmpOp m @ '' '' @ src_op d 2 @ '')''
           else if m = ''S_AND_B64'' then ''('' @ buildCond ins (src_op d 1) j (depth + 1) @ '' & '' @ buildCond ins (src_op d 2) j (depth + 1) @ '')''
           else if m = ''S_OR_B64'' then ''('' @ buildCond ins (src_op d 1) j (depth + 1) @ '' | '' @ buildCond ins (src_op d 2) j (depth + 1) @ '')''
           else if m = ''S_XOR_B64'' then ''('' @ buildCond ins (src_op d 1) j (depth + 1) @ '' ^ '' @ buildCond ins (src_op d 2) j (depth + 1) @ '')''
           else if m = ''S_ANDN2_B64'' then ''('' @ buildCond ins (src_op d 1) j (depth + 1) @ '' & ~'' @ buildCond ins (src_op d 2) j (depth + 1) @ '')''
           else if m = ''S_MOV_B64'' \<or> m = ''S_MOV_B32'' then buildCond ins (src_op d 1) j (depth + 1)
           else m @ ''('' @ src_op d 1 @ ellipsis @ '')''))"
  by pat_completeness auto
termination
  by (relation "measure (\<lambda>(ins, reg, before, depth). before)") (auto dest: defOf_less)

declare buildCond.simps [simp del]

section \<open>The report of depredicate.C\<close>

text \<open>The instructions of a function in address order, one per address.\<close>

definition raw_text :: "Function \<Rightarrow> TextInsn list" where
  "raw_text f =
     (let all = concat (map (\<lambda>b. blk_insns (deref f b)) (fn_blocks f)); m = map_of (rev all) in
      map (\<lambda>a. parseInsn a (case m a of Some i \<Rightarrow> in_format i | None \<Rightarrow> '''')) (sort (remdups (map fst all))))"

datatype dp_line = Select_line nat string string string string | If_line nat string | Else_line nat

definition dp_insn :: "TextInsn list \<Rightarrow> nat \<Rightarrow> dp_line list" where
  "dp_insn ins i =
     (let m = mnem (ins ! i); p = ops (ins ! i); a = ti_addr (ins ! i) in
      if starts_with ''V_CNDMASK'' m \<and> 4 \<le> length p then [Select_line a (p ! 0) (buildCond ins (p ! 3) i 0) (p ! 2) (p ! 1)]
      else if starts_with ''S_AND_SAVEEXEC'' m \<and> 2 \<le> length p then [If_line a (buildCond ins (p ! 1) i 0)]
      else if starts_with ''S_ANDN2_SAVEEXEC'' m then [Else_line a] else [])"

fun dp_text :: "dp_line \<Rightarrow> string" where
  "dp_text (Select_line a d c t e) = ''  [select] '' @ hex0x a @ ''  '' @ d @ '' = '' @ c @ '' ? '' @ t @ '' : '' @ e"
| "dp_text (If_line a c) = ''  [if]     '' @ hex0x a @ ''  if ( '' @ c @ '' )''"
| "dp_text (Else_line a) = ''  [else]   '' @ hex0x a @ ''  else / else-if''"

fun is_select :: "dp_line \<Rightarrow> bool" where
  "is_select (Select_line a d c t e) = True" | "is_select (If_line a c) = False" | "is_select (Else_line a) = False"

fun is_if :: "dp_line \<Rightarrow> bool" where
  "is_if (If_line a c) = True" | "is_if (Select_line a d c t e) = False" | "is_if (Else_line a) = False"

definition depredicate_fn :: "Function \<Rightarrow> string list" where
  "depredicate_fn f =
     (let ins = raw_text f; ls = concat (map (dp_insn ins) [0..<length ins]);
          nsel = length (filter is_select ls); ndiv = length (filter is_if ls) in
      (if ls = [] then [] else ['''', ''=== '' @ fn_name f @ '' ===''] @ map dp_text ls)
      @ (if 0 < nsel \<or> 0 < ndiv then
           [''  -> '' @ dec nsel @ '' select(s) de-predicated, '' @ dec ndiv @ '' divergent branch(es) recovered''] else []))"

section \<open>The copies of bracket.C\<close>

fun br_split_from :: "string \<Rightarrow> string \<Rightarrow> int \<Rightarrow> string list \<Rightarrow> string list" where
  "br_split_from [] cur depth v = v @ push_nonempty (trim cur)"
| "br_split_from (c # cs) cur depth v =
     (let depth = depth + (if c = CHR ''['' then 1 else 0) - (if c = CHR '']'' then 1 else 0) in
      if c = CHR '','' \<and> depth = 0 then br_split_from cs '''' depth (v @ push_nonempty (trim cur))
      else br_split_from cs (cur @ [c]) depth v)"

definition br_splitOps :: "string \<Rightarrow> string list" where
  "br_splitOps rest = br_split_from rest '''' 0 []"

definition br_parseInsn :: "nat \<Rightarrow> string \<Rightarrow> TextInsn" where
  "br_parseInsn a fmt =
     (case find (\<lambda>k. fmt ! k = CHR '' '') [0..<length fmt] of
        None \<Rightarrow> \<lparr>ti_addr = a, mnem = fmt, ops = []\<rparr>
      | Some sp \<Rightarrow> \<lparr>ti_addr = a, mnem = take sp fmt, ops = br_splitOps (drop (sp + 1) fmt)\<rparr>)"

definition br_cmpOp :: "string \<Rightarrow> string" where
  "br_cmpOp m =
     (let p = getline_fields CHR ''_'' m; c = (if length p > 2 then p ! 2 else ''?'') in
      case map_of [(''LT'', ''<''), (''GT'', ''>''), (''LE'', ''<=''), (''NGT'', ''<=''), (''GE'', ''>=''), (''NLT'', ''>=''),
        (''EQ'', ''==''), (''NE'', ''!=''), (''LG'', ''!=''), (''NEQ'', ''!='')] c of
        Some s \<Rightarrow> s | None \<Rightarrow> ''.'' @ c @ ''.'')"

function br_buildCond :: "TextInsn list \<Rightarrow> string \<Rightarrow> nat \<Rightarrow> nat \<Rightarrow> string" where
  "br_buildCond ins reg before depth =
     (if depth > 32 then reg @ ellipsis
      else case defOf ins reg before of None \<Rightarrow> reg
      | Some j \<Rightarrow>
          (let d = ins ! j; m = mnem d in
           if starts_with ''V_CMP'' m then ''('' @ src_op d 1 @ '' '' @ br_cmpOp m @ '' '' @ src_op d 2 @ '')''
           else if m = ''S_AND_B64'' then ''('' @ br_buildCond ins (src_op d 1) j (depth + 1) @ '' & '' @ br_buildCond ins (src_op d 2) j (depth + 1) @ '')''
           else if m = ''S_OR_B64'' then ''('' @ br_buildCond ins (src_op d 1) j (depth + 1) @ '' | '' @ br_buildCond ins (src_op d 2) j (depth + 1) @ '')''
           else if m = ''S_XOR_B64'' then ''('' @ br_buildCond ins (src_op d 1) j (depth + 1) @ '' ^ '' @ br_buildCond ins (src_op d 2) j (depth + 1) @ '')''
           else if m = ''S_MOV_B64'' \<or> m = ''S_MOV_B32'' then br_buildCond ins (src_op d 1) j (depth + 1)
           else m))"
  by pat_completeness auto
termination
  by (relation "measure (\<lambda>(ins, reg, before, depth). before)") (auto dest: defOf_less)

declare br_buildCond.simps [simp del]

section \<open>The brackets of bracket.C\<close>

text \<open>The lines with a brace, and the depth and frames the walk keeps.\<close>

datatype br_line = Br_if nat string nat string | Br_else nat bool nat | Br_xor nat nat | Br_close nat nat string
  | Br_call nat nat | Br_end nat

record Frame =
  fr_save :: string
  fr_depth :: int

record Bracket =
  br_stk :: "Frame list"
  br_depth :: int

definition exec_restore :: "TextInsn \<Rightarrow> string option" where
  "exec_restore x = (let m = mnem x; p = ops x in
     if m = ''S_OR_B64'' \<and> 3 \<le> length p \<and> p ! 0 = ''EXEC'' \<and> p ! 1 = ''EXEC'' then Some (p ! 2)
     else if m = ''S_MOV_B64'' \<and> 2 \<le> length p \<and> p ! 0 = ''EXEC'' \<and> starts_with ''S['' (p ! 1) then Some (p ! 1)
     else None)"

text \<open>The frames, last one first: pop the top when it matches, else erase the nearest that does.\<close>

fun erase_frame :: "string \<Rightarrow> Frame list \<Rightarrow> Frame list" where
  "erase_frame sv [] = []"
| "erase_frame sv (f # fs) = (if fr_save f = sv then fs else f # erase_frame sv fs)"

definition dec_pos :: "int \<Rightarrow> int" where
  "dec_pos d = (if d > 0 then d - 1 else d)"

definition bracket_step :: "TextInsn list \<Rightarrow> nat \<Rightarrow> Bracket \<Rightarrow> br_line list \<times> Bracket" where
  "bracket_step ins i s =
     (let x = ins ! i; m = mnem x; p = ops x; a = ti_addr x; d = br_depth s in
      if starts_with ''S_AND_SAVEEXEC'' m \<and> 2 \<le> length p then
        ([Br_if (nat d) (br_buildCond ins (p ! 1) i 0) a (p ! 0)],
         \<lparr>br_stk = \<lparr>fr_save = p ! 0, fr_depth = d\<rparr> # br_stk s, br_depth = d + 1\<rparr>)
      else if starts_with ''S_ANDN2_SAVEEXEC'' m then
        ([Br_else (nat (dec_pos d)) (2 \<le> length p \<and> p ! 0 = p ! 1) a], s\<lparr>br_depth := dec_pos d + 1\<rparr>)
      else if m = ''S_XOR_B64'' \<and> 3 \<le> length p \<and> p ! 0 = ''EXEC'' \<and> p ! 1 = ''EXEC'' then
        ([Br_xor (nat (dec_pos d)) a], s\<lparr>br_depth := dec_pos d + 1\<rparr>)
      else (case exec_restore x of
          Some sv \<Rightarrow> ([Br_close (nat (dec_pos d)) a sv],
            \<lparr>br_stk = (case br_stk s of [] \<Rightarrow> [] | f # fs \<Rightarrow> if fr_save f \<noteq> sv then erase_frame sv (f # fs) else fs), br_depth = dec_pos d\<rparr>)
        | None \<Rightarrow> (if m = ''S_SWAPPC_B64'' then ([Br_call (nat d) a], s) else ([], s))))"

fun bracket_from :: "TextInsn list \<Rightarrow> nat list \<Rightarrow> Bracket \<Rightarrow> br_line list \<times> Bracket" where
  "bracket_from ins [] s = ([], s)"
| "bracket_from ins (i # is) s =
     (let (ls, s1) = bracket_step ins i s; (rest, s2) = bracket_from ins is s1 in (ls @ rest, s2))"

text \<open>\<open>while(depth-- > 0)\<close> prints at the decremented depth.\<close>

definition implicit_closes :: "int \<Rightarrow> br_line list" where
  "implicit_closes depth = map Br_end (rev [0..<nat depth])"

definition bracket_lines :: "TextInsn list \<Rightarrow> Frame list \<Rightarrow> br_line list" where
  "bracket_lines ins stk =
     (let (ls, s) = bracket_from ins [0..<length ins] \<lparr>br_stk = stk, br_depth = 0\<rparr> in ls @ implicit_closes (br_depth s))"

fun br_text :: "br_line \<Rightarrow> string" where
  "br_text (Br_if d c a sv) = spaces (2 * d) @ ''if ( '' @ c @ '' ) {            // @'' @ hex0x a @ ''  save '' @ sv"
| "br_text (Br_else d same a) = spaces (2 * d) @ ''} else'' @ (if same then '''' else '' /*else-if chain*/'') @ '' {            // @'' @ hex0x a"
| "br_text (Br_xor d a) = spaces (2 * d) @ ''} else {              // @'' @ hex0x a @ '' (xor)''"
| "br_text (Br_close d a sv) = spaces (2 * d) @ ''}                     // @'' @ hex0x a @ ''  close '' @ sv"
| "br_text (Br_call d a) = spaces (2 * d) @ ''call();               // @'' @ hex0x a"
| "br_text (Br_end d) = spaces (2 * d) @ ''}                     // (implicit close at fn end)''"

definition br_raw_text :: "Function \<Rightarrow> TextInsn list" where
  "br_raw_text f =
     (let all = concat (map (\<lambda>b. blk_insns (deref f b)) (fn_blocks f)); m = map_of (rev all) in
      map (\<lambda>a. br_parseInsn a (case m a of Some i \<Rightarrow> in_format i | None \<Rightarrow> '''')) (sort (remdups (map fst all))))"

definition bracket_fn :: "Function \<Rightarrow> string list" where
  "bracket_fn f = (let ins = br_raw_text f in
     if \<not> list_ex (\<lambda>x. contains_sub ''SAVEEXEC'' (mnem x)) ins then []
     else ['''', ''=== '' @ fn_name f @ '' ==='' ] @ map br_text (bracket_lines ins []))"

section \<open>The copies agree\<close>

lemma br_split_from_eq: "br_split_from s cur d v = v @ split_ops_from s cur d"
proof (induction s arbitrary: cur d v)
  case (Cons c cs)
  show ?case by (auto simp: Cons Let_def)
qed simp

lemma find_map: "find P (map g xs) = map_option g (find (\<lambda>x. P (g x)) xs)"
  by (induction xs) auto

lemma find_space: "find (\<lambda>k. s ! k = c) [0..<length s] = (if c \<in> set s then Some (length (takeWhile (\<lambda>x. x \<noteq> c) s)) else None)"
proof (induction s)
  case (Cons x xs)
  have u: "[0..<length (x # xs)] = 0 # map Suc [0..<length xs]"
    by (simp add: map_Suc_upt upt_conv_Cons del: upt_Suc)
  show ?case unfolding u using Cons by (simp add: find_map)
qed simp

lemma br_parseInsn_eq: "br_parseInsn a fmt = parseInsn a fmt"
  by (simp add: br_parseInsn_def parseInsn_def find_space br_splitOps_def splitOps_def br_split_from_eq
    takeWhile_eq_take [symmetric] dropWhile_eq_drop)

lemma br_cmpOp_eq: "br_cmpOp m = cmpOp m"
  by (simp add: br_cmpOp_def cmpOp_def Let_def)

lemma dp_cmpOp_eq: "dp_cmpOp m = cmpOp m"
  by (simp add: dp_cmpOp_def cmpOp_def Let_def)

section \<open>What a recovered condition means\<close>

datatype mexp = MLeaf nat | MOpaque nat | MIn string | MDeep string
  | MAnd mexp mexp | MOr mexp mexp | MXor mexp mexp | MAndn2 mexp mexp

function cond_ast :: "TextInsn list \<Rightarrow> string \<Rightarrow> nat \<Rightarrow> nat \<Rightarrow> mexp" where
  "cond_ast ins reg before depth =
     (if depth > 32 then MDeep reg
      else case defOf ins reg before of None \<Rightarrow> MIn reg
      | Some j \<Rightarrow>
          (let d = ins ! j; m = mnem d; l = cond_ast ins (src_op d 1) j (depth + 1); r = cond_ast ins (src_op d 2) j (depth + 1) in
           if starts_with ''V_CMP'' m then MLeaf j
           else if m = ''S_AND_B64'' then MAnd l r
           else if m = ''S_OR_B64'' then MOr l r
           else if m = ''S_XOR_B64'' then MXor l r
           else if m = ''S_ANDN2_B64'' then MAndn2 l r
           else if m = ''S_MOV_B64'' \<or> m = ''S_MOV_B32'' then l
           else MOpaque j))"
  by pat_completeness auto
termination
  by (relation "measure (\<lambda>(ins, reg, before, depth). before)") (auto dest: defOf_less)

declare cond_ast.simps [simp del]

fun render :: "TextInsn list \<Rightarrow> mexp \<Rightarrow> string" where
  "render ins (MLeaf j) = ''('' @ src_op (ins ! j) 1 @ '' '' @ dp_cmpOp (mnem (ins ! j)) @ '' '' @ src_op (ins ! j) 2 @ '')''"
| "render ins (MOpaque j) = mnem (ins ! j) @ ''('' @ src_op (ins ! j) 1 @ ellipsis @ '')''"
| "render ins (MIn reg) = reg @ ''@in''"
| "render ins (MDeep reg) = reg @ ellipsis"
| "render ins (MAnd a b) = ''('' @ render ins a @ '' & '' @ render ins b @ '')''"
| "render ins (MOr a b) = ''('' @ render ins a @ '' | '' @ render ins b @ '')''"
| "render ins (MXor a b) = ''('' @ render ins a @ '' ^ '' @ render ins b @ '')''"
| "render ins (MAndn2 a b) = ''('' @ render ins a @ '' & ~'' @ render ins b @ '')''"

lemma buildCond_render: "buildCond ins reg before depth = render ins (cond_ast ins reg before depth)"
proof (induction ins reg before depth rule: cond_ast.induct)
  case (1 ins reg before depth)
  show ?case
  proof (cases "defOf ins reg before")
    case None
    then show ?thesis by (simp add: buildCond.simps [of ins reg before depth] cond_ast.simps [of ins reg before depth])
  next
    case (Some j)
    show ?thesis
    proof (cases "depth > 32")
      case False
      note ih = 1 [OF False Some refl refl]
      show ?thesis using False ih
        by (simp add: buildCond.simps [of ins reg before depth] cond_ast.simps [of ins reg before depth] Some Let_def)
    qed (simp add: buildCond.simps [of ins reg before depth] cond_ast.simps [of ins reg before depth])
  qed
qed

text \<open>
  Masks are 64-bit words, and the instructions run in the order of their addresses. An instruction
  writes its first operand; compares and instructions the evaluator does not know write an arbitrary
  value \<open>w j\<close> there. Whatever else instruction \<open>j\<close> changes is an arbitrary map \<open>aux j\<close> from register
  texts to new values: the VCC of a carry add, the EXEC of a \<open>saveexec\<close>, the pair \<open>[S0,S1]\<close> when
  \<open>S0\<close> is written.
\<close>

definition exec_ins :: "(nat \<Rightarrow> u64) \<Rightarrow> (nat \<Rightarrow> string \<rightharpoonup> u64) \<Rightarrow> TextInsn list \<Rightarrow> nat \<Rightarrow> (string \<Rightarrow> u64) \<Rightarrow> (string \<Rightarrow> u64)" where
  "exec_ins w aux ins j env =
     (let d = ins ! j; m = mnem d;
          env' = (if ops d = [] then env
            else env(hd (ops d) :=
              (if starts_with ''V_CMP'' m then w j
               else if m = ''S_AND_B64'' then env (src_op d 1) AND env (src_op d 2)
               else if m = ''S_OR_B64'' then env (src_op d 1) OR env (src_op d 2)
               else if m = ''S_XOR_B64'' then env (src_op d 1) XOR env (src_op d 2)
               else if m = ''S_ANDN2_B64'' then env (src_op d 1) AND NOT (env (src_op d 2))
               else if m = ''S_MOV_B64'' \<or> m = ''S_MOV_B32'' then env (src_op d 1)
               else w j))) in
      (\<lambda>r. case aux j r of Some v \<Rightarrow> v | None \<Rightarrow> env' r))"

fun exec_upto :: "(nat \<Rightarrow> u64) \<Rightarrow> (nat \<Rightarrow> string \<rightharpoonup> u64) \<Rightarrow> TextInsn list \<Rightarrow> (string \<Rightarrow> u64) \<Rightarrow> nat \<Rightarrow> (string \<Rightarrow> u64)" where
  "exec_upto w aux ins env 0 = env"
| "exec_upto w aux ins env (Suc n) = exec_ins w aux ins n (exec_upto w aux ins env n)"

text \<open>
  No register the recovery looks up is changed as a side effect from the instruction it found (or from
  the start, when it found none) up to the place where the register is read.
\<close>

function undisturbed :: "(nat \<Rightarrow> string \<rightharpoonup> u64) \<Rightarrow> TextInsn list \<Rightarrow> string \<Rightarrow> nat \<Rightarrow> nat \<Rightarrow> bool" where
  "undisturbed aux ins reg before depth =
     (if depth > 32 then True
      else case defOf ins reg before of None \<Rightarrow> list_all (\<lambda>k. aux k reg = None) [0..<before]
      | Some j \<Rightarrow>
          (let d = ins ! j; m = mnem d in
           list_all (\<lambda>k. aux k reg = None) [j..<before] \<and>
           (if m = ''S_AND_B64'' \<or> m = ''S_OR_B64'' \<or> m = ''S_XOR_B64'' \<or> m = ''S_ANDN2_B64'' then
              undisturbed aux ins (src_op d 1) j (depth + 1) \<and> undisturbed aux ins (src_op d 2) j (depth + 1)
            else if m = ''S_MOV_B64'' \<or> m = ''S_MOV_B32'' then undisturbed aux ins (src_op d 1) j (depth + 1)
            else True)))"
  by pat_completeness auto
termination
  by (relation "measure (\<lambda>(aux, ins, reg, before, depth). before)") (auto dest: defOf_less)

declare undisturbed.simps [simp del]

fun meval :: "(nat \<Rightarrow> u64) \<Rightarrow> (string \<Rightarrow> u64) \<Rightarrow> mexp \<Rightarrow> u64" where
  "meval w env (MLeaf j) = w j"
| "meval w env (MOpaque j) = w j"
| "meval w env (MIn reg) = env reg"
| "meval w env (MDeep reg) = 0"
| "meval w env (MAnd a b) = meval w env a AND meval w env b"
| "meval w env (MOr a b) = meval w env a OR meval w env b"
| "meval w env (MXor a b) = meval w env a XOR meval w env b"
| "meval w env (MAndn2 a b) = meval w env a AND NOT (meval w env b)"

fun no_deep :: "mexp \<Rightarrow> bool" where
  "no_deep (MDeep r) = False"
| "no_deep (MAnd a b) = (no_deep a \<and> no_deep b)"
| "no_deep (MOr a b) = (no_deep a \<and> no_deep b)"
| "no_deep (MXor a b) = (no_deep a \<and> no_deep b)"
| "no_deep (MAndn2 a b) = (no_deep a \<and> no_deep b)"
| "no_deep e = True"

lemma defOf_Suc: "defOf ins reg (Suc n) = (if ops (ins ! n) \<noteq> [] \<and> hd (ops (ins ! n)) = reg then Some n else defOf ins reg n)"
  by (simp add: defOf_def)

lemma exec_upto_def_of:
  "(\<forall>k < before. (case defOf ins reg before of None \<Rightarrow> True | Some j \<Rightarrow> j \<le> k) \<longrightarrow> aux k reg = None) \<Longrightarrow>
    exec_upto w aux ins env before reg = (case defOf ins reg before of None \<Rightarrow> env reg
     | Some j \<Rightarrow> exec_ins w aux ins j (exec_upto w aux ins env j) reg)"
proof (induction before)
  case 0
  then show ?case by (simp add: defOf_def)
next
  case (Suc n)
  show ?case
  proof (cases "ops (ins ! n) \<noteq> [] \<and> hd (ops (ins ! n)) = reg")
    case False
    have "case defOf ins reg (Suc n) of None \<Rightarrow> True | Some j \<Rightarrow> j \<le> n"
      using False by (auto simp: defOf_Suc split: option.splits dest!: defOf_less)
    then have "aux n reg = None" using Suc.prems by blast
    then have "exec_upto w aux ins env (Suc n) reg = exec_upto w aux ins env n reg" using False by (auto simp: exec_ins_def Let_def)
    then show ?thesis using Suc False by (simp add: defOf_Suc)
  qed (simp add: defOf_Suc)
qed

lemma defOf_dest: "defOf ins reg before = Some j \<Longrightarrow> ops (ins ! j) \<noteq> [] \<and> hd (ops (ins ! j)) = reg"
  by (auto simp: defOf_def dest!: find_in)

lemma cond_ast_eval:
  "no_deep (cond_ast ins reg before depth) \<Longrightarrow> undisturbed aux ins reg before depth \<Longrightarrow>
    meval w env (cond_ast ins reg before depth) = exec_upto w aux ins env before reg"
proof (induction ins reg before depth rule: cond_ast.induct)
  case (1 ins reg before depth)
  note step = cond_ast.simps [of ins reg before depth] and u = undisturbed.simps [of aux ins reg before depth]
  have d: "\<not> depth > 32" using 1(3) by (auto simp: step)
  have x: "exec_upto w aux ins env before reg = (case defOf ins reg before of None \<Rightarrow> env reg
     | Some j \<Rightarrow> exec_ins w aux ins j (exec_upto w aux ins env j) reg)"
    using 1(4) d by (intro exec_upto_def_of) (auto simp: u Let_def list_all_iff split: option.splits)
  show ?case
  proof (cases "defOf ins reg before")
    case None
    then show ?thesis using d by (simp add: step x)
  next
    case (Some j)
    note ih = 1(1,2) [OF d Some refl refl]
    have a: "aux j reg = None" using 1(4) d Some defOf_less [OF Some] by (simp add: u Let_def list_all_iff)
    show ?thesis using 1(3) 1(4) [unfolded u] ih defOf_dest [OF Some] d a
      by (auto simp add: step x Some Let_def exec_ins_def split: if_splits)
  qed
qed

lemma cond_ast_shallow: "before + depth \<le> 32 \<Longrightarrow> no_deep (cond_ast ins reg before depth)"
proof (induction ins reg before depth rule: cond_ast.induct)
  case (1 ins reg before depth)
  have d: "\<not> depth > 32" using 1(3) by simp
  show ?case
  proof (cases "defOf ins reg before")
    case None
    then show ?thesis using d by (simp add: cond_ast.simps [of ins reg before depth])
  next
    case (Some j)
    have "j + (depth + 1) \<le> 32" using defOf_less [OF Some] 1(3) by simp
    then show ?thesis using 1(1,2) [OF d Some refl refl] d
      by (simp add: cond_ast.simps [of ins reg before depth] Some Let_def)
  qed
qed

section \<open>Properties\<close>

text \<open>
  C23: the condition \<open>depredicate.C\<close> prints for a select or a branch is the rendering of an expression
  over the compares, the unknown producers and the incoming registers. When the instructions up to the
  select run in the order of their addresses (across branches the text is approximate), when no
  register the recovery looked up is changed as a side effect after the instruction it found, and when
  the text was not cut at depth 32, which takes more than 32 instructions, the value of the expression
  is the value of the mask register before the select, whatever the compares and the unknown producers
  give.
\<close>
theorem condition_is_the_mask:
  "buildCond ins reg before 0 = render ins (cond_ast ins reg before 0)
    \<and> (no_deep (cond_ast ins reg before 0) \<and> undisturbed aux ins reg before 0 \<longrightarrow>
        meval w env (cond_ast ins reg before 0) = exec_upto w aux ins env before reg)
    \<and> (before \<le> 32 \<longrightarrow> no_deep (cond_ast ins reg before 0))"
  using buildCond_render cond_ast_eval cond_ast_shallow [of before 0] by simp

definition demo_text :: "TextInsn list" where
  "demo_text = [parseInsn 0 ''V_ADD_CO_U32 V0, VCC, V0, V4'', parseInsn 4 ''V_CMP_GT_I32 VCC, S4, V0'',
     parseInsn 8 ''V_CMP_LT_U32 [S0,S1], V2, V3'', parseInsn 12 ''S_ANDN2_B64 [S6,S7], VCC, [S0,S1]'',
     parseInsn 16 ''V_CNDMASK_B32 V1, V2, V3, [S6,S7]'']"

text \<open>The carry of the add at the start goes to VCC, before the compare that defines the mask.\<close>

lemma condition_is_the_mask_witness:
  "buildCond demo_text ''[S6,S7]'' 4 0 = ''((S4 > V0) & ~(V2 < V3))''
    \<and> exec_upto (\<lambda>j. if j = 1 then 12 else 10) (\<lambda>j. if j = 0 then [''VCC'' \<mapsto> 7] else Map.empty) demo_text (\<lambda>r. 0) 4 ''[S6,S7]'' = 4"
proof -
  have "cond_ast demo_text ''[S6,S7]'' 4 0 = MAndn2 (MLeaf 1) (MLeaf 2)" by code_simp
  moreover have "render demo_text (MAndn2 (MLeaf 1) (MLeaf 2)) = ''((S4 > V0) & ~(V2 < V3))''" by code_simp
  moreover have "undisturbed (\<lambda>j. if j = 0 then [''VCC'' \<mapsto> 7] else Map.empty) demo_text ''[S6,S7]'' 4 0"
    by code_simp
  ultimately show ?thesis
    using condition_is_the_mask [of demo_text "''[S6,S7]''" 4 "\<lambda>j. if j = 0 then [''VCC'' \<mapsto> 7] else Map.empty"
      "\<lambda>j. if j = 1 then 12 else 10" "\<lambda>r. 0"] by simp
qed

text \<open>
  \<open>defOf\<close> looks at the first operand only. A carry add between the compare and the select writes VCC as
  its second operand: the printed condition is the compare, the select uses the carry.
\<close>

definition carry_text :: "TextInsn list" where
  "carry_text = [parseInsn 0 ''V_CMP_GT_I32 VCC, S4, V0'', parseInsn 4 ''V_ADD_CO_U32 V1, VCC, V2, V3'',
     parseInsn 8 ''V_CNDMASK_B32 V1, V2, V3, VCC'']"

lemma carry_not_seen:
  "buildCond carry_text ''VCC'' 2 0 = ''(S4 > V0)''
    \<and> exec_upto w (\<lambda>j. if j = 1 then [''VCC'' \<mapsto> carry] else Map.empty) carry_text env 2 ''VCC'' = carry
    \<and> \<not> undisturbed (\<lambda>j. if j = 1 then [''VCC'' \<mapsto> carry] else Map.empty) carry_text ''VCC'' 2 0"
proof -
  have "buildCond carry_text ''VCC'' 2 0 = ''(S4 > V0)''" by code_simp
  moreover have "defOf carry_text ''VCC'' 2 = Some 0" by code_simp
  ultimately show ?thesis
    by (simp add: numeral_2_eq_2 exec_ins_def Let_def undisturbed.simps [of _ carry_text] upt_rec)
qed

text \<open>
  The prototypes' own copies of the text helpers agree with each other and with
  \<open>structure.C\<close>: operand splitting, instruction parsing and the comparison operators are the same
  functions, so both read the same instructions out of a function.
\<close>
theorem text_helpers_agree:
  "br_splitOps s = splitOps s \<and> br_parseInsn a s = parseInsn a s \<and> br_cmpOp s = cmpOp s \<and> dp_cmpOp s = cmpOp s
    \<and> br_raw_text f = raw_text f"
  by (simp add: br_splitOps_def splitOps_def br_split_from_eq br_parseInsn_eq br_cmpOp_eq dp_cmpOp_eq br_raw_text_def raw_text_def)

text \<open>The braces of a line, and the transitions that have no open brace to refer to.\<close>

fun br_net :: "br_line \<Rightarrow> int" where
  "br_net (Br_if d c a s) = 1"
| "br_net (Br_else d s a) = 0"
| "br_net (Br_xor d a) = 0"
| "br_net (Br_close d a s) = - 1"
| "br_net (Br_call d a) = 0"
| "br_net (Br_end d) = - 1"

fun refers_back :: "br_line \<Rightarrow> bool" where
  "refers_back (Br_else d s a) = True"
| "refers_back (Br_xor d a) = True"
| "refers_back (Br_close d a s) = True"
| "refers_back l = False"

fun unmatched :: "TextInsn list \<Rightarrow> nat list \<Rightarrow> Bracket \<Rightarrow> nat" where
  "unmatched ins [] s = 0"
| "unmatched ins (i # is) s =
     (let (ls, s') = bracket_step ins i s in
      (if br_depth s = 0 \<and> list_ex refers_back ls then 1 else 0) + unmatched ins is s')"

lemma bracket_step_net:
  "bracket_step ins i s = (ls, s') \<Longrightarrow> 0 \<le> br_depth s \<Longrightarrow>
    0 \<le> br_depth s' \<and> sum_list (map br_net ls) = br_depth s' - br_depth s - (if br_depth s = 0 \<and> list_ex refers_back ls then 1 else 0)"
  by (auto simp: bracket_step_def dec_pos_def Let_def split: if_splits option.splits)

lemma bracket_from_net:
  "bracket_from ins is s = (ls, s') \<Longrightarrow> 0 \<le> br_depth s \<Longrightarrow>
    0 \<le> br_depth s' \<and> sum_list (map br_net ls) = br_depth s' - br_depth s - int (unmatched ins is s)"
proof (induction "is" arbitrary: s ls)
  case (Cons i "is")
  obtain l1 s1 where b: "bracket_step ins i s = (l1, s1)" by fastforce
  obtain l2 s2 where r: "bracket_from ins is s1 = (l2, s2)" by fastforce
  have "ls = l1 @ l2" "s' = s2" using Cons.prems(1) by (simp_all add: b r)
  then show ?case using bracket_step_net [OF b Cons.prems(2)] Cons.IH [of s1 l2] r by (auto simp: b)
qed simp

lemma sum_implicit: "0 \<le> d \<Longrightarrow> sum_list (map br_net (implicit_closes d)) = - d"
  by (simp add: implicit_closes_def comp_def sum_list_triv)

lemma bracket_step_frames:
  "br_depth s = br_depth t \<Longrightarrow> fst (bracket_step ins i s) = fst (bracket_step ins i t)
    \<and> br_depth (snd (bracket_step ins i s)) = br_depth (snd (bracket_step ins i t))"
  by (auto simp: bracket_step_def Let_def split: option.splits)

lemma bracket_from_frames:
  "br_depth s = br_depth t \<Longrightarrow> fst (bracket_from ins is s) = fst (bracket_from ins is t)
    \<and> br_depth (snd (bracket_from ins is s)) = br_depth (snd (bracket_from ins is t))"
proof (induction "is" arbitrary: s t)
  case (Cons i "is")
  obtain l1 s1 l2 s2 where b: "bracket_step ins i s = (l1, s1)" "bracket_step ins i t = (l2, s2)" by fastforce
  then have "l1 = l2" "br_depth s1 = br_depth s2" using bracket_step_frames [OF Cons.prems, of ins i] by simp_all
  then show ?case using Cons.IH [of s1 s2] by (simp add: b split_beta)
qed simp

text \<open>
  the braces \<open>bracket.C\<close> prints for a function balance exactly when no else and no close
  comes at depth 0; each of those leaves one closing brace too many. The frames with the save
  registers, on which the header says the walk is keyed, never influence the output: any frames
  give the same lines.
\<close>
theorem bracket_braces:
  "sum_list (map br_net (bracket_lines ins stk)) = - int (unmatched ins [0..<length ins] \<lparr>br_stk = stk, br_depth = 0\<rparr>)
    \<and> bracket_lines ins stk = bracket_lines ins stk'"
proof -
  obtain ls s where b: "bracket_from ins [0..<length ins] \<lparr>br_stk = stk, br_depth = 0\<rparr> = (ls, s)" by fastforce
  have n: "0 \<le> br_depth s" "sum_list (map br_net ls) = br_depth s - int (unmatched ins [0..<length ins] \<lparr>br_stk = stk, br_depth = 0\<rparr>)"
    using bracket_from_net [OF b] by simp_all
  have e: "bracket_lines ins stk = bracket_lines ins stk'"
    using bracket_from_frames [of "\<lparr>br_stk = stk, br_depth = 0\<rparr>" "\<lparr>br_stk = stk', br_depth = 0\<rparr>" ins "[0..<length ins]"]
    by (simp add: bracket_lines_def split_beta)
  have "sum_list (map br_net (bracket_lines ins stk)) = - int (unmatched ins [0..<length ins] \<lparr>br_stk = stk, br_depth = 0\<rparr>)"
    using n sum_implicit [OF n(1)] by (simp add: bracket_lines_def b)
  then show ?thesis using e by (rule conjI)
qed

end
