(* ===== verification/Slice_Smoke.thy ===== *)
theory Slice_Smoke
  imports Prelude "HOL-Library.AList"
begin

text \<open>
  \<open>analysis/cfrecovery/slice_smoke.C\<close>: the program that slices backwards from the first \<open>v_cndmask\<close>
  of a code object and reports whether the slice reaches a \<open>v_cmp\<close>. ParseAPI's functions, blocks and
  instruction texts are its input; the assignment converter and the slicer of DataflowAPI are
  parameters. A line of the report is a value of \<open>line\<close>.
\<close>

section \<open>The parsed code object and the slicer\<close>

record SmokeBlock =
  sb_insns :: "(nat \<times> string) list"

record SmokeFunction =
  sf_name :: string
  sf_blocks :: "SmokeBlock list"

record Assignment =
  as_addr :: nat
  as_text :: string

text \<open>
  \<open>AssignmentConverter::convert\<close> and \<open>Slicer::backwardSlice\<close>, the latter with its null result; a
  node is \<open>None\<close> where the cast to \<open>SliceNode\<close> fails or it has no assignment.
\<close>

record Dataflow =
  df_convert :: "SmokeFunction \<Rightarrow> SmokeBlock \<Rightarrow> nat \<Rightarrow> Assignment list"
  df_backwardSlice :: "SmokeFunction \<Rightarrow> SmokeBlock \<Rightarrow> Assignment \<Rightarrow> Assignment option list option"

datatype line = UsageLine string | Parsed string nat | DumpHead string | DumpInsn nat string
  | Slicing string nat string | Produced nat | AssignLine string | NoAssignmentLine | SliceNull
  | NodeLine nat nat string | Reached nat nat | NoCndmask

section \<open>The program\<close>

definition has :: "string \<Rightarrow> string \<Rightarrow> bool" where
  "has s sub = contains_sub sub s"

text \<open>One pass fills \<open>insnStr\<close> and stops looking for the target at the first \<open>V_CNDMASK\<close>.\<close>

type_synonym scan = "(nat \<times> string) list \<times> (SmokeBlock \<times> nat) option"

definition scan_insn :: "SmokeBlock \<Rightarrow> nat \<times> string \<Rightarrow> scan \<Rightarrow> scan" where
  "scan_insn b i st = (case i of (a, s) \<Rightarrow> case st of (insnStr, cnd) \<Rightarrow>
     (AList.update a s insnStr, if cnd = None \<and> has s ''V_CNDMASK'' then Some (b, a) else cnd))"

definition scan_function :: "SmokeFunction \<Rightarrow> scan" where
  "scan_function f = fold (\<lambda>b. fold (scan_insn b) (sb_insns b)) (sf_blocks f) ([], None)"

definition text_at :: "(nat \<times> string) list \<Rightarrow> nat \<Rightarrow> string" where
  "text_at m a = (case map_of m a of None \<Rightarrow> [] | Some s \<Rightarrow> s)"

text \<open>The walk over the slice's nodes, with the counters \<open>n\<close>, \<open>vcmp\<close> and \<open>vcmpx\<close>.\<close>

fun walk_nodes :: "(nat \<times> string) list \<Rightarrow> Assignment option list \<Rightarrow> nat \<Rightarrow> nat \<Rightarrow> nat \<Rightarrow> nat \<times> nat \<times> nat \<times> line list" where
  "walk_nodes m [] n vcmp vcmpx = (n, vcmp, vcmpx, [])"
| "walk_nodes m (None # ns) n vcmp vcmpx = walk_nodes m ns n vcmp vcmpx"
| "walk_nodes m (Some t # ns) n vcmp vcmpx =
     (let a = as_addr t;
          s = (case map_of m a of None \<Rightarrow> ''<?>'' | Some s \<Rightarrow> s);
          (n', v, x, out) = walk_nodes m ns (Suc n) (if has s ''V_CMP'' then Suc vcmp else vcmp)
             (if has s ''V_CMPX'' then Suc vcmpx else vcmpx)
      in (n', v, x, NodeLine (Suc n) a s # out))"

definition slice_from :: "Dataflow \<Rightarrow> SmokeFunction \<Rightarrow> (nat \<times> string) list \<Rightarrow> SmokeBlock \<Rightarrow> nat \<Rightarrow> nat \<times> line list" where
  "slice_from df f insnStr cndBlock cndAddr =
     (let assigns = df_convert df f cndBlock cndAddr;
          out = Slicing (sf_name f) cndAddr (text_at insnStr cndAddr) # Produced (length assigns) # map (AssignLine \<circ> as_text) assigns
      in case assigns of [] \<Rightarrow> (1, out @ [NoAssignmentLine])
         | target # _ \<Rightarrow> (case df_backwardSlice df f cndBlock target of None \<Rightarrow> (1, out @ [SliceNull])
             | Some g \<Rightarrow> (case walk_nodes insnStr g 0 0 0 of (n, vcmp, vcmpx, nodes) \<Rightarrow>
                 (if vcmp \<noteq> 0 then 0 else 3, out @ nodes @ [Reached n vcmp]))))"

text \<open>\<open>SLICE_DUMP\<close> prints the instructions of a function without a target, in address order.\<close>

fun smoke_functions :: "Dataflow \<Rightarrow> bool \<Rightarrow> string \<Rightarrow> SmokeFunction list \<Rightarrow> nat \<times> line list" where
  "smoke_functions df dump want [] = (4, [NoCndmask])"
| "smoke_functions df dump want (f # fs) =
     (if want \<noteq> [] \<and> \<not> has (sf_name f) want then smoke_functions df dump want fs
      else (case scan_function f of
        (insnStr, None) \<Rightarrow> (case smoke_functions df dump want fs of (rc, out) \<Rightarrow>
          (rc, (if dump then DumpHead (sf_name f) # map (\<lambda>(a, s). DumpInsn a s) (sort_key fst insnStr) else []) @ out))
      | (insnStr, Some (b, a)) \<Rightarrow> slice_from df f insnStr b a))"

definition slice_smoke_main :: "(string \<Rightarrow> SmokeFunction list) \<Rightarrow> Dataflow \<Rightarrow> bool \<Rightarrow> string list \<Rightarrow> nat \<times> line list" where
  "slice_smoke_main parse df dump argv =
     (if length argv < 2 then (2, [UsageLine (if argv = [] then [] else hd argv)])
      else (let funcs = parse (argv ! 1); want = (if 3 \<le> length argv then argv ! 2 else []) in
        case smoke_functions df dump want funcs of (rc, out) \<Rightarrow> (rc, Parsed (argv ! 1) (length funcs) # out)))"

section \<open>What the scan finds\<close>

definition insns_of :: "SmokeFunction \<Rightarrow> (SmokeBlock \<times> nat \<times> string) list" where
  "insns_of f = concat (map (\<lambda>b. map (\<lambda>i. (b, i)) (sb_insns b)) (sf_blocks f))"

definition first_cndmask :: "SmokeFunction \<Rightarrow> (SmokeBlock \<times> nat) option" where
  "first_cndmask f = map_option (\<lambda>(b, a, s). (b, a)) (find (\<lambda>(b, a, s). has s ''V_CNDMASK'') (insns_of f))"

definition insn_text :: "SmokeFunction \<Rightarrow> nat \<Rightarrow> string option" where
  "insn_text f = map_of (rev (map snd (insns_of f)))"

lemma scan_flat: "scan_function f = fold (\<lambda>(b, i). scan_insn b i) (insns_of f) ([], None)"
proof -
  have b: "fold (scan_insn b) is = fold (\<lambda>(b, i). scan_insn b i) (map (\<lambda>i. (b, i)) is)" for b "is"
    by (simp add: fold_map comp_def)
  have "fold (\<lambda>b. fold (scan_insn b) (sb_insns b)) bs =
      fold (\<lambda>(b, i). scan_insn b i) (concat (map (\<lambda>b. map (\<lambda>i. (b, i)) (sb_insns b)) bs))" for bs
    by (induction bs) (simp_all add: b)
  then show ?thesis by (simp add: scan_function_def insns_of_def)
qed

lemma scan_cnd:
  "snd (fold (\<lambda>(b, i). scan_insn b i) is (m, c)) =
    (case c of None \<Rightarrow> map_option (\<lambda>(b, a, s). (b, a)) (find (\<lambda>(b, a, s). has s ''V_CNDMASK'') is) | Some x \<Rightarrow> Some x)"
  by (induction "is" arbitrary: m c) (auto simp: scan_insn_def split: option.splits)

lemma scan_texts:
  "map_of (fst (fold (\<lambda>(b, i). scan_insn b i) is (m, c))) = map_of m ++ map_of (rev (map snd is))"
  by (induction "is" arbitrary: m c) (auto simp: scan_insn_def update_conv' fun_eq_iff map_add_def split: option.splits)

lemma scan_function_spec:
  "snd (scan_function f) = first_cndmask f" "map_of (fst (scan_function f)) = insn_text f"
  unfolding scan_flat by (simp_all add: scan_cnd scan_texts first_cndmask_def insn_text_def)

section \<open>What the walk counts\<close>

definition reaches :: "string \<Rightarrow> (nat \<Rightarrow> string option) \<Rightarrow> Assignment option \<Rightarrow> bool" where
  "reaches pat txt x = (case x of None \<Rightarrow> False | Some t \<Rightarrow> (case txt (as_addr t) of None \<Rightarrow> False | Some s \<Rightarrow> has s pat))"

lemma unknown_text: "\<not> has ''<?>'' ''V_CMP''" "\<not> has ''<?>'' ''V_CMPX''"
  by (simp_all add: has_def)

lemma walk_counts:
  "walk_nodes m g n v x = (n', v', x', out) \<Longrightarrow>
    n' = n + length (filter (\<lambda>y. y \<noteq> None) g) \<and> length out = n' - n \<and>
    v' = v + length (filter (reaches ''V_CMP'' (map_of m)) g) \<and> x' = x + length (filter (reaches ''V_CMPX'' (map_of m)) g)"
proof (induction m g n v x arbitrary: n' v' x' out rule: walk_nodes.induct)
  case (3 m t ns n vcmp vcmpx)
  let ?s = "case map_of m (as_addr t) of None \<Rightarrow> ''<?>'' | Some s \<Rightarrow> s"
  have r: "reaches ''V_CMP'' (map_of m) (Some t) = has ?s ''V_CMP''" "reaches ''V_CMPX'' (map_of m) (Some t) = has ?s ''V_CMPX''"
    by (auto simp: reaches_def unknown_text split: option.split)
  obtain n1 v1 x1 o1 where w: "walk_nodes m ns (Suc n) (if has ?s ''V_CMP'' then Suc vcmp else vcmp)
      (if has ?s ''V_CMPX'' then Suc vcmpx else vcmpx) = (n1, v1, x1, o1)" by (metis prod_cases4)
  from 3(2) w have e: "n' = n1" "v' = v1" "x' = x1" "out = NodeLine (Suc n) (as_addr t) ?s # o1" by (simp_all add: Let_def)
  from 3(1) [OF refl refl w] show ?case by (auto simp: e r)
qed (auto simp: reaches_def)

text \<open>Every \<open>V_CMPX\<close> is also counted as a \<open>V_CMP\<close>.\<close>

lemma cmpx_is_cmp: "reaches ''V_CMPX'' txt y \<Longrightarrow> reaches ''V_CMP'' txt y"
proof -
  have "has s ''V_CMPX'' \<Longrightarrow> has s ''V_CMP''" for s
    unfolding has_def contains_sub_iff by (metis append_Cons append_Nil append_assoc)
  then show "reaches ''V_CMPX'' txt y \<Longrightarrow> reaches ''V_CMP'' txt y"
    by (auto simp: reaches_def split: option.splits)
qed

section \<open>The exit codes\<close>

definition slice_verdict :: "Dataflow \<Rightarrow> SmokeFunction \<Rightarrow> SmokeBlock \<times> nat \<Rightarrow> nat" where
  "slice_verdict df f = (\<lambda>(b, a). case df_convert df f b a of [] \<Rightarrow> 1
     | t # _ \<Rightarrow> (case df_backwardSlice df f b t of None \<Rightarrow> 1
         | Some g \<Rightarrow> if \<exists>y \<in> set g. reaches ''V_CMP'' (insn_text f) y then 0 else 3))"

lemma slice_from_verdict:
  assumes "map_of m = insn_text f"
  shows "fst (slice_from df f m b a) = slice_verdict df f (b, a)"
proof -
  have w: "(v = 0) = (\<not> (\<exists>y \<in> set g. reaches ''V_CMP'' (insn_text f) y))" if "walk_nodes m g 0 0 0 = (n, v, x, out)" for g n v x out
    using walk_counts [OF that] assms by (auto simp: filter_empty_conv)
  show ?thesis
  proof (cases "df_convert df f b a")
    case Nil
    then show ?thesis by (simp add: slice_from_def slice_verdict_def)
  next
    case (Cons t ts)
    then show ?thesis
    proof (cases "df_backwardSlice df f b t")
      case (Some g)
      obtain n v x out where g: "walk_nodes m g 0 0 0 = (n, v, x, out)" by (metis prod_cases4)
      show ?thesis using w [OF g] by (auto simp add: slice_from_def slice_verdict_def Cons Some g)
    qed (simp add: slice_from_def slice_verdict_def)
  qed
qed

definition chosen :: "string \<Rightarrow> SmokeFunction \<Rightarrow> bool" where
  "chosen want f \<longleftrightarrow> (want = [] \<or> has (sf_name f) want) \<and> first_cndmask f \<noteq> None"

lemma smoke_functions_verdict:
  "fst (smoke_functions df dump want fs) =
    (case find (chosen want) fs of None \<Rightarrow> 4 | Some f \<Rightarrow> slice_verdict df f (the (first_cndmask f)))"
proof (induction fs)
  case (Cons f fs)
  obtain m c where s: "scan_function f = (m, c)" by (cases "scan_function f")
  then have c: "c = first_cndmask f" "map_of m = insn_text f" using scan_function_spec [of f] by simp_all
  show ?case
    using Cons slice_from_verdict [OF c(2)] c(1)
    by (auto simp: s chosen_def split: option.splits prod.splits)
qed simp

text \<open>
  The exit code of \<open>slice_smoke\<close>. It is 2 without an argument; 4 when no selected function has a
  \<open>V_CNDMASK\<close>; and otherwise it depends on the first selected function that has one, and on the first
  such instruction there: 1 when no assignment or no slice is produced, 0 when a node of the slice
  is an instruction of that function whose text contains \<open>V_CMP\<close>, 3 when none is. \<open>SLICE_DUMP\<close> does
  not change it.
\<close>

theorem slice_smoke_exit:
  "fst (slice_smoke_main parse df dump argv) =
    (if length argv < 2 then 2
     else (case find (chosen (if 3 \<le> length argv then argv ! 2 else [])) (parse (argv ! 1)) of None \<Rightarrow> 4
       | Some f \<Rightarrow> slice_verdict df f (the (first_cndmask f))))"
  using smoke_functions_verdict [of df dump "if 3 \<le> length argv then argv ! 2 else []" "parse (argv ! 1)"]
  by (auto simp: slice_smoke_main_def Let_def split: prod.splits)

end
