(* ===== verification/Note_Tools.thy ===== *)
theory Note_Tools
  imports Loader_Hooks Msgpack "HOL-Library.AList" "HOL-Library.Monad_Syntax"
begin

text \<open>
  \<open>tools/expand_args.py\<close> and \<open>tools/sync_note_from_kd.py\<close>, the part on the metadata note: the header
  of the note, the argument descriptors that \<open>expand_args\<close> appends, and the resource counts that
  \<open>sync_note\<close> copies from the kernel descriptors. The msgpack package is a parameter (\<open>unpackb\<close>,
  \<open>packb\<close>); a Python exception is \<open>None\<close>; the messages are left out.
\<close>

section \<open>Dictionaries\<close>

type_synonym dict = "(MsgVal \<times> MsgVal) list"

definition dget :: "dict \<Rightarrow> string \<Rightarrow> MsgVal option" where
  "dget d key = map_of d (MStr key)"

definition dput :: "string \<Rightarrow> MsgVal \<Rightarrow> dict \<Rightarrow> dict" where
  "dput key v d = AList.update (MStr key) v d"

fun as_dict :: "MsgVal \<Rightarrow> dict option" where
  "as_dict (MMap d) = Some d"
| "as_dict _ = None"

fun as_list :: "MsgVal \<Rightarrow> MsgVal list option" where
  "as_list (MArr xs) = Some xs"
| "as_list _ = None"

fun as_int :: "MsgVal \<Rightarrow> int option" where
  "as_int (MInt i) = Some i"
| "as_int _ = None"

fun map_opt :: "('a \<Rightarrow> 'b option) \<Rightarrow> 'a list \<Rightarrow> 'b list option" where
  "map_opt f [] = Some []"
| "map_opt f (x # xs) = do { y \<leftarrow> f x; ys \<leftarrow> map_opt f xs; Some (y # ys) }"

lemma dget_dput [simp]: "dget (dput k v d) k' = (if k' = k then Some v else dget d k')"
  by (simp add: dget_def dput_def update_conv')

section \<open>The extra arguments\<close>

definition align8 :: "int \<Rightarrow> int" where
  "align8 x = (x + 7) div 8 * 8"

definition value_kind :: "MsgVal \<Rightarrow> MsgVal option" where
  "value_kind a = (case a of MMap d \<Rightarrow> dget d ''.value_kind'' | _ \<Rightarrow> None)"

definition new_arg :: "dict \<Rightarrow> nat \<Rightarrow> int \<Rightarrow> dict" where
  "new_arg proto i off = dput ''.name'' (MStr (''__pw_extra'' @ dec i)) (dput ''.size'' (MInt 8) (dput ''.offset'' (MInt off) proto))"

text \<open>The loop over \<open>range(count)\<close>: the descriptors it appends, and the segment size after it.\<close>

fun append_args :: "dict \<Rightarrow> nat \<Rightarrow> nat \<Rightarrow> int \<Rightarrow> dict list \<times> int" where
  "append_args proto i 0 ksize = ([], ksize)"
| "append_args proto i (Suc n) ksize =
     (let newoff = align8 ksize in
      case append_args proto (Suc i) n (newoff + 8) of (as, ks) \<Rightarrow> (new_arg proto i newoff # as, ks))"

text \<open>\<open>next((a for a in args if a.get('.value_kind') == 'global_buffer'), None)\<close>\<close>

fun find_proto :: "MsgVal list \<Rightarrow> dict option option" where
  "find_proto [] = Some None"
| "find_proto (a # as) = do {
     d \<leftarrow> as_dict a;
     if dget d ''.value_kind'' = Some (MStr ''global_buffer'') then Some (Some d) else find_proto as }"

definition expand_kernel :: "string option \<Rightarrow> nat \<Rightarrow> MsgVal \<Rightarrow> MsgVal option" where
  "expand_kernel target count k = do {
     d \<leftarrow> as_dict k;
     if target \<noteq> None \<and> target \<noteq> Some [] \<and> dget d ''.name'' \<noteq> map_option MStr target then Some k
     else do {
       args \<leftarrow> (case dget d ''.args'' of None \<Rightarrow> Some [] | Some v \<Rightarrow> as_list v);
       found \<leftarrow> find_proto args;
       (case found of
          None \<Rightarrow> Some k
        | Some proto \<Rightarrow> do {
            ksize \<leftarrow> (case dget d ''.kernarg_segment_size'' of None \<Rightarrow> Some 0 | Some v \<Rightarrow> as_int v);
            (case append_args proto 0 count ksize of (new, ks) \<Rightarrow>
               Some (MMap (dput ''.kernarg_segment_size'' (MInt ks) (dput ''.args'' (MArr (args @ map MMap new)) d)))) }) } }"

definition over_kernels :: "(MsgVal \<Rightarrow> MsgVal option) \<Rightarrow> MsgVal \<Rightarrow> MsgVal option" where
  "over_kernels f root = do {
     d \<leftarrow> as_dict root;
     (case dget d ''amdhsa.kernels'' of None \<Rightarrow> Some root
      | Some v \<Rightarrow> do { ks \<leftarrow> as_list v; ks' \<leftarrow> map_opt f ks; Some (MMap (dput ''amdhsa.kernels'' (MArr ks') d)) }) }"

section \<open>Resource counts from the descriptors\<close>

text \<open>
  The name is looked up in a dictionary, an exception when it is a list or a dictionary itself.
  Counts are compared as integers, the type the format gives them.
\<close>

definition put_changed :: "string \<Rightarrow> int \<Rightarrow> dict \<Rightarrow> dict" where
  "put_changed key v d = (if dget d key \<noteq> Some (MInt v) then dput key (MInt v) d else d)"

definition sync_kernel :: "(string \<Rightarrow> (int \<times> int \<times> int) option) \<Rightarrow> MsgVal \<Rightarrow> MsgVal option" where
  "sync_kernel kd_map k = do {
     d \<leftarrow> as_dict k;
     (case dget d ''.name'' of
        Some (MStr kn) \<Rightarrow> (case kd_map kn of None \<Rightarrow> Some k
          | Some (priv, vgpr, sgpr) \<Rightarrow>
              Some (MMap (put_changed ''.sgpr_count'' sgpr (put_changed ''.vgpr_count'' vgpr
                (put_changed ''.private_segment_fixed_size'' priv d)))))
      | Some (MArr _) \<Rightarrow> None
      | Some (MMap _) \<Rightarrow> None
      | _ \<Rightarrow> Some k) }"

section \<open>The note\<close>

text \<open>\<open>while off % 4: off += 1\<close>\<close>

definition pad4 :: "nat \<Rightarrow> nat" where
  "pad4 n = (n + 3) div 4 * 4"

definition padded :: "bytes \<Rightarrow> bytes" where
  "padded b = b @ replicate (pad4 (length b) - length b) 0"

definition note_parts :: "bytes \<Rightarrow> (nat \<times> nat \<times> bytes \<times> bytes) option" where
  "note_parts note = do {
     name_sz \<leftarrow> rd 4 note 0; desc_sz \<leftarrow> rd 4 note 4; ntype \<leftarrow> rd 4 note 8;
     Some (name_sz, ntype, take name_sz (drop 12 note), take desc_sz (drop (pad4 (12 + name_sz)) note)) }"

definition rewrite_note ::
    "(bytes \<Rightarrow> MsgVal option) \<Rightarrow> (MsgVal \<Rightarrow> bytes) \<Rightarrow> (MsgVal \<Rightarrow> MsgVal option) \<Rightarrow> bytes \<Rightarrow> bytes option" where
  "rewrite_note unpackb packb edit note = do {
     (name_sz, ntype, name, desc) \<leftarrow> note_parts note;
     root \<leftarrow> unpackb desc;
     root' \<leftarrow> edit root;
     let new_desc = packb root';
     if 2 ^ 32 \<le> length new_desc then None
     else Some (padded (padded (le_bytes 4 name_sz @ le_bytes 4 (length new_desc) @ le_bytes 4 ntype @ name) @ new_desc)) }"

definition expand_note :: "(bytes \<Rightarrow> MsgVal option) \<Rightarrow> (MsgVal \<Rightarrow> bytes) \<Rightarrow> string option \<Rightarrow> nat \<Rightarrow> bytes \<Rightarrow> bytes option" where
  "expand_note unpackb packb target count = rewrite_note unpackb packb (over_kernels (expand_kernel target count))"

definition sync_note ::
    "(bytes \<Rightarrow> MsgVal option) \<Rightarrow> (MsgVal \<Rightarrow> bytes) \<Rightarrow> (string \<Rightarrow> (int \<times> int \<times> int) option) \<Rightarrow> bytes \<Rightarrow> bytes option" where
  "sync_note unpackb packb kd_map = rewrite_note unpackb packb (over_kernels (sync_kernel kd_map))"


section \<open>What \<open>expand_args\<close> appends\<close>

lemma align8_props: "x \<le> align8 x" "align8 x < x + 8" "align8 x mod 8 = 0" "align8 (align8 x + 8) = align8 x + 8"
proof -
  have m: "align8 x mod 8 = 0" by (simp add: align8_def)
  then show "align8 x mod 8 = 0" .
  show "x \<le> align8 x" "align8 x < x + 8" unfolding align8_def by presburger+
  show "align8 (align8 x + 8) = align8 x + 8" using m unfolding align8_def [of "align8 x + 8"] by presburger
qed

lemma append_args_spec:
  "append_args proto i n ks =
    (map (\<lambda>j. new_arg proto (i + j) (align8 ks + 8 * int j)) [0..<n], if n = 0 then ks else align8 ks + 8 * int n)"
proof (induction n arbitrary: i ks)
  case (Suc n)
  have "[0..<Suc n] = 0 # map Suc [0..<n]" by (simp add: map_Suc_upt upt_conv_Cons del: upt_Suc)
  then show ?case
    using Suc.IH [of "Suc i" "align8 ks + 8"] by (simp add: Let_def align8_props(4) comp_def algebra_simps del: upt_Suc)
qed simp

lemma find_proto_kind: "find_proto args = Some (Some p) \<Longrightarrow> MMap p \<in> set args \<and> dget p ''.value_kind'' = Some (MStr ''global_buffer'')"
proof (induction args)
  case (Cons a as)
  then show ?case by (cases a) (auto split: if_splits)
qed simp

definition other_keys :: "string list \<Rightarrow> dict \<Rightarrow> dict \<Rightarrow> bool" where
  "other_keys ks d d' \<longleftrightarrow> (\<forall>key. key \<notin> set ks \<longrightarrow> dget d' key = dget d key)"

lemma expand_kernel_spec:
  assumes "target = None \<or> target = Some [] \<or> dget d ''.name'' = map_option MStr target" "dget d ''.args'' = Some (MArr args)"
    and "find_proto args = Some (Some proto)" "dget d ''.kernarg_segment_size'' = Some (MInt ks)" "0 < count"
  defines "new \<equiv> map (\<lambda>j. MMap (new_arg proto j (align8 ks + 8 * int j))) [0..<count]"
  shows "\<exists>d'. expand_kernel target count (MMap d) = Some (MMap d') \<and> dget d' ''.args'' = Some (MArr (args @ new)) \<and>
    dget d' ''.kernarg_segment_size'' = Some (MInt (align8 ks + 8 * int count)) \<and>
    other_keys [''.args'', ''.kernarg_segment_size''] d d'"
proof -
  have t: "\<not> (target \<noteq> None \<and> target \<noteq> Some [] \<and> dget d ''.name'' \<noteq> map_option MStr target)" using assms(1) by blast
  show ?thesis
    unfolding expand_kernel_def other_keys_def
    using assms(1-5) by (simp add: t append_args_spec new_def comp_def)
qed

lemma new_arg_fields:
  assumes "dget proto ''.value_kind'' = Some (MStr ''global_buffer'')"
  shows "dget (new_arg proto i off) ''.offset'' = Some (MInt off)" "dget (new_arg proto i off) ''.size'' = Some (MInt 8)"
    "dget (new_arg proto i off) ''.value_kind'' = Some (MStr ''global_buffer'')"
    "dget (new_arg proto i off) ''.name'' = Some (MStr (''__pw_extra'' @ dec i))"
    "other_keys [''.offset'', ''.size'', ''.name''] proto (new_arg proto i off)"
  using assms by (simp_all add: new_arg_def other_keys_def)

text \<open>What \<open>sync_note\<close> does to a kernel with a descriptor; a second run changes nothing.\<close>

lemma dget_put_changed: "dget (put_changed k v d) k' = (if k' = k then Some (MInt v) else dget d k')"
  by (simp add: put_changed_def)

lemma put_changed_same: "dget d k = Some (MInt v) \<Longrightarrow> put_changed k v d = d"
  by (simp add: put_changed_def)

lemma sync_kernel_spec:
  assumes "dget d ''.name'' = Some (MStr kn)" "kd_map kn = Some (priv, vgpr, sgpr)"
  shows "\<exists>d'. sync_kernel kd_map (MMap d) = Some (MMap d') \<and> dget d' ''.private_segment_fixed_size'' = Some (MInt priv) \<and>
    dget d' ''.vgpr_count'' = Some (MInt vgpr) \<and> dget d' ''.sgpr_count'' = Some (MInt sgpr) \<and>
    other_keys [''.private_segment_fixed_size'', ''.vgpr_count'', ''.sgpr_count''] d d' \<and>
    sync_kernel kd_map (MMap d') = Some (MMap d')"
proof -
  let ?d = "put_changed ''.sgpr_count'' sgpr (put_changed ''.vgpr_count'' vgpr (put_changed ''.private_segment_fixed_size'' priv d))"
  have "sync_kernel kd_map (MMap d) = Some (MMap ?d)" by (simp add: sync_kernel_def assms)
  moreover have "sync_kernel kd_map (MMap ?d) = Some (MMap ?d)"
    by (simp add: sync_kernel_def assms dget_put_changed put_changed_same)
  ultimately show ?thesis by (intro exI [of _ ?d]) (simp add: dget_put_changed other_keys_def)
qed

section \<open>The note around it\<close>

lemma pad4_props: "n \<le> pad4 n" "pad4 n < n + 4" "pad4 n mod 4 = 0" "n mod 4 = 0 \<Longrightarrow> pad4 n = n"
  unfolding pad4_def by presburger+

lemma length_padded: "length (padded b) = pad4 (length b)"
  using pad4_props(1) [of "length b"] by (simp add: padded_def)

lemma take_padded: "n \<le> length b \<Longrightarrow> take n (padded b) = take n b"
  by (simp add: padded_def)

definition note_bytes :: "nat \<Rightarrow> bytes \<Rightarrow> bytes \<Rightarrow> bytes" where
  "note_bytes ntype name desc = padded (padded (le_bytes 4 (length name) @ le_bytes 4 (length desc) @ le_bytes 4 ntype @ name) @ desc)"

text \<open>What is written is read back: the name, the type and the descriptor.\<close>

lemma note_parts_bytes:
  assumes "length name < 2 ^ 32" "length desc < 2 ^ 32" "ntype < 2 ^ 32"
  shows "note_parts (note_bytes ntype name desc) = Some (length name, ntype, name, desc)"
proof -
  let ?h = "le_bytes 4 (length name) @ le_bytes 4 (length desc) @ le_bytes 4 ntype @ name"
  let ?n = "note_bytes ntype name desc"
  have lh: "length ?h = 12 + length name" by simp
  have lp: "length (padded ?h) = pad4 (12 + length name)" using length_padded [of ?h] lh by simp
  have le: "12 + length name \<le> pad4 (12 + length name)" by (rule pad4_props)
  have pre: "?n = padded ?h @ desc @ replicate (pad4 (length (padded ?h @ desc)) - length (padded ?h @ desc)) 0"
    by (simp add: note_bytes_def padded_def [of "padded _ @ _"])
  have th: "take (12 + length name) ?n = ?h"
  proof -
    have "take (12 + length name) ?n = take (12 + length name) (padded ?h)" unfolding pre using lp le by simp
    also have "\<dots> = ?h" using take_padded [of "12 + length name" ?h] lh by simp
    finally show ?thesis .
  qed
  have long: "12 + length name \<le> length ?n" unfolding pre using lp le by simp
  have f: "take k (drop off ?n) = take k (drop off ?h)" if "off + k \<le> 12 + length name" for off k
  proof -
    have "take k (drop off (take (12 + length name) ?n)) = take k (drop off ?n)" using that by (simp add: drop_take)
    then show ?thesis unfolding th by simp
  qed
  have v: "le_val (le_bytes 4 m) = m" if "m < 2 ^ 32" for m using that by (intro le_val_bytes) simp
  have "rd 4 ?n 0 = Some (length name)" "rd 4 ?n 4 = Some (length desc)" "rd 4 ?n 8 = Some ntype"
    using long f [of 0 4] f [of 4 4] f [of 8 4] v assms by (simp_all add: rd_def del: le_bytes.simps)
  moreover have "take (length name) (drop 12 ?n) = name" using f [of 12 "length name"] by (simp del: le_bytes.simps)
  moreover have "take (length desc) (drop (pad4 (12 + length name)) ?n) = desc" unfolding pre lp [symmetric] by simp
  ultimately show ?thesis by (simp add: note_parts_def)
qed

text \<open>
  Two edits of a note one after the other, as the scripts run \<open>sync_note\<close> and then \<open>expand_args\<close>,
  are one edit, when the packing library reads back what it packs.
\<close>

lemma rewrite_note_bytes:
  assumes "unpackb (packb root) = Some root" "length name < 2 ^ 32" "length (packb root) < 2 ^ 32" "ntype < 2 ^ 32"
  shows "rewrite_note unpackb packb edit (note_bytes ntype name (packb root)) =
    (case edit root of None \<Rightarrow> None | Some root' \<Rightarrow>
      if 2 ^ 32 \<le> length (packb root') then None else Some (note_bytes ntype name (packb root')))"
  unfolding rewrite_note_def note_parts_bytes [OF assms(2-4)]
  by (simp add: assms(1) note_bytes_def Let_def split: option.split)


section \<open>The appended argument and the launch hook\<close>

text \<open>
  How the metadata lies in a code object, as far as the readers of \<open>co_stride.h\<close> look at it: the
  kinds of the descriptors in order, each behind its key.
\<close>

definition kinds_described :: "bytes \<Rightarrow> nat \<Rightarrow> nat \<Rightarrow> MsgVal list \<Rightarrow> bool" where
  "kinds_described b noff nsz args \<longleftrightarrow> (\<exists>gks t. take nsz (drop noff b) = args_bytes gks @ t \<and> tail_ok t \<and>
     (\<forall>(g, k) \<in> set gks. gap_ok g \<and> length k < 32) \<and> map (\<lambda>gk. Some (MStr (chars (snd gk)))) gks = map value_kind args)"

definition hidden :: "MsgVal \<Rightarrow> bool" where
  "hidden a = (case value_kind a of Some (MStr s) \<Rightarrow> starts_with ''hidden_'' s | _ \<Rightarrow> False)"

lemma starts_with_take: "starts_with p s \<longleftrightarrow> take (length p) s = p"
proof
  assume "starts_with p s"
  then show "take (length p) s = p" by (auto simp: starts_with_iff)
next
  assume "take (length p) s = p"
  then have "s = p @ drop (length p) s" by (metis append_take_drop_id)
  then show "starts_with p s" unfolding starts_with_iff by blast
qed

lemma chars_inj: "chars a = chars b \<longleftrightarrow> a = b"
proof -
  have "inj (\<lambda>x :: u8. char_of (unat x))"
  proof (rule injI)
    fix x y :: u8
    assume "char_of (unat x) = (char_of (unat y) :: char)"
    then have "(of_char (char_of (unat x)) :: nat) = of_char (char_of (unat y))" by simp
    moreover have "unat x < 256" "unat y < 256" using unsigned_less [of x] unsigned_less [of y] by simp_all
    ultimately show "x = y" by (simp add: of_char_of take_bit_eq_mod word_unat_eq_iff)
  qed
  then show ?thesis unfolding chars_def by (rule inj_map_eq_map)
qed

lemma is_hidden_text: "is_hidden k \<longleftrightarrow> starts_with ''hidden_'' (chars k)"
proof -
  have p: "chars hidden_prefix = ''hidden_''" by (simp add: chars_def hidden_prefix_def char_of_eq_iff)
  have "starts_with ''hidden_'' (chars k) \<longleftrightarrow> chars (take 7 k) = chars hidden_prefix"
    unfolding starts_with_take p by (simp add: chars_def take_map numeral_eq_Suc)
  then show ?thesis by (simp add: is_hidden_def chars_inj)
qed

lemma same_prefix: "map P xs = map Q ys \<Longrightarrow> length (takeWhile P xs) = length (takeWhile Q ys)"
proof (induction xs arbitrary: ys)
  case (Cons x xs)
  then obtain y ys' where "ys = y # ys'" by (cases ys) auto
  with Cons show ?case by auto
qed simp

lemma described_count:
  assumes "headers_ok b shoff shentsize shnum" "i < shnum" "\<forall>j < i. field 4 b (shoff + j * shentsize + 4) \<noteq> 7"
    and "note_section b (shoff + i * shentsize) noff nsz" "kinds_described b noff nsz args" "args \<noteq> []"
  shows "co_read_explicit_arg_count (Some b) dflt = Some (int (length (takeWhile (\<lambda>a. \<not> hidden a) args)))"
proof -
  obtain gks t where g: "take nsz (drop noff b) = args_bytes gks @ t" "tail_ok t"
    "\<forall>(g, k) \<in> set gks. gap_ok g \<and> length k < 32" "map (\<lambda>gk. Some (MStr (chars (snd gk)))) gks = map value_kind args"
    using assms(5) by (auto simp: kinds_described_def)
  have ne: "gks \<noteq> []" using g(4) assms(6) by auto
  have "map (\<lambda>k. \<not> is_hidden k) (map snd gks) = map (\<lambda>a. \<not> hidden a) args"
    using g(4)
  proof (induction gks arbitrary: args)
    case (Cons gk gks)
    then obtain a as where a: "args = a # as" by (cases args) auto
    with Cons.prems have "value_kind a = Some (MStr (chars (snd gk)))" by (metis list.inject list.simps(9))
    then show ?case using Cons a by (simp add: hidden_def is_hidden_text)
  qed simp
  then have "length (takeWhile (\<lambda>k. \<not> is_hidden k) (map snd gks)) = length (takeWhile (\<lambda>a. \<not> hidden a) args)"
    by (rule same_prefix)
  with co_read_explicit_arg_count_ok [OF assms(1-4) g(1) ne g(2,3), of dflt] show ?thesis by simp
qed


lemma count_explicit:
  assumes "\<forall>a \<in> set es. \<not> hidden a" "\<forall>a \<in> set hs. hidden a" "\<not> hidden new"
  shows "takeWhile (\<lambda>a. \<not> hidden a) ((es @ hs) @ [new]) = (if hs = [] then es @ [new] else es)"
    "filter (\<lambda>a. \<not> hidden a) ((es @ hs) @ [new]) = es @ [new]"
proof -
  show "takeWhile (\<lambda>a. \<not> hidden a) ((es @ hs) @ [new]) = (if hs = [] then es @ [new] else es)"
    using assms by (cases hs) (simp_all add: takeWhile_append)
  show "filter (\<lambda>a. \<not> hidden a) ((es @ hs) @ [new]) = es @ [new]" using assms by simp
qed

lemma new_arg_visible:
  "dget proto ''.value_kind'' = Some (MStr ''global_buffer'') \<Longrightarrow> \<not> hidden (MMap (new_arg proto i off))"
  using new_arg_fields(3) [of proto i off] by (simp add: hidden_def value_kind_def)

text \<open>
  C28: \<open>expand_args\<close> and the launch hook together. When one argument has been appended to a kernel
  whose explicit arguments come first, and the code object that the hook reads carries the expanded
  metadata, then the new descriptor is a buffer of 8 bytes at the old segment size rounded up to 8,
  beyond which the segment ends, and it is the next explicit argument after the kernel's own. If
  the kernel has a hidden argument, the hook passes the application's arguments and the per-wave
  buffer at exactly that position. If it has none, the hook counts the new descriptor too and reads
  past the application's argument array.
\<close>

theorem expanded_launch:
  assumes "target = None \<or> target = Some [] \<or> dget d ''.name'' = map_option MStr target"
    and "dget d ''.args'' = Some (MArr (es @ hs))" "\<forall>a \<in> set es. \<not> hidden a" "\<forall>a \<in> set hs. hidden a"
    and "find_proto (es @ hs) = Some (Some proto)" "dget d ''.kernarg_segment_size'' = Some (MInt ks)"
    and "expand_kernel target 1 (MMap d) = Some (MMap d')" "dget d' ''.args'' = Some (MArr args')"
    and "inst_co w = Some b" "headers_ok b shoff shentsize shnum" "i < shnum"
    and "\<forall>j < i. field 4 b (shoff + j * shentsize + 4) \<noteq> 7"
    and "note_section b (shoff + i * shentsize) noff nsz" "kinds_described b noff nsz args'"
    and "co_read_symbol_u32 (inst_co w) pw_stride_name 0 = Some v" "v \<noteq> 0" "pw_stride w = Some stride"
    and "sz = launch_waves nb db * of_nat stride" "w_rt w (ld_log s) (MallocManaged sz) = (0, buf)" "buf \<noteq> 0"
    and "length xs = length es"
  shows "(\<exists>a. filter (\<lambda>a. \<not> hidden a) args' ! length xs = MMap a \<and> dget a ''.offset'' = Some (MInt (align8 ks)) \<and>
      dget a ''.size'' = Some (MInt 8) \<and> dget d' ''.kernarg_segment_size'' = Some (MInt (align8 ks + 8))) \<and>
    map_option (ld_log \<circ> snd) (hook_launch w func nb db (Some xs) shm stream s) =
      (if hs = [] then None
       else Some (ld_log s @ [MallocManaged sz, LaunchKernel func nb db (Some (map AppArg xs @ [BufArg buf])) shm stream]))"
proof
  let ?a = "new_arg proto 0 (align8 ks)"
  have pk: "dget proto ''.value_kind'' = Some (MStr ''global_buffer'')" using find_proto_kind [OF assms(5)] by blast
  obtain d'' where x: "expand_kernel target 1 (MMap d) = Some (MMap d'')"
    "dget d'' ''.args'' = Some (MArr ((es @ hs) @ [MMap ?a]))" "dget d'' ''.kernarg_segment_size'' = Some (MInt (align8 ks + 8))"
    using expand_kernel_spec [OF assms(1,2,5,6), of 1] by auto
  have args': "args' = (es @ hs) @ [MMap ?a]" and ks': "dget d' ''.kernarg_segment_size'' = Some (MInt (align8 ks + 8))"
    using x assms(7,8) by simp_all
  note c = count_explicit [OF assms(3,4) new_arg_visible [OF pk, of 0 "align8 ks"]]
  have "filter (\<lambda>a. \<not> hidden a) args' ! length xs = MMap ?a" unfolding args' c(2) by (simp add: assms(21))
  with ks' new_arg_fields(1,2) [OF pk, of 0 "align8 ks"]
  show "\<exists>a. filter (\<lambda>a. \<not> hidden a) args' ! length xs = MMap a \<and> dget a ''.offset'' = Some (MInt (align8 ks)) \<and>
      dget a ''.size'' = Some (MInt 8) \<and> dget d' ''.kernarg_segment_size'' = Some (MInt (align8 ks + 8))" by blast
  have "co_read_explicit_arg_count (Some b) (- 1) = Some (int (length (takeWhile (\<lambda>a. \<not> hidden a) args')))"
    by (rule described_count [OF assms(10-14)]) (simp add: args')
  then have n: "pw_nargs w = Some (if hs = [] then int (length xs) + 1 else int (length xs))"
    using assms(9,15,16,21) unfolding args' c(1) by (simp add: pw_nargs_def)
  show "map_option (ld_log \<circ> snd) (hook_launch w func nb db (Some xs) shm stream s) =
      (if hs = [] then None
       else Some (ld_log s @ [MallocManaged sz, LaunchKernel func nb db (Some (map AppArg xs @ [BufArg buf])) shm stream]))"
    using n assms(17,19,20) unfolding hook_launch_def by (auto simp: Let_def real_def assms(18) [symmetric])
qed


section \<open>A concrete code object\<close>

text \<open>
  The instrumented code object of \<open>Loader_Hooks\<close> with the note of a kernel that has a buffer, a
  value and a hidden argument, as it is after \<open>expand_args\<close>.
\<close>

definition buffer_kind :: bytes where
  "buffer_kind = [0x67, 0x6c, 0x6f, 0x62, 0x61, 0x6c, 0x5f, 0x62, 0x75, 0x66, 0x66, 0x65, 0x72]"

definition value_arg_kind :: bytes where
  "value_arg_kind = [0x62, 0x79, 0x5f, 0x76, 0x61, 0x6c, 0x75, 0x65]"

definition wide_args :: "(bytes \<times> bytes) list" where
  "wide_args = [([9], buffer_kind), ([8, 8], value_arg_kind), ([], hidden_prefix @ [0x7a]), ([7], buffer_kind)]"

definition wide_co :: bytes where
  "wide_co = elf_magic @ [2] @ replicate 35 0 @ [64, 0, 0, 0, 0, 0, 0, 0] @ replicate 10 0 @ [64, 0, 3, 0, 0, 0] @
     [0, 0, 0, 0, 2, 0, 0, 0] @ replicate 16 0 @ [0, 1, 0, 0, 0, 0, 0, 0] @ [48, 0, 0, 0, 0, 0, 0, 0] @
       [1, 0, 0, 0] @ replicate 12 0 @ [24, 0, 0, 0, 0, 0, 0, 0] @
     [0, 0, 0, 0, 3, 0, 0, 0] @ replicate 16 0 @ [48, 1, 0, 0, 0, 0, 0, 0] @ [21, 0, 0, 0, 0, 0, 0, 0] @ replicate 24 0 @
     [0, 0, 0, 0, 7, 0, 0, 0] @ replicate 16 0 @ [69, 1, 0, 0, 0, 0, 0, 0] @ [99, 0, 0, 0, 0, 0, 0, 0] @ replicate 24 0 @
     replicate 24 0 @ [1, 0, 0, 0, 0, 0, 0, 0] @ [64, 0, 0, 0, 0, 0, 0, 0] @ replicate 8 0 @
     [0] @ pw_stride_name @ [0] @ args_bytes wide_args @ [0]"

lemma wide_co_ok:
  "length wide_co = 424" "headers_ok wide_co 64 64 3" "symbols_ok wide_co 64 64 3"
  "elf_symbols wide_co 64 64 3 = [(pw_stride_name, 64)]"
  "note_section wide_co (64 + 2 * 64) 325 99" "take 99 (drop 325 wide_co) = args_bytes wide_args @ [0]"
  "\<forall>j < 2. field 4 wide_co (64 + j * 64 + 4) \<noteq> 7"
proof -
  show len: "length wide_co = 424" by code_simp
  have hd: "take 4 wide_co = elf_magic" "wide_co ! 4 = 2" "field 8 wide_co 0x28 = 64"
    "field 2 wide_co 0x3a = 64" "field 2 wide_co 0x3c = 3" by code_simp+
  have s0: "field 4 wide_co (64 + 4) = 2" "field 8 wide_co (64 + 0x18) = 256" "field 8 wide_co (64 + 0x20) = 48"
    "field 4 wide_co (64 + 0x28) = 1" "field 8 wide_co (64 + 0x38) = 24" by code_simp+
  have s1: "field 4 wide_co (128 + 4) = 3" "field 8 wide_co (128 + 0x18) = 304"
    "field 8 wide_co (128 + 0x20) = 21" "wide_co ! 324 = 0" by code_simp+
  have s2: "field 4 wide_co (192 + 4) = 7" "field 8 wide_co (192 + 0x18) = 325"
    "field 8 wide_co (192 + 0x20) = 99" by code_simp+
  show "headers_ok wide_co 64 64 3" using hd by (simp add: headers_ok_def len)
  have all3: "(\<forall>i < 3. P i) \<longleftrightarrow> P 0 \<and> P (1 :: nat) \<and> P 2" for P by (auto simp: numeral_3_eq_3 less_Suc_eq numeral_2_eq_2)
  show "symbols_ok wide_co 64 64 3"
    unfolding symbols_ok_def all3 using s0 s1 s2 by (simp add: Let_def is_symtab_def len)
  show "elf_symbols wide_co 64 64 3 = [(pw_stride_name, 64)]" by code_simp
  show "note_section wide_co (64 + 2 * 64) 325 99" using s2 by (simp add: note_section_def len)
  show "take 99 (drop 325 wide_co) = args_bytes wide_args @ [0]" by code_simp
  show "\<forall>j < 2. field 4 wide_co (64 + j * 64 + 4) \<noteq> 7" using s0 s1 by (auto simp: less_2_cases_iff)
qed

definition wide_world :: World where
  "wide_world = demo_world\<lparr>w_files := (w_files demo_world)(''i'' := Some \<lparr>file_size = 424, file_data = wide_co\<rparr>)\<rparr>"

lemma wide_world_reads:
  "inst_co wide_world = Some wide_co" "co_read_symbol_u32 (Some wide_co) pw_stride_name n = Some 64"
  "w_rt wide_world = w_rt demo_world"
proof -
  show "inst_co wide_world = Some wide_co"
    using wide_co_ok(1) by (simp add: inst_co_def wide_world_def demo_world_def slurp_def Let_def)
  have "0 \<notin> set pw_stride_name" by code_simp
  from co_read_symbol_u32_ok [OF wide_co_ok(2,3) this, of n]
  show "co_read_symbol_u32 (Some wide_co) pw_stride_name n = Some 64" by (simp add: wide_co_ok(4))
  show "w_rt wide_world = w_rt demo_world" by (simp add: wide_world_def)
qed

definition kind_arg :: "string \<Rightarrow> MsgVal" where
  "kind_arg k = MMap [(MStr ''.value_kind'', MStr k)]"

definition wide_kernel :: dict where
  "wide_kernel = [(MStr ''.name'', MStr ''k''), (MStr ''.kernarg_segment_size'', MInt 20),
     (MStr ''.args'', MArr [kind_arg ''global_buffer'', kind_arg ''by_value'', kind_arg ''hidden_z''])]"

definition expanded_kernel :: dict where
  "expanded_kernel = (case the (expand_kernel (Some ''k'') 1 (MMap wide_kernel)) of MMap d \<Rightarrow> d)"

definition expanded_args :: "MsgVal list" where
  "expanded_args = [kind_arg ''global_buffer'', kind_arg ''by_value'', kind_arg ''hidden_z'',
     MMap (new_arg [(MStr ''.value_kind'', MStr ''global_buffer'')] 0 24)]"

lemma wide_kernel_expands:
  "expand_kernel (Some ''k'') 1 (MMap wide_kernel) = Some (MMap expanded_kernel)"
  "dget expanded_kernel ''.args'' = Some (MArr expanded_args)"
  by (simp_all add: expanded_kernel_def expanded_args_def expand_kernel_def wide_kernel_def kind_arg_def dget_def dput_def align8_def)

lemma wide_described: "kinds_described wide_co 325 99 expanded_args"
proof -
  have "chars (hidden_prefix @ [0x7a]) = ''hidden_z''" "chars buffer_kind = ''global_buffer''" "chars value_arg_kind = ''by_value''"
    by (simp_all add: chars_def hidden_prefix_def buffer_kind_def value_arg_kind_def char_of_eq_iff)
  then have k: "map (\<lambda>gk. Some (MStr (chars (snd gk)))) wide_args = map value_kind expanded_args"
    by (simp add: wide_args_def expanded_args_def value_kind_def kind_arg_def dget_def new_arg_def dput_def)
  have "gap_ok [9]" "gap_ok []" "gap_ok [7]" by (simp_all add: gap_ok_def value_kind_key_def)
  moreover have "gap_ok [8, 8]" unfolding gap_ok_def by (auto simp: value_kind_key_def less_Suc_eq)
  ultimately have "\<forall>(g, k) \<in> set wide_args. gap_ok g \<and> length k < 32"
    by (simp add: wide_args_def hidden_prefix_def buffer_kind_def value_arg_kind_def)
  moreover have "tail_ok [0]" by (simp add: tail_ok_def)
  ultimately show ?thesis unfolding kinds_described_def
    using k wide_co_ok(6) by (intro exI [of _ wide_args] exI [of _ "[0]"]) simp
qed

lemma expanded_launch_witness:
  "map_option (ld_log \<circ> snd) (hook_launch wide_world 9 \<lparr>dx = 4, dy = 1, dz = 1\<rparr> \<lparr>dx = 64, dy = 1, dz = 1\<rparr> (Some [21, 22]) 0 0 loader_init) =
    Some [MallocManaged 256, LaunchKernel 9 \<lparr>dx = 4, dy = 1, dz = 1\<rparr> \<lparr>dx = 64, dy = 1, dz = 1\<rparr>
      (Some [AppArg 21, AppArg 22, BufArg 65536]) 0 0]"
proof -
  let ?es = "[kind_arg ''global_buffer'', kind_arg ''by_value'']" and ?hs = "[kind_arg ''hidden_z'']"
  have d: "dget wide_kernel ''.name'' = map_option MStr (Some ''k'')" "dget wide_kernel ''.args'' = Some (MArr (?es @ ?hs))"
    "dget wide_kernel ''.kernarg_segment_size'' = Some (MInt 20)" by (simp_all add: wide_kernel_def dget_def)
  have h: "\<forall>a \<in> set ?es. \<not> hidden a" "\<forall>a \<in> set ?hs. hidden a"
    by (simp_all add: hidden_def value_kind_def kind_arg_def dget_def)
  have p: "find_proto (?es @ ?hs) = Some (Some [(MStr ''.value_kind'', MStr ''global_buffer'')])"
    by (simp add: kind_arg_def dget_def)
  have s: "pw_stride wide_world = Some 64" "co_read_symbol_u32 (inst_co wide_world) pw_stride_name 0 = Some 64"
    by (simp_all add: pw_stride_def wide_world_reads)
  have z: "256 = launch_waves \<lparr>dx = 4, dy = 1, dz = 1\<rparr> \<lparr>dx = 64, dy = 1, dz = 1\<rparr> * of_nat 64"
    by (simp add: launch_waves_def)
  have m: "w_rt wide_world (ld_log loader_init) (MallocManaged 256) = (0, 65536)" by (simp add: wide_world_reads)
  show ?thesis
    using expanded_launch [OF disjI2 [OF disjI2 [OF d(1)]] d(2) h p d(3) wide_kernel_expands wide_world_reads(1) wide_co_ok(2) _
        wide_co_ok(7,5) wide_described s(2) _ s(1) z m, of "[21, 22]" 9 0 0]
    by (simp add: loader_init_def)
qed

end
