(* ===== verification/Symbol_Hash.thy ===== *)
theory Symbol_Hash
  imports Prelude "HOL-Library.Multiset"
begin

text \<open>
  \<open>tools/add_object_aliases.py\<close>, the part on symbols: the two ELF hash functions, the aliases it
  adds for device functions, the reordering of the dynamic symbols and the two hash tables it
  regenerates. A symbol is the mapping that obj2yaml prints, a missing key is \<open>None\<close>. The
  lookups are those of the ELF and GNU table formats, which a dynamic loader performs.
\<close>

section \<open>Hash functions\<close>

definition elf_step :: "u32 \<Rightarrow> char \<Rightarrow> u32" where
  "elf_step h c =
     (let h = push_bit 4 h + of_char c;
          g = h AND 0xF0000000;
          h = (if g \<noteq> 0 then h XOR drop_bit 24 g else h)
      in h AND NOT g)"

definition elf_hash :: "string \<Rightarrow> u32" where
  "elf_hash name = fold (\<lambda>c h. elf_step h c) name 0"

definition gnu_hash :: "string \<Rightarrow> u32" where
  "gnu_hash name = fold (\<lambda>c h. h * 33 + of_char c) name 5381"

section \<open>Symbols and aliases\<close>

record Sym =
  sy_name :: "string option"
  sy_type :: "string option"
  sy_section :: "string option"
  sy_binding :: "string option"
  sy_value :: "nat option"
  sy_size :: "nat option"
  sy_index :: "string option"

definition is_local :: "Sym \<Rightarrow> bool" where
  "is_local s \<longleftrightarrow> (case sy_binding s of None \<Rightarrow> True | Some b \<Rightarrow> b = ''STB_LOCAL'')"

definition is_defined :: "Sym \<Rightarrow> bool" where
  "is_defined s \<longleftrightarrow> sy_section s \<noteq> None"

definition object_alias :: "string \<Rightarrow> string \<Rightarrow> Sym \<Rightarrow> Sym" where
  "object_alias name prefix s = \<lparr>sy_name = Some (prefix @ name), sy_type = Some ''STT_OBJECT'', sy_section = sy_section s,
     sy_binding = Some ''STB_GLOBAL'', sy_value = sy_value s, sy_size = sy_size s, sy_index = None\<rparr>"

text \<open>A symbol with a name that is not empty is kept under it; the first one wins.\<close>

fun collect :: "Sym list \<Rightarrow> (string \<times> Sym) list \<Rightarrow> (string \<times> Sym) list" where
  "collect [] funcs = funcs"
| "collect (s # ss) funcs =
     (case sy_name s of None \<Rightarrow> collect ss funcs
      | Some name \<Rightarrow>
          if sy_type s = Some ''STT_FUNC'' \<and> is_defined s \<and> name \<noteq> [] \<and> map_of funcs name = None
          then collect ss (funcs @ [(name, s)]) else collect ss funcs)"

definition collect_defined_funcs :: "Sym list option \<Rightarrow> Sym list option \<Rightarrow> (string \<times> Sym) list" where
  "collect_defined_funcs dynsyms symtab =
     collect (case symtab of None \<Rightarrow> [] | Some ss \<Rightarrow> ss) (collect (case dynsyms of None \<Rightarrow> [] | Some ss \<Rightarrow> ss) [])"

fun add_aliases :: "(string \<times> Sym) list \<Rightarrow> string \<Rightarrow> Sym list \<Rightarrow> Sym list \<times> nat" where
  "add_aliases [] prefix symbols = (symbols, 0)"
| "add_aliases ((name, src) # funcs) prefix symbols =
     (if Some (prefix @ name) \<in> sy_name ` set symbols then add_aliases funcs prefix symbols
      else (case add_aliases funcs prefix (symbols @ [object_alias name prefix src]) of (ss, added) \<Rightarrow> (ss, Suc added)))"

text \<open>The register usage of a function, as absolute symbols \<open><prefix><fn>.<key>\<close>.\<close>

definition REGUSAGE_KEYS :: "string list" where
  "REGUSAGE_KEYS = [''num_vgpr'', ''num_agpr'', ''numbered_sgpr'', ''private_seg_size'', ''uses_vcc'', ''uses_flat_scratch'']"

fun add_keys :: "string \<Rightarrow> (string \<times> nat) list \<Rightarrow> string list \<Rightarrow> Sym list \<Rightarrow> Sym list \<times> nat" where
  "add_keys base ru [] symbols = (symbols, 0)"
| "add_keys base ru (key # keys) symbols =
     (let sym_name = base @ ''.'' @ key in
      case map_of ru key of None \<Rightarrow> add_keys base ru keys symbols
      | Some v \<Rightarrow>
          if Some sym_name \<in> sy_name ` set symbols then add_keys base ru keys symbols
          else (case add_keys base ru keys (symbols @ [\<lparr>sy_name = Some sym_name, sy_type = None, sy_section = None,
                  sy_binding = Some ''STB_GLOBAL'', sy_value = Some v, sy_size = None, sy_index = Some ''SHN_ABS''\<rparr>]) of
                (ss, added) \<Rightarrow> (ss, Suc added)))"

fun add_regusage_symbols ::
    "(string \<times> Sym) list \<Rightarrow> (string \<times> (string \<times> nat) list) list \<Rightarrow> string \<Rightarrow> Sym list \<Rightarrow> Sym list \<times> nat" where
  "add_regusage_symbols [] regusage prefix symbols = (symbols, 0)"
| "add_regusage_symbols ((name, src) # funcs) regusage prefix symbols =
     (case map_of regusage name of None \<Rightarrow> add_regusage_symbols funcs regusage prefix symbols
      | Some ru \<Rightarrow> (case add_keys (prefix @ name) ru REGUSAGE_KEYS symbols of (ss, n) \<Rightarrow>
          (case add_regusage_symbols funcs regusage prefix ss of (ss', n') \<Rightarrow> (ss', n + n'))))"

section \<open>The GNU hash table\<close>

record GnuTable =
  gt_symndx :: nat
  gt_shift2 :: nat
  gt_bloom :: "u64 list"
  gt_buckets :: "nat list"
  gt_values :: "u32 list"

definition sym_hash :: "Sym \<Rightarrow> u32" where
  "sym_hash s = gnu_hash (the (sy_name s))"

definition bloom_bits :: "u32 \<Rightarrow> u64" where
  "bloom_bits h = push_bit (unat h mod 64) 1 OR push_bit (unat (drop_bit 6 h) mod 64) 1"

text \<open>\<open>if buckets[b] == 0: buckets[b] = symndx + i\<close>, for the hashes in order.\<close>

fun fill_buckets :: "nat \<Rightarrow> nat \<Rightarrow> u32 list \<Rightarrow> nat list \<Rightarrow> nat list" where
  "fill_buckets nb k [] bs = bs"
| "fill_buckets nb k (h # hs) bs =
     (let b = unat h mod nb in fill_buckets nb (Suc k) hs (if bs ! b = 0 then bs[b := k] else bs))"

definition chain_entry :: "u32 \<Rightarrow> bool \<Rightarrow> u32" where
  "chain_entry h last' = (h AND NOT 1) OR (if last' then 1 else 0)"

fun chain_values :: "nat \<Rightarrow> u32 list \<Rightarrow> u32 list" where
  "chain_values nb [] = []"
| "chain_values nb (h # hs) =
     (let last' = (case hs of [] \<Rightarrow> True | h' # _ \<Rightarrow> unat h' mod nb \<noteq> unat h mod nb)
      in chain_entry h last' # chain_values nb hs)"

definition gnu_order :: "Sym list \<Rightarrow> nat \<times> Sym list \<times> Sym list" where
  "gnu_order dynsyms =
     (let locals = filter is_local dynsyms;
          g_undef = filter (\<lambda>s. \<not> is_local s \<and> \<not> is_defined s) dynsyms;
          g_def = filter (\<lambda>s. \<not> is_local s \<and> is_defined s) dynsyms;
          nbuckets = max 1 (length g_def)
      in (nbuckets, locals @ g_undef, sort_key (\<lambda>s. unat (sym_hash s) mod nbuckets) g_def))"

definition gnu_tables :: "bool \<Rightarrow> Sym list \<Rightarrow> Sym list \<times> GnuTable option" where
  "gnu_tables has_section dynsyms =
     (case gnu_order dynsyms of (nbuckets, before, g_def) \<Rightarrow>
       (before @ g_def,
        if \<not> has_section then None
        else (let symndx = 1 + length before; hashes = map sym_hash g_def in
          Some \<lparr>gt_symndx = symndx, gt_shift2 = 6, gt_bloom = [fold (\<lambda>h w. w OR bloom_bits h) hashes 0],
            gt_buckets = fill_buckets nbuckets symndx hashes (replicate nbuckets 0),
            gt_values = chain_values nbuckets hashes\<rparr>)))"

text \<open>The sort and the hashes read \<open>s["Name"]\<close> of every hashed symbol, an exception without one.\<close>

definition regen_gnu_hash :: "bool \<Rightarrow> Sym list \<Rightarrow> (Sym list \<times> GnuTable option) option" where
  "regen_gnu_hash has_section dynsyms =
     (if \<exists>s \<in> set dynsyms. \<not> is_local s \<and> is_defined s \<and> sy_name s = None then None
      else Some (gnu_tables has_section dynsyms))"

section \<open>The SysV hash table\<close>

fun sysv_fill :: "nat \<Rightarrow> Sym list \<Rightarrow> nat \<Rightarrow> nat list \<Rightarrow> nat list \<Rightarrow> nat list \<times> nat list" where
  "sysv_fill nb [] i bucket chain = (bucket, chain)"
| "sysv_fill nb (s # ss) i bucket chain =
     (let name = (case sy_name s of None \<Rightarrow> [] | Some n \<Rightarrow> n) in
      if name = [] then sysv_fill nb ss (Suc i) bucket chain
      else (let b = unat (elf_hash name) mod nb
            in sysv_fill nb ss (Suc i) (bucket[b := i]) (chain[i := bucket ! b])))"

definition regen_sysv_hash :: "Sym list \<Rightarrow> nat list \<times> nat list" where
  "regen_sysv_hash dynsyms =
     (let nsym = Suc (length dynsyms); nbucket = max 1 nsym
      in sysv_fill nbucket dynsyms 1 (replicate nbucket 0) (replicate nsym 0))"

section \<open>The driver\<close>

text \<open>
  \<open>main\<close> between the two YAML conversions: \<open>t_dyn\<close> and \<open>t_sym\<close> are \<open>--tables\<close>, \<open>asm\<close> the parsed
  register usage when \<open>--asm\<close> is given. A hash section is rewritten only when it is there.
\<close>

record SymDoc =
  doc_dynsyms :: "Sym list option"
  doc_symtab :: "Sym list option"
  doc_has_gnu :: bool
  doc_has_sysv :: bool
  doc_gnu :: "GnuTable option"
  doc_sysv :: "(nat list \<times> nat list) option"

definition alias_table :: "bool \<Rightarrow> (string \<times> Sym) list \<Rightarrow> string \<Rightarrow> Sym list option \<Rightarrow> Sym list option \<times> nat" where
  "alias_table on funcs prefix tbl =
     (case tbl of Some ss \<Rightarrow> if on then (case add_aliases funcs prefix ss of (ss', n) \<Rightarrow> (Some ss', n)) else (tbl, 0)
      | None \<Rightarrow> (None, 0))"

definition alias_doc ::
    "bool \<Rightarrow> bool \<Rightarrow> string \<Rightarrow> (string \<times> (string \<times> nat) list) list option \<Rightarrow> SymDoc \<Rightarrow> SymDoc option" where
  "alias_doc t_dyn t_sym prefix asm doc =
     (let funcs = collect_defined_funcs (doc_dynsyms doc) (doc_symtab doc);
          (dyn, dynsym_added) = alias_table t_dyn funcs prefix (doc_dynsyms doc);
          symtab = fst (alias_table t_sym funcs prefix (doc_symtab doc));
          symtab = (case asm of None \<Rightarrow> symtab
            | Some regusage \<Rightarrow> Some (fst (add_regusage_symbols funcs regusage prefix (case symtab of None \<Rightarrow> [] | Some ss \<Rightarrow> ss))));
          doc = doc\<lparr>doc_dynsyms := dyn, doc_symtab := symtab\<rparr>
      in case dyn of None \<Rightarrow> Some doc
         | Some ds \<Rightarrow>
             if dynsym_added = 0 \<or> ds = [] then Some doc
             else (case regen_gnu_hash (doc_has_gnu doc) ds of None \<Rightarrow> None
               | Some (ordered, T) \<Rightarrow> Some (doc\<lparr>doc_dynsyms := Some ordered,
                   doc_gnu := (if doc_has_gnu doc then T else doc_gnu doc),
                   doc_sysv := (if doc_has_sysv doc then Some (regen_sysv_hash ordered) else doc_sysv doc)\<rparr>)))"

section \<open>The lookups of the two formats\<close>

text \<open>Index 0 is the null symbol that yaml2obj puts in front.\<close>

definition name_at :: "Sym list \<Rightarrow> nat \<Rightarrow> string option" where
  "name_at ss i = (if i = 0 \<or> length ss < i then None else sy_name (ss ! (i - 1)))"

fun gnu_walk :: "(nat \<Rightarrow> string option) \<Rightarrow> string \<Rightarrow> u32 \<Rightarrow> nat \<Rightarrow> u32 list \<Rightarrow> nat option" where
  "gnu_walk names nm h i [] = None"
| "gnu_walk names nm h i (v # vs) =
     (if v OR 1 = h OR 1 \<and> names i = Some nm then Some i
      else if bit v 0 then None else gnu_walk names nm h (Suc i) vs)"

definition gnu_lookup :: "GnuTable \<Rightarrow> (nat \<Rightarrow> string option) \<Rightarrow> string \<Rightarrow> nat option" where
  "gnu_lookup T names nm =
     (let h = gnu_hash nm; w = gt_bloom T ! (unat h div 64 mod length (gt_bloom T)) in
      if \<not> (bit w (unat h mod 64) \<and> bit w (unat (drop_bit (gt_shift2 T) h) mod 64)) then None
      else (let b = gt_buckets T ! (unat h mod length (gt_buckets T)) in
        if b < gt_symndx T then None else gnu_walk names nm h b (drop (b - gt_symndx T) (gt_values T))))"

fun sysv_walk :: "(nat \<Rightarrow> string option) \<Rightarrow> string \<Rightarrow> nat list \<Rightarrow> nat \<Rightarrow> nat \<Rightarrow> nat option" where
  "sysv_walk names nm chain 0 y = None"
| "sysv_walk names nm chain (Suc n) y =
     (if y = 0 then None else if names y = Some nm then Some y else sysv_walk names nm chain n (chain ! y))"

definition sysv_lookup :: "nat list \<times> nat list \<Rightarrow> (nat \<Rightarrow> string option) \<Rightarrow> string \<Rightarrow> nat option" where
  "sysv_lookup t names nm =
     (case t of (bucket, chain) \<Rightarrow> sysv_walk names nm chain (length chain) (bucket ! (unat (elf_hash nm) mod length bucket)))"

text \<open>The contract of both: a symbol of the name, if there is one.\<close>

locale symbol_index =
  fixes indexed :: "nat \<Rightarrow> string \<Rightarrow> bool" and lookup :: "string \<Rightarrow> nat option"
  assumes sound: "lookup nm = Some i \<Longrightarrow> indexed i nm"
    and complete: "indexed i nm \<Longrightarrow> lookup nm \<noteq> None"
begin

lemma lookup_unique:
  "(\<And>j. indexed j nm \<Longrightarrow> j = i) \<Longrightarrow> indexed i nm \<Longrightarrow> lookup nm = Some i"
  using sound complete by (cases "lookup nm") blast+

lemma lookup_none: "lookup nm = None \<longleftrightarrow> (\<forall>i. \<not> indexed i nm)"
  using sound complete by (cases "lookup nm") blast+

end

section \<open>The chains of the GNU table\<close>

fun index_of :: "string \<Rightarrow> nat \<Rightarrow> string list \<Rightarrow> nat option" where
  "index_of nm i [] = None"
| "index_of nm i (g # gs) = (if g = nm then Some i else index_of nm (Suc i) gs)"

lemma index_of_some: "index_of nm i gs = Some k \<Longrightarrow> i \<le> k \<and> k < i + length gs \<and> gs ! (k - i) = nm"
proof (induction gs arbitrary: i)
  case (Cons g gs)
  show ?case
  proof (cases "g = nm")
    case False
    with Cons.prems have "index_of nm (Suc i) gs = Some k" by simp
    from Cons.IH [OF this] have k: "Suc i \<le> k" "k < Suc i + length gs" "gs ! (k - Suc i) = nm" by simp_all
    then have "k - i = Suc (k - Suc i)" by simp
    with k show ?thesis by simp
  qed (use Cons.prems in simp)
qed simp

lemma index_of_none: "index_of nm i gs = None \<longleftrightarrow> nm \<notin> set gs"
  by (induction gs arbitrary: i) auto

lemma index_of_drop: "nm \<notin> set (take j gs) \<Longrightarrow> j \<le> length gs \<Longrightarrow> index_of nm (i + j) (drop j gs) = index_of nm i gs"
proof (induction gs arbitrary: i j)
  case (Cons g gs)
  show ?case
  proof (cases j)
    case (Suc j')
    with Cons.prems have "nm \<notin> set (take j' gs)" "j' \<le> length gs" "g \<noteq> nm" by auto
    from Cons.IH [OF this(1,2), of "Suc i"] this(3) Suc show ?thesis by simp
  qed simp
qed simp

lemma chain_value_bits:
  "chain_entry h l OR 1 = h OR 1" "bit (chain_entry h l) 0 = l"
  by (auto simp: chain_entry_def bit_eq_iff bit_simps)

lemma drop_chain_values: "drop j (chain_values nb hs) = chain_values nb (drop j hs)"
  by (induction hs arbitrary: j) (auto simp: drop_Cons' Let_def)

lemma walk_chain:
  assumes "sorted (map (\<lambda>g. unat (gnu_hash g) mod nb) gs)"
    and "gs \<noteq> [] \<Longrightarrow> unat (gnu_hash (hd gs)) mod nb = unat (gnu_hash nm) mod nb"
    and "\<And>j. j < length gs \<Longrightarrow> names (i + j) = Some (gs ! j)"
  shows "gnu_walk names nm (gnu_hash nm) i (chain_values nb (map gnu_hash gs)) = index_of nm i gs"
  using assms
proof (induction gs arbitrary: i)
  case (Cons g gs)
  have n: "names i = Some g" using Cons.prems(3) [of 0] by simp
  show ?case
  proof (cases "g = nm")
    case True
    with n show ?thesis by (simp add: Let_def chain_value_bits)
  next
    case False
    show ?thesis
    proof (cases "case map gnu_hash gs of [] \<Rightarrow> True | h' # _ \<Rightarrow> unat h' mod nb \<noteq> unat (gnu_hash g) mod nb")
      case True
      have "nm \<notin> set gs"
      proof
        assume "nm \<in> set gs"
        then obtain g' gs' where gs: "gs = g' # gs'" by (cases gs) auto
        have "unat (gnu_hash g) mod nb \<le> unat (gnu_hash g') mod nb"
          and "unat (gnu_hash g') mod nb \<le> unat (gnu_hash nm) mod nb"
          using Cons.prems(1) gs \<open>nm \<in> set gs\<close> by auto
        with True gs Cons.prems(2) show False by simp
      qed
      then have "index_of nm (Suc i) gs = None" by (simp only: index_of_none not_False_eq_True)
      with False n True show ?thesis by (simp add: Let_def chain_value_bits)
    next
      case nl: False
      then obtain g' gs' where gs: "gs = g' # gs'" by (cases gs) auto
      have "gnu_walk names nm (gnu_hash nm) (Suc i) (chain_values nb (map gnu_hash gs)) = index_of nm (Suc i) gs"
      proof (rule Cons.IH)
        show "sorted (map (\<lambda>g. unat (gnu_hash g) mod nb) gs)" using Cons.prems(1) by simp
        show "unat (gnu_hash (hd gs)) mod nb = unat (gnu_hash nm) mod nb" if "gs \<noteq> []"
          using nl gs Cons.prems(2) by simp
        show "names (Suc i + j) = Some (gs ! j)" if "j < length gs" for j using Cons.prems(3) [of "Suc j"] that by simp
      qed
      with False n nl show ?thesis by (simp add: Let_def chain_value_bits)
    qed
  qed
qed simp

lemma find_of_map: "find P (map f xs) = map_option f (find (\<lambda>x. P (f x)) xs)"
  by (induction xs) auto

lemma fill_buckets_nth:
  assumes "0 < k" "b < length bs" "nb = length bs" "0 < nb"
  shows "fill_buckets nb k hs bs ! b =
    (if bs ! b \<noteq> 0 then bs ! b
     else case find (\<lambda>j. unat (hs ! j) mod nb = b) [0..<length hs] of None \<Rightarrow> 0 | Some j \<Rightarrow> k + j)"
  using assms
proof (induction hs arbitrary: k bs)
  case (Cons h hs)
  let ?b = "unat h mod nb" and ?bs = "if bs ! (unat h mod nb) = 0 then bs[unat h mod nb := k] else bs"
  have up: "[0..<length (h # hs)] = 0 # map Suc [0..<length hs]" by (simp add: map_Suc_upt upt_conv_Cons del: upt_Suc)
  have f: "find (\<lambda>j. unat ((h # hs) ! j) mod nb = b) [0..<length (h # hs)] =
      (if ?b = b then Some 0 else map_option Suc (find (\<lambda>j. unat (hs ! j) mod nb = b) [0..<length hs]))"
    unfolding up by (simp add: find_of_map)
  have "?b < length bs" using Cons.prems(3,4) by simp
  moreover have "fill_buckets nb k (h # hs) bs ! b = fill_buckets nb (Suc k) hs ?bs ! b" by (simp add: Let_def)
  ultimately show ?case
    using Cons.IH [of "Suc k" ?bs] Cons.prems unfolding f
    by (auto simp: nth_list_update split: option.splits)
qed simp


lemma bloom_fold: "bit (fold (\<lambda>h w. w OR bloom_bits h) hs w) n \<longleftrightarrow> bit w n \<or> (\<exists>h \<in> set hs. bit (bloom_bits h) n)"
  by (induction hs arbitrary: w) (auto simp: bit_or_iff)

lemma bloom_own: "bit (bloom_bits h) (unat h mod 64)" "bit (bloom_bits h) (unat (drop_bit 6 h) mod 64)"
  by (simp_all add: bloom_bits_def bit_simps)

text \<open>The lookup on a table built from the names \<open>gs\<close>, sorted by their bucket.\<close>

lemma gnu_lookup_names:
  assumes "sorted (map (\<lambda>g. unat (gnu_hash g) mod nb) gs)" "nb = max 1 (length gs)" "0 < k"
    and "\<And>j. j < length gs \<Longrightarrow> names (k + j) = Some (gs ! j)"
  shows "gnu_lookup \<lparr>gt_symndx = k, gt_shift2 = 6, gt_bloom = [fold (\<lambda>h w. w OR bloom_bits h) (map gnu_hash gs) 0],
      gt_buckets = fill_buckets nb k (map gnu_hash gs) (replicate nb 0), gt_values = chain_values nb (map gnu_hash gs)\<rparr> names nm
    = index_of nm k gs"
proof -
  let ?hs = "map gnu_hash gs" and ?b = "unat (gnu_hash nm) mod nb"
  let ?key = "\<lambda>g. unat (gnu_hash g) mod nb"
  let ?w = "fold (\<lambda>h w. w OR bloom_bits h) ?hs 0"
  have nb: "0 < nb" "?b < nb" using assms(2) by simp_all
  have len: "length (fill_buckets nb' k' hs bs) = length bs" for nb' k' hs bs
    by (induction hs arbitrary: k' bs) (simp_all add: Let_def)
  have bk: "fill_buckets nb k ?hs (replicate nb 0) ! ?b =
      (case find (\<lambda>j. unat (?hs ! j) mod nb = ?b) [0..<length ?hs] of None \<Rightarrow> 0 | Some j \<Rightarrow> k + j)"
    using nb assms(3) by (subst fill_buckets_nth) simp_all
  show ?thesis
  proof (cases "bit ?w (unat (gnu_hash nm) mod 64) \<and> bit ?w (unat (drop_bit 6 (gnu_hash nm)) mod 64)")
    case False
    have "nm \<notin> set gs"
    proof
      assume "nm \<in> set gs"
      then have "bit ?w (unat (gnu_hash nm) mod 64)" "bit ?w (unat (drop_bit 6 (gnu_hash nm)) mod 64)"
        using bloom_own by (auto simp: bloom_fold)
      with False show False by simp
    qed
    then have "index_of nm k gs = None" by (simp only: index_of_none not_False_eq_True)
    moreover have "gnu_lookup \<lparr>gt_symndx = k, gt_shift2 = 6, gt_bloom = [?w], gt_buckets = fill_buckets nb k ?hs (replicate nb 0),
        gt_values = chain_values nb ?hs\<rparr> names nm = None" using False by (auto simp: gnu_lookup_def Let_def)
    ultimately show ?thesis by simp
  next
    case True
    then have l: "gnu_lookup \<lparr>gt_symndx = k, gt_shift2 = 6, gt_bloom = [?w], gt_buckets = fill_buckets nb k ?hs (replicate nb 0),
        gt_values = chain_values nb ?hs\<rparr> names nm =
      (let b = fill_buckets nb k ?hs (replicate nb 0) ! ?b in
       if b < k then None else gnu_walk names nm (gnu_hash nm) b (drop (b - k) (chain_values nb ?hs)))"
      by (simp add: gnu_lookup_def Let_def len)
    show ?thesis
    proof (cases "find (\<lambda>j. unat (?hs ! j) mod nb = ?b) [0..<length ?hs]")
      case None
      then have "\<forall>j < length gs. ?key (gs ! j) \<noteq> ?b" by (auto simp: find_None_iff)
      then have "nm \<notin> set gs" by (metis in_set_conv_nth)
      then have "index_of nm k gs = None" by (simp only: index_of_none not_False_eq_True)
      with l bk None assms(3) show ?thesis by (simp add: Let_def)
    next
      case (Some j)
      then have j: "j < length gs" "?key (gs ! j) = ?b" "\<forall>i < j. ?key (gs ! i) \<noteq> ?b"
        by (auto simp: find_Some_iff)
      have "nm \<notin> set (take j gs)"
      proof
        assume "nm \<in> set (take j gs)"
        then obtain i where "i < j" "gs ! i = nm" using j(1) by (auto simp: in_set_conv_nth)
        with j(3) show False by blast
      qed
      then have d: "index_of nm (k + j) (drop j gs) = index_of nm k gs" using j(1) by (intro index_of_drop) simp_all
      have "gnu_walk names nm (gnu_hash nm) (k + j) (chain_values nb (map gnu_hash (drop j gs))) = index_of nm (k + j) (drop j gs)"
      proof (rule walk_chain)
        show "sorted (map ?key (drop j gs))" using sorted_wrt_drop [OF assms(1), of j] by (simp add: drop_map)
        show "?key (hd (drop j gs)) = ?b" using j by (simp add: hd_drop_conv_nth)
        show "names (k + j + i) = Some (drop j gs ! i)" if "i < length (drop j gs)" for i
          using assms(4) [of "j + i"] that by (simp add: add.assoc)
      qed
      with l bk Some d show ?thesis by (simp add: Let_def drop_chain_values drop_map)
    qed
  qed
qed


section \<open>The regenerated GNU table finds the exported symbols\<close>

definition exported :: "Sym list \<Rightarrow> nat \<Rightarrow> string \<Rightarrow> bool" where
  "exported ord i nm \<longleftrightarrow> name_at ord i = Some nm \<and> \<not> is_local (ord ! (i - 1)) \<and> is_defined (ord ! (i - 1))"

lemma regen_gnu_order:
  assumes "gnu_tables has_section ss = (ord, T)"
  shows "mset ord = mset ss" "sorted_wrt (\<lambda>a b. is_local b \<longrightarrow> is_local a) ord"
proof -
  let ?l = "filter is_local ss" and ?u = "filter (\<lambda>s. \<not> is_local s \<and> \<not> is_defined s) ss"
    and ?d = "filter (\<lambda>s. \<not> is_local s \<and> is_defined s) ss"
  have o: "ord = (?l @ ?u) @ sort_key (\<lambda>s. unat (sym_hash s) mod max 1 (length ?d)) ?d"
    using assms by (simp add: gnu_tables_def gnu_order_def Let_def)
  have "mset ?l + (mset ?u + mset ?d) = mset ss" by (induction ss) auto
  then show "mset ord = mset ss" unfolding o by (simp add: add.assoc del: mset_filter)
  define r where "r = ?u @ sort_key (\<lambda>s. unat (sym_hash s) mod max 1 (length ?d)) ?d"
  have r: "\<forall>x \<in> set r. \<not> is_local x" by (auto simp: r_def)
  have same: "sorted_wrt (\<lambda>a b. is_local b \<longrightarrow> is_local a) xs" if "\<forall>x \<in> set xs. is_local x = v" for xs v
    using that by (induction xs) auto
  have "sorted_wrt (\<lambda>a b. is_local b \<longrightarrow> is_local a) ?l" "sorted_wrt (\<lambda>a b. is_local b \<longrightarrow> is_local a) r"
    using same [of ?l True] same [of r False] r by simp_all
  moreover have "ord = ?l @ r" unfolding o r_def by simp
  ultimately show "sorted_wrt (\<lambda>a b. is_local b \<longrightarrow> is_local a) ord" using r by (simp add: sorted_wrt_append)
qed

lemma regen_gnu_lookup:
  assumes "gnu_tables True ss = (ord, Some T)" "\<forall>s \<in> set ss. sy_name s \<noteq> None"
  shows "gnu_lookup T (name_at ord) nm = Some i \<Longrightarrow> exported ord i nm"
    and "exported ord j nm \<Longrightarrow> gnu_lookup T (name_at ord) nm \<noteq> None"
proof -
  let ?b = "filter is_local ss @ filter (\<lambda>s. \<not> is_local s \<and> \<not> is_defined s) ss"
    and ?d = "filter (\<lambda>s. \<not> is_local s \<and> is_defined s) ss"
  define nb where "nb = max 1 (length ?d)"
  define g where "g = sort_key (\<lambda>s. unat (sym_hash s) mod nb) ?d"
  define gs where "gs = map (\<lambda>s. the (sy_name s)) g"
  let ?k = "Suc (length ?b)"
  have go: "gnu_order ss = (nb, ?b, g)" unfolding gnu_order_def Let_def g_def nb_def ..
  have o: "ord = ?b @ g" using assms(1) by (simp add: gnu_tables_def go)
  have hs: "map sym_hash g = map gnu_hash gs" by (simp add: gs_def sym_hash_def)
  have T: "T = \<lparr>gt_symndx = ?k, gt_shift2 = 6, gt_bloom = [fold (\<lambda>h w. w OR bloom_bits h) (map gnu_hash gs) 0],
      gt_buckets = fill_buckets nb ?k (map gnu_hash gs) (replicate nb 0), gt_values = chain_values nb (map gnu_hash gs)\<rparr>"
    using assms(1) unfolding gnu_tables_def go by (auto simp: Let_def hs)
  have set_g: "set g = set ?d" "length g = length ?d" by (simp_all add: g_def)
  have nm: "sy_name s = Some (the (sy_name s))" if "s \<in> set g" for s using assms(2) that set_g by auto
  have sorted: "sorted (map (\<lambda>g. unat (gnu_hash g) mod nb) gs)"
    using sorted_sort_key [of "\<lambda>s. unat (sym_hash s) mod nb" ?d] by (simp add: gs_def g_def sym_hash_def comp_def)
  have at: "ord ! (?k + j - 1) = g ! j" "name_at ord (?k + j) = Some (gs ! j)" if "j < length gs" for j
    using that nm [of "g ! j"] by (auto simp: o name_at_def nth_append gs_def)
  have nb: "nb = max 1 (length gs)" by (simp add: nb_def gs_def set_g)
  note lk = gnu_lookup_names [OF sorted nb _ at(2), of nm, folded T, simplified]
  show "exported ord i nm" if "gnu_lookup T (name_at ord) nm = Some i"
  proof -
    have i: "?k \<le> i" "i < ?k + length gs" "gs ! (i - ?k) = nm"
      using index_of_some [of nm ?k gs i] that lk by simp_all
    define j where "j = i - ?k"
    have j: "j < length gs" "i = ?k + j" "gs ! j = nm" using i by (simp_all add: j_def)
    have "g ! j \<in> set ?d" using j(1) set_g by (metis gs_def length_map nth_mem)
    with at [OF j(1)] j(2,3) show ?thesis by (simp add: exported_def)
  qed
  show "gnu_lookup T (name_at ord) nm \<noteq> None" if e: "exported ord j nm"
  proof -
    have j: "0 < j" "j \<le> length ord" "sy_name (ord ! (j - 1)) = Some nm" "\<not> is_local (ord ! (j - 1))" "is_defined (ord ! (j - 1))"
      using e by (auto simp: exported_def name_at_def split: if_splits)
    then have "ord ! (j - 1) \<in> set ord" by (intro nth_mem) simp
    with j(4,5) have "ord ! (j - 1) \<in> set g" by (auto simp: o set_g)
    then have "nm \<in> set gs" using j(3) by (force simp: gs_def)
    then have "index_of nm ?k gs \<noteq> None" using index_of_none [of nm ?k gs] by blast
    with lk show ?thesis by simp
  qed
qed

definition all_named :: "Sym list \<Rightarrow> bool" where
  "all_named ss \<longleftrightarrow> (\<forall>s \<in> set ss. sy_name s \<noteq> None)"

definition gnu_index :: "Sym list \<Rightarrow> string \<Rightarrow> nat option" where
  "gnu_index ss nm = (case gnu_tables True ss of (ord, None) \<Rightarrow> None
     | (ord, Some T) \<Rightarrow> if all_named ss then gnu_lookup T (name_at ord) nm else None)"

interpretation gnu: symbol_index "\<lambda>i nm. all_named ss \<and> exported (fst (gnu_tables True ss)) i nm" "gnu_index ss" for ss
proof -
  obtain ord T where r: "gnu_tables True ss = (ord, Some T)"
    by (cases "gnu_order ss") (simp add: gnu_tables_def Let_def)
  show "symbol_index (\<lambda>i nm. all_named ss \<and> exported (fst (gnu_tables True ss)) i nm) (gnu_index ss)"
    using regen_gnu_lookup [OF r] by unfold_locales (auto simp: gnu_index_def r all_named_def split: if_splits)
qed

section \<open>The SysV chains\<close>

fun linked :: "nat list \<Rightarrow> nat \<Rightarrow> nat list \<Rightarrow> bool" where
  "linked c y [] = (y = 0)"
| "linked c y (z # zs) = (y = z \<and> z \<noteq> 0 \<and> z < length c \<and> linked c (c ! z) zs)"

lemma linked_update: "i \<notin> set ys \<Longrightarrow> linked c y ys \<Longrightarrow> linked (c[i := v]) y ys"
  by (induction ys arbitrary: y) auto

lemma walk_linked: "linked c y ys \<Longrightarrow> length ys \<le> n \<Longrightarrow> sysv_walk names nm c n y = find (\<lambda>j. names j = Some nm) ys"
proof (induction ys arbitrary: y n)
  case Nil
  then show ?case by (cases n) simp_all
next
  case (Cons z zs)
  then obtain n' where "n = Suc n'" by (cases n) auto
  with Cons show ?case by simp
qed

definition in_bucket :: "nat \<Rightarrow> Sym list \<Rightarrow> nat \<Rightarrow> nat \<Rightarrow> bool" where
  "in_bucket nb ss b j \<longleftrightarrow> (\<exists>n. name_at ss j = Some n \<and> n \<noteq> [] \<and> unat (elf_hash n) mod nb = b)"

definition chains :: "nat \<Rightarrow> Sym list \<Rightarrow> nat \<Rightarrow> nat list \<times> nat list \<Rightarrow> bool" where
  "chains nb ss m t \<longleftrightarrow> length (fst t) = nb \<and> length (snd t) = Suc (length ss) \<and>
     (\<forall>b < nb. linked (snd t) (fst t ! b) (rev (filter (in_bucket nb ss b) [1..<Suc m])))"

lemma sysv_fill_chains:
  "chains nb (pre @ ss) (length pre) (bucket, chain) \<Longrightarrow> 0 < nb \<Longrightarrow>
    chains nb (pre @ ss) (length (pre @ ss)) (sysv_fill nb ss (Suc (length pre)) bucket chain)"
proof (induction ss arbitrary: pre bucket chain)
  case (Cons s ss)
  let ?name = "case sy_name s of None \<Rightarrow> [] | Some n \<Rightarrow> n" and ?i = "Suc (length pre)" and ?all = "pre @ s # ss"
  have at: "name_at ?all ?i = sy_name s" by (simp add: name_at_def nth_append)
  have up: "[1..<Suc (length (pre @ [s]))] = [1..<?i] @ [?i]" by simp
  have c: "length bucket = nb" "length chain = Suc (length ?all)"
    "\<And>b. b < nb \<Longrightarrow> linked chain (bucket ! b) (rev (filter (in_bucket nb ?all b) [1..<?i]))"
    using Cons.prems(1) by (simp_all add: chains_def)
  show ?case
  proof (cases "?name = []")
    case True
    then have "\<not> in_bucket nb ?all b ?i" for b by (auto simp: in_bucket_def at split: option.splits)
    then have "chains nb ((pre @ [s]) @ ss) (length (pre @ [s])) (bucket, chain)"
      using c unfolding chains_def up by simp
    from Cons.IH [OF this Cons.prems(2)] True show ?thesis by (simp add: Let_def)
  next
    case False
    let ?b = "unat (elf_hash ?name) mod nb"
    have b: "?b < nb" using Cons.prems(2) by simp
    have ib: "in_bucket nb ?all b ?i \<longleftrightarrow> b = ?b" for b
      using False by (auto simp: in_bucket_def at split: option.splits)
    have "linked (chain[?i := bucket ! ?b]) (bucket[?b := ?i] ! b) (rev (filter (in_bucket nb ?all b) ([1..<?i] @ [?i])))"
      if "b < nb" for b
      using c that b linked_update [OF _ c(3) [OF that], of ?i "bucket ! ?b"] by (cases "b = ?b") (simp_all add: ib)
    then have "chains nb ((pre @ [s]) @ ss) (length (pre @ [s])) (bucket[?b := ?i], chain[?i := bucket ! ?b])"
      using c(1,2) unfolding chains_def up by simp
    from Cons.IH [OF this Cons.prems(2)] False show ?thesis by (simp add: Let_def)
  qed
qed simp

lemma sysv_lookup_find:
  "sysv_lookup (regen_sysv_hash ss) (name_at ss) nm =
    find (\<lambda>j. name_at ss j = Some nm)
      (rev (filter (in_bucket (Suc (length ss)) ss (unat (elf_hash nm) mod Suc (length ss))) [1..<Suc (length ss)]))"
proof -
  let ?n = "Suc (length ss)"
  have "chains ?n ([] @ ss) (length ([] :: Sym list)) (replicate ?n 0, replicate ?n 0)"
    by (simp add: chains_def nth_append del: replicate_Suc)
  from sysv_fill_chains [OF this] have c: "chains ?n ss (length ss) (regen_sysv_hash ss)"
    by (simp add: regen_sysv_hash_def Let_def del: replicate_Suc)
  obtain bucket chain where r: "regen_sysv_hash ss = (bucket, chain)" by (cases "regen_sysv_hash ss")
  let ?ys = "rev (filter (in_bucket ?n ss (unat (elf_hash nm) mod ?n)) [1..<?n])"
  have l: "linked chain (bucket ! (unat (elf_hash nm) mod ?n)) ?ys" "length bucket = ?n" "length chain = ?n"
    using c by (simp_all add: chains_def r del: upt_Suc)
  have "length ?ys \<le> length chain" using length_filter_le [of "in_bucket ?n ss (unat (elf_hash nm) mod ?n)" "[1..<?n]"] l(3)
    by (simp del: upt_Suc)
  from walk_linked [OF l(1) this] show ?thesis by (simp add: sysv_lookup_def r l(2) del: upt_Suc)
qed

interpretation sysv: symbol_index "\<lambda>i nm. name_at ss i = Some nm \<and> nm \<noteq> []"
  "\<lambda>nm. if nm = [] then None else sysv_lookup (regen_sysv_hash ss) (name_at ss) nm" for ss
proof (unfold_locales, goal_cases)
  case (1 nm i)
  then show ?case by (auto simp: sysv_lookup_find find_Some_iff split: if_splits)
next
  case (2 i nm)
  then have "0 < i" "i < Suc (length ss)" by (auto simp: name_at_def split: if_splits)
  with 2 have "\<exists>j \<in> set (rev (filter (in_bucket (Suc (length ss)) ss (unat (elf_hash nm) mod Suc (length ss))) [1..<Suc (length ss)])).
      name_at ss j = Some nm" by (intro bexI [of _ i]) (auto simp: in_bucket_def simp del: upt_Suc)
  with 2 show ?case by (auto simp: sysv_lookup_find find_None_iff simp del: upt_Suc)
qed


section \<open>The aliases\<close>

definition func_entry :: "string \<times> Sym \<Rightarrow> bool" where
  "func_entry f \<longleftrightarrow> fst f \<noteq> [] \<and> sy_name (snd f) = Some (fst f) \<and> sy_type (snd f) = Some ''STT_FUNC'' \<and> is_defined (snd f)"

lemma collect_entries:
  assumes "distinct (map fst funcs)" "\<forall>f \<in> set funcs. func_entry f"
  shows "distinct (map fst (collect ss funcs)) \<and> (\<forall>f \<in> set (collect ss funcs). func_entry f)"
  using assms
proof (induction ss arbitrary: funcs)
  case (Cons s ss)
  show ?case
  proof (cases "sy_name s")
    case (Some name)
    show ?thesis
    proof (cases "sy_type s = Some ''STT_FUNC'' \<and> is_defined s \<and> name \<noteq> [] \<and> map_of funcs name = None")
      case True
      then have "distinct (map fst (funcs @ [(name, s)]))" "\<forall>f \<in> set (funcs @ [(name, s)]). func_entry f"
        using Cons.prems Some by (auto simp: map_of_eq_None_iff func_entry_def)
      from Cons.IH [OF this] show ?thesis using Some True by simp
    next
      case False
      then have "collect (s # ss) funcs = collect ss funcs" using Some by auto
      then show ?thesis using Cons by simp
    qed
  qed (use Cons in simp)
qed simp

lemma collected_funcs:
  "distinct (map fst (collect_defined_funcs dynsyms symtab)) \<and> (\<forall>f \<in> set (collect_defined_funcs dynsyms symtab). func_entry f)"
proof -
  let ?f = "collect (case dynsyms of None \<Rightarrow> [] | Some ss \<Rightarrow> ss) []"
  have "distinct (map fst ?f)" "\<forall>f \<in> set ?f. func_entry f" using collect_entries [of "[]"] by simp_all
  from collect_entries [OF this] show ?thesis by (simp add: collect_defined_funcs_def)
qed

definition new_aliases :: "(string \<times> Sym) list \<Rightarrow> string \<Rightarrow> Sym list \<Rightarrow> Sym list" where
  "new_aliases funcs prefix symbols =
     map (\<lambda>(name, s). object_alias name prefix s) (filter (\<lambda>f. Some (prefix @ fst f) \<notin> sy_name ` set symbols) funcs)"

lemma add_aliases_appends:
  "distinct (map fst funcs) \<Longrightarrow>
    add_aliases funcs prefix symbols = (symbols @ new_aliases funcs prefix symbols, length (new_aliases funcs prefix symbols))"
proof (induction funcs prefix symbols rule: add_aliases.induct)
  case (2 name src funcs prefix symbols)
  have d: "distinct (map fst funcs)" "name \<notin> fst ` set funcs" using "2.prems" by auto
  show ?case
  proof (cases "Some (prefix @ name) \<in> sy_name ` set symbols")
    case True
    with 2(1) [OF True d(1)] show ?thesis by (simp add: new_aliases_def)
  next
    case False
    have n: "new_aliases funcs prefix (symbols @ [object_alias name prefix src]) = new_aliases funcs prefix symbols"
      using d(2) unfolding new_aliases_def
      by (intro arg_cong [where f = "map _"] filter_cong) (auto simp: object_alias_def)
    have "new_aliases ((name, src) # funcs) prefix symbols = object_alias name prefix src # new_aliases funcs prefix symbols"
      using False by (simp add: new_aliases_def)
    with 2(2) [OF False d(1)] False show ?thesis unfolding n by simp
  qed
qed (simp add: new_aliases_def)

lemma new_aliases_mem:
  "(name, s) \<in> set funcs \<Longrightarrow> Some (prefix @ name) \<notin> sy_name ` set symbols \<Longrightarrow>
    object_alias name prefix s \<in> set (new_aliases funcs prefix symbols)"
  by (force simp: new_aliases_def)

lemma new_aliases_distinct: "distinct (map fst funcs) \<Longrightarrow> distinct (map sy_name (new_aliases funcs prefix symbols))"
proof -
  assume "distinct (map fst funcs)"
  then have "distinct (map fst (filter P funcs))" for P by (induction funcs) auto
  then have "distinct (map (\<lambda>f. Some (prefix @ fst f)) (filter P funcs))" for P
    by (simp add: distinct_map inj_on_def)
  moreover have "map sy_name (new_aliases funcs prefix symbols) =
      map (\<lambda>f. Some (prefix @ fst f)) (filter (\<lambda>f. Some (prefix @ fst f) \<notin> sy_name ` set symbols) funcs)"
    by (simp add: new_aliases_def object_alias_def)
  ultimately show ?thesis by simp
qed

lemma named_once: "distinct (map sy_name xs) \<Longrightarrow> length (filter (\<lambda>s. sy_name s = x) xs) \<le> 1"
proof (induction xs)
  case (Cons a xs)
  show ?case
  proof (cases "sy_name a = x")
    case True
    then have "filter (\<lambda>s. sy_name s = x) xs = []" using Cons.prems by (auto simp: filter_empty_conv) (metis image_eqI)
    then show ?thesis by simp
  qed (use Cons in simp)
qed simp

lemma alias_names:
  assumes "distinct (map fst funcs)" "(name, src) \<in> set funcs" "Some (prefix @ name) \<notin> sy_name ` set symbols"
    and "s \<in> set (symbols @ new_aliases funcs prefix symbols)" "sy_name s = Some (prefix @ name)"
  shows "s = object_alias name prefix src"
proof -
  have "s \<notin> set symbols" using assms(3,5) by force
  then obtain n q where q: "(n, q) \<in> set funcs" "s = object_alias n prefix q"
    using assms(4) by (auto simp: new_aliases_def)
  with assms(5) have "n = name" by (simp add: object_alias_def)
  with q assms(1,2) show ?thesis by (metis eq_key_imp_eq_value)
qed

lemma at_most_one:
  assumes "length (filter P xs) \<le> 1" "i < length xs" "P (xs ! i)" "j < length xs" "P (xs ! j)"
  shows "i = j"
  using assms card_le_Suc0_iff_eq [of "{i. i < length xs \<and> P (xs ! i)}"] by (simp add: length_filter_conv_card)

text \<open>A second run adds nothing, and an alias is a global object at the place of its function.\<close>

lemma aliases_idempotent:
  assumes "distinct (map fst funcs)" "add_aliases funcs prefix symbols = (ss, n)"
  shows "add_aliases funcs prefix ss = (ss, 0)"
proof -
  have ss: "ss = symbols @ new_aliases funcs prefix symbols" using add_aliases_appends [OF assms(1)] assms(2) by simp
  have "Some (prefix @ name) \<in> sy_name ` set ss" if "(name, s) \<in> set funcs" for name s
  proof (cases "Some (prefix @ name) \<in> sy_name ` set symbols")
    case False
    with that have "object_alias name prefix s \<in> set (new_aliases funcs prefix symbols)" by (intro new_aliases_mem)
    moreover have "sy_name (object_alias name prefix s) = Some (prefix @ name)" by (simp add: object_alias_def)
    ultimately show ?thesis unfolding ss by (metis UnCI image_eqI set_append)
  qed (auto simp: ss)
  then have "new_aliases funcs prefix ss = []" by (auto simp: new_aliases_def filter_empty_conv)
  then show ?thesis using add_aliases_appends [OF assms(1), of prefix ss] by simp
qed

text \<open>Both regenerated tables find the alias of a function whose prefixed name was not taken.\<close>

lemma aliases_in_tables:
  assumes "funcs = collect_defined_funcs (Some dynsyms) symtab" "(name, src) \<in> set funcs"
    and "Some (prefix @ name) \<notin> sy_name ` set dynsyms" "all_named dynsyms"
    and "add_aliases funcs prefix dynsyms = (ss, n)" "gnu_tables True ss = (ord, Some T)"
  shows "mset ord = mset ss \<and> sorted_wrt (\<lambda>a b. is_local b \<longrightarrow> is_local a) ord \<and>
    (\<exists>i. gnu_lookup T (name_at ord) (prefix @ name) = Some i \<and> ord ! (i - 1) = object_alias name prefix src \<and>
      sysv_lookup (regen_sysv_hash ord) (name_at ord) (prefix @ name) = Some i)"
proof -
  have f: "distinct (map fst funcs)" "func_entry (name, src)" "\<forall>f \<in> set funcs. func_entry f"
    using collected_funcs [of "Some dynsyms" symtab] assms(1,2) by blast+
  have ne: "prefix @ name \<noteq> []" using f(2) by (simp add: func_entry_def)
  have ss: "ss = dynsyms @ new_aliases funcs prefix dynsyms" using add_aliases_appends [OF f(1)] assms(5) by simp
  note o = regen_gnu_order [OF assms(6)]
  have so: "set ord = set ss" using o(1) by (rule mset_eq_setD)
  have an: "all_named ss" using assms(4) by (auto simp: ss all_named_def new_aliases_def object_alias_def)
  let ?al = "object_alias name prefix src"
  have in_ord: "?al \<in> set ord" using new_aliases_mem [OF assms(2,3)] ss so by simp
  have al: "sy_name ?al = Some (prefix @ name)" "\<not> is_local ?al" "is_defined ?al"
    using f(2) by (simp_all add: object_alias_def is_local_def func_entry_def is_defined_def)
  have uniq: "s = ?al" if "s \<in> set ord" "sy_name s = Some (prefix @ name)" for s
    using alias_names [OF f(1) assms(2,3), of s] that ss so by simp
  have named: "ord ! (i - 1) = ?al" if "name_at ord i = Some (prefix @ name)" for i
    using that uniq [of "ord ! (i - 1)"] by (auto simp: name_at_def split: if_splits)
  let ?P = "\<lambda>s. sy_name s = Some (prefix @ name)"
  have "filter ?P dynsyms = []" using assms(3) by (force simp: filter_empty_conv)
  then have "length (filter ?P ss) \<le> 1" using named_once [OF new_aliases_distinct [OF f(1)]] by (simp add: ss)
  moreover have "length (filter ?P ord) = length (filter ?P ss)" using o(1) by (metis mset_filter size_mset)
  ultimately have one: "length (filter ?P ord) \<le> 1" by simp
  have same: "i = j" if "name_at ord i = Some (prefix @ name)" "name_at ord j = Some (prefix @ name)" for i j
  proof -
    have b: "i - 1 < length ord" "?P (ord ! (i - 1))" "j - 1 < length ord" "?P (ord ! (j - 1))" "0 < i" "0 < j"
      using that by (auto simp: name_at_def split: if_splits)
    from at_most_one [OF one b(1-4)] b(5,6) show ?thesis by simp
  qed
  obtain k where k: "k < length ord" "ord ! k = ?al" using in_ord by (auto simp: in_set_conv_nth)
  then have nk: "name_at ord (Suc k) = Some (prefix @ name)" using al(1) by (simp add: name_at_def)
  have r: "fst (gnu_tables True ss) = ord" "gnu_index ss = gnu_lookup T (name_at ord)"
    using assms(6) an by (auto simp: gnu_index_def)
  have "exported ord (Suc k) (prefix @ name)" using nk k al(2,3) by (simp add: exported_def)
  moreover have "j = Suc k" if "exported ord j (prefix @ name)" for j
    using same [OF _ nk] that by (simp add: exported_def)
  ultimately have "gnu_index ss (prefix @ name) = Some (Suc k)"
    using gnu.lookup_unique [of ss "prefix @ name" "Suc k"] an r(1) by blast
  moreover have "sysv_lookup (regen_sysv_hash ord) (name_at ord) (prefix @ name) = Some (Suc k)"
  proof -
    have "(if prefix @ name = [] then None else sysv_lookup (regen_sysv_hash ord) (name_at ord) (prefix @ name)) = Some (Suc k)"
      by (rule sysv.lookup_unique) (use same [OF _ nk] nk ne in blast)+
    then show ?thesis unfolding if_not_P [OF ne] .
  qed
  moreover have "ord ! (Suc k - 1) = ?al" using k(2) by simp
  ultimately show ?thesis using o r(2) by metis
qed

lemma add_keys_keeps: "set symbols \<subseteq> set (fst (add_keys base ru keys symbols))"
proof (induction base ru keys symbols rule: add_keys.induct)
  case (2 base ru key keys symbols)
  then show ?case by (fastforce simp: Let_def split: option.splits prod.splits if_splits)
qed simp

lemma add_regusage_keeps: "set symbols \<subseteq> set (fst (add_regusage_symbols funcs regusage prefix symbols))"
proof (induction funcs regusage prefix symbols rule: add_regusage_symbols.induct)
  case (2 name src funcs regusage prefix symbols)
  show ?case
  proof (cases "map_of regusage name")
    case (Some ru)
    obtain ss n where k: "add_keys (prefix @ name) ru REGUSAGE_KEYS symbols = (ss, n)" by fastforce
    obtain ss' n' where r: "add_regusage_symbols funcs regusage prefix ss = (ss', n')" by fastforce
    have "set symbols \<subseteq> set ss" "set ss \<subseteq> set ss'"
      using add_keys_keeps [of symbols "prefix @ name" ru REGUSAGE_KEYS] 2(2) [OF Some k [symmetric]] k r by simp_all
    with Some k r show ?thesis by auto
  qed (use 2 in simp)
qed simp

text \<open>
  C29: What the consumer of the aliases relies on. When the tool has rewritten a code object with
  both hash sections, every device function that it collects from the two symbol tables, and whose
  prefixed name is not taken, is found under that name by the lookups of both rewritten hash tables.
  They find one symbol of the reordered table, the alias: a global object with the section, the
  value and the size of the function. The reordered table has the old symbols and the aliases, the
  local ones first. The static table, when it takes part, has the alias too.
\<close>

theorem aliases_are_found:
  assumes "doc_dynsyms doc = Some dynsyms" "all_named dynsyms" "doc_has_gnu doc" "doc_has_sysv doc"
    and "funcs = collect_defined_funcs (Some dynsyms) (doc_symtab doc)" "(name, src) \<in> set funcs"
    and "Some (prefix @ name) \<notin> sy_name ` set dynsyms" "alias_doc True t_sym prefix asm doc = Some doc'"
  shows "\<exists>ord T t i. doc_dynsyms doc' = Some ord \<and> doc_gnu doc' = Some T \<and> doc_sysv doc' = Some t \<and>
    mset ord = mset dynsyms + mset (new_aliases funcs prefix dynsyms) \<and> sorted_wrt (\<lambda>a b. is_local b \<longrightarrow> is_local a) ord \<and>
    gnu_lookup T (name_at ord) (prefix @ name) = Some i \<and> sysv_lookup t (name_at ord) (prefix @ name) = Some i \<and>
    ord ! (i - 1) = object_alias name prefix src \<and>
    (\<forall>ts. t_sym \<and> doc_symtab doc = Some ts \<and> Some (prefix @ name) \<notin> sy_name ` set ts \<longrightarrow>
      object_alias name prefix src \<in> set (case doc_symtab doc' of None \<Rightarrow> [] | Some ts' \<Rightarrow> ts'))"
proof -
  have d: "distinct (map fst funcs)" using collected_funcs [of "Some dynsyms"] assms(5) by blast
  note a = add_aliases_appends [OF d]
  let ?ss = "dynsyms @ new_aliases funcs prefix dynsyms"
  have some: "new_aliases funcs prefix dynsyms \<noteq> []" using new_aliases_mem [OF assms(6,7)] by auto
  obtain ord T where o: "gnu_tables True ?ss = (ord, Some T)"
    by (cases "gnu_order ?ss") (simp add: gnu_tables_def Let_def)
  have named: "\<forall>s \<in> set ?ss. sy_name s \<noteq> None"
    using assms(2) by (auto simp: all_named_def new_aliases_def object_alias_def)
  then have "regen_gnu_hash True ?ss = Some (ord, Some T)" by (auto simp: regen_gnu_hash_def o)
  then have doc': "doc_dynsyms doc' = Some ord" "doc_gnu doc' = Some T" "doc_sysv doc' = Some (regen_sysv_hash ord)"
    and symtab: "doc_symtab doc' = (let symtab = fst (alias_table t_sym funcs prefix (doc_symtab doc)) in
      case asm of None \<Rightarrow> symtab
      | Some ru \<Rightarrow> Some (fst (add_regusage_symbols funcs ru prefix (case symtab of None \<Rightarrow> [] | Some ss \<Rightarrow> ss))))"
    using assms(8) some by (auto simp: alias_doc_def assms(1,3,4) assms(5) [symmetric] alias_table_def [of True] a Let_def)
  have "object_alias name prefix src \<in> set (case doc_symtab doc' of None \<Rightarrow> [] | Some ts' \<Rightarrow> ts')"
    if "t_sym" "doc_symtab doc = Some ts" "Some (prefix @ name) \<notin> sy_name ` set ts" for ts
  proof -
    have "fst (alias_table t_sym funcs prefix (doc_symtab doc)) = Some (ts @ new_aliases funcs prefix ts)"
      using that(1,2) by (simp add: alias_table_def a)
    moreover have "object_alias name prefix src \<in> set (ts @ new_aliases funcs prefix ts)"
      using new_aliases_mem [OF assms(6) that(3)] by simp
    ultimately show ?thesis unfolding symtab
      using add_regusage_keeps [of "ts @ new_aliases funcs prefix ts" funcs _ prefix] by (auto simp: Let_def split: option.split)
  qed
  with aliases_in_tables [OF assms(5,6,7,2) a o] doc' show ?thesis by auto
qed

definition sample_func :: Sym where
  "sample_func = \<lparr>sy_name = Some ''f'', sy_type = Some ''STT_FUNC'', sy_section = Some ''.text'', sy_binding = Some ''STB_GLOBAL'',
     sy_value = Some 256, sy_size = Some 64, sy_index = None\<rparr>"

definition sample_undef :: Sym where
  "sample_undef = \<lparr>sy_name = Some ''g'', sy_type = None, sy_section = None, sy_binding = Some ''STB_GLOBAL'',
     sy_value = None, sy_size = None, sy_index = None\<rparr>"

definition sample_doc :: SymDoc where
  "sample_doc = \<lparr>doc_dynsyms = Some [sample_func, sample_undef], doc_symtab = None, doc_has_gnu = True, doc_has_sysv = True,
     doc_gnu = None, doc_sysv = None\<rparr>"

theorem aliases_are_found_witness:
  "\<exists>doc' ord T t i. alias_doc True False ''p_'' None sample_doc = Some doc' \<and>
    doc_dynsyms doc' = Some ord \<and> doc_gnu doc' = Some T \<and> doc_sysv doc' = Some t \<and>
    gnu_lookup T (name_at ord) ''p_f'' = Some i \<and> sysv_lookup t (name_at ord) ''p_f'' = Some i \<and>
    ord ! (i - 1) = object_alias ''f'' ''p_'' sample_func"
proof -
  let ?d = "[sample_func, sample_undef]"
  have f: "collect_defined_funcs (Some ?d) None = [(''f'', sample_func)]"
    by (simp add: collect_defined_funcs_def sample_func_def sample_undef_def is_defined_def)
  have doc: "doc_dynsyms sample_doc = Some ?d" "doc_has_gnu sample_doc" "doc_has_sysv sample_doc"
    and none: "doc_symtab sample_doc = None" by (simp_all add: sample_doc_def)
  have fresh: "Some (''p_'' @ ''f'') \<notin> sy_name ` set ?d" by (simp add: sample_func_def sample_undef_def)
  have named: "all_named ?d" by (simp add: all_named_def sample_func_def sample_undef_def)
  have mem: "(''f'', sample_func) \<in> set (collect_defined_funcs (Some ?d) (doc_symtab sample_doc))" by (simp add: none f)
  have "regen_gnu_hash True (?d @ [object_alias ''f'' ''p_'' sample_func]) \<noteq> None"
    by (simp add: regen_gnu_hash_def sample_func_def sample_undef_def object_alias_def)
  moreover have "add_aliases [(''f'', sample_func)] ''p_'' ?d = (?d @ [object_alias ''f'' ''p_'' sample_func], 1)"
    using fresh by (simp add: object_alias_def)
  ultimately obtain doc' where "alias_doc True False ''p_'' None sample_doc = Some doc'"
    by (auto simp: alias_doc_def alias_table_def doc none f Let_def)
  with aliases_are_found [OF doc(1) named doc(2,3) refl mem fresh] show ?thesis by fastforce
qed

end
