(* ===== verification/Elf_Tools.thy ===== *)
theory Elf_Tools
  imports Note_Tools Symbol_Hash
begin

text \<open>
  The parts of the Python tools that edit an ELF file in place: the repair of the first load
  segment and of the header flags in \<open>add_object_aliases.py\<close>, the program header of the note in
  \<open>sync_note_from_kd.py\<close> and \<open>expand_args.py\<close>, and the kernel descriptors that \<open>sync_note\<close> and
  \<open>decode_kd.py\<close> read. \<open>struct.unpack_from\<close> past the end is an exception, \<open>None\<close>.
\<close>

section \<open>Reads and writes\<close>

text \<open>\<open>struct.pack_into\<close> with a little-endian format of \<open>n\<close> bytes.\<close>

definition pack_into :: "nat \<Rightarrow> nat \<Rightarrow> nat \<Rightarrow> bytes \<Rightarrow> bytes option" where
  "pack_into n off v d = (if off + n \<le> length d \<and> v < 256 ^ n then Some (write_at off (le_bytes n v) d) else None)"

lemma field_write_own: "off + n \<le> length d \<Longrightarrow> v < 256 ^ n \<Longrightarrow> field n (write_at off (le_bytes n v) d) off = v"
  using write_at_read [of off "le_bytes n v" d] by (simp add: field_def le_val_bytes)

lemma field_beside_write:
  assumes "x + k \<le> off \<or> off + length ys \<le> x" "off + length ys \<le> length d"
  shows "field k (write_at off ys d) x = field k d x"
proof (cases "x + k \<le> off")
  case True
  then show ?thesis using assms(2) by (simp add: field_def write_at_def drop_take)
next
  case False
  then have "off + length ys \<le> x" using assms(1) by simp
  then have "drop x (write_at off ys d) = drop x d" using assms(2) by (simp add: write_at_def)
  then show ?thesis by (simp add: field_def)
qed

section \<open>Program headers\<close>

fun find_phdr :: "nat \<Rightarrow> bytes \<Rightarrow> nat \<Rightarrow> nat \<Rightarrow> nat list \<Rightarrow> nat option option" where
  "find_phdr ty d phoff entsize [] = Some None"
| "find_phdr ty d phoff entsize (i # is) = do {
     t \<leftarrow> rd 4 d (phoff + i * entsize);
     if t = ty then Some (Some (phoff + i * entsize)) else find_phdr ty d phoff entsize is }"

text \<open>\<open>p_offset\<close>, \<open>p_vaddr\<close> and \<open>p_paddr\<close> get one value, \<open>p_filesz\<close> and \<open>p_memsz\<close> another.\<close>

definition patch_phdr :: "nat \<Rightarrow> nat \<Rightarrow> nat \<Rightarrow> bytes \<Rightarrow> bytes option" where
  "patch_phdr pb off sz d = do {
     d \<leftarrow> pack_into 8 (pb + 8) off d;
     d \<leftarrow> pack_into 8 (pb + 16) off d;
     d \<leftarrow> pack_into 8 (pb + 24) off d;
     d \<leftarrow> pack_into 8 (pb + 32) sz d;
     pack_into 8 (pb + 40) sz d }"

lemma patch_phdr_spec:
  assumes "patch_phdr pb off sz d = Some d'"
  shows "length d' = length d" "field 8 d' (pb + 8) = off" "field 8 d' (pb + 16) = off" "field 8 d' (pb + 24) = off"
    "field 8 d' (pb + 32) = sz" "field 8 d' (pb + 40) = sz"
    "x + k \<le> pb + 8 \<or> pb + 48 \<le> x \<Longrightarrow> field k d' x = field k d x"
proof -
  let ?w = "\<lambda>x v d. write_at (pb + x) (le_bytes 8 v) d"
  have l: "pb + 48 \<le> length d" "off < 256 ^ 8" "sz < 256 ^ 8"
    and d': "d' = ?w 40 sz (?w 32 sz (?w 24 off (?w 16 off (?w 8 off d))))"
    using assms by (auto simp: patch_phdr_def pack_into_def bind_eq_Some_conv split: if_splits)
  note s = field_write_own field_beside_write
  show "length d' = length d" unfolding d' using l by (simp del: le_bytes.simps)
  show "field 8 d' (pb + 8) = off" "field 8 d' (pb + 16) = off" "field 8 d' (pb + 24) = off"
    "field 8 d' (pb + 32) = sz" "field 8 d' (pb + 40) = sz"
    unfolding d' using l by (simp_all add: s del: le_bytes.simps)
  show "field k d' x = field k d x" if "x + k \<le> pb + 8 \<or> pb + 48 \<le> x"
    unfolding d' using l that by (auto simp: s simp del: le_bytes.simps)
qed

section \<open>The first load segment\<close>

text \<open>The end of the read-only allocated sections: flags 2 set, 1 and 4 clear.\<close>

fun ro_end :: "bytes \<Rightarrow> nat \<Rightarrow> nat \<Rightarrow> nat list \<Rightarrow> nat \<Rightarrow> nat option" where
  "ro_end d shoff entsize [] acc = Some acc"
| "ro_end d shoff entsize (i # is) acc = do {
     fl \<leftarrow> rd 8 d (shoff + i * entsize + 8);
     ad \<leftarrow> rd 8 d (shoff + i * entsize + 16);
     sz \<leftarrow> rd 8 d (shoff + i * entsize + 32);
     ro_end d shoff entsize is (if bit fl 1 \<and> \<not> bit fl 0 \<and> \<not> bit fl 2 then max acc (ad + sz) else acc) }"

definition fix_load_segment :: "bytes \<Rightarrow> bytes option" where
  "fix_load_segment d =
     (if length d < 0x40 \<or> take 4 d \<noteq> elf_magic \<or> d ! 4 \<noteq> 2 then Some d
      else do {
        e_phoff \<leftarrow> rd 8 d 0x20; e_shoff \<leftarrow> rd 8 d 0x28; e_phentsize \<leftarrow> rd 2 d 0x36; e_phnum \<leftarrow> rd 2 d 0x38;
        e_shentsize \<leftarrow> rd 2 d 0x3a; e_shnum \<leftarrow> rd 2 d 0x3c;
        hi \<leftarrow> ro_end d e_shoff e_shentsize [0..<e_shnum] 0;
        if hi = 0 then Some d
        else do {
          found \<leftarrow> find_phdr 1 d e_phoff e_phentsize [0..<e_phnum];
          case found of None \<Rightarrow> Some d | Some pb \<Rightarrow> patch_phdr pb 0 hi d } })"

definition ro_section :: "bytes \<Rightarrow> nat \<Rightarrow> bool" where
  "ro_section d sh \<longleftrightarrow> bit (field 8 d (sh + 8)) 1 \<and> \<not> bit (field 8 d (sh + 8)) 0 \<and> \<not> bit (field 8 d (sh + 8)) 2"

lemma rd_some: "rd n b off = Some v \<Longrightarrow> off + n \<le> length b \<and> v = field n b off"
  by (auto simp: rd_def field_def split: if_splits)

lemma ro_end_covers:
  "ro_end d shoff entsize is acc = Some m \<Longrightarrow> acc \<le> m \<and> (\<forall>i \<in> set is. ro_section d (shoff + i * entsize) \<longrightarrow>
    field 8 d (shoff + i * entsize + 16) + field 8 d (shoff + i * entsize + 32) \<le> m) \<and>
    (m = acc \<or> (\<exists>i \<in> set is. ro_section d (shoff + i * entsize) \<and>
      m = field 8 d (shoff + i * entsize + 16) + field 8 d (shoff + i * entsize + 32)))"
proof (induction "is" arbitrary: acc)
  case (Cons j js)
  from Cons.prems obtain fl ad sz where r: "rd 8 d (shoff + j * entsize + 8) = Some fl" "rd 8 d (shoff + j * entsize + 16) = Some ad"
    "rd 8 d (shoff + j * entsize + 32) = Some sz"
    "ro_end d shoff entsize js (if bit fl 1 \<and> \<not> bit fl 0 \<and> \<not> bit fl 2 then max acc (ad + sz) else acc) = Some m"
    by (auto simp: bind_eq_Some_conv)
  note f = rd_some [OF r(1), THEN conjunct2] rd_some [OF r(2), THEN conjunct2] rd_some [OF r(3), THEN conjunct2]
  from Cons.IH [OF r(4)] show ?case unfolding f by (auto simp: ro_section_def split: if_splits)
qed simp

lemma find_phdr_type: "find_phdr ty d phoff entsize is = Some (Some pb) \<Longrightarrow> field 4 d pb = ty \<and> (\<exists>i \<in> set is. pb = phoff + i * entsize)"
  by (induction "is") (auto simp: bind_eq_Some_conv dest: rd_some split: if_splits)

lemma find_phdr_first:
  "find_phdr ty d phoff entsize [i..<n] = Some (Some pb) \<Longrightarrow> \<exists>k. i \<le> k \<and> k < n \<and> pb = phoff + k * entsize \<and>
    field 4 d pb = ty \<and> (\<forall>j. i \<le> j \<and> j < k \<longrightarrow> field 4 d (phoff + j * entsize) \<noteq> ty)"
proof (induction "n - i" arbitrary: i)
  case (Suc m)
  then have u: "[i..<n] = i # [Suc i..<n]" by (simp add: upt_conv_Cons)
  obtain t where t: "rd 4 d (phoff + i * entsize) = Some t" "t = field 4 d (phoff + i * entsize)"
    using Suc.prems by (auto simp: u bind_eq_Some_conv dest: rd_some)
  show ?case
  proof (cases "t = ty")
    case True
    then show ?thesis using Suc.prems Suc.hyps(2) t by (intro exI [of _ i]) (simp add: u)
  next
    case False
    then have "find_phdr ty d phoff entsize [Suc i..<n] = Some (Some pb)" using Suc.prems t by (simp add: u)
    moreover have "m = n - Suc i" using Suc.hyps(2) by simp
    ultimately obtain k where
      k: "Suc i \<le> k" "k < n" "pb = phoff + k * entsize" "field 4 d pb = ty"
        "\<forall>j. Suc i \<le> j \<and> j < k \<longrightarrow> field 4 d (phoff + j * entsize) \<noteq> ty" using Suc.hyps(1) by blast
    have "field 4 d (phoff + j * entsize) \<noteq> ty" if "i \<le> j" "j < k" for j
      using k(5) that False t(2) by (cases "j = i") auto
    with k show ?thesis by (intro exI [of _ k]) simp
  qed
qed simp

text \<open>
  C40: The repair of the load segment. On an ELF64 file with a read-only section that is not empty,
  when the tool changes the file it is in the first entry of the program header table that has the
  type \<open>PT_LOAD\<close>: the segment then starts at offset and address 0, has the same size in the file and
  in memory, contains every read-only allocated section, and ends where one of them ends. The file keeps
  its length and every field outside that header.
\<close>

theorem load_segment_covers:
  assumes "fix_load_segment d = Some d'" "d' \<noteq> d" "shoff = field 8 d 0x28" "entsize = field 2 d 0x3a"
  defines "phdr \<equiv> \<lambda>i. field 8 d 0x20 + i * field 2 d 0x36"
  shows "\<exists>k pb m. k < field 2 d 0x38 \<and> pb = phdr k \<and> field 4 d pb = 1 \<and> (\<forall>j < k. field 4 d (phdr j) \<noteq> 1) \<and>
    field 8 d' (pb + 8) = 0 \<and> field 8 d' (pb + 16) = 0 \<and> field 8 d' (pb + 24) = 0 \<and>
    field 8 d' (pb + 32) = m \<and> field 8 d' (pb + 40) = m \<and> length d' = length d \<and>
    (\<forall>i < field 2 d 0x3c. ro_section d (shoff + i * entsize) \<longrightarrow>
      field 8 d (shoff + i * entsize + 16) + field 8 d (shoff + i * entsize + 32) \<le> m) \<and>
    (\<exists>i < field 2 d 0x3c. ro_section d (shoff + i * entsize) \<and>
      m = field 8 d (shoff + i * entsize + 16) + field 8 d (shoff + i * entsize + 32)) \<and>
    (\<forall>x k. x + k \<le> pb + 8 \<or> pb + 48 \<le> x \<longrightarrow> field k d' x = field k d x)"
proof -
  have e: "length d \<ge> 0x40" using assms(1,2) by (auto simp: fix_load_segment_def split: if_splits)
  then have r: "rd 8 d 0x28 = Some shoff" "rd 2 d 0x3a = Some entsize" "rd 2 d 0x3c = Some (field 2 d 0x3c)"
    "rd 8 d 0x20 = Some (field 8 d 0x20)" "rd 2 d 0x36 = Some (field 2 d 0x36)" "rd 2 d 0x38 = Some (field 2 d 0x38)"
    using assms(3,4) by (simp_all add: rd_field)
  from assms(1,2) r obtain m pb where
    m: "ro_end d shoff entsize [0..<field 2 d 0x3c] 0 = Some m" "m \<noteq> 0" and
    pb: "find_phdr 1 d (field 8 d 0x20) (field 2 d 0x36) [0..<field 2 d 0x38] = Some (Some pb)" "patch_phdr pb 0 m d = Some d'"
    by (auto simp: fix_load_segment_def bind_eq_Some_conv split: if_splits option.splits)
  from find_phdr_first [OF pb(1)] obtain k where k: "k < field 2 d 0x38" "pb = phdr k" "field 4 d pb = 1"
    "\<forall>j < k. field 4 d (phdr j) \<noteq> 1" by (auto simp: phdr_def)
  note s = patch_phdr_spec [OF pb(2)] and c = ro_end_covers [OF m(1)]
  have all: "\<forall>i < field 2 d 0x3c. ro_section d (shoff + i * entsize) \<longrightarrow>
      field 8 d (shoff + i * entsize + 16) + field 8 d (shoff + i * entsize + 32) \<le> m" using c by simp
  have ex: "\<exists>i < field 2 d 0x3c. ro_section d (shoff + i * entsize) \<and>
      m = field 8 d (shoff + i * entsize + 16) + field 8 d (shoff + i * entsize + 32)" using c m(2) by auto
  have fr: "\<forall>x k. x + k \<le> pb + 8 \<or> pb + 48 \<le> x \<longrightarrow> field k d' x = field k d x" using s(7) by blast
  show ?thesis
    by (rule exI [of _ k], rule exI [of _ pb], rule exI [of _ m], intro conjI) (rule k s(1-6) all ex fr)+
qed


definition seg_demo :: bytes where
  "seg_demo = elf_magic @ [2] @ replicate 27 0 @ [64, 0, 0, 0, 0, 0, 0, 0] @ [120, 0, 0, 0, 0, 0, 0, 0] @ replicate 6 0 @
     [56, 0, 1, 0, 64, 0, 1, 0, 0, 0] @ [1, 0, 0, 0] @ replicate 52 7 @
     replicate 8 0 @ [2, 0, 0, 0, 0, 0, 0, 0] @ [64, 0, 0, 0, 0, 0, 0, 0] @ replicate 8 0 @ [16, 0, 0, 0, 0, 0, 0, 0] @ replicate 24 0"

lemma load_segment_covers_witness:
  "\<exists>d'. fix_load_segment seg_demo = Some d' \<and> field 8 d' (64 + 8) = 0 \<and> field 8 d' (64 + 40) = 80"
proof -
  have len: "length seg_demo = 184" by code_simp
  have h: "take 4 seg_demo = elf_magic" "seg_demo ! 4 = 2" "field 8 seg_demo 0x20 = 64" "field 8 seg_demo 0x28 = 120"
    "field 2 seg_demo 0x36 = 56" "field 2 seg_demo 0x38 = 1" "field 2 seg_demo 0x3a = 64" "field 2 seg_demo 0x3c = 1"
    "field 4 seg_demo 64 = 1" "field 8 seg_demo 128 = 2" "field 8 seg_demo 136 = 64" "field 8 seg_demo 152 = 16"
    "field 1 seg_demo 72 = 7" by code_simp+
  have b: "bit (2 :: nat) 1" "\<not> bit (2 :: nat) 0" "\<not> bit (2 :: nat) 2" by (simp_all add: bit_iff_odd)
  have pt: "patch_phdr 64 0 80 seg_demo \<noteq> None" by (simp add: patch_phdr_def pack_into_def len del: le_bytes.simps)
  then obtain d' where d0: "patch_phdr 64 0 80 seg_demo = Some d'" by auto
  then have d1: "fix_load_segment seg_demo = Some d'" using h b by (simp add: fix_load_segment_def rd_field len)
  have "field 1 d' (64 + 8) = 0"
    using patch_phdr_spec(2) [OF d0] by (cases "drop 72 d'") (auto simp: field_def numeral_eq_Suc)
  with h(13) have d': "fix_load_segment seg_demo = Some d'" "d' \<noteq> seg_demo" using d1 by auto
  have f: "120 = field 8 seg_demo 0x28" "64 = field 2 seg_demo 0x3a" "0 < field 2 seg_demo 0x3c" by (simp_all add: h)
  have r: "ro_section seg_demo (120 + 0 * 64)" "field 8 seg_demo (120 + 0 * 64 + 16) + field 8 seg_demo (120 + 0 * 64 + 32) = 80"
    using h b by (simp_all add: ro_section_def)
  obtain k pb m where p: "k < 1" "pb = 64 + k * 56" "field 8 d' (pb + 8) = 0" "field 8 d' (pb + 40) = m"
    "\<exists>i < field 2 seg_demo 0x3c. ro_section seg_demo (120 + i * 64) \<and>
      m = field 8 seg_demo (120 + i * 64 + 16) + field 8 seg_demo (120 + i * 64 + 32)"
    using load_segment_covers [OF d' f(1,2)] unfolding h by blast
  from p(5) h(8) r have "m = 80" by auto
  with d'(1) p(1-4) show ?thesis by auto
qed

text \<open>\<open>preserve_eflags\<close>: four bytes of the header, at the place that the class of the source gives.\<close>

definition preserve_eflags :: "bytes \<Rightarrow> bytes \<Rightarrow> bytes option" where
  "preserve_eflags src dst =
     (if length src < 5 then None
      else (let off = (if src ! 4 = 2 then 0x30 else 0x24)
            in Some (take off dst @ replicate (off - length dst) 0 @ take 4 (drop off src) @ drop (off + length (take 4 (drop off src))) dst)))"

lemma eflags_preserved:
  assumes "0x40 \<le> length src" "0x40 \<le> length dst" "src ! 4 = 2" "preserve_eflags src dst = Some d'"
  shows "field 4 d' 0x30 = field 4 src 0x30" "length d' = length dst"
    "x + k \<le> 0x30 \<or> 0x34 \<le> x \<Longrightarrow> field k d' x = field k dst x"
proof -
  have l: "length (take 4 (drop 0x30 src)) = 4" using assms(1) by simp
  then have d': "d' = write_at 0x30 (take 4 (drop 0x30 src)) dst"
    using assms by (simp add: preserve_eflags_def write_at_def Let_def)
  show "field 4 d' 0x30 = field 4 src 0x30"
    using write_at_read [where off = 48 and ys = "take 4 (drop 0x30 src)" and m = dst] assms(2) l by (simp add: d' field_def)
  show "length d' = length dst" using assms(2) l by (simp add: d')
  show "field k d' x = field k dst x" if "x + k \<le> 0x30 \<or> 0x34 \<le> x"
    unfolding d' using that assms(2) l by (intro field_beside_write) auto
qed

section \<open>The program header of the note\<close>

text \<open>\<open>d[off:d.index(0, off)]\<close>\<close>

definition zstring :: "bytes \<Rightarrow> nat \<Rightarrow> bytes option" where
  "zstring d off = (if 0 \<in> set (drop off d) then Some (cstring d off) else None)"

fun find_note :: "bytes \<Rightarrow> nat \<Rightarrow> nat \<Rightarrow> nat \<Rightarrow> nat list \<Rightarrow> (nat \<times> nat) option option" where
  "find_note d shoff entsize shstr [] = Some None"
| "find_note d shoff entsize shstr (i # is) = do {
     nameoff \<leftarrow> rd 4 d (shoff + i * entsize);
     name \<leftarrow> zstring d (shstr + nameoff);
     if chars name = ''.note''
     then do { off \<leftarrow> rd 8 d (shoff + i * entsize + 24); sz \<leftarrow> rd 8 d (shoff + i * entsize + 32); Some (Some (off, sz)) }
     else find_note d shoff entsize shstr is }"

definition repoint_pt_note :: "bytes \<Rightarrow> bytes option" where
  "repoint_pt_note d = do {
     e_phoff \<leftarrow> rd 8 d 0x20; e_shoff \<leftarrow> rd 8 d 0x28; e_phentsize \<leftarrow> rd 2 d 0x36; e_phnum \<leftarrow> rd 2 d 0x38;
     e_shentsize \<leftarrow> rd 2 d 0x3a; e_shnum \<leftarrow> rd 2 d 0x3c; e_shstrndx \<leftarrow> rd 2 d 0x3e;
     shstr_off \<leftarrow> rd 8 d (e_shoff + e_shstrndx * e_shentsize + 24);
     note \<leftarrow> find_note d e_shoff e_shentsize shstr_off [0..<e_shnum];
     (case note of None \<Rightarrow> Some d
      | Some (off, sz) \<Rightarrow> do {
          found \<leftarrow> find_phdr 4 d e_phoff e_phentsize [0..<e_phnum];
          case found of None \<Rightarrow> Some d | Some pb \<Rightarrow> patch_phdr pb off sz d }) }"

text \<open>When the note has a program header, it describes the section; nothing else changes.\<close>

lemma repointed_note:
  assumes "repoint_pt_note d = Some d'" "d' \<noteq> d"
  shows "\<exists>pb sh. field 4 d pb = 4 \<and> field 8 d' (pb + 8) = field 8 d (sh + 24) \<and> field 8 d' (pb + 32) = field 8 d (sh + 32) \<and>
    length d' = length d \<and> (\<forall>x k. x + k \<le> pb + 8 \<or> pb + 48 \<le> x \<longrightarrow> field k d' x = field k d x)"
proof -
  have n: "\<exists>sh. off = field 8 d (sh + 24) \<and> sz = field 8 d (sh + 32)"
    if "find_note d shoff ent shstr is = Some (Some (off, sz))" for shoff ent shstr "is" off sz
    using that by (induction "is") (auto simp: bind_eq_Some_conv dest: rd_some split: if_splits)
  from assms obtain shoff ent shstr "is" off sz phoff phent phnum pb where
    "find_note d shoff ent shstr is = Some (Some (off, sz))" and
    pb: "find_phdr 4 d phoff phent phnum = Some (Some pb)" "patch_phdr pb off sz d = Some d'"
    by (auto simp: repoint_pt_note_def bind_eq_Some_conv split: if_splits option.splits)
  then obtain sh where "off = field 8 d (sh + 24)" "sz = field 8 d (sh + 32)" using n by blast
  with find_phdr_type [OF pb(1)] patch_phdr_spec [OF pb(2)] show ?thesis
    by (intro exI [of _ pb] exI [of _ sh]) simp
qed


section \<open>Kernel descriptors\<close>

record Shdr =
  sh_type :: nat
  sh_addr :: nat
  sh_off :: nat
  sh_size :: nat
  sh_link :: nat
  sh_entsize :: nat

definition read_shdr :: "bytes \<Rightarrow> nat \<Rightarrow> Shdr option" where
  "read_shdr d b = do {
     ty \<leftarrow> rd 4 d (b + 4); ad \<leftarrow> rd 8 d (b + 16); off \<leftarrow> rd 8 d (b + 24); sz \<leftarrow> rd 8 d (b + 32);
     ln \<leftarrow> rd 4 d (b + 40); en \<leftarrow> rd 8 d (b + 56);
     Some \<lparr>sh_type = ty, sh_addr = ad, sh_off = off, sh_size = sz, sh_link = ln, sh_entsize = en\<rparr> }"

definition read_sections :: "bytes \<Rightarrow> Shdr list option" where
  "read_sections d = do {
     shoff \<leftarrow> rd 8 d 0x28; entsize \<leftarrow> rd 2 d 0x3a; shnum \<leftarrow> rd 2 d 0x3c;
     map_opt (\<lambda>i. read_shdr d (shoff + i * entsize)) [0..<shnum] }"

text \<open>The static symbol table, else the dynamic one; a file without both is an exception.\<close>

definition symbol_section :: "Shdr list \<Rightarrow> Shdr option" where
  "symbol_section secs = (case find (\<lambda>s. sh_type s = 2) secs of Some s \<Rightarrow> Some s | None \<Rightarrow> find (\<lambda>s. sh_type s = 11) secs)"

definition symbol_offsets :: "Shdr \<Rightarrow> nat list option" where
  "symbol_offsets s = (if sh_entsize s = 0 then None
     else Some (map (\<lambda>i. sh_off s + i * sh_entsize s) [0..<(sh_size s + sh_entsize s - 1) div sh_entsize s]))"

definition nth_opt :: "'a list \<Rightarrow> nat \<Rightarrow> 'a option" where
  "nth_opt xs i = (if i < length xs then Some (xs ! i) else None)"

text \<open>A slice of Python: negative bounds count from the end, and bounds are clamped.\<close>

definition py_slice :: "bytes \<Rightarrow> int \<Rightarrow> int \<Rightarrow> bytes" where
  "py_slice d a b =
     (let n = int (length d); clamp = (\<lambda>x. nat (if x < 0 then max 0 (x + n) else min x n))
      in take (clamp b - clamp a) (drop (clamp a) d))"

definition descriptor :: "bytes \<Rightarrow> Shdr \<Rightarrow> nat \<Rightarrow> bytes" where
  "descriptor d sec v = (let foff = int (sh_off sec) + (int v - int (sh_addr sec)) in py_slice d foff (foff + 64))"

text \<open>\<open>COMPUTE_PGM_RSRC1\<close>, its two granule counts, and the private segment size.\<close>

definition kd_fields :: "bytes \<Rightarrow> (nat \<times> nat \<times> nat \<times> nat) option" where
  "kd_fields kd = do {
     priv \<leftarrow> rd 4 kd 4; rsrc1 \<leftarrow> rd 4 kd 48;
     Some (rsrc1, take_bit 6 rsrc1, take_bit 4 (drop_bit 6 rsrc1), priv) }"

fun kd_loop :: "bytes \<Rightarrow> Shdr list \<Rightarrow> nat \<Rightarrow> nat list \<Rightarrow> (string \<times> (int \<times> int \<times> int)) list \<Rightarrow> (string \<times> (int \<times> int \<times> int)) list option" where
  "kd_loop d secs stroff [] out = Some out"
| "kd_loop d secs stroff (x # xs) out = do {
     st_name \<leftarrow> rd 4 d x; shndx \<leftarrow> rd 2 d (x + 6); st_value \<leftarrow> rd 8 d (x + 8);
     nm \<leftarrow> zstring d (stroff + st_name);
     let name = chars nm;
     if \<not> (3 \<le> length name \<and> drop (length name - 3) name = ''.kd'') \<or> length secs \<le> shndx then kd_loop d secs stroff xs out
     else do {
       (rsrc1, vg, sg, priv) \<leftarrow> kd_fields (descriptor d (secs ! shndx) st_value);
       kd_loop d secs stroff xs
         (AList.update (take (length name - 3) name) (int priv, (int vg + 1) * 4, (int sg + 1) * 8) out) } }"

definition parse_elf_kds :: "bytes \<Rightarrow> (string \<times> (int \<times> int \<times> int)) list option" where
  "parse_elf_kds d = do {
     secs \<leftarrow> read_sections d;
     sym \<leftarrow> symbol_section secs;
     strsec \<leftarrow> nth_opt secs (sh_link sym);
     offs \<leftarrow> symbol_offsets sym;
     kd_loop d secs (sh_off strsec) offs [] }"

fun rsrc1_loop :: "bytes \<Rightarrow> Shdr list \<Rightarrow> nat \<Rightarrow> string \<Rightarrow> nat list \<Rightarrow> (nat \<times> nat \<times> nat \<times> nat) option option" where
  "rsrc1_loop d secs stroff kdname [] = Some None"
| "rsrc1_loop d secs stroff kdname (x # xs) = do {
     st_name \<leftarrow> rd 4 d x; shndx \<leftarrow> rd 2 d (x + 6); st_value \<leftarrow> rd 8 d (x + 8);
     nm \<leftarrow> zstring d (stroff + st_name);
     if chars nm = kdname
     then do { sec \<leftarrow> nth_opt secs shndx; f \<leftarrow> kd_fields (descriptor d sec st_value); Some (Some f) }
     else rsrc1_loop d secs stroff kdname xs }"

definition read_kd_rsrc1 :: "bytes \<Rightarrow> string \<Rightarrow> (nat \<times> nat \<times> nat \<times> nat) option option" where
  "read_kd_rsrc1 d kdname = do {
     secs \<leftarrow> read_sections d;
     sym \<leftarrow> symbol_section secs;
     strsec \<leftarrow> nth_opt secs (sh_link sym);
     offs \<leftarrow> symbol_offsets sym;
     rsrc1_loop d secs (sh_off strsec) kdname offs }"

text \<open>The two readers agree on a descriptor with one symbol.\<close>

definition symbol_named :: "bytes \<Rightarrow> nat \<Rightarrow> string \<Rightarrow> nat \<Rightarrow> bool" where
  "symbol_named d stroff name x \<longleftrightarrow> (\<exists>st nm. rd 4 d x = Some st \<and> zstring d (stroff + st) = Some nm \<and> chars nm = name)"

lemma kd_suffix: "3 \<le> length name \<and> drop (length name - 3) name = ''.kd'' \<longleftrightarrow> name = take (length name - 3) name @ ''.kd''"
proof
  assume "3 \<le> length name \<and> drop (length name - 3) name = ''.kd''"
  then show "name = take (length name - 3) name @ ''.kd''" by (metis append_take_drop_id)
next
  assume "name = take (length name - 3) name @ ''.kd''"
  then have "length name = length (take (length name - 3) name @ ''.kd'')" "drop (length name - 3) name = ''.kd''"
    by (metis, metis append_take_drop_id same_append_eq)
  then show "3 \<le> length name \<and> drop (length name - 3) name = ''.kd''" by simp
qed

lemma kd_loop_other:
  "kd_loop d secs stroff xs out = Some out' \<Longrightarrow> \<forall>x \<in> set xs. \<not> symbol_named d stroff (n @ ''.kd'') x \<Longrightarrow>
    map_of out' n = map_of out n"
proof (induction xs arbitrary: out)
  case (Cons x xs)
  from Cons.prems(1) obtain st shndx v nm where r: "rd 4 d x = Some st" "rd 2 d (x + 6) = Some shndx" "rd 8 d (x + 8) = Some v"
    "zstring d (stroff + st) = Some nm" by (auto simp: bind_eq_Some_conv)
  have ne: "chars nm \<noteq> n @ ''.kd''" using Cons.prems(2) r by (auto simp: symbol_named_def)
  have IH: "map_of out' n = map_of out1 n" if "kd_loop d secs stroff xs out1 = Some out'" for out1
    using Cons.IH [OF that] Cons.prems(2) by simp
  show ?case
  proof (cases "\<not> (3 \<le> length (chars nm) \<and> drop (length (chars nm) - 3) (chars nm) = ''.kd'') \<or> length secs \<le> shndx")
    case True
    with Cons.prems(1) r have "kd_loop d secs stroff xs out = Some out'" by (simp only: kd_loop.simps Option.bind.simps Let_def if_True)
    then show ?thesis by (rule IH)
  next
    case False
    then have "chars nm = take (length (chars nm) - 3) (chars nm) @ ''.kd''" using kd_suffix [of "chars nm"] by blast
    with ne have "take (length (chars nm) - 3) (chars nm) \<noteq> n" by auto
    moreover from Cons.prems(1) r False obtain f where
      "kd_loop d secs stroff xs (AList.update (take (length (chars nm) - 3) (chars nm)) f out) = Some out'"
      by (simp only: kd_loop.simps Option.bind.simps Let_def if_False) (auto simp: bind_eq_Some_conv)
    ultimately show ?thesis using IH by (simp add: update_conv')
  qed
qed simp


lemma loops_agree:
  "rsrc1_loop d secs stroff (n @ ''.kd'') xs = Some r \<Longrightarrow> kd_loop d secs stroff xs out = Some out' \<Longrightarrow>
    length (filter (symbol_named d stroff (n @ ''.kd'')) xs) \<le> 1 \<Longrightarrow>
    map_of out' n = (case r of None \<Rightarrow> map_of out n
      | Some (rsrc1, vg, sg, priv) \<Rightarrow> Some (int priv, (int vg + 1) * 4, (int sg + 1) * 8))"
proof (induction xs arbitrary: out)
  case (Cons x xs)
  from Cons.prems(1) obtain st shndx v nm where r: "rd 4 d x = Some st" "rd 2 d (x + 6) = Some shndx" "rd 8 d (x + 8) = Some v"
    "zstring d (stroff + st) = Some nm" by (auto simp: bind_eq_Some_conv)
  have named: "symbol_named d stroff (n @ ''.kd'') x \<longleftrightarrow> chars nm = n @ ''.kd''" using r by (auto simp: symbol_named_def)
  show ?case
  proof (cases "chars nm = n @ ''.kd''")
    case True
    from Cons.prems(1) r True obtain rsrc1 vg sg priv where i: "shndx < length secs"
      "kd_fields (descriptor d (secs ! shndx) v) = Some (rsrc1, vg, sg, priv)" "r = Some (rsrc1, vg, sg, priv)"
      by (auto simp: bind_eq_Some_conv nth_opt_def split: if_splits)
    have c: "3 \<le> length (n @ ''.kd'')" "drop (length (n @ ''.kd'') - 3) (n @ ''.kd'') = ''.kd''"
      "take (length (n @ ''.kd'') - 3) (n @ ''.kd'') = n" by simp_all
    then have skip: "\<not> (3 \<le> length (n @ ''.kd'') \<and> drop (length (n @ ''.kd'') - 3) (n @ ''.kd'') = ''.kd'') \<or> length secs \<le> shndx \<longleftrightarrow> False"
      using i(1) not_le by blast
    have "kd_loop d secs stroff xs (AList.update n (int priv, (int vg + 1) * 4, (int sg + 1) * 8) out) = Some out'"
      using Cons.prems(2) r unfolding kd_loop.simps True
      by (simp only: Option.bind.simps Let_def True skip if_False c(3) i(2) prod.case)
    moreover have "filter (symbol_named d stroff (n @ ''.kd'')) xs = []" using Cons.prems(3) named True by simp
    ultimately show ?thesis using kd_loop_other [of d secs stroff xs _ out' n] i(3)
      by (auto simp: filter_empty_conv update_conv')
  next
    case False
    have IH: "rsrc1_loop d secs stroff (n @ ''.kd'') xs = Some r" "length (filter (symbol_named d stroff (n @ ''.kd'')) xs) \<le> 1"
      using Cons.prems(1,3) r False named by simp_all
    show ?thesis
    proof (cases "\<not> (3 \<le> length (chars nm) \<and> drop (length (chars nm) - 3) (chars nm) = ''.kd'') \<or> length secs \<le> shndx")
      case True
      with Cons.prems(2) r have "kd_loop d secs stroff xs out = Some out'"
        by (simp only: kd_loop.simps Option.bind.simps Let_def if_True)
      from Cons.IH [OF IH(1) this IH(2)] show ?thesis .
    next
      case nt: False
      then have "chars nm = take (length (chars nm) - 3) (chars nm) @ ''.kd''" using kd_suffix [of "chars nm"] by blast
      with False have ne: "take (length (chars nm) - 3) (chars nm) \<noteq> n" by auto
      from Cons.prems(2) r nt obtain f where
        "kd_loop d secs stroff xs (AList.update (take (length (chars nm) - 3) (chars nm)) f out) = Some out'"
        by (simp only: kd_loop.simps Option.bind.simps Let_def if_False) (auto simp: bind_eq_Some_conv)
      from Cons.IH [OF IH(1) this IH(2)] ne show ?thesis by (cases r) (simp_all add: update_conv')
    qed
  qed
qed simp

lemma descriptor_readers_agree:
  assumes "read_kd_rsrc1 d (n @ ''.kd'') = Some r" "parse_elf_kds d = Some out"
    and "\<And>secs sym strsec offs. read_sections d = Some secs \<Longrightarrow> symbol_section secs = Some sym \<Longrightarrow>
      nth_opt secs (sh_link sym) = Some strsec \<Longrightarrow> symbol_offsets sym = Some offs \<Longrightarrow>
      length (filter (symbol_named d (sh_off strsec) (n @ ''.kd'')) offs) \<le> 1"
  shows "map_of out n = (case r of None \<Rightarrow> None
      | Some (rsrc1, vg, sg, priv) \<Rightarrow> Some (int priv, (int vg + 1) * 4, (int sg + 1) * 8))"
proof -
  from assms(1,2) obtain secs sym strsec offs where s: "read_sections d = Some secs" "symbol_section secs = Some sym"
    "nth_opt secs (sh_link sym) = Some strsec" "symbol_offsets sym = Some offs"
    "rsrc1_loop d secs (sh_off strsec) (n @ ''.kd'') offs = Some r" "kd_loop d secs (sh_off strsec) offs [] = Some out"
    by (auto simp: read_kd_rsrc1_def parse_elf_kds_def bind_eq_Some_conv)
  from loops_agree [OF s(5,6) assms(3) [OF s(1-4)]] show ?thesis by (simp split: option.splits)
qed

end
