(* ===== verification/Spec2Isabelle.thy ===== *)
theory Spec2Isabelle
  imports Mailbox_Properties User_Probe Co_Elf Loader_Race Injectors Mutators Trace_Files Mutatees Probes Loop_Recovery Mask_Text
    Simt_Graph Slice_Smoke Elf_Tools
begin

text \<open>
  A verification development for the AMDGPU instrumentation proof of concept: instrumented GPU
  kernels call host services through a mailbox in shared memory, a loader shim substitutes and
  links the instrumented code objects, and static tools recover the control structure of a kernel
  from its EXEC-mask instructions.

  \<^bold>\<open>The parts and how they interact.\<close>

  \<^item> \<open>Prelude\<close>: integer types, text and buffers, decimal printing, and the locale \<open>inv_machine\<close> of
    a state machine with an invariant, from which reachability lemmas are taken. It is interpreted
    on the ring protocol and on the loader.

  \<^item> The mailbox. \<open>Hostcalls\<close> is \<open>src/runtime/hostcalls.h\<close>: opcodes, slots, the queue and
    its initial contents, the slot of a ticket. \<open>Device_Lib\<close> is
    \<open>src/runtime/device/hostcall_lib.cpp\<close>: the election of a lane, the marshalling of every hostcall
    into a slot (\<open>submit\<close>), the reading of the reply, the wrappers. \<open>Host_Service\<close> is
    \<open>src/runtime/host/hostcall_service.cpp\<close>: the service of one slot (\<open>service_slot\<close>, every
    opcode and every error reply), one scan (\<open>service_scan\<close>) and the teardown, over a model of
    C stdio. \<open>Ring_Protocol\<close> puts them together: a wave goes through the eight steps of a call
    (take a ticket, wait at the generation gate, marshal, publish, wait, read, clear, turn), the CPU
    through the slots, and an execution is any interleaving. \<open>Mailbox_Properties\<close> holds what
    the mailbox promises: the interleaved protocol refines the sequential service
    (linearizability), mutual exclusion on slots, no deadlock, completion in eight steps per call,
    the answer of the CPU in 768 steps, and the functional behaviour of files.

  \<^item> The probes. \<open>User_Probe\<close> is \<open>src/instrumentation/user_lib/user_probe.cpp\<close>: every probe on
    the variables it is handed, with buffers of the declared length (a write past the end is
    \<open>None\<close>), the requests it makes, and the global wavefront id in 32-bit arithmetic.

  \<^item> The mutators. \<open>Mutators\<close> is \<open>src/instrumentation/mutators\<close>: for every program, the per-wave
    variables it declares and the calls it inserts, over a Dyninst that is a parameter. The run of a
    plan (\<open>bb_wave\<close>, \<open>perwave_run\<close>) calls the probes of \<open>User_Probe\<close> that the plan names on the
    variables it binds, along a path of the kernel.
    \<open>Trace_Files\<close> composes everything a trace file depends on: the plan of a mutator, the probes of
    every wave, the ring with any interleaving, the service loop and the disk after the teardown.

  \<^item> The test kernels. \<open>Kernels\<close> is \<open>src/mutatees/vectoradd\<close> thread by thread, with float arithmetic
    as a parameter, and the locale \<open>own_cell\<close>: where every thread writes a cell of its own, the
    order of the threads does not matter. It is interpreted on four kernels. \<open>Mutatees\<close> is the
    programs around them, over a HIP that is a parameter. \<open>Probes\<close> is the device code of
    \<open>src/archive\<close> and the tracing shim \<open>src/tools/probe/loadtrace.cpp\<close>.

  \<^item> The loader. \<open>Co_Elf\<close> is \<open>src/runtime/host/co_stride.h\<close> on the bytes of a code object, each
    read checked. \<open>Loader_Config\<close> and \<open>Loader_Hooks\<close> are \<open>src/runtime/host/hostcall_hooks.h\<close>:
    the configuration, the offload bundle, and every hook on the state of the shim with the log of
    the runtime calls it makes. \<open>Loader_Race\<close> cuts \<open>ensure_runtime\<close>, which runs without
    the lock, into its steps on that state, error returns included, and interleaves two threads.
    \<open>Injectors\<close> is \<open>audit.cpp\<close> (its walk over a dynamic symbol table) and \<open>preload.cpp\<close>.
    \<open>Launchers\<close> is \<open>launcher.cpp\<close> and \<open>launcher_nd.cpp\<close>, from the environment to the exit code. They use the queue of \<open>Hostcalls\<close>, the readers of \<open>Co_Elf\<close> and the wavefront
    id of \<open>User_Probe\<close>: the properties of the per-wave buffer compose the three.

  \<^item> The build tools of \<open>src/tools\<close>, which edit a code object before it is loaded. \<open>Symbol_Hash\<close> is
    the symbol part of \<open>add_object_aliases.py\<close>: the aliases for device functions, the order of the
    dynamic symbols, both hash tables, and the locale \<open>symbol_index\<close> of a lookup by name,
    interpreted on the GNU and on the SysV table. \<open>Note_Tools\<close> is the metadata note as
    \<open>expand_args.py\<close> and \<open>sync_note_from_kd.py\<close> rewrite it; the argument that the first appends is
    what the launch hook of \<open>Loader_Hooks\<close> fills in. \<open>Elf_Tools\<close> holds the edits of the ELF file in
    place and the readers of kernel descriptors, the one of \<open>decode_kd.py\<close> too.

  \<^item> The structure recovery of \<open>src/analysis/cfrecovery\<close>. \<open>Insn\<close> (what the code observes of
    an instruction, \<open>classify\<close> and its helpers), \<open>Classify\<close> (the other copies of the
    classification), \<open>Flow_Graph\<close> (the graph, \<open>reversePostOrder\<close>, reaching definitions),
    \<open>Msgpack\<close> and \<open>Kernarg_Names\<close> (the argument names from the metadata note),
    \<open>Provenance\<close> (the meaning of registers, every transfer rule), \<open>Region_Tree\<close> (the stack
    machine of mask regions and their guards), \<open>Loop_Recovery\<close> (loops and the report of
    \<open>structure.C\<close>), \<open>Mask_Text\<close> (\<open>depredicate.C\<close>, \<open>bracket.C\<close>), \<open>Simt_Graph\<close>
    (\<open>simtcfg.C\<close>, \<open>cfgraph.C\<close> and \<open>main\<close> of \<open>classify.C\<close>), \<open>Slice_Smoke\<close> (\<open>slice_smoke.C\<close>) and
    \<open>Printf\<close> (the formats).

  \<^bold>\<open>State and operations.\<close> A struct is a record with the fields the code reads and writes, an enum a
  datatype; C integers are words where the width matters (tickets, turns, sizes, ids) and
  numbers with the wrap written out in the 64-bit bounds checks of \<open>Co_Elf\<close>. Memory is a list of
  bytes of its allocated length, or a function from addresses where only reads happen. Undefined
  behaviour, an access out of bounds or a walk that never ends is \<open>None\<close>; an error the code
  handles is a value. Calls of the HSA and HIP runtimes, of the operating system and of
  Dyninst are arguments of the definitions or entries of a log.

  \<^bold>\<open>What the groups of lemmas show.\<close> In \<open>Ring_Protocol\<close>: the control invariant (tickets, turns and
  slot states agree) and the data invariant (what a wave was answered is the log of a sequential
  service), kept by every step. In \<open>Host_Service\<close>: each opcode on success and on failure. In
  \<open>User_Probe\<close>: the exact text of each probe and the number of bytes it needs. In \<open>Co_Elf\<close>,
  \<open>Msgpack\<close>, \<open>Kernarg_Names\<close> and \<open>Injectors\<close>: a parser against the format it reads, stated on
  well-formed inputs, with what goes unchecked on others. In \<open>Loader_Hooks\<close>: the invariant of the shim
  over every history of hook calls. In \<open>Launchers\<close>: the calls as a script that every run follows as far
  as it gets, and what the kernel
  reads back of its argument segment. In \<open>Mutators\<close>: the loops that pick the sites as a selection on
  lists, and the counters along a path. In \<open>Trace_Files\<close>: the service log of waves that each write
  their own file, as a stage per wave that every entry of the log advances. In \<open>Kernels\<close>: where the
  thread of an index is, the other additions as instances of \<open>vectoradd\<close>; in \<open>Mutatees\<close>: every
  self-check passes. In \<open>Symbol_Hash\<close>: a chain of the GNU table is the symbols of one bucket, a chain of
  the SysV table those of one bucket backwards, so that the lookups are complete. In \<open>Note_Tools\<close> and
  \<open>Elf_Tools\<close>: what is written is read back, and what an edit leaves alone; the two readers of kernel
  descriptors agree. In \<open>Flow_Graph\<close>: the visiting order and the searches against
  reachability; the termination arguments on cyclic graphs. In \<open>Region_Tree\<close>: the forest
  invariant, the balance flags, the guards. In \<open>Mask_Text\<close>: what a printed condition means, over instructions that may change
  further registers, and under which conditions it is the mask. In \<open>Simt_Graph\<close>, \<open>Classify\<close>: the tools
  agree with each other, and where they do not.

  \<^bold>\<open>Bounds and fuel.\<close> The queue has 256 slots and the ring arithmetic is 32-bit; the ring properties
  assume at most \<open>2 ^ 24\<close> waves (\<open>launch_ok\<close>), so that fewer than \<open>2 ^ 32\<close> tickets are
  out at a time, while tickets themselves may wrap. Searches over a graph recurse on the unvisited
  blocks; the MessagePack parser recurses on the bytes left and its nesting; \<open>combineConditions\<close>
  and \<open>localGuard\<close> take the number of regions as fuel, which is enough because a parent is
  older than its children (proved). \<open>sym_loop\<close> takes the size of the section. The hash
  chain of \<open>Injectors\<close> is a \<open>partial_function\<close>, proved to end on well-formed tables.

  \<^bold>\<open>Not modelled.\<close> Dyninst (decoding, parsing, dominators, loop detection, rewriting), the HSA and HIP
  runtimes, and the GPU: parameters. Memory orders: a step of \<open>Ring_Protocol\<close> is atomic and
  sequentially consistent, which the code's acquire and release operations are meant to give. Log
  messages and timings. Shell scripts. Of the Python tools: the YAML conversions, the register usage
  read from assembly text, the pinned section offsets, the msgpack package (a parameter) and the
  programs they call. The two HSA runners of \<open>src/archive/alias_test\<close>,
  which repeat the sequence of \<open>launcher.cpp\<close> and print registers.
\<close>

end
